(* ===== verification/Zestors_Prelude.thy ===== *)
theory Zestors_Prelude
  imports Main "HOL-Library.Word" "HOL-Library.List_Lexorder" "HOL-Library.Char_ord"
begin

text \<open>
  What every component shares: the types of names, instants and type ids, the control-flow value
  the event loops return, the outcome of polling a future, and the insertion-ordered set and map of
  the \<open>indexmap\<close> crate as lists, with the laws the components use.

  A call that may panic returns \<open>None\<close>, any other result is wrapped in \<open>Some\<close>. A Rust
  \<open>Result<T, E>\<close> is the sum \<open>E + T\<close>, with \<open>Inl\<close> for \<open>Err\<close>.
\<close>

section \<open>Types\<close>

type_synonym name = string
type_synonym instant = nat \<comment> \<open>nanoseconds since some fixed moment\<close>
type_synonym duration = nat \<comment> \<open>nanoseconds\<close>
type_synonym type_id = nat
type_synonym u64 = "64 word"
type_synonym u16 = "16 word"
type_synonym byte = "8 word"

datatype control_flow = Continue | Break

datatype 'a poll = Ready 'a | Pending

named_theorems op_simps \<open>what the operations of a component do, branch by branch\<close>
named_theorems inv_intros \<open>the operations keep their component's invariant\<close>

section \<open>Lists\<close>

lemma length_butlast_less [simp]: "xs \<noteq> [] \<Longrightarrow> length (butlast xs) < length xs"
  by (cases xs) auto

lemma distinct_snoc_removeAll: "distinct (removeAll x xs @ [x]) = distinct (removeAll x xs)"
  by simp

lemma set_butlast_last: "xs \<noteq> [] \<Longrightarrow> set xs = insert (last xs) (set (butlast xs))"
proof -
  assume "xs \<noteq> []"
  then have "xs = butlast xs @ [last xs]" by simp
  then have "set xs = set (butlast xs @ [last xs])" by (rule arg_cong)
  then show ?thesis by simp
qed

lemma last_notin_butlast: "distinct xs \<Longrightarrow> xs \<noteq> [] \<Longrightarrow> last xs \<notin> set (butlast xs)"
  by (metis append_butlast_last_id disjoint_iff distinct_append list.set_intros(1))

section \<open>The insertion-ordered set (IndexSet)\<close>

text \<open>
  An \<open>IndexSet\<close> is a list without duplicates. \<open>swap_remove\<close> fills the hole with the last
  element, so it does not keep the order.
\<close>

definition iset_insert :: "'a \<Rightarrow> 'a list \<Rightarrow> 'a list" where
  "iset_insert x xs = (if x \<in> set xs then xs else xs @ [x])"

definition iset_extend :: "'a list \<Rightarrow> 'a list \<Rightarrow> 'a list" where
  "iset_extend ys xs = fold iset_insert ys xs"

fun swap_remove_with :: "'a \<Rightarrow> 'a \<Rightarrow> 'a list \<Rightarrow> 'a list" where
  "swap_remove_with l x [] = []"
| "swap_remove_with l x (y # ys) = (if y = x then l # ys else y # swap_remove_with l x ys)"

definition iset_swap_remove :: "'a \<Rightarrow> 'a list \<Rightarrow> bool \<times> 'a list" where
  "iset_swap_remove x xs =
     (if x \<in> set xs
      then (True, if last xs = x then butlast xs else swap_remove_with (last xs) x (butlast xs))
      else (False, xs))"

lemma set_iset_insert [simp]: "set (iset_insert x xs) = insert x (set xs)"
  by (auto simp: iset_insert_def)

lemma distinct_iset_insert [simp]: "distinct (iset_insert x xs) = distinct xs"
  by (auto simp: iset_insert_def)

lemma set_iset_extend [simp]: "set (iset_extend ys xs) = set ys \<union> set xs"
  by (induction ys arbitrary: xs) (auto simp: iset_extend_def)

lemma distinct_iset_extend [simp]: "distinct (iset_extend ys xs) = distinct xs"
  by (induction ys arbitrary: xs) (auto simp: iset_extend_def)

lemma iset_extend_Nil [simp]: "iset_extend [] xs = xs"
  by (simp add: iset_extend_def)

lemma set_swap_remove_with:
  "distinct xs \<Longrightarrow> x \<in> set xs \<Longrightarrow> set (swap_remove_with l x xs) = insert l (set xs - {x})"
  by (induction xs) auto

lemma distinct_swap_remove_with:
  "distinct xs \<Longrightarrow> l \<notin> set xs \<Longrightarrow> x \<in> set xs \<Longrightarrow> distinct (swap_remove_with l x xs)"
  by (induction xs) (auto simp: set_swap_remove_with)

lemma fst_iset_swap_remove [simp]: "fst (iset_swap_remove x xs) \<longleftrightarrow> x \<in> set xs"
  by (simp add: iset_swap_remove_def)

lemma set_snd_iset_swap_remove [simp]:
  assumes "distinct xs" shows "set (snd (iset_swap_remove x xs)) = set xs - {x}"
proof (cases "x \<in> set xs")
  case True
  then have ne: "xs \<noteq> []" by auto
  have nl: "last xs \<notin> set (butlast xs)" using assms ne by (rule last_notin_butlast)
  show ?thesis
  proof (cases "last xs = x")
    case True
    then show ?thesis using ne nl \<open>x \<in> set xs\<close>
      by (simp add: iset_swap_remove_def set_butlast_last [OF ne])
  next
    case False
    then have "x \<in> set (butlast xs)" using \<open>x \<in> set xs\<close> set_butlast_last [OF ne] by auto
    then show ?thesis using False assms nl \<open>x \<in> set xs\<close>
      by (auto simp: iset_swap_remove_def set_swap_remove_with distinct_butlast
          set_butlast_last [OF ne])
  qed
qed (simp add: iset_swap_remove_def)

lemma distinct_snd_iset_swap_remove [simp]:
  assumes "distinct xs" shows "distinct (snd (iset_swap_remove x xs))"
proof (cases "x \<in> set xs")
  case True
  then have ne: "xs \<noteq> []" by auto
  have nl: "last xs \<notin> set (butlast xs)" using assms ne by (rule last_notin_butlast)
  have "x \<in> set (butlast xs)" if "last xs \<noteq> x"
    using that True set_butlast_last [OF ne] by auto
  then show ?thesis using assms nl True
    by (auto simp: iset_swap_remove_def distinct_butlast intro: distinct_swap_remove_with)
qed (use assms in \<open>simp add: iset_swap_remove_def\<close>)

lemma iset_swap_remove_notin [simp]: "x \<notin> set xs \<Longrightarrow> iset_swap_remove x xs = (False, xs)"
  by (simp add: iset_swap_remove_def)

lemma iset_swap_remove_single [simp]: "iset_swap_remove x [x] = (True, [])"
  by (simp add: iset_swap_remove_def)

section \<open>Association lists that keep their order (IndexMap)\<close>

text \<open>
  An \<open>IndexMap\<close> is an association list with distinct keys. Inserting under a key that is there
  replaces the value and keeps the position; a new key goes to the end. \<open>shift_remove\<close> closes
  the gap.
\<close>

fun imap_insert :: "'k \<Rightarrow> 'v \<Rightarrow> ('k \<times> 'v) list \<Rightarrow> ('k \<times> 'v) list" where
  "imap_insert k v [] = [(k, v)]"
| "imap_insert k v ((k', v') # m) = (if k' = k then (k, v) # m else (k', v') # imap_insert k v m)"

definition imap_shift_remove :: "'k \<Rightarrow> ('k \<times> 'v) list \<Rightarrow> 'v option \<times> ('k \<times> 'v) list" where
  "imap_shift_remove k m = (map_of m k, filter (\<lambda>(k', _). k' \<noteq> k) m)"

lemma map_of_imap_insert [simp]: "map_of (imap_insert k v m) = (map_of m)(k \<mapsto> v)"
  by (induction m) auto

lemma keys_imap_insert:
  "map fst (imap_insert k v m) = (if k \<in> fst ` set m then map fst m else map fst m @ [k])"
  by (induction k v m rule: imap_insert.induct) simp_all

lemma fst_set_imap_insert [simp]: "fst ` set (imap_insert k v m) = insert k (fst ` set m)"
proof -
  have "set (map fst (imap_insert k v m)) = insert k (set (map fst m))"
    by (simp add: keys_imap_insert insert_absorb del: set_map) (simp add: insert_absorb)
  then show ?thesis by simp
qed

lemma distinct_imap_insert [simp]:
  "distinct (map fst (imap_insert k v m)) = distinct (map fst m)"
  by (auto simp: keys_imap_insert)

lemma map_of_filter_key:
  "map_of (filter (\<lambda>(k', _). k' \<noteq> k) m) k' = (if k' = k then None else map_of m k')"
  by (induction m) auto

lemma distinct_imap_shift_remove [simp]:
  "distinct (map fst m) \<Longrightarrow> distinct (map fst (snd (imap_shift_remove k m)))"
  by (auto simp: imap_shift_remove_def distinct_map intro: inj_on_subset)

end
