(* ===== verification/Actor_Status.thy ===== *)
theory Actor_Status
  imports Zestors_Prelude
begin

text \<open>
  The status of an actor and how its task ended (\<open>runtime/src/status.rs\<close>,
  \<open>runtime/src/errors.rs\<close>), and the signals that move it (\<open>runtime/src/signals.rs\<close>). The last
  section states which changes of status are legal; the channel is shown to make no other.
\<close>

section \<open>Data\<close>

datatype exit_error = ErrPanicked | ErrAborted | ErrUnhandledError

datatype exit_status = Normal | Panicked | Aborted | UnhandledError

datatype actor_status = Exited exit_status | Initializing | Running | Suspended | Exiting

datatype actor_status_kind =
  KindExited | KindInitializing | KindRunning | KindSuspended | KindExiting

datatype signal = Shutdown | Suspend | Resume

datatype signal_interface = SigShutdown | SigSuspend | SigResume | SigPing nat
  \<comment> \<open>a ping carries the request it is answered on\<close>

section \<open>Exit status\<close>

fun from_result :: "exit_error + unit \<Rightarrow> exit_status" where
  "from_result (Inr _) = Normal"
| "from_result (Inl ErrPanicked) = Panicked"
| "from_result (Inl ErrAborted) = Aborted"
| "from_result (Inl ErrUnhandledError) = UnhandledError"

fun into_result :: "exit_status \<Rightarrow> exit_error + unit" where
  "into_result Normal = Inr ()"
| "into_result Panicked = Inl ErrPanicked"
| "into_result Aborted = Inl ErrAborted"
| "into_result UnhandledError = Inl ErrUnhandledError"

fun exit_status_from :: "exit_error \<Rightarrow> exit_status" where
  "exit_status_from ErrPanicked = Panicked"
| "exit_status_from ErrAborted = Aborted"
| "exit_status_from ErrUnhandledError = UnhandledError"

definition is_normal :: "exit_status \<Rightarrow> bool" where
  "is_normal e \<longleftrightarrow> e = Normal"

fun is_error :: "exit_status \<Rightarrow> bool" where
  "is_error Normal = False"
| "is_error Panicked = True"
| "is_error Aborted = True"
| "is_error UnhandledError = True"

lemma from_into_result [simp]: "from_result (into_result e) = e"
  by (cases e) auto

lemma into_from_result [simp]: "into_result (from_result r) = r"
  by (cases r rule: from_result.cases) auto

lemma from_result_Inl [simp]: "from_result (Inl e) = exit_status_from e"
  by (cases e) auto

lemma is_error_iff [simp]: "is_error e \<longleftrightarrow> \<not> is_normal e"
  by (cases e) (auto simp: is_normal_def)

section \<open>Actor status\<close>

fun should_exit :: "actor_status \<Rightarrow> bool" where
  "should_exit Exiting = True"
| "should_exit (Exited _) = True"
| "should_exit _ = False"

fun accepts_messages :: "actor_status \<Rightarrow> bool" where
  "accepts_messages Initializing = True"
| "accepts_messages Running = True"
| "accepts_messages Suspended = True"
| "accepts_messages _ = False"

definition is_running :: "actor_status \<Rightarrow> bool" where
  "is_running s \<longleftrightarrow> s = Running"

definition is_suspended :: "actor_status \<Rightarrow> bool" where
  "is_suspended s \<longleftrightarrow> s = Suspended"

definition is_exiting :: "actor_status \<Rightarrow> bool" where
  "is_exiting s \<longleftrightarrow> s = Exiting"

definition is_initializing :: "actor_status \<Rightarrow> bool" where
  "is_initializing s \<longleftrightarrow> s = Initializing"

fun is_dead :: "actor_status \<Rightarrow> bool" where
  "is_dead (Exited _) = True"
| "is_dead _ = False"

fun kind :: "actor_status \<Rightarrow> actor_status_kind" where
  "kind (Exited _) = KindExited"
| "kind Initializing = KindInitializing"
| "kind Running = KindRunning"
| "kind Suspended = KindSuspended"
| "kind Exiting = KindExiting"

definition kind_matches :: "actor_status_kind \<Rightarrow> actor_status \<Rightarrow> bool" where
  "kind_matches k s \<longleftrightarrow> kind s = k"

lemma accepts_iff_not_should_exit: "accepts_messages s \<longleftrightarrow> \<not> should_exit s"
  by (cases s) auto

lemma is_dead_kind [simp]: "kind s = KindExited \<longleftrightarrow> is_dead s"
  by (cases s) auto

lemma is_dead_ex: "is_dead s \<longleftrightarrow> (\<exists>e. s = Exited e)"
  by (cases s) auto

lemma is_dead_should_exit: "is_dead s \<Longrightarrow> should_exit s"
  by (cases s) auto

section \<open>Signals\<close>

fun signal_to_interface :: "signal \<Rightarrow> signal_interface" where
  "signal_to_interface Shutdown = SigShutdown"
| "signal_to_interface Suspend = SigSuspend"
| "signal_to_interface Resume = SigResume"

section \<open>The legal changes of status\<close>

inductive status_step :: "actor_status \<Rightarrow> actor_status \<Rightarrow> bool" where
  step_spawn: "status_step (Exited e) Initializing"
| step_init: "status_step Initializing Running"
| step_suspend: "status_step Running Suspended"
| step_resume: "status_step Suspended Running"
| step_exiting: "accepts_messages s \<Longrightarrow> status_step s Exiting"
| step_exit: "\<not> is_dead s \<Longrightarrow> status_step s (Exited e)"

inductive_cases status_step_from_exitedE: "status_step (Exited e) s"
inductive_cases status_step_from_exitingE: "status_step Exiting s"
inductive_simps status_step_to_initializing [simp]: "status_step s Initializing"

abbreviation status_steps :: "actor_status \<Rightarrow> actor_status \<Rightarrow> bool" where
  "status_steps \<equiv> status_step\<^sup>*\<^sup>*"

text \<open>Only a spawn brings an actor that is on its way out back.\<close>

lemma status_step_should_exit:
  "status_step s t \<Longrightarrow> should_exit s \<Longrightarrow> t \<noteq> Initializing \<Longrightarrow> should_exit t"
  by (induction rule: status_step.induct) (auto simp: accepts_iff_not_should_exit)

end
