(* ===== verification/Backpressure.thy ===== *)
theory Backpressure
  imports Complex_Main Zestors_Prelude
begin

text \<open>
  The delay a sender waits when a message queue fills up (\<open>runtime/src/queue/backpressure.rs\<close>).

  The code computes with 32-bit floats; here fractions are exact rationals and a duration is rounded
  to the nearest nanosecond. The comparison that decides whether there is a delay at all is
  not affected: \<open>starts_at\<close> is \<open>0.5\<close>, which a float holds exactly, and rounding to nearest is
  monotone.
\<close>

record backpressure_config =
  starts_at :: rat
  max_delay :: duration

definition backpressure_new :: "rat \<Rightarrow> duration \<Rightarrow> backpressure_config option" where
  "backpressure_new s d =
     (if 0 \<le> s \<and> s < 1 then Some \<lparr>starts_at = s, max_delay = d\<rparr> else None)"

definition clamp01 :: "rat \<Rightarrow> rat" where
  "clamp01 x = (if x < 0 then 0 else if x > 1 then 1 else x)"

definition mul_duration :: "duration \<Rightarrow> rat \<Rightarrow> duration" where
  "mul_duration d x = nat (round (of_nat d * x))"

definition delay :: "backpressure_config \<Rightarrow> nat \<Rightarrow> nat \<Rightarrow> duration option" where
  "delay cfg len limit =
     (if limit = 0 \<or> of_nat len / of_nat limit < starts_at cfg then None
      else
        let occupancy = of_nat len / of_nat limit;
            pressure = clamp01 ((occupancy - starts_at cfg) / (1 - starts_at cfg))
        in Some (mul_duration (max_delay cfg) (pressure * pressure)))"

definition global_config :: backpressure_config where
  "global_config = \<lparr>starts_at = 1 / 2, max_delay = 10000000\<rparr>"

lemma clamp01_bounds [simp]: "0 \<le> clamp01 x" "clamp01 x \<le> 1"
  by (auto simp: clamp01_def)

lemma clamp01_mono: "x \<le> y \<Longrightarrow> clamp01 x \<le> clamp01 y"
  by (auto simp: clamp01_def)

lemma mul_duration_le: "x \<le> 1 \<Longrightarrow> mul_duration d x \<le> d"
proof -
  assume "x \<le> 1"
  then have "round (of_nat d * x) \<le> round (of_nat d :: rat)"
    by (intro round_mono) (simp add: mult_left_le)
  then show ?thesis by (simp add: mul_duration_def)
qed

lemma mul_duration_mono: "x \<le> y \<Longrightarrow> mul_duration d x \<le> mul_duration d y"
  unfolding mul_duration_def by (intro nat_mono round_mono mult_left_mono) auto

lemma mul_duration_0 [simp]: "mul_duration d 0 = 0"
  by (simp add: mul_duration_def)

lemma mul_duration_1 [simp]: "mul_duration d 1 = d"
  by (simp add: mul_duration_def)

lemma delay_global_None_iff:
  "delay global_config len limit = None \<longleftrightarrow> limit = 0 \<or> 2 * len < limit"
proof -
  have *: "of_nat len / of_nat limit < starts_at global_config \<longleftrightarrow> 2 * len < limit"
    if "0 < limit"
  proof -
    have "(of_nat len / of_nat limit :: rat) < 1 / 2 \<longleftrightarrow> (of_nat (2 * len) :: rat) < of_nat limit"
      using that by (simp add: field_simps)
    then show ?thesis by (simp only: of_nat_less_iff global_config_def backpressure_config.simps)
  qed
  then show ?thesis by (auto simp: delay_def Let_def)
qed

definition delay_or_zero :: "backpressure_config \<Rightarrow> nat \<Rightarrow> nat \<Rightarrow> duration" where
  "delay_or_zero cfg len limit = (case delay cfg len limit of None \<Rightarrow> 0 | Some d \<Rightarrow> d)"

lemma delay_or_zero_le: "delay_or_zero cfg len limit \<le> max_delay cfg"
  by (auto simp: delay_or_zero_def delay_def Let_def intro!: mul_duration_le mult_le_one)

lemma delay_or_zero_mono:
  assumes "starts_at cfg < 1" "len \<le> len'"
  shows "delay_or_zero cfg len limit \<le> delay_or_zero cfg len' limit"
proof -
  have le: "(of_nat len :: rat) / of_nat limit \<le> of_nat len' / of_nat limit"
    using assms(2) by (intro divide_right_mono) auto
  let ?p = "\<lambda>n. clamp01 ((of_nat n / of_nat limit - starts_at cfg) / (1 - starts_at cfg))"
  have "?p len \<le> ?p len'"
    using le assms(1) by (intro clamp01_mono divide_right_mono) auto
  then have "?p len * ?p len \<le> ?p len' * ?p len'"
    by (intro mult_mono) auto
  then show ?thesis using le
    by (auto simp: delay_or_zero_def delay_def Let_def intro: mul_duration_mono)
qed

lemma delay_full:
  assumes "starts_at cfg < 1" "0 < limit" "limit \<le> len"
  shows "delay cfg len limit = Some (max_delay cfg)"
proof -
  have "(1::rat) \<le> of_nat len / of_nat limit" using assms by simp
  then have nl: "\<not> of_nat len / of_nat limit < starts_at cfg"
    using assms(1) by linarith
  from \<open>(1::rat) \<le> of_nat len / of_nat limit\<close> have "1 \<le> (of_nat len / of_nat limit - starts_at cfg) / (1 - starts_at cfg)"
    using assms(1) by (simp add: pos_le_divide_eq)
  then have "clamp01 ((of_nat len / of_nat limit - starts_at cfg) / (1 - starts_at cfg)) = 1"
    by (auto simp: clamp01_def)
  then show ?thesis using assms(2) nl by (simp add: delay_def)
qed

text \<open>The backpressure delay never exceeds \<open>max_delay\<close>, grows with the queue, and is exactly
  \<open>max_delay\<close> once the queue holds \<open>limit\<close> messages.\<close>

theorem backpressure_delay_bounded_monotone:
  assumes "backpressure_new s d = Some cfg" "0 < limit" "len \<le> len'"
  shows "delay_or_zero cfg len limit \<le> d
    \<and> delay_or_zero cfg len limit \<le> delay_or_zero cfg len' limit
    \<and> delay cfg (limit + k) limit = Some d"
proof -
  from assms(1) have "starts_at cfg < 1" "max_delay cfg = d"
    by (auto simp: backpressure_new_def split: if_splits)
  then show ?thesis
    using delay_or_zero_le [of cfg len limit] delay_or_zero_mono [of cfg len len' limit]
      delay_full [of cfg limit "limit + k"] assms(2,3) by auto
qed

theorem backpressure_delay_bounded_monotone_witness:
  "delay_or_zero global_config 60 100 \<le> 10000000
    \<and> delay_or_zero global_config 60 100 \<le> delay_or_zero global_config 80 100
    \<and> delay global_config (100 + 7) 100 = Some 10000000"
  by (rule backpressure_delay_bounded_monotone [of "1/2" 10000000 global_config 100 60 80 7])
     (simp_all add: backpressure_new_def global_config_def)

end
