(* ===== verification/Channel.thy ===== *)
theory Channel
  imports Actor_Status Backpressure
begin

text \<open>
  The channel of an actor (\<open>runtime/src/channel/data.rs\<close>, \<open>runtime/src/queue/\<close>): its message
  and signal queues, its status, its history of spawns and exits, and its strong count.

  Every operation is one atomic step on the channel record. The code's operations are a few atomic
  actions each; where two threads race between them (the queue limits), the comments of the source
  say so and only the unraced behaviour is modelled. The concurrent queues are lists with the head
  at the front, an \<open>Instant\<close> that the code reads is an argument, and a \<open>ping\<close> that is
  answered is logged in \<open>pongs\<close>. Futures are modelled by what one poll gives, \<open>Pending\<close>
  when the code would wait; the notifiers that wake a waiting task are not modelled.
\<close>

section \<open>Data\<close>

datatype 'm message = Message (msg_type: type_id) (msg_body: 'm)

text \<open>What an actor accepts: the type of the interface enum, and the messages it has variants for.\<close>

record iface =
  if_type :: type_id
  if_members :: "type_id list"

record 'm channel =
  ch_name :: name
  signal_queue :: "signal_interface list"
  status :: actor_status
  msg_backpressure_limit :: nat
  msg_queue_limit :: nat
  signal_queue_limit :: nat
  created_at :: instant
  spawns :: "instant list"
  exits :: "(instant \<times> (exit_error + unit)) list"
  strong_count :: u64
  msg_queue :: "'m message list"
  queue_iface :: iface
  pongs :: "nat list"

datatype invalid_status_update = InvalidStatusUpdate actor_status actor_status

datatype 'm inbox_event = SignalEvent signal | MessageEvent "'m message"

definition BACKPRESSURE_LIMIT :: nat where "BACKPRESSURE_LIMIT = 100"
definition KEEP_N_SPAWNS :: nat where "KEEP_N_SPAWNS = 5"
definition KEEP_N_EXITS :: nat where "KEEP_N_EXITS = 5"
definition SIGNAL_QUEUE_LIMIT :: nat where "SIGNAL_QUEUE_LIMIT = 1000000"
definition MSG_QUEUE_LIMIT :: nat where "MSG_QUEUE_LIMIT = 1000000"

definition channel_with_limits ::
    "name \<Rightarrow> u64 \<Rightarrow> iface \<Rightarrow> nat \<Rightarrow> nat \<Rightarrow> instant \<Rightarrow> 'm channel" where
  "channel_with_limits n count i msg_limit sig_limit now =
     \<lparr>ch_name = n, signal_queue = [], status = Exited Normal,
      msg_backpressure_limit = BACKPRESSURE_LIMIT, msg_queue_limit = msg_limit,
      signal_queue_limit = sig_limit, created_at = now, spawns = [], exits = [],
      strong_count = count, msg_queue = [], queue_iface = i, pongs = []\<rparr>"

definition channel_new :: "name \<Rightarrow> u64 \<Rightarrow> iface \<Rightarrow> instant \<Rightarrow> 'm channel" where
  "channel_new n count i now =
     channel_with_limits n count i MSG_QUEUE_LIMIT SIGNAL_QUEUE_LIMIT now"

section \<open>Looking at the channel\<close>

definition msg_len :: "'m channel \<Rightarrow> nat" where
  "msg_len ch = length (msg_queue ch)"

definition msg_is_empty :: "'m channel \<Rightarrow> bool" where
  "msg_is_empty ch \<longleftrightarrow> msg_len ch = 0"

definition signal_len :: "'m channel \<Rightarrow> nat" where
  "signal_len ch = length (signal_queue ch)"

definition channel_members :: "'m channel \<Rightarrow> type_id list" where
  "channel_members ch = if_members (queue_iface ch)"

definition is_interface :: "iface \<Rightarrow> 'm channel \<Rightarrow> bool" where
  "is_interface i ch \<longleftrightarrow> if_type (queue_iface ch) = if_type i"

definition last_spawned_at :: "'m channel \<Rightarrow> instant option" where
  "last_spawned_at ch = (if spawns ch = [] then None else Some (last (spawns ch)))"

section \<open>The strong count\<close>

text \<open>Incrementing past half the range aborts the process (\<open>None\<close>); the counter itself wraps.\<close>

definition incr_strong_count :: "'m channel \<Rightarrow> 'm channel option" where
  "incr_strong_count ch =
     (if strong_count ch > (- 1) div 2 then None
      else Some (ch\<lparr>strong_count := strong_count ch + 1\<rparr>))"

definition decr_strong_count :: "'m channel \<Rightarrow> 'm channel \<times> bool" where
  "decr_strong_count ch = (ch\<lparr>strong_count := strong_count ch - 1\<rparr>, strong_count ch = 1)"

section \<open>Changes of status\<close>

definition update_status ::
    "(actor_status \<Rightarrow> actor_status option \<times> 'r) \<Rightarrow> 'm channel \<Rightarrow> 'm channel \<times> 'r" where
  "update_status f ch =
     (case f (status ch) of
        (None, r) \<Rightarrow> (ch, r)
      | (Some s, r) \<Rightarrow> (ch\<lparr>status := s\<rparr>, r))"

definition push_spawn :: "instant \<Rightarrow> 'm channel \<Rightarrow> 'm channel" where
  "push_spawn now ch =
     ch\<lparr>spawns := (if length (spawns ch) > KEEP_N_SPAWNS then tl (spawns ch) else spawns ch) @ [now]\<rparr>"

definition register_spawned ::
    "instant \<Rightarrow> 'm channel \<Rightarrow> 'm channel \<times> (invalid_status_update + unit)" where
  "register_spawned now ch =
     (case update_status (\<lambda>s. case s of
          Exited _ \<Rightarrow> (Some Initializing, Inr ())
        | _ \<Rightarrow> (None, Inl (InvalidStatusUpdate s Initializing))) ch of
        (ch', Inl e) \<Rightarrow> (ch', Inl e)
      | (ch', Inr _) \<Rightarrow> (push_spawn now ch', Inr ()))"

definition push_exit :: "instant \<Rightarrow> exit_error + unit \<Rightarrow> 'm channel \<Rightarrow> 'm channel" where
  "push_exit now reason ch =
     ch\<lparr>exits := (if length (exits ch) > KEEP_N_EXITS then tl (exits ch) else exits ch)
        @ [(now, reason)]\<rparr>"

definition register_exited ::
    "instant \<Rightarrow> exit_error + unit \<Rightarrow> 'm channel \<Rightarrow> 'm channel \<times> bool" where
  "register_exited now reason ch =
     (case update_status (\<lambda>s. case s of
          Exited _ \<Rightarrow> (None, False)
        | _ \<Rightarrow> (Some (Exited (from_result reason)), True)) ch of
        (ch', True) \<Rightarrow> (push_exit now reason ch', True)
      | (ch', False) \<Rightarrow> (ch', False))"

definition register_initialized :: "'m channel \<Rightarrow> 'm channel \<times> (invalid_status_update + bool)" where
  "register_initialized =
     update_status (\<lambda>s. case s of
         Exiting \<Rightarrow> (None, Inl (InvalidStatusUpdate s Running))
       | Exited _ \<Rightarrow> (None, Inl (InvalidStatusUpdate s Running))
       | Initializing \<Rightarrow> (Some Running, Inr True)
       | Running \<Rightarrow> (None, Inr False)
       | Suspended \<Rightarrow> (None, Inr False))"

definition register_suspended :: "'m channel \<Rightarrow> 'm channel \<times> (invalid_status_update + bool)" where
  "register_suspended =
     update_status (\<lambda>s. case s of
         Suspended \<Rightarrow> (None, Inr False)
       | Running \<Rightarrow> (Some Suspended, Inr True)
       | _ \<Rightarrow> (None, Inl (InvalidStatusUpdate s Suspended)))"

definition register_resumed :: "'m channel \<Rightarrow> 'm channel \<times> (invalid_status_update + bool)" where
  "register_resumed =
     update_status (\<lambda>s. case s of
         Running \<Rightarrow> (None, Inr False)
       | Suspended \<Rightarrow> (Some Running, Inr True)
       | _ \<Rightarrow> (None, Inl (InvalidStatusUpdate s Running)))"

definition register_exiting :: "'m channel \<Rightarrow> 'm channel \<times> (invalid_status_update + bool)" where
  "register_exiting =
     update_status (\<lambda>s. case s of
         Exited _ \<Rightarrow> (None, Inl (InvalidStatusUpdate s Exiting))
       | Exiting \<Rightarrow> (None, Inr False)
       | _ \<Rightarrow> (Some Exiting, Inr True))"

lemmas register_defs =
  update_status_def register_spawned_def register_exited_def register_initialized_def
  register_suspended_def register_resumed_def register_exiting_def push_spawn_def push_exit_def

section \<open>Signals\<close>

definition send_signal :: "signal_interface \<Rightarrow> 'm channel \<Rightarrow> 'm channel \<times> bool" where
  "send_signal s ch =
     (if should_exit (status ch) then (ch, False)
      else if length (signal_queue ch) \<ge> signal_queue_limit ch then (ch, False)
      else (ch\<lparr>signal_queue := signal_queue ch @ [s]\<rparr>, True))"

fun handle_signal :: "signal_interface \<Rightarrow> 'm channel \<Rightarrow> 'm channel \<times> signal option" where
  "handle_signal SigShutdown ch = (fst (register_exiting ch), Some Shutdown)"
| "handle_signal SigSuspend ch =
     (if status ch = Exiting then (ch, None) else (fst (register_suspended ch), Some Suspend))"
| "handle_signal SigResume ch =
     (if status ch \<noteq> Suspended then (ch, None) else (fst (register_resumed ch), Some Resume))"
| "handle_signal (SigPing r) ch = (ch\<lparr>pongs := pongs ch @ [r]\<rparr>, None)"

lemma signal_queue_handle_signal [simp]:
  "signal_queue (fst (handle_signal s ch)) = signal_queue ch"
  by (cases s) (auto simp: register_defs split: actor_status.splits)

lemma handle_signal_queueD:
  "(ch', r) = handle_signal s ch \<Longrightarrow> signal_queue ch' = signal_queue ch"
  using signal_queue_handle_signal [of s ch] by (metis fst_conv)

function pop_signal :: "'m channel \<Rightarrow> 'm channel \<times> signal option" where
  "pop_signal ch =
     (case signal_queue ch of
        [] \<Rightarrow> (ch, None)
      | s # rest \<Rightarrow>
          (case handle_signal s (ch\<lparr>signal_queue := rest\<rparr>) of
             (ch', Some ev) \<Rightarrow> (ch', Some ev)
           | (ch', None) \<Rightarrow> pop_signal ch'))"
  by pat_completeness auto
termination
  by (relation "measure (\<lambda>ch. length (signal_queue ch))") (auto dest!: handle_signal_queueD)

declare pop_signal.simps [simp del]


lemma pop_signal_Nil [simp]: "signal_queue ch = [] \<Longrightarrow> pop_signal ch = (ch, None)"
  by (subst pop_signal.simps) simp

lemma pop_signal_Cons:
  "signal_queue ch = s # rest \<Longrightarrow>
   pop_signal ch = (case handle_signal s (ch\<lparr>signal_queue := rest\<rparr>) of
      (ch', Some ev) \<Rightarrow> (ch', Some ev) | (ch', None) \<Rightarrow> pop_signal ch')"
  by (subst pop_signal.simps) simp

lemma pop_signal_shorter:
  "pop_signal ch = (ch', Some s) \<Longrightarrow> length (signal_queue ch') < length (signal_queue ch)"
proof (induction ch rule: pop_signal.induct)
  case (1 ch)
  show ?case
  proof (cases "signal_queue ch")
    case (Cons t rest)
    obtain ch1 r where h: "handle_signal t (ch\<lparr>signal_queue := rest\<rparr>) = (ch1, r)" by fastforce
    then have "signal_queue ch1 = rest" using handle_signal_queueD [OF sym] by fastforce
    then show ?thesis
      using "1.IH" [OF Cons h [symmetric]] "1.prems" h Cons
      by (cases r) (auto simp: pop_signal_Cons)
  qed (use 1 in auto)
qed

section \<open>Receiving\<close>

text \<open>
  Reading the queue with another interface than the channel's is a panic. \<open>next_signal\<close>,
  \<open>next_msg\<close> and \<open>next_event\<close> are one poll of the future: the biased \<open>select!\<close> polls the signals
  first, and the messages only when there is no signal to deliver.
\<close>

definition pop_msg :: "iface \<Rightarrow> 'm channel \<Rightarrow> ('m channel \<times> 'm message option) option" where
  "pop_msg i ch =
     (if \<not> is_interface i ch then None
      else case msg_queue ch of
        [] \<Rightarrow> Some (ch, None)
      | m # rest \<Rightarrow> Some (ch\<lparr>msg_queue := rest\<rparr>, Some m))"

definition next_signal :: "'m channel \<Rightarrow> 'm channel \<times> signal poll" where
  "next_signal ch =
     (case pop_signal ch of
        (ch', Some s) \<Rightarrow> (ch', Ready s)
      | (ch', None) \<Rightarrow> (ch', Pending))"

definition next_msg :: "iface \<Rightarrow> 'm channel \<Rightarrow> ('m channel \<times> 'm message poll) option" where
  "next_msg i ch =
     (case pop_msg i ch of
        None \<Rightarrow> None
      | Some (ch', Some m) \<Rightarrow> Some (ch', Ready m)
      | Some (ch', None) \<Rightarrow> Some (ch', Pending))"

definition select_event :: "iface \<Rightarrow> 'm channel \<Rightarrow> ('m channel \<times> 'm inbox_event option poll) option" where
  "select_event i ch =
     (case next_signal ch of
        (ch', Ready s) \<Rightarrow> Some (ch', Ready (Some (SignalEvent s)))
      | (ch', Pending) \<Rightarrow>
          (case next_msg i ch' of
             None \<Rightarrow> None
           | Some (ch'', Ready m) \<Rightarrow> Some (ch'', Ready (Some (MessageEvent m)))
           | Some (ch'', Pending) \<Rightarrow> Some (ch'', Pending)))"

definition next_event ::
    "bool \<Rightarrow> iface \<Rightarrow> 'm channel \<Rightarrow> ('m channel \<times> 'm inbox_event option poll) option" where
  "next_event while_exiting i ch =
     (case status ch of
        Suspended \<Rightarrow>
          (case next_signal ch of
             (ch', Ready s) \<Rightarrow> Some (ch', Ready (Some (SignalEvent s)))
           | (ch', Pending) \<Rightarrow> Some (ch', Pending))
      | Exited _ \<Rightarrow> if msg_is_empty ch then Some (ch, Ready None) else select_event i ch
      | Exiting \<Rightarrow>
          if msg_is_empty ch \<and> \<not> while_exiting then Some (ch, Ready None) else select_event i ch
      | _ \<Rightarrow> select_event i ch)"

definition try_pop_event :: "iface \<Rightarrow> 'm channel \<Rightarrow> ('m channel \<times> 'm inbox_event option) option" where
  "try_pop_event i ch =
     (case pop_signal ch of
        (ch', Some s) \<Rightarrow> Some (ch', Some (SignalEvent s))
      | (ch', None) \<Rightarrow> map_option (map_prod id (map_option MessageEvent)) (pop_msg i ch'))"

definition try_next_event :: "iface \<Rightarrow> 'm channel \<Rightarrow> ('m channel \<times> 'm inbox_event option) option" where
  "try_next_event i ch =
     (case status ch of
        Suspended \<Rightarrow> Some (map_prod id (map_option SignalEvent) (pop_signal ch))
      | Exited _ \<Rightarrow> if msg_is_empty ch then Some (ch, None) else try_pop_event i ch
      | Exiting \<Rightarrow> if msg_is_empty ch then Some (ch, None) else try_pop_event i ch
      | _ \<Rightarrow> try_pop_event i ch)"

function drain_signals :: "'m channel \<Rightarrow> 'm channel" where
  "drain_signals ch =
     (case pop_signal ch of
        (ch', Some s) \<Rightarrow> drain_signals ch'
      | (ch', None) \<Rightarrow> ch')"
  by pat_completeness auto
termination
  by (relation "measure (\<lambda>ch. length (signal_queue ch))") (auto dest: pop_signal_shorter sym)

declare drain_signals.simps [simp del]

definition drain_messages_and_signals :: "iface \<Rightarrow> 'm channel \<Rightarrow> 'm channel option" where
  "drain_messages_and_signals i ch =
     (if \<not> is_interface i ch then None else Some (drain_signals (ch\<lparr>msg_queue := []\<rparr>)))"

section \<open>Sending\<close>

record call_options =
  ignore_exiting :: bool
  ignore_backpressure :: bool

definition call_options_new :: call_options where
  "call_options_new = \<lparr>ignore_exiting = False, ignore_backpressure = False\<rparr>"

datatype 't try_cast_error = TryClosed (try_inner: 't) | TryFull (try_inner: 't)
datatype 't cast_error = CastError (cast_inner: 't)
datatype 't cast_dyn_error = DynClosed (dyn_inner: 't) | DynNotAccepted (dyn_inner: 't)
datatype 't try_cast_dyn_error =
  TryDynClosed (try_dyn_inner: 't) | TryDynFull (try_dyn_inner: 't)
| TryDynNotAccepted (try_dyn_inner: 't)
datatype 't not_accepted = NotAccepted 't

fun into_cast_error :: "'t try_cast_error \<Rightarrow> 't cast_error option" where
  "into_cast_error (TryClosed t) = Some (CastError t)"
| "into_cast_error (TryFull t) = None" \<comment> \<open>\<open>debug_assert!\<close>\<close>

fun into_cast_dyn_error :: "'t try_cast_dyn_error \<Rightarrow> 't cast_dyn_error option" where
  "into_cast_dyn_error (TryDynClosed t) = Some (DynClosed t)"
| "into_cast_dyn_error (TryDynNotAccepted t) = Some (DynNotAccepted t)"
| "into_cast_dyn_error (TryDynFull t) = None" \<comment> \<open>\<open>debug_assert!\<close>\<close>

definition reached_backpressure :: "'m channel \<Rightarrow> bool" where
  "reached_backpressure ch \<longleftrightarrow>
     delay global_config (msg_len ch) (msg_backpressure_limit ch) \<noteq> None"

text \<open>\<open>delay_for_backpressure\<close> waits this long, and does nothing else.\<close>

definition delay_for_backpressure :: "'m channel \<Rightarrow> duration option" where
  "delay_for_backpressure ch = delay global_config (length (msg_queue ch)) (msg_backpressure_limit ch)"

definition assert_msg_room :: "'m channel \<Rightarrow> unit option" where
  "assert_msg_room ch = (if length (msg_queue ch) \<ge> msg_queue_limit ch then None else Some ())"

definition push_envelope_dyn ::
    "'m message \<Rightarrow> 'm channel \<Rightarrow> 'm channel \<times> ('m message not_accepted + unit)" where
  "push_envelope_dyn m ch =
     (if msg_type m \<in> set (channel_members ch) then (ch\<lparr>msg_queue := msg_queue ch @ [m]\<rparr>, Inr ())
      else (ch, Inl (NotAccepted m)))"

definition try_push_msg ::
    "'m message \<Rightarrow> 'm channel \<Rightarrow> ('m channel \<times> ('m message not_accepted + unit)) option" where
  "try_push_msg m ch = Option.bind (assert_msg_room ch) (\<lambda>_. Some (push_envelope_dyn m ch))"

definition closed_for :: "call_options \<Rightarrow> 'm channel \<Rightarrow> bool" where
  "closed_for opts ch \<longleftrightarrow>
     \<not> accepts_messages (status ch) \<and> \<not> (ignore_exiting opts \<and> is_exiting (status ch))"

definition try_cast_dyn_with ::
    "call_options \<Rightarrow> 'm message \<Rightarrow> 'm channel \<Rightarrow>
     ('m channel \<times> ('m message try_cast_dyn_error + unit)) option" where
  "try_cast_dyn_with opts m ch =
     (if \<not> ignore_backpressure opts \<and> reached_backpressure ch then Some (ch, Inl (TryDynFull m))
      else if closed_for opts ch then Some (ch, Inl (TryDynClosed m))
      else case try_push_msg m ch of
        None \<Rightarrow> None
      | Some (ch', Inl (NotAccepted m')) \<Rightarrow> Some (ch', Inl (TryDynNotAccepted m'))
      | Some (ch', Inr _) \<Rightarrow> Some (ch', Inr ()))"

definition dyn_result_static ::
    "'m channel \<times> ('m message try_cast_dyn_error + unit) \<Rightarrow>
     ('m channel \<times> ('m message try_cast_error + unit)) option" where
  "dyn_result_static r =
     (case r of
        (ch, Inr _) \<Rightarrow> Some (ch, Inr ())
      | (ch, Inl (TryDynClosed m)) \<Rightarrow> Some (ch, Inl (TryClosed m))
      | (ch, Inl (TryDynFull m)) \<Rightarrow> Some (ch, Inl (TryFull m))
      | (ch, Inl (TryDynNotAccepted _)) \<Rightarrow> None)"

definition try_cast_with ::
    "iface \<Rightarrow> call_options \<Rightarrow> 'm message \<Rightarrow> 'm channel \<Rightarrow>
     ('m channel \<times> ('m message try_cast_error + unit)) option" where
  "try_cast_with i opts m ch =
     (if \<not> is_interface i ch then Option.bind (try_cast_dyn_with opts m ch) dyn_result_static
      else if \<not> ignore_backpressure opts \<and> reached_backpressure ch then Some (ch, Inl (TryFull m))
      else if closed_for opts ch then Some (ch, Inl (TryClosed m))
      else Option.bind (assert_msg_room ch)
        (\<lambda>_. Some (ch\<lparr>msg_queue := msg_queue ch @ [m]\<rparr>, Inr ())))"

text \<open>
  \<open>cast_with\<close> waits out the backpressure delay first; what it then does is applied to the channel as
  it is after the wait.
\<close>

definition map_error :: "('e \<Rightarrow> 'f option) \<Rightarrow> 's \<times> ('e + 'a) \<Rightarrow> ('s \<times> ('f + 'a)) option" where
  "map_error f r =
     (case r of
        (s, Inr x) \<Rightarrow> Some (s, Inr x)
      | (s, Inl e) \<Rightarrow> map_option (\<lambda>e'. (s, Inl e')) (f e))"

definition cast_with ::
    "iface \<Rightarrow> call_options \<Rightarrow> 'm message \<Rightarrow> 'm channel \<Rightarrow>
     ('m channel \<times> ('m message cast_error + unit)) option" where
  "cast_with i opts m ch =
     Option.bind (try_cast_with i (opts\<lparr>ignore_backpressure := True\<rparr>) m ch)
       (map_error into_cast_error)"

definition cast_dyn_with ::
    "call_options \<Rightarrow> 'm message \<Rightarrow> 'm channel \<Rightarrow>
     ('m channel \<times> ('m message cast_dyn_error + unit)) option" where
  "cast_dyn_with opts m ch =
     Option.bind (try_cast_dyn_with (opts\<lparr>ignore_backpressure := True\<rparr>) m ch)
       (map_error into_cast_dyn_error)"

section \<open>The operations of an actor reference\<close>

definition signal_of_ref :: "signal \<Rightarrow> 'm channel \<Rightarrow> 'm channel \<times> bool" where
  "signal_of_ref s ch = send_signal (signal_to_interface s) ch"

definition ping :: "nat \<Rightarrow> 'm channel \<Rightarrow> 'm channel" where
  "ping r ch = fst (send_signal (SigPing r) ch)"

definition accepts_id :: "type_id \<Rightarrow> 'm channel \<Rightarrow> bool" where
  "accepts_id t ch \<longleftrightarrow> t \<in> set (channel_members ch)"

definition is_superset_of :: "type_id list \<Rightarrow> 'm channel \<Rightarrow> bool" where
  "is_superset_of ts ch \<longleftrightarrow> list_all (\<lambda>t. accepts_id t ch) ts"

definition is_permanently_dead :: "'m channel \<Rightarrow> bool" where
  "is_permanently_dead ch \<longleftrightarrow> is_dead (status ch) \<and> strong_count ch = 0"

text \<open>
  \<open>monitor\<close> reads one status after another, first the current one, until the check accepts one;
  it is still waiting (\<open>Pending\<close>) when it has accepted none of those it read.
\<close>

fun monitor :: "(actor_status \<Rightarrow> 'a option) \<Rightarrow> actor_status list \<Rightarrow> 'a poll" where
  "monitor check_for [] = Pending"
| "monitor check_for (s # ss) =
     (case check_for s of Some r \<Rightarrow> Ready r | None \<Rightarrow> monitor check_for ss)"

definition monitor_any :: "actor_status_kind list \<Rightarrow> actor_status list \<Rightarrow> actor_status poll" where
  "monitor_any kinds =
     monitor (\<lambda>s. if list_ex (\<lambda>k. kind_matches k s) kinds then Some s else None)"

definition monitor_init ::
    "bool \<Rightarrow> actor_status list \<Rightarrow> (exit_status + unit) poll" where
  "monitor_init was_spawned =
     monitor (\<lambda>s. case s of
         Running \<Rightarrow> Some (Inr ())
       | Exited e \<Rightarrow> if was_spawned then Some (Inl e) else None
       | _ \<Rightarrow> None)"

definition monitor_exit :: "actor_status list \<Rightarrow> (exit_error + unit) poll" where
  "monitor_exit = monitor (\<lambda>s. case s of Exited e \<Rightarrow> Some (into_result e) | _ \<Rightarrow> None)"

text \<open>The moments of a snapshot are given on the wall clock, relative to a \<open>Clock\<close> read now.\<close>

record clock =
  clock_instant :: instant
  clock_timestamp :: int

definition timestamp_at :: "clock \<Rightarrow> instant \<Rightarrow> int" where
  "timestamp_at c i = clock_timestamp c + int (i - clock_instant c)"
  \<comment> \<open>\<open>Instant::duration_since\<close> saturates at zero, as subtraction on \<open>nat\<close> does\<close>

record channel_snapshot =
  snap_name :: name
  snap_status :: actor_status
  snap_signal_len :: nat
  snap_msg_len :: nat
  snap_spawns :: "int list"
  snap_exits :: "(int \<times> exit_status) list"
  snap_created_at :: int

definition snapshot :: "clock \<Rightarrow> 'm channel \<Rightarrow> channel_snapshot" where
  "snapshot c ch =
     \<lparr>snap_name = ch_name ch, snap_status = status ch, snap_signal_len = signal_len ch,
      snap_msg_len = msg_len ch, snap_spawns = map (timestamp_at c) (spawns ch),
      snap_exits = map (map_prod (timestamp_at c) from_result) (exits ch),
      snap_created_at = timestamp_at c (created_at ch)\<rparr>"

end
