(* ===== verification/Channel_Runs.thy ===== *)
theory Channel_Runs
  imports Channel
begin

text \<open>
  What holds of a channel over any sequence of its operations: messages are delivered once each and
  in the order they were accepted, the status only changes as \<open>status_step\<close> allows, the queues and
  the history stay bounded, and every queued message is one the interface accepts. The operations
  are those of the senders, of the inbox and of the task that runs the actor, in any interleaving.
\<close>

section \<open>What handling signals leaves alone\<close>

definition signal_frame :: "'m channel \<Rightarrow> 'm channel \<Rightarrow> bool" where
  "signal_frame ch ch' \<longleftrightarrow>
     msg_queue ch' = msg_queue ch \<and> queue_iface ch' = queue_iface ch \<and> ch_name ch' = ch_name ch \<and>
     msg_queue_limit ch' = msg_queue_limit ch \<and> signal_queue_limit ch' = signal_queue_limit ch \<and>
     msg_backpressure_limit ch' = msg_backpressure_limit ch \<and> spawns ch' = spawns ch \<and>
     exits ch' = exits ch \<and> strong_count ch' = strong_count ch \<and>
     length (signal_queue ch') \<le> length (signal_queue ch) \<and> status_steps (status ch) (status ch')"

lemma signal_frame_refl [simp]: "signal_frame ch ch"
  by (simp add: signal_frame_def)

lemma signal_frame_trans: "signal_frame a b \<Longrightarrow> signal_frame b c \<Longrightarrow> signal_frame a c"
  by (auto simp: signal_frame_def intro: rtranclp_trans)

lemma status_steps_intros [intro]:
  "status_steps Initializing Exiting" "status_steps Running Exiting" "status_steps Suspended Exiting"
  "status_steps Running Suspended" "status_steps Suspended Running" "status_steps Initializing Running"
  "status_steps (Exited e) Initializing" "status_steps Initializing (Exited e)"
  "status_steps Running (Exited e)" "status_steps Suspended (Exited e)" "status_steps Exiting (Exited e)"
  by (auto intro!: r_into_rtranclp status_step.intros)

lemma signal_frame_handle_signal:
  "signal_frame ch (fst (handle_signal s (ch\<lparr>signal_queue := rest\<rparr>)))"
  if "length rest \<le> length (signal_queue ch)"
  using that
  by (cases s; cases "status ch") (auto simp: register_defs signal_frame_def split: actor_status.splits)

lemma signal_frame_pop_signal: "signal_frame ch (fst (pop_signal ch))"
proof (induction ch rule: pop_signal.induct)
  case (1 ch)
  show ?case
  proof (cases "signal_queue ch")
    case (Cons t rest)
    obtain ch1 r where h: "handle_signal t (ch\<lparr>signal_queue := rest\<rparr>) = (ch1, r)" by fastforce
    have "signal_frame ch ch1"
      using signal_frame_handle_signal [of rest ch t] Cons h by simp
    then show ?thesis
      using "1.IH" [OF Cons h [symmetric]] h Cons
      by (cases r) (auto simp: pop_signal_Cons intro: signal_frame_trans)
  qed simp
qed

lemma signal_frame_pop_signalD: "pop_signal ch = (ch', r) \<Longrightarrow> signal_frame ch ch'"
  using signal_frame_pop_signal [of ch] by simp

lemma signal_frame_drain_signals: "signal_frame ch (drain_signals ch)"
proof (induction ch rule: drain_signals.induct)
  case (1 ch)
  obtain ch1 r where p: "pop_signal ch = (ch1, r)" by fastforce
  then have "signal_frame ch ch1" by (rule signal_frame_pop_signalD)
  then show ?case using "1.IH" [OF p [symmetric]] p
    by (cases r) (auto simp: drain_signals.simps [of ch] intro: signal_frame_trans)
qed

text \<open>When nothing is delivered, no signal is left.\<close>

lemma pop_signal_None_empty: "pop_signal ch = (ch', None) \<Longrightarrow> signal_queue ch' = []"
proof (induction ch rule: pop_signal.induct)
  case (1 ch)
  show ?case
  proof (cases "signal_queue ch")
    case (Cons t rest)
    obtain ch1 r where h: "handle_signal t (ch\<lparr>signal_queue := rest\<rparr>) = (ch1, r)" by fastforce
    then show ?thesis
      using "1.IH" [OF Cons h [symmetric]] "1.prems" Cons
      by (cases r) (auto simp: pop_signal_Cons)
  qed (use 1 in auto)
qed

lemma drain_signals_empty: "signal_queue (drain_signals ch) = []"
proof (induction ch rule: drain_signals.induct)
  case (1 ch)
  obtain ch1 r where p: "pop_signal ch = (ch1, r)" by fastforce
  then show ?case using "1.IH" [OF p [symmetric]] pop_signal_None_empty [of ch ch1]
    by (cases r) (auto simp: drain_signals.simps [of ch])
qed

section \<open>Sequences of operations\<close>

datatype 'm channel_op =
  OpCast iface call_options "'m message"
| OpTryCast iface call_options "'m message"
| OpCastDyn call_options "'m message"
| OpTryCastDyn call_options "'m message"
| OpSignal signal
| OpPing nat
| OpNextEvent bool iface
| OpTryNextEvent iface
| OpPopMsg iface
| OpPopSignal
| OpDrain iface
| OpSpawned instant
| OpExited instant "exit_error + unit"
| OpInitialized
| OpExiting

definition accepted :: "'m message \<Rightarrow> 's \<times> ('e + unit) \<Rightarrow> 's \<times> 'm message list \<times> 'm message list" where
  "accepted m r = (case r of (s, Inr _) \<Rightarrow> (s, [m], []) | (s, Inl _) \<Rightarrow> (s, [], []))"

fun event_messages :: "'m inbox_event option \<Rightarrow> 'm message list" where
  "event_messages (Some (MessageEvent m)) = [m]"
| "event_messages _ = []"

fun poll_messages :: "'m inbox_event option poll \<Rightarrow> 'm message list" where
  "poll_messages (Ready e) = event_messages e"
| "poll_messages Pending = []"

text \<open>The result: the channel, the messages accepted, and the messages taken out of the queue.\<close>

fun channel_step ::
    "'m channel_op \<Rightarrow> 'm channel \<Rightarrow> ('m channel \<times> 'm message list \<times> 'm message list) option" where
  "channel_step (OpCast i opts m) ch = map_option (accepted m) (cast_with i opts m ch)"
| "channel_step (OpTryCast i opts m) ch = map_option (accepted m) (try_cast_with i opts m ch)"
| "channel_step (OpCastDyn opts m) ch = map_option (accepted m) (cast_dyn_with opts m ch)"
| "channel_step (OpTryCastDyn opts m) ch = map_option (accepted m) (try_cast_dyn_with opts m ch)"
| "channel_step (OpSignal s) ch = Some (fst (signal_of_ref s ch), [], [])"
| "channel_step (OpPing r) ch = Some (ping r ch, [], [])"
| "channel_step (OpNextEvent w i) ch =
     map_option (\<lambda>(ch', e). (ch', [], poll_messages e)) (next_event w i ch)"
| "channel_step (OpTryNextEvent i) ch =
     map_option (\<lambda>(ch', e). (ch', [], event_messages e)) (try_next_event i ch)"
| "channel_step (OpPopMsg i) ch =
     map_option (\<lambda>(ch', m). (ch', [], case m of None \<Rightarrow> [] | Some m \<Rightarrow> [m])) (pop_msg i ch)"
| "channel_step OpPopSignal ch = Some (fst (pop_signal ch), [], [])"
| "channel_step (OpDrain i) ch =
     map_option (\<lambda>ch'. (ch', [], msg_queue ch)) (drain_messages_and_signals i ch)"
| "channel_step (OpSpawned now) ch = Some (fst (register_spawned now ch), [], [])"
| "channel_step (OpExited now r) ch = Some (fst (register_exited now r ch), [], [])"
| "channel_step OpInitialized ch = Some (fst (register_initialized ch), [], [])"
| "channel_step OpExiting ch = Some (fst (register_exiting ch), [], [])"

fun channel_run ::
    "'m channel_op list \<Rightarrow> 'm channel \<Rightarrow> ('m channel \<times> 'm message list \<times> 'm message list) option" where
  "channel_run [] ch = Some (ch, [], [])"
| "channel_run (op # ops) ch =
     (case channel_step op ch of
        None \<Rightarrow> None
      | Some (ch', acc, out) \<Rightarrow>
          map_option (\<lambda>(ch'', acc', out'). (ch'', acc @ acc', out @ out')) (channel_run ops ch'))"

section \<open>What each operation does\<close>

text \<open>A send either changes nothing and gives the message back, or appends the message.\<close>

definition cast_outcome ::
    "('e \<Rightarrow> 'm message) \<Rightarrow> bool \<Rightarrow> 'm message \<Rightarrow> 'm channel \<Rightarrow> 'm channel \<times> ('e + unit) \<Rightarrow> bool" where
  "cast_outcome inner barred m ch r \<longleftrightarrow>
     (\<exists>e. r = (ch, Inl e) \<and> inner e = m) \<or>
     (r = (ch\<lparr>msg_queue := msg_queue ch @ [m]\<rparr>, Inr ()) \<and>
      length (msg_queue ch) < msg_queue_limit ch \<and> \<not> barred)"

lemma cast_outcome_error [simp]: "inner e = m \<Longrightarrow> cast_outcome inner b m ch (ch, Inl e)"
  by (simp add: cast_outcome_def)

lemma cast_outcome_push [simp]:
  "length (msg_queue ch) < msg_queue_limit ch \<Longrightarrow> \<not> b \<Longrightarrow>
   cast_outcome inner b m ch (ch\<lparr>msg_queue := msg_queue ch @ [m]\<rparr>, Inr ())"
  by (simp add: cast_outcome_def)

lemma cast_outcome_weaken:
  "cast_outcome inner b m ch r \<Longrightarrow> (b' \<Longrightarrow> b) \<Longrightarrow> cast_outcome inner b' m ch r"
  by (auto simp: cast_outcome_def)

lemma try_push_msg_outcome:
  "try_push_msg m ch =
     (if length (msg_queue ch) \<ge> msg_queue_limit ch then None
      else if msg_type m \<in> set (channel_members ch) then Some (ch\<lparr>msg_queue := msg_queue ch @ [m]\<rparr>, Inr ())
      else Some (ch, Inl (NotAccepted m)))"
  by (simp add: try_push_msg_def push_envelope_dyn_def assert_msg_room_def)

lemma try_cast_dyn_with_outcome:
  "try_cast_dyn_with opts m ch = Some r \<Longrightarrow>
   cast_outcome try_dyn_inner (closed_for opts ch \<or> msg_type m \<notin> set (channel_members ch)) m ch r"
  unfolding try_cast_dyn_with_def try_push_msg_outcome
  by (cases "\<not> ignore_backpressure opts \<and> reached_backpressure ch"; cases "closed_for opts ch";
      cases "length (msg_queue ch) \<ge> msg_queue_limit ch"; cases "msg_type m \<in> set (channel_members ch)")
     auto

lemma dyn_result_static_outcome:
  assumes "cast_outcome try_dyn_inner b m ch r" "dyn_result_static r = Some r'"
  shows "cast_outcome try_inner b m ch r'"
  using assms by (auto simp: cast_outcome_def dyn_result_static_def split: try_cast_dyn_error.splits)

lemma try_cast_with_outcome:
  assumes "try_cast_with i opts m ch = Some r"
  shows "cast_outcome try_inner (closed_for opts ch) m ch r"
proof (cases "is_interface i ch")
  case False
  then obtain r' where r': "try_cast_dyn_with opts m ch = Some r'" "dyn_result_static r' = Some r"
    using assms by (auto simp: try_cast_with_def split: Option.bind_splits)
  show ?thesis
    using dyn_result_static_outcome [OF try_cast_dyn_with_outcome [OF r'(1)] r'(2)]
    by (rule cast_outcome_weaken) simp
next
  case True
  then show ?thesis using assms
    by (cases "\<not> ignore_backpressure opts \<and> reached_backpressure ch"; cases "closed_for opts ch";
        cases "length (msg_queue ch) \<ge> msg_queue_limit ch")
       (auto simp: try_cast_with_def assert_msg_room_def)
qed

lemma map_error_outcome:
  assumes "cast_outcome inner c m ch r" "map_error f r = Some r'"
    "\<And>e e'. f e = Some e' \<Longrightarrow> inner' e' = inner e"
  shows "cast_outcome inner' c m ch r'"
  using assms by (auto simp: cast_outcome_def map_error_def)

lemma into_cast_error_inner: "into_cast_error e = Some e' \<Longrightarrow> cast_inner e' = try_inner e"
  by (cases e) auto

lemma into_cast_dyn_error_inner:
  "into_cast_dyn_error e = Some e' \<Longrightarrow> dyn_inner e' = try_dyn_inner e"
  by (cases e) auto

lemma closed_for_ignore_backpressure [simp]:
  "closed_for (opts\<lparr>ignore_backpressure := b\<rparr>) ch = closed_for opts ch"
  by (simp add: closed_for_def)

lemma cast_with_outcome:
  assumes "cast_with i opts m ch = Some r"
  shows "cast_outcome cast_inner (closed_for opts ch) m ch r"
proof -
  obtain r' where r': "try_cast_with i (opts\<lparr>ignore_backpressure := True\<rparr>) m ch = Some r'"
      "map_error into_cast_error r' = Some r"
    using assms by (auto simp: cast_with_def split: Option.bind_splits)
  show ?thesis
    using map_error_outcome [OF try_cast_with_outcome [OF r'(1)] r'(2) into_cast_error_inner]
    by simp
qed

lemma cast_dyn_with_outcome:
  assumes "cast_dyn_with opts m ch = Some r"
  shows "cast_outcome dyn_inner (closed_for opts ch \<or> msg_type m \<notin> set (channel_members ch)) m ch r"
proof -
  obtain r' where r': "try_cast_dyn_with (opts\<lparr>ignore_backpressure := True\<rparr>) m ch = Some r'"
      "map_error into_cast_dyn_error r' = Some r"
    using assms by (auto simp: cast_dyn_with_def split: Option.bind_splits)
  show ?thesis
    using map_error_outcome [OF try_cast_dyn_with_outcome [OF r'(1)] r'(2) into_cast_dyn_error_inner]
    by simp
qed

text \<open>A receive either delivers the head of the queue or leaves the queue alone.\<close>

definition recv_outcome :: "'m message list \<Rightarrow> 'm channel \<Rightarrow> 'm channel \<Rightarrow> bool" where
  "recv_outcome out ch ch' \<longleftrightarrow>
     signal_frame ch (ch'\<lparr>msg_queue := msg_queue ch\<rparr>) \<and> msg_queue ch = out @ msg_queue ch'"

lemma recv_outcome_frame: "signal_frame ch ch' \<Longrightarrow> recv_outcome [] ch ch'"
  by (simp add: recv_outcome_def signal_frame_def)

lemma recv_outcome_refl [simp]: "recv_outcome [] ch ch"
  by (simp add: recv_outcome_def)

lemma pop_msg_outcome:
  "pop_msg i ch = Some (ch', m) \<Longrightarrow> recv_outcome (case m of None \<Rightarrow> [] | Some m \<Rightarrow> [m]) ch ch'"
  by (auto simp: pop_msg_def recv_outcome_def signal_frame_def split: if_splits list.splits)

lemma pop_msg_after_frame:
  assumes "signal_frame ch ch1" "pop_msg i ch1 = Some (ch', m)"
  shows "recv_outcome (case m of None \<Rightarrow> [] | Some m \<Rightarrow> [m]) ch ch'"
  using assms pop_msg_outcome [OF assms(2)] by (auto simp: recv_outcome_def signal_frame_def)

lemma select_event_outcome:
  "select_event i ch = Some (ch', e) \<Longrightarrow> recv_outcome (poll_messages e) ch ch'"
  by (auto simp: select_event_def next_signal_def next_msg_def
      split: prod.splits option.splits poll.splits
      dest!: signal_frame_pop_signalD dest: pop_msg_after_frame intro: recv_outcome_frame)

lemma next_event_outcome:
  "next_event w i ch = Some (ch', e) \<Longrightarrow> recv_outcome (poll_messages e) ch ch'"
  by (auto simp: next_event_def next_signal_def split: actor_status.splits if_splits prod.splits
      poll.splits option.splits dest!: signal_frame_pop_signalD
      intro: select_event_outcome recv_outcome_frame)

lemma try_pop_event_outcome:
  "try_pop_event i ch = Some (ch', e) \<Longrightarrow> recv_outcome (event_messages e) ch ch'"
  by (auto simp: try_pop_event_def split: prod.splits option.splits
      dest!: signal_frame_pop_signalD dest: pop_msg_after_frame intro: recv_outcome_frame)

lemma try_next_event_outcome:
  "try_next_event i ch = Some (ch', e) \<Longrightarrow> recv_outcome (event_messages e) ch ch'"
  by (cases "pop_signal ch"; cases "snd (pop_signal ch)")
     (auto simp: try_next_event_def split: actor_status.splits if_splits
      dest!: signal_frame_pop_signalD intro: try_pop_event_outcome recv_outcome_frame)

section \<open>Every operation keeps the channel in order\<close>

definition channel_wf :: "'m channel \<Rightarrow> bool" where
  "channel_wf ch \<longleftrightarrow>
     length (msg_queue ch) \<le> msg_queue_limit ch \<and> length (signal_queue ch) \<le> signal_queue_limit ch \<and>
     length (spawns ch) \<le> Suc KEEP_N_SPAWNS \<and> length (exits ch) \<le> Suc KEEP_N_EXITS"

definition step_ok ::
    "'m channel \<Rightarrow> 'm message list \<Rightarrow> 'm message list \<Rightarrow> 'm channel \<Rightarrow> bool" where
  "step_ok ch acc out ch' \<longleftrightarrow>
     msg_queue ch @ acc = out @ msg_queue ch' \<and> queue_iface ch' = queue_iface ch \<and>
     msg_queue_limit ch' = msg_queue_limit ch \<and> signal_queue_limit ch' = signal_queue_limit ch \<and>
     status_steps (status ch) (status ch') \<and> (channel_wf ch \<longrightarrow> channel_wf ch')"

lemma step_ok_refl [simp]: "step_ok ch [] [] ch"
  by (simp add: step_ok_def)

lemma queue_trans: "q @ a = d @ q' \<Longrightarrow> q' @ a' = d' @ q'' \<Longrightarrow> q @ a @ a' = d @ d' @ q''"
  by (metis append.assoc)

lemma step_ok_trans:
  "step_ok a acc out b \<Longrightarrow> step_ok b acc' out' c \<Longrightarrow> step_ok a (acc @ acc') (out @ out') c"
  by (auto simp: step_ok_def intro: rtranclp_trans queue_trans)

lemma recv_outcome_step_ok: "recv_outcome out ch ch' \<Longrightarrow> step_ok ch [] out ch'"
  by (auto simp: recv_outcome_def step_ok_def signal_frame_def channel_wf_def)

lemma signal_frame_step_ok: "signal_frame ch ch' \<Longrightarrow> step_ok ch [] [] ch'"
  by (intro recv_outcome_step_ok recv_outcome_frame)

lemma accepted_step_ok:
  "cast_outcome inner b m ch r \<Longrightarrow> accepted m r = (ch', acc, out) \<Longrightarrow> step_ok ch acc out ch'"
  by (auto simp: cast_outcome_def accepted_def step_ok_def channel_wf_def)

lemma drain_step_ok:
  assumes "drain_messages_and_signals i ch = Some ch'"
  shows "step_ok ch [] (msg_queue ch) ch'"
proof -
  have "ch' = drain_signals (ch\<lparr>msg_queue := []\<rparr>)"
    using assms by (simp add: drain_messages_and_signals_def split: if_splits)
  then have "signal_frame (ch\<lparr>msg_queue := []\<rparr>) ch'" by (simp add: signal_frame_drain_signals)
  then show ?thesis by (auto simp: signal_frame_def step_ok_def channel_wf_def)
qed

lemma register_step_ok:
  "step_ok ch [] [] (fst (register_spawned now ch))"
  "step_ok ch [] [] (fst (register_exited now r ch))"
  "step_ok ch [] [] (fst (register_initialized ch))"
  "step_ok ch [] [] (fst (register_exiting ch))"
  by (cases "status ch"; auto simp: register_defs step_ok_def channel_wf_def KEEP_N_SPAWNS_def
      KEEP_N_EXITS_def)+

lemma send_signal_step_ok: "step_ok ch [] [] (fst (send_signal s ch))"
  by (auto simp: send_signal_def step_ok_def channel_wf_def)

lemma channel_step_ok:
  assumes "channel_step op ch = Some (ch', acc, out)"
  shows "step_ok ch acc out ch'"
proof (cases op)
  case (OpCast i opts m)
  then show ?thesis using assms by (auto intro: accepted_step_ok dest: cast_with_outcome)
next
  case (OpTryCast i opts m)
  then show ?thesis using assms by (auto intro: accepted_step_ok dest: try_cast_with_outcome)
next
  case (OpCastDyn opts m)
  then show ?thesis using assms by (auto intro: accepted_step_ok dest: cast_dyn_with_outcome)
next
  case (OpTryCastDyn opts m)
  then show ?thesis using assms by (auto intro: accepted_step_ok dest: try_cast_dyn_with_outcome)
next
  case (OpNextEvent w i)
  then show ?thesis using assms by (auto intro: recv_outcome_step_ok next_event_outcome)
next
  case (OpTryNextEvent i)
  then show ?thesis using assms by (auto intro: recv_outcome_step_ok try_next_event_outcome)
next
  case (OpPopMsg i)
  then show ?thesis using assms by (auto intro!: recv_outcome_step_ok dest: pop_msg_outcome)
next
  case (OpDrain i)
  then show ?thesis using assms by (auto intro: drain_step_ok)
next
  case OpPopSignal
  then show ?thesis using assms by (auto intro: signal_frame_step_ok signal_frame_pop_signal)
qed (use assms in \<open>auto simp: register_step_ok send_signal_step_ok signal_of_ref_def ping_def\<close>)

lemma channel_run_ok:
  "channel_run ops ch = Some (ch', acc, out) \<Longrightarrow> step_ok ch acc out ch'"
proof (induction ops arbitrary: ch acc out)
  case (Cons op ops)
  obtain ch1 acc1 out1 acc2 out2 where
      s: "channel_step op ch = Some (ch1, acc1, out1)"
      "channel_run ops ch1 = Some (ch', acc2, out2)" "acc = acc1 @ acc2" "out = out1 @ out2"
    using Cons.prems by (auto split: option.splits)
  then show ?case using step_ok_trans [OF channel_step_ok [OF s(1)] Cons.IH [OF s(2)]] by simp
qed simp

section \<open>Properties\<close>

text \<open>C1: Over every sequence of sends, receives, signals and status changes on a new channel, the
  messages taken out of the queue followed by those still in it are exactly the messages
  accepted, in the order they were accepted: none is lost, duplicated or reordered.\<close>

theorem channel_fifo_exactly_once:
  assumes "channel_run ops (channel_with_limits n c i ml sl now) = Some (ch, acc, out)"
  shows "acc = out @ msg_queue ch"
  using channel_run_ok [OF assms] by (simp add: step_ok_def channel_with_limits_def)

text \<open>C2: Over every sequence of operations the status of a channel moves only along the legal
  steps, the message and signal queue stay within their limits, and the history keeps
  at most one entry more than \<open>KEEP_N_SPAWNS\<close> and \<open>KEEP_N_EXITS\<close>.\<close>

theorem channel_run_status_and_bounds:
  assumes "channel_run ops (channel_with_limits n c i ml sl now) = Some (ch, acc, out)"
  shows "status_steps (Exited Normal) (status ch) \<and> length (msg_queue ch) \<le> ml
    \<and> length (signal_queue ch) \<le> sl
    \<and> length (spawns ch) \<le> Suc KEEP_N_SPAWNS \<and> length (exits ch) \<le> Suc KEEP_N_EXITS"
  using channel_run_ok [OF assms] by (auto simp: step_ok_def channel_wf_def channel_with_limits_def)

definition example_iface :: iface where
  "example_iface = \<lparr>if_type = 1, if_members = [10, 11]\<rparr>"

definition example_ops :: "nat channel_op list" where
  "example_ops =
     [OpSpawned 5, OpInitialized, OpTryCast example_iface call_options_new (Message 10 1),
      OpSignal Suspend, OpTryCastDyn call_options_new (Message 11 2),
      OpNextEvent False example_iface, OpNextEvent False example_iface, OpSignal Resume,
      OpNextEvent False example_iface, OpNextEvent False example_iface]"

definition example_channel :: "nat channel" where
  "example_channel = channel_with_limits ''a'' 1 example_iface 8 8 0"

lemmas example_defs = example_iface_def example_ops_def example_channel_def channel_with_limits_def
  call_options_new_def try_cast_with_def try_cast_dyn_with_def is_interface_def
  reached_backpressure_def delay_global_None_iff msg_len_def BACKPRESSURE_LIMIT_def closed_for_def
  assert_msg_room_def accepted_def signal_of_ref_def send_signal_def try_push_msg_def
  push_envelope_dyn_def channel_members_def next_event_def next_signal_def next_msg_def select_event_def
  pop_msg_def pop_signal_Cons register_defs KEEP_N_SPAWNS_def is_exiting_def

lemma example_run:
  "\<exists>ch. channel_run example_ops example_channel = Some (ch, [Message 10 1, Message 11 2], [Message 10 1])
     \<and> msg_queue ch = [Message 11 2] \<and> status ch = Running"
  by (simp add: example_defs)

theorem channel_fifo_exactly_once_witness:
  "\<exists>ch. channel_run example_ops example_channel = Some (ch, [Message 10 1, Message 11 2], [Message 10 1])
     \<and> [Message 10 1, Message 11 2] = [Message 10 1] @ msg_queue ch"
  using example_run channel_fifo_exactly_once unfolding example_channel_def by metis

theorem channel_run_status_and_bounds_witness:
  "\<exists>ch. channel_run example_ops example_channel = Some (ch, [Message 10 1, Message 11 2], [Message 10 1])
     \<and> status_steps (Exited Normal) (status ch) \<and> length (msg_queue ch) \<le> 8"
  using example_run channel_run_status_and_bounds unfolding example_channel_def by metis

lemma select_event_message:
  assumes "select_event i ch = Some (ch', Ready (Some (MessageEvent m)))"
  shows "signal_queue ch' = [] \<and> msg_queue ch = m # msg_queue ch'"
proof -
  obtain ch1 where p: "pop_signal ch = (ch1, None)" and q: "pop_msg i ch1 = Some (ch', Some m)"
    using assms
    by (auto simp: select_event_def next_signal_def next_msg_def
        split: prod.splits option.splits poll.splits)
  have "msg_queue ch1 = msg_queue ch" using signal_frame_pop_signalD [OF p] by (simp add: signal_frame_def)
  then show ?thesis using pop_signal_None_empty [OF p] q
    by (auto simp: pop_msg_def split: if_splits list.splits)
qed

text \<open>C3: Signals take precedence: a receive delivers a message only when no signal is left in the
  queue and the actor is not suspended, and then it is the oldest message.\<close>

theorem signals_before_messages:
  assumes "next_event w i ch = Some (ch', Ready (Some (MessageEvent m)))"
  shows "signal_queue ch' = [] \<and> status ch \<noteq> Suspended \<and> msg_queue ch = m # msg_queue ch'"
  using assms select_event_message
  by (auto simp: next_event_def next_signal_def split: actor_status.splits if_splits prod.splits
      poll.splits option.splits)

theorem signals_before_messages_witness:
  "signal_queue (example_channel\<lparr>status := Running\<rparr>) = []
   \<and> msg_queue (example_channel\<lparr>status := Running, msg_queue := [Message 10 7]\<rparr>)
      = Message 10 7 # msg_queue (example_channel\<lparr>status := Running\<rparr>)"
  using signals_before_messages [of False example_iface
      "example_channel\<lparr>status := Running, msg_queue := [Message 10 7]\<rparr>"
      "example_channel\<lparr>status := Running\<rparr>" "Message 10 7"]
  by (simp add: example_defs)

text \<open>Sending through a typed address and sending dynamically agree: for a message type the
  interface has, the static path of \<open>try_cast_with\<close> gives what the dynamic path gives, with the same
  effect on the channel.\<close>

theorem static_cast_eq_dynamic_cast:
  assumes "is_interface i ch" "msg_type m \<in> set (channel_members ch)"
  shows "try_cast_with i opts m ch = Option.bind (try_cast_dyn_with opts m ch) dyn_result_static"
  using assms
  by (auto simp: try_cast_with_def try_cast_dyn_with_def try_push_msg_outcome assert_msg_room_def
      dyn_result_static_def)

theorem static_cast_eq_dynamic_cast_witness:
  "try_cast_with example_iface call_options_new (Message 11 2) example_channel
   = Option.bind (try_cast_dyn_with call_options_new (Message 11 2) example_channel) dyn_result_static"
  by (rule static_cast_eq_dynamic_cast) (simp_all add: example_defs)

lemma try_cast_with_ignoring_backpressure:
  assumes "is_interface i ch" "ignore_backpressure opts"
  shows "try_cast_with i opts m ch =
    (if closed_for opts ch then Some (ch, Inl (TryClosed m))
     else if msg_queue_limit ch \<le> length (msg_queue ch) then None
     else Some (ch\<lparr>msg_queue := msg_queue ch @ [m]\<rparr>, Inr ()))"
  using assms by (simp add: try_cast_with_def assert_msg_room_def)

text \<open>\<open>cast\<close> never fails for backpressure: it gives the message back exactly when the
  channel is closed for it, panics exactly when the queue has reached its hard limit, and otherwise
  queues the message; the conversion that must not see \<open>Full\<close> never does.\<close>

theorem cast_fails_only_when_closed:
  assumes "is_interface i ch"
  shows "cast_with i opts m ch =
    (if closed_for opts ch then Some (ch, Inl (CastError m))
     else if msg_queue_limit ch \<le> length (msg_queue ch) then None
     else Some (ch\<lparr>msg_queue := msg_queue ch @ [m]\<rparr>, Inr ()))"
  unfolding cast_with_def
  by (subst try_cast_with_ignoring_backpressure [OF assms]) (auto simp: map_error_def)

theorem cast_fails_only_when_closed_witness:
  "cast_with example_iface call_options_new (Message 10 3) example_channel
     = Some (example_channel, Inl (CastError (Message 10 3)))"
  using cast_fails_only_when_closed [of example_iface example_channel call_options_new "Message 10 3"]
  by (simp add: example_defs)

lemma push_spawn_fold_length:
  "spawns (fold push_spawn ts ch) = drop (length (spawns ch @ ts) - Suc KEEP_N_SPAWNS) (spawns ch @ ts)"
  if "length (spawns ch) \<le> Suc KEEP_N_SPAWNS"
  using that
proof (induction ts arbitrary: ch)
  case (Cons t ts)
  define s where "s = spawns (push_spawn t ch)"
  have len: "length s \<le> Suc KEEP_N_SPAWNS"
    using Cons.prems by (auto simp: s_def push_spawn_def KEEP_N_SPAWNS_def)
  show ?case
  proof (cases "length (spawns ch) \<le> KEEP_N_SPAWNS")
    case True
    then have "s = spawns ch @ [t]" by (simp add: s_def push_spawn_def)
    then show ?thesis using Cons.IH [of "push_spawn t ch"] len by (simp add: s_def)
  next
    case False
    then have l: "length (spawns ch) = Suc KEEP_N_SPAWNS" using Cons.prems by simp
    then have "s = tl (spawns ch) @ [t]" by (simp add: s_def push_spawn_def)
    moreover obtain x xs where "spawns ch = x # xs" using l by (cases "spawns ch") auto
    ultimately show ?thesis using Cons.IH [of "push_spawn t ch"] len l by (simp add: s_def)
  qed
qed simp

text \<open>The spawn history of a channel is always its most recent spawns, oldest first.\<close>

theorem spawn_history_is_most_recent:
  "spawns (fold push_spawn ts (channel_with_limits n c i ml sl now))
     = drop (length ts - Suc KEEP_N_SPAWNS) ts"
  using push_spawn_fold_length [of "channel_with_limits n c i ml sl now" ts]
  by (simp add: channel_with_limits_def)

text \<open>The wall-clock times of a snapshot are all the time of the snapshot itself: the instants
  lie in the past of the clock that is read, and \<open>duration_since\<close> saturates, so
  \<open>spawns\<close>, \<open>exits\<close> and \<open>created_at\<close> do not tell when anything happened.\<close>

theorem snapshot_times_collapse:
  assumes "created_at ch \<le> clock_instant c" "\<forall>t\<in>set (spawns ch). t \<le> clock_instant c"
  shows "snap_created_at (snapshot c ch) = clock_timestamp c
    \<and> snap_spawns (snapshot c ch) = replicate (length (spawns ch)) (clock_timestamp c)"
  using assms by (auto simp: snapshot_def timestamp_at_def map_replicate_const [symmetric])

theorem snapshot_times_collapse_witness:
  "snap_created_at (snapshot \<lparr>clock_instant = 90, clock_timestamp = 1000\<rparr>
      (example_channel\<lparr>spawns := [10, 50]\<rparr>)) = 1000
   \<and> snap_spawns (snapshot \<lparr>clock_instant = 90, clock_timestamp = 1000\<rparr>
      (example_channel\<lparr>spawns := [10, 50]\<rparr>)) = [1000, 1000]"
  using snapshot_times_collapse [of "example_channel\<lparr>spawns := [10, 50]\<rparr>"
      "\<lparr>clock_instant = 90, clock_timestamp = 1000\<rparr>"]
  by (simp add: example_defs)

end
