(* ===== verification/Inbox.thy ===== *)
theory Inbox
  imports Channel_Runs
begin

text \<open>
  The receiving end of a channel (\<open>runtime/src/references/inbox.rs\<close> and \<open>task_box.rs\<close>): when the
  actor counts as initialized, the receive methods, and \<open>run_until_shutdown\<close>, which drives a future
  while it answers signals.

  Every receive method is one poll. The loops inside them handle one event per turn and end
  because each turn consumes a signal or a message.
\<close>

datatype init_state = Auto | Manual | Completed

record 'm inbox =
  channel :: "'m channel"
  init :: init_state

datatype concurrent_inbox_error = ConcurrentInboxError
datatype cancelled = Cancelled

abbreviation inbox_status :: "'m inbox \<Rightarrow> actor_status" where
  "inbox_status ib \<equiv> status (channel ib)"

definition inbox_try_new :: "'m channel \<Rightarrow> concurrent_inbox_error + 'm inbox" where
  "inbox_try_new ch =
     (if \<not> is_dead (status ch) then Inl ConcurrentInboxError
      else Inr \<lparr>channel = ch, init = Auto\<rparr>)"

definition init_completed :: "'m inbox \<Rightarrow> bool" where
  "init_completed ib \<longleftrightarrow> init ib = Completed"

definition inbox_register_initialized :: "'m inbox \<Rightarrow> 'm inbox \<times> bool" where
  "inbox_register_initialized ib =
     (if init_completed ib then (ib, False)
      else case register_initialized (channel ib) of
        (ch, Inr b) \<Rightarrow> (\<lparr>channel = ch, init = Completed\<rparr>, b)
      | (ch, Inl _) \<Rightarrow> (\<lparr>channel = ch, init = Completed\<rparr>, False))"

definition inbox_register_exiting :: "'m inbox \<Rightarrow> 'm inbox \<times> bool" where
  "inbox_register_exiting ib =
     (case register_exiting (channel ib) of
        (ch, Inr b) \<Rightarrow> (ib\<lparr>channel := ch\<rparr>, b)
      | (ch, Inl _) \<Rightarrow> (ib\<lparr>channel := ch\<rparr>, False))"

definition maybe_auto_init :: "'m inbox \<Rightarrow> 'm inbox" where
  "maybe_auto_init ib = (if init ib = Auto then fst (inbox_register_initialized ib) else ib)"

definition set_manual_init :: "'m inbox \<Rightarrow> 'm inbox \<times> bool" where
  "set_manual_init ib = (if init_completed ib then (ib, False) else (ib\<lparr>init := Manual\<rparr>, True))"

definition set_auto_init :: "'m inbox \<Rightarrow> 'm inbox \<times> bool" where
  "set_auto_init ib = (if init_completed ib then (ib, False) else (ib\<lparr>init := Auto\<rparr>, True))"

definition recv_event :: "iface \<Rightarrow> 'm inbox \<Rightarrow> ('m inbox \<times> 'm inbox_event option poll) option" where
  "recv_event i ib =
     (let ib = maybe_auto_init ib
      in map_option (\<lambda>(ch, e). (ib\<lparr>channel := ch\<rparr>, e)) (next_event False i (channel ib)))"

definition recv_event_always ::
    "iface \<Rightarrow> 'm inbox \<Rightarrow> ('m inbox \<times> 'm inbox_event option poll) option" where
  "recv_event_always i ib =
     (let ib = maybe_auto_init ib
      in map_option (\<lambda>(ch, e). (ib\<lparr>channel := ch\<rparr>, e)) (next_event True i (channel ib)))"

definition try_recv :: "iface \<Rightarrow> 'm inbox \<Rightarrow> ('m inbox \<times> 'm inbox_event option) option" where
  "try_recv i ib =
     (let ib = maybe_auto_init ib
      in map_option (\<lambda>(ch, e). (ib\<lparr>channel := ch\<rparr>, e)) (try_next_event i (channel ib)))"

definition recv_signal :: "'m inbox \<Rightarrow> 'm inbox \<times> Actor_Status.signal poll" where
  "recv_signal ib =
     (let ib = maybe_auto_init ib; (ch, s) = next_signal (channel ib)
      in (ib\<lparr>channel := ch\<rparr>, s))"

text \<open>\<open>recv\<close> skips signals; every turn of its loop takes a signal from the queue or ends.\<close>

lemma select_event_signal_shorter:
  "select_event i ch = Some (ch', Ready (Some (SignalEvent s))) \<Longrightarrow>
   length (signal_queue ch') < length (signal_queue ch)"
  by (auto simp: select_event_def next_signal_def next_msg_def
      split: prod.splits option.splits poll.splits dest: pop_signal_shorter)

lemma next_event_signal_shorter:
  "next_event w i ch = Some (ch', Ready (Some (SignalEvent s))) \<Longrightarrow>
   length (signal_queue ch') < length (signal_queue ch)"
  by (auto simp: next_event_def next_signal_def split: actor_status.splits if_splits prod.splits
      poll.splits option.splits dest: pop_signal_shorter select_event_signal_shorter)

function recv_loop :: "iface \<Rightarrow> 'm channel \<Rightarrow> ('m channel \<times> 'm message option poll) option" where
  "recv_loop i ch =
     (case next_event False i ch of
        None \<Rightarrow> None
      | Some (ch', Pending) \<Rightarrow> Some (ch', Pending)
      | Some (ch', Ready None) \<Rightarrow> Some (ch', Ready None)
      | Some (ch', Ready (Some (MessageEvent m))) \<Rightarrow> Some (ch', Ready (Some m))
      | Some (ch', Ready (Some (SignalEvent _))) \<Rightarrow> recv_loop i ch')"
  by pat_completeness auto
termination
  by (relation "measure (\<lambda>(i, ch). length (signal_queue ch))") (auto dest: next_event_signal_shorter)

declare recv_loop.simps [simp del]

definition recv :: "iface \<Rightarrow> 'm inbox \<Rightarrow> ('m inbox \<times> 'm message option poll) option" where
  "recv i ib =
     (let ib = maybe_auto_init ib
      in map_option (\<lambda>(ch, m). (ib\<lparr>channel := ch\<rparr>, m)) (recv_loop i (channel ib)))"

definition inbox_drop :: "iface \<Rightarrow> 'm inbox \<Rightarrow> 'm channel option" where
  "inbox_drop i ib = drain_messages_and_signals i (channel ib)"

section \<open>Driving a future\<close>

lemma next_signal_shorter:
  "next_signal ch = (ch', Ready s) \<Longrightarrow> length (signal_queue ch') < length (signal_queue ch)"
  by (auto simp: next_signal_def split: prod.splits option.splits dest: pop_signal_shorter)

lemma signal_queue_maybe_auto_init [simp]:
  "signal_queue (channel (maybe_auto_init ib)) = signal_queue (channel ib)"
  by (cases "status (channel ib)")
     (auto simp: maybe_auto_init_def inbox_register_initialized_def register_defs)

lemma recv_signal_shorter:
  "recv_signal ib = (ib', Ready s) \<Longrightarrow>
   length (signal_queue (channel ib')) < length (signal_queue (channel ib))"
  by (auto simp: recv_signal_def Let_def split: prod.splits dest: next_signal_shorter)

function wait_resume :: "'m inbox \<Rightarrow> 'm inbox \<times> unit poll" where
  "wait_resume ib =
     (case recv_signal ib of
        (ib', Pending) \<Rightarrow> (ib', Pending)
      | (ib', Ready Suspend) \<Rightarrow> wait_resume ib'
      | (ib', Ready _) \<Rightarrow> (ib', Ready ()))"
  by pat_completeness auto
termination
  by (relation "measure (\<lambda>ib. length (signal_queue (channel ib)))")
     (auto dest: recv_signal_shorter sym)

declare wait_resume.simps [simp del]

lemma recv_signal_not_longer:
  "recv_signal ib = (ib', r) \<Longrightarrow>
   length (signal_queue (channel ib')) \<le> length (signal_queue (channel ib))"
  using signal_frame_pop_signal [of "channel (maybe_auto_init ib)"]
  by (auto simp: recv_signal_def next_signal_def signal_frame_def Let_def
      split: prod.splits option.splits)

lemma wait_resume_shorter:
  "wait_resume ib = (ib', Ready u) \<Longrightarrow>
   length (signal_queue (channel ib')) < length (signal_queue (channel ib))"
proof (induction ib rule: wait_resume.induct)
  case (1 ib)
  obtain ib1 e where e: "recv_signal ib = (ib1, e)" by fastforce
  have lt: "e = Ready s \<Longrightarrow>
      length (signal_queue (channel ib1)) < length (signal_queue (channel ib))" for s
    using recv_signal_shorter e by blast
  have ih: "e = Ready Suspend \<Longrightarrow> wait_resume ib1 = (ib', Ready u) \<Longrightarrow>
      length (signal_queue (channel ib')) < length (signal_queue (channel ib1))"
    using "1.IH" [OF e [symmetric]] by simp
  show ?case using "1.prems" e lt ih
    by (fastforce simp: wait_resume.simps [of ib] split: poll.splits signal.splits)
qed

text \<open>
  One poll of \<open>run_until_shutdown\<close>. \<open>fut\<close> is what a poll of the driven future gives at this moment,
  and \<open>pick\<close> which branch the (unbiased) \<open>select!\<close> tries first, by the number of signals still
  queued. The future is always left either before the \<open>select!\<close> or inside \<open>wait_resume\<close>; both are entered
  again from the top, since the status then tells which one it was, except for a suspension
  that the channel did not record, which \<open>waiting\<close> carries over.
\<close>

definition next_turn :: "(nat \<Rightarrow> bool) \<Rightarrow> 'm inbox \<Rightarrow> bool" where
  "next_turn pick ib = pick (length (signal_queue (channel ib)))"

fun branch_first :: "bool \<Rightarrow> 'o poll \<Rightarrow> 'o option" where
  "branch_first True (Ready o') = Some o'"
| "branch_first _ _ = None"

function run_until_shutdown_poll ::
    "(nat \<Rightarrow> bool) \<Rightarrow> 'o poll \<Rightarrow> bool \<Rightarrow> 'm inbox \<Rightarrow> ('m inbox \<times> bool) \<times> (cancelled + 'o) poll" where
  "run_until_shutdown_poll pick fut waiting ib =
     (if waiting \<or> inbox_status ib = Suspended then
        (case wait_resume ib of
           (ib', Pending) \<Rightarrow> ((ib', True), Pending)
         | (ib', Ready _) \<Rightarrow>
             if is_exiting (inbox_status ib') then ((ib', False), Ready (Inl Cancelled))
             else run_until_shutdown_poll pick fut False ib')
      else case branch_first (next_turn pick ib) fut of
        Some r \<Rightarrow> ((ib, False), Ready (Inr r))
      | None \<Rightarrow>
          (case recv_signal ib of
             (ib', Ready Shutdown) \<Rightarrow> ((ib', False), Ready (Inl Cancelled))
           | (ib', Ready Suspend) \<Rightarrow> run_until_shutdown_poll pick fut True ib'
           | (ib', Ready Resume) \<Rightarrow> run_until_shutdown_poll pick fut False ib'
           | (ib', Pending) \<Rightarrow>
               (case fut of
                  Ready r \<Rightarrow> ((ib', False), Ready (Inr r))
                | Pending \<Rightarrow> ((ib', False), Pending))))"
  by pat_completeness auto
termination
  by (relation "measures [\<lambda>(p, f, w, ib). length (signal_queue (channel ib)),
                          \<lambda>(p, f, w, ib). if w then 1 else 0]")
     (auto dest: recv_signal_shorter wait_resume_shorter sym)

declare run_until_shutdown_poll.simps [simp del]

section \<open>What the signals leave behind\<close>

lemma pop_signal_Shutdown: "pop_signal ch = (ch', Some Shutdown) \<Longrightarrow> should_exit (status ch')"
proof (induction ch rule: pop_signal.induct)
  case (1 ch)
  show ?case
  proof (cases "signal_queue ch")
    case (Cons t rest)
    obtain ch1 r where h: "handle_signal t (ch\<lparr>signal_queue := rest\<rparr>) = (ch1, r)" by fastforce
    have "r = Some Shutdown \<Longrightarrow> should_exit (status ch1)"
      using h by (cases t) (auto simp: register_defs split: if_splits actor_status.splits)
    then show ?thesis
      using "1.IH" [OF Cons h [symmetric]] "1.prems" h Cons by (cases r) (auto simp: pop_signal_Cons)
  qed (use 1 in auto)
qed

text \<open>Before it is initialized an actor is moved by a shutdown only, and a resume is dropped.\<close>

lemma pop_signal_Initializing:
  "pop_signal ch = (ch', r) \<Longrightarrow> status ch = Initializing \<Longrightarrow>
   r \<noteq> Some Resume \<and> (if r = Some Shutdown then status ch' = Exiting else status ch' = Initializing)
   \<and> set (signal_queue ch') \<subseteq> set (signal_queue ch)
   \<and> (r = Some Shutdown \<longrightarrow> SigShutdown \<in> set (signal_queue ch))"
proof (induction ch rule: pop_signal.induct)
  case (1 ch)
  show ?case
  proof (cases "signal_queue ch")
    case (Cons t rest)
    obtain ch1 e where h: "handle_signal t (ch\<lparr>signal_queue := rest\<rparr>) = (ch1, e)" by fastforce
    have ch1: "e \<noteq> Some Resume"
        "e = Some Shutdown \<longleftrightarrow> t = SigShutdown"
        "status ch1 = (if t = SigShutdown then Exiting else Initializing)"
        "signal_queue ch1 = rest"
      using h "1.prems" by (cases t; auto simp: register_defs)+
    show ?thesis
    proof (cases e)
      case None
      then have "pop_signal ch1 = (ch', r)" "status ch1 = Initializing"
        using "1.prems" h Cons ch1 by (auto simp: pop_signal_Cons)
      then show ?thesis using "1.IH" [OF Cons h [symmetric] None] ch1 Cons by auto
    next
      case (Some a)
      then have "ch' = ch1" "r = e" using "1.prems" h Cons by (auto simp: pop_signal_Cons)
      then show ?thesis using ch1 Cons by auto
    qed
  qed (use 1 in auto)
qed

lemma recv_signal_manual:
  assumes "recv_signal ib = (ib', r)" "init ib = Manual" "inbox_status ib = Initializing"
  shows "init ib' = Manual \<and> r \<noteq> Ready Resume
    \<and> inbox_status ib' = (if r = Ready Shutdown then Exiting else Initializing)
    \<and> set (signal_queue (channel ib')) \<subseteq> set (signal_queue (channel ib))
    \<and> (r = Ready Shutdown \<longrightarrow> SigShutdown \<in> set (signal_queue (channel ib)))"
proof -
  obtain ch' e where p: "pop_signal (channel ib) = (ch', e)" by fastforce
  show ?thesis
    using pop_signal_Initializing [OF p] p assms
    by (cases e) (auto simp: recv_signal_def next_signal_def maybe_auto_init_def)
qed

lemma wait_resume_manual:
  "init ib = Manual \<Longrightarrow> inbox_status ib = Initializing \<Longrightarrow>
   SigShutdown \<notin> set (signal_queue (channel ib)) \<Longrightarrow>
   \<exists>ib'. wait_resume ib = (ib', Pending) \<and> init ib' = Manual \<and> inbox_status ib' = Initializing"
proof (induction ib rule: wait_resume.induct)
  case (1 ib)
  obtain ib1 e where e: "recv_signal ib = (ib1, e)" by fastforce
  note m = recv_signal_manual [OF e "1.prems"(1,2)]
  show ?case
  proof (cases e)
    case Pending
    then show ?thesis using e m by (simp add: wait_resume.simps [of ib])
  next
    case (Ready s)
    then have s: "s = Suspend" using m "1.prems"(3) by (cases s) auto
    have "\<exists>ib'. wait_resume ib1 = (ib', Pending) \<and> init ib' = Manual \<and> inbox_status ib' = Initializing"
      using "1.IH" [OF e [symmetric] Ready s] m "1.prems"(3) Ready s by auto
    then show ?thesis using e Ready s by (simp add: wait_resume.simps [of ib])
  qed
qed

section \<open>Properties\<close>

lemma recv_signal_Shutdown:
  "recv_signal ib = (ib', Ready Shutdown) \<Longrightarrow> should_exit (inbox_status ib')"
  by (auto simp: recv_signal_def next_signal_def Let_def split: prod.splits option.splits
      dest: pop_signal_Shutdown)

text \<open>\<open>run_until_shutdown\<close> is cancelled only when the actor is on its way out, and a
  result it returns is one the driven future produced.\<close>

theorem run_until_shutdown_result:
  assumes "run_until_shutdown_poll pick fut waiting ib = ((ib', w'), Ready r)"
  shows "case r of Inl _ \<Rightarrow> should_exit (inbox_status ib') | Inr out \<Rightarrow> fut = Ready out"
  using assms
proof (induction pick fut waiting ib rule: run_until_shutdown_poll.induct)
  case (1 pick fut waiting ib)
  show ?case
  proof (cases "waiting \<or> inbox_status ib = Suspended")
    case True
    obtain ib1 e where e: "wait_resume ib = (ib1, e)" by fastforce
    show ?thesis
    proof (cases "e = Pending \<or> is_exiting (inbox_status ib1)")
      case True
      then show ?thesis using "1.prems" e \<open>waiting \<or> _\<close>
        by (auto simp: run_until_shutdown_poll.simps [of pick fut waiting ib] is_exiting_def
            split: poll.splits if_splits)
    next
      case False
      then obtain u where u: "e = Ready u" by (cases e) auto
      then have "run_until_shutdown_poll pick fut False ib1 = ((ib', w'), Ready r)"
        using "1.prems" e \<open>waiting \<or> _\<close> False
        by (simp add: run_until_shutdown_poll.simps [of pick fut waiting ib])
      then show ?thesis using "1.IH"(1) [OF True e [symmetric] u] False by blast
    qed
  next
    case False
    show ?thesis
    proof (cases "branch_first (next_turn pick ib) fut")
      case (Some out)
      then have "fut = Ready out" "r = Inr out"
        using "1.prems" False
        by (auto simp: run_until_shutdown_poll.simps [of pick fut waiting ib]
            elim: branch_first.elims)
      then show ?thesis by simp
    next
      case None
      obtain ib1 e where e: "recv_signal ib = (ib1, e)" by fastforce
      note simps = run_until_shutdown_poll.simps [of pick fut waiting ib]
      show ?thesis
      proof (cases e)
        case Pending
        then show ?thesis using "1.prems" e False None by (auto simp: simps split: poll.splits)
      next
        case (Ready s)
        then show ?thesis
          using "1.prems" e False None recv_signal_Shutdown [of ib ib1]
            "1.IH"(2) [OF False None e [symmetric] Ready] "1.IH"(3) [OF False None e [symmetric] Ready]
          by (cases s) (auto simp: simps)
      qed
    qed
  qed
qed

definition example_inbox :: "actor_status \<Rightarrow> signal_interface list \<Rightarrow> init_state \<Rightarrow> nat inbox" where
  "example_inbox s sigs i =
     \<lparr>channel = example_channel\<lparr>status := s, signal_queue := sigs\<rparr>, init = i\<rparr>"

lemmas example_inbox_defs = example_inbox_def recv_signal_def maybe_auto_init_def
  inbox_register_initialized_def init_completed_def next_signal_def pop_signal_Cons next_turn_def
  register_defs

theorem run_until_shutdown_result_witness:
  "should_exit (inbox_status (example_inbox Exiting [] Completed))"
  using run_until_shutdown_result [of "\<lambda>_. False" "Ready (5::nat)" False
      "example_inbox Running [SigShutdown] Auto" "example_inbox Exiting [] Completed" False
      "Inl Cancelled"]
  by (simp add: run_until_shutdown_poll.simps [of _ "Ready (5::nat)" False "example_inbox Running [SigShutdown] Auto"]
      example_inbox_defs)

text \<open>An actor with manual initialization that gets a suspend signal before it is initialized
  stops driving its future for good: the suspension is not recorded in its status, so a resume is
  dropped, and whatever signals follow, only a shutdown lets \<open>run_until_shutdown\<close> continue, even
  when the future is ready.\<close>

theorem suspend_while_initializing_never_resumes:
  assumes "init ib = Manual" "inbox_status ib = Initializing"
    "signal_queue (channel ib) = SigSuspend # rest" "SigShutdown \<notin> set rest"
    "\<not> pick (length (signal_queue (channel ib)))"
  shows "\<exists>ib'. run_until_shutdown_poll pick (Ready out) False ib = ((ib', True), Pending)
    \<and> inbox_status ib' = Initializing"
proof -
  let ?ib = "ib\<lparr>channel := (channel ib)\<lparr>signal_queue := rest\<rparr>\<rparr>"
  have e: "recv_signal ib = (?ib, Ready Suspend)"
    using assms
    by (simp add: recv_signal_def maybe_auto_init_def next_signal_def pop_signal_Cons register_defs)
  obtain ib' where "wait_resume ?ib = (ib', Pending)" "inbox_status ib' = Initializing"
    using wait_resume_manual [of ?ib] assms by auto
  then show ?thesis using assms e
    by (simp add: run_until_shutdown_poll.simps [of pick _ False ib]
        run_until_shutdown_poll.simps [of pick _ True ?ib] next_turn_def)
qed

theorem suspend_while_initializing_never_resumes_witness:
  "\<exists>ib'. run_until_shutdown_poll (\<lambda>_. False) (Ready (5::nat)) False
       (example_inbox Initializing [SigSuspend, SigResume, SigResume] Manual) = ((ib', True), Pending)
    \<and> inbox_status ib' = Initializing"
  by (rule suspend_while_initializing_never_resumes [where rest = "[SigResume, SigResume]"])
     (simp_all add: example_inbox_def)

text \<open>
  \<open>TaskBox\<close> is an inbox that gets no messages: its interface is the empty enum.
\<close>

definition empty_iface :: "type_id \<Rightarrow> iface" where
  "empty_iface t = \<lparr>if_type = t, if_members = []\<rparr>"

definition task_box_next :: "iface \<Rightarrow> 'm inbox \<Rightarrow> ('m inbox \<times> Actor_Status.signal option poll) option" where
  "task_box_next i ib =
     (case recv_event i ib of
        Some (ib', Ready None) \<Rightarrow> Some (ib', Ready None)
      | Some (ib', Ready (Some (SignalEvent s))) \<Rightarrow> Some (ib', Ready (Some s))
      | Some (ib', Ready (Some (MessageEvent m))) \<Rightarrow> None \<comment> \<open>no value of the empty enum\<close>
      | Some (ib', Pending) \<Rightarrow> Some (ib', Pending)
      | None \<Rightarrow> None)"

definition task_box_try_next :: "iface \<Rightarrow> 'm inbox \<Rightarrow> ('m inbox \<times> Actor_Status.signal option) option" where
  "task_box_try_next i ib =
     (case try_recv i ib of
        Some (ib', None) \<Rightarrow> Some (ib', None)
      | Some (ib', Some (SignalEvent s)) \<Rightarrow> Some (ib', Some s)
      | Some (ib', Some (MessageEvent m)) \<Rightarrow> None
      | None \<Rightarrow> None)"

end
