(* ===== verification/Restart.thy ===== *)
theory Restart
  imports Actor_Status
begin

text \<open>
  The restart budget: \<open>RestartIntensity\<close> (\<open>supervision/src/strategy.rs\<close>), the limiter a
  supervisor keeps per child and for itself (\<open>supervisor/src/strategy.rs\<close>), and the settings of a
  child (\<open>supervision/src/childspec.rs\<close>). The sliding-window theorem bounds the restarts in every
  window of the given length.
\<close>

record restart_intensity =
  max_restarts :: u16
  within :: duration

datatype restart_mode = Always | OnError | Never

fun should_restart :: "restart_mode \<Rightarrow> exit_status \<Rightarrow> bool" where
  "should_restart Always _ = True"
| "should_restart Never _ = False"
| "should_restart OnError e = is_error e"

datatype supervision_strategy = OneForOne | OneForAll | RestForOne

definition minutes :: "nat \<Rightarrow> duration" where
  "minutes n = n * 60000000000"

definition seconds :: "nat \<Rightarrow> duration" where
  "seconds n = n * 1000000000"

definition intensity_default :: restart_intensity where
  "intensity_default = \<lparr>max_restarts = 3, within = minutes 5\<rparr>"

definition intensity_restarts :: "u16 \<Rightarrow> restart_intensity" where
  "intensity_restarts n = \<lparr>max_restarts = n, within = minutes 5\<rparr>"

definition intensity_within :: "duration \<Rightarrow> restart_intensity \<Rightarrow> restart_intensity" where
  "intensity_within d ri = ri\<lparr>within := d\<rparr>"

definition intensity_new :: "u16 \<Rightarrow> duration \<Rightarrow> restart_intensity" where
  "intensity_new n d = \<lparr>max_restarts = n, within = d\<rparr>"

definition intensity_infinite :: restart_intensity where
  "intensity_infinite = \<lparr>max_restarts = - 1, within = 0\<rparr>"

definition unlimited :: "restart_intensity \<Rightarrow> bool" where
  "unlimited ri \<longleftrightarrow> max_restarts ri = - 1 \<and> within ri = 0"

text \<open>The history is oldest first; \<open>duration_since\<close> saturates, as subtraction on \<open>nat\<close> does.\<close>

definition allow_restart ::
    "instant \<Rightarrow> restart_intensity \<Rightarrow> instant list \<Rightarrow> instant list \<times> bool" where
  "allow_restart now ri restarts =
     (if unlimited ri then (restarts, True)
      else
        let live = dropWhile (\<lambda>t. now - t > within ri) restarts
        in if length live \<ge> unat (max_restarts ri) then (live, False) else (live @ [now], True))"

record restart_limiter =
  intensity :: restart_intensity
  restarts :: "instant list"

definition limiter_new :: "restart_intensity \<Rightarrow> restart_limiter" where
  "limiter_new ri = \<lparr>intensity = ri, restarts = []\<rparr>"

definition acquire_permit :: "instant \<Rightarrow> restart_limiter \<Rightarrow> restart_limiter \<times> bool" where
  "acquire_permit now rl =
     (let (h, b) = allow_restart now (intensity rl) (restarts rl) in (rl\<lparr>restarts := h\<rparr>, b))"

record child_config =
  restart_mode :: restart_mode
  cfg_intensity :: "restart_intensity option"
  abort_timeout :: duration
  init_timeout :: duration
  start_timeout :: duration

definition child_config_default :: child_config where
  "child_config_default =
     \<lparr>restart_mode = Always, cfg_intensity = None, abort_timeout = seconds 5,
      init_timeout = seconds 5, start_timeout = seconds 5\<rparr>"

section \<open>The sliding window\<close>

text \<open>The moments of the permits a limiter grants when it is asked at the moments given.\<close>

fun grants :: "restart_limiter \<Rightarrow> instant list \<Rightarrow> instant list" where
  "grants rl [] = []"
| "grants rl (now # nows) =
     (case acquire_permit now rl of
        (rl', True) \<Rightarrow> now # grants rl' nows
      | (rl', False) \<Rightarrow> grants rl' nows)"

lemma intensity_acquire_permit [simp]: "intensity (fst (acquire_permit now rl)) = intensity rl"
  by (simp add: acquire_permit_def Let_def split: prod.splits)

lemma set_grants: "set (grants rl nows) \<subseteq> set nows"
proof (induction nows arbitrary: rl)
  case (Cons now nows)
  then show ?case by (auto split: prod.splits bool.splits)
qed simp

lemma dropWhile_split: "takeWhile P xs @ dropWhile P xs = xs" by simp

lemma acquire_permit_window:
  assumes "\<not> unlimited (intensity rl)" "acquire_permit now rl = (rl', b)"
  defines "dead \<equiv> takeWhile (\<lambda>t. now - t > within (intensity rl)) (restarts rl)"
    and "live \<equiv> dropWhile (\<lambda>t. now - t > within (intensity rl)) (restarts rl)"
  shows "restarts rl = dead @ live" "\<forall>t\<in>set dead. now - t > within (intensity rl)"
    "restarts rl' = (if b then live @ [now] else live)"
    "b \<longleftrightarrow> length live < unat (max_restarts (intensity rl))" "intensity rl' = intensity rl"
  using assms(1,2)
  by (auto simp: dead_def live_def acquire_permit_def allow_restart_def Let_def not_less
      dest: set_takeWhileD split: if_splits)

definition spaced :: "nat \<Rightarrow> duration \<Rightarrow> instant list \<Rightarrow> bool" where
  "spaced n w ts \<longleftrightarrow> (\<forall>i j. i + n \<le> j \<and> j < length ts \<longrightarrow> w < ts ! j - ts ! i)"

lemma spaced_prepend:
  assumes "spaced n w (live @ later)" "\<forall>t\<in>set dead. \<forall>u\<in>set later. w < u - t"
    "length (dead @ live) \<le> n"
  shows "spaced n w (dead @ live @ later)"
  unfolding spaced_def
proof (intro allI impI)
  fix i j
  assume ij: "i + n \<le> j \<and> j < length (dead @ live @ later)"
  let ?d = "length dead"
  have j: "length (dead @ live) \<le> j" using ij assms(3) by linarith
  show "w < (dead @ live @ later) ! j - (dead @ live @ later) ! i"
  proof (cases "i < ?d")
    case True
    have "(dead @ live @ later) ! j \<in> set later"
      using ij j by (auto simp: nth_append)
    moreover have "(dead @ live @ later) ! i \<in> set dead" using True by (simp add: nth_append)
    ultimately show ?thesis using assms(2) by blast
  next
    case False
    then have "(i - ?d) + n \<le> j - ?d" "j - ?d < length (live @ later)" using ij by auto
    then have "w < (live @ later) ! (j - ?d) - (live @ later) ! (i - ?d)"
      using assms(1) unfolding spaced_def by blast
    then show ?thesis using False ij by (simp add: nth_append)
  qed
qed

lemma grants_spaced:
  assumes "\<not> unlimited (intensity rl)" "sorted nows" "length (restarts rl) \<le> unat (max_restarts (intensity rl))"
  shows "spaced (unat (max_restarts (intensity rl))) (within (intensity rl)) (restarts rl @ grants rl nows)"
  using assms
proof (induction nows arbitrary: rl)
  case Nil
  then show ?case by (simp add: spaced_def)
next
  case (Cons now nows)
  obtain rl' b where a: "acquire_permit now rl = (rl', b)" by fastforce
  define dead where "dead = takeWhile (\<lambda>t. now - t > within (intensity rl)) (restarts rl)"
  define live where "live = dropWhile (\<lambda>t. now - t > within (intensity rl)) (restarts rl)"
  note w = acquire_permit_window [OF Cons.prems(1) a, folded dead_def live_def]
  let ?later = "(if b then [now] else []) @ grants rl' nows"
  have len: "length (dead @ live) \<le> unat (max_restarts (intensity rl))"
    using Cons.prems(3) w(1) by simp
  have "spaced (unat (max_restarts (intensity rl'))) (within (intensity rl')) (restarts rl' @ grants rl' nows)"
    using Cons.prems w len by (intro Cons.IH) auto
  then have s: "spaced (unat (max_restarts (intensity rl))) (within (intensity rl)) (live @ ?later)"
    using w by (simp split: if_splits)
  have "\<forall>t\<in>set dead. \<forall>u\<in>set ?later. within (intensity rl) < u - t"
    using w(2) Cons.prems(2) set_grants [of rl' nows] by (fastforce split: if_splits)
  from spaced_prepend [OF s this len]
  show ?case using a w(1) by (auto split: if_splits)
qed

text \<open>C9: The restart budget is a sliding window: whatever the moments a limiter is asked at, any
  \<open>max_restarts + 1\<close> permits it grants are spread over more than \<open>within\<close>.\<close>

theorem restart_window_bounds_permits:
  assumes "\<not> unlimited ri" "sorted nows"
    "i + unat (max_restarts ri) \<le> j" "j < length (grants (limiter_new ri) nows)"
  shows "within ri < grants (limiter_new ri) nows ! j - grants (limiter_new ri) nows ! i"
  using grants_spaced [of "limiter_new ri" nows] assms by (simp add: limiter_new_def spaced_def)

definition example_intensity :: restart_intensity where
  "example_intensity = \<lparr>max_restarts = 2, within = 10\<rparr>"

lemmas example_intensity_defs = example_intensity_def limiter_new_def unlimited_def
  acquire_permit_def allow_restart_def Let_def

lemma example_grants:
  "grants (limiter_new example_intensity) [0, 3, 5, 11, 12, 14] = [0, 3, 11, 14]"
  by (simp add: example_intensity_defs)

theorem restart_window_bounds_permits_witness:
  "within example_intensity < grants (limiter_new example_intensity) [0, 3, 5, 11, 12, 14] ! 2
     - grants (limiter_new example_intensity) [0, 3, 5, 11, 12, 14] ! 0"
  by (rule restart_window_bounds_permits)
     (simp_all only: example_grants, simp_all add: example_intensity_defs)

end
