(* ===== verification/Supervisee.thy ===== *)
theory Supervisee
  imports Restart
begin

text \<open>
  One supervised child (\<open>supervisor/src/actor/supervisee.rs\<close>): the state machine that starts it,
  waits for it to initialize, and stops it. Which of its futures completes, and how, is the
  environment's choice and an argument of \<open>supervise\<close>; a future that the state does not wait for has
  no effect. Wakers are not modelled.
\<close>

datatype join_error = JoinPanic | JoinAborted | JoinUnhandledError

datatype start_on_error = StartOnConcurrentInbox | StartOnInstantiation

datatype start_supervisee_error = StartConcurrentInbox | StartInstantiation | StartTimeout

fun start_error_from :: "start_on_error \<Rightarrow> start_supervisee_error" where
  "start_error_from StartOnConcurrentInbox = StartConcurrentInbox"
| "start_error_from StartOnInstantiation = StartInstantiation"

datatype supervisee_exit = JoinError join_error | NormalExit | NormalShutdown

datatype supervisee_item =
  Started "start_supervisee_error + unit"
| Initialized "exit_status + unit"
| Exit supervisee_exit

record supervisee_next =
  next_name :: name
  next_item :: supervisee_item

datatype supervisee_state = Starting | SvInitializing | Alive | ShuttingDown duration | Dead
  \<comment> \<open>a child that shuts down is aborted after the given time\<close>

datatype stop_outcome = StopDead | StopCancelled | StopShuttingDown

datatype supervisee_is_shutting_down = SuperviseeIsShuttingDown

record child_spec =
  spec_name :: name
  spec_cfg :: child_config
  spec_blueprint :: nat \<comment> \<open>which blueprint; opaque here\<close>

record supervisee =
  spec :: child_spec
  state :: supervisee_state
  restarter :: "restart_limiter option"

record child_description =
  desc_name :: name
  desc_cfg :: child_config

definition supervisee_new :: "child_spec \<Rightarrow> supervisee" where
  "supervisee_new sp =
     \<lparr>spec = sp, state = Dead, restarter = map_option limiter_new (cfg_intensity (spec_cfg sp))\<rparr>"

definition sv_name :: "supervisee \<Rightarrow> name" where
  "sv_name sv = spec_name (spec sv)"

definition cfg :: "supervisee \<Rightarrow> child_config" where
  "cfg sv = spec_cfg (spec sv)"

definition get_description :: "supervisee \<Rightarrow> child_description" where
  "get_description sv = \<lparr>desc_name = sv_name sv, desc_cfg = cfg sv\<rparr>"

definition is_shutting_down :: "stop_outcome \<Rightarrow> bool" where
  "is_shutting_down out \<longleftrightarrow> out = StopShuttingDown"

definition requires_restart :: "supervisee_exit \<Rightarrow> supervisee \<Rightarrow> bool" where
  "requires_restart e sv =
     (case (restart_mode (cfg sv), e) of
        (Always, _) \<Rightarrow> True
      | (Never, _) \<Rightarrow> False
      | (OnError, NormalExit) \<Rightarrow> False
      | (OnError, NormalShutdown) \<Rightarrow> False
      | (OnError, JoinError _) \<Rightarrow> True)"

definition requires_restart_for_init_exit :: "exit_status \<Rightarrow> supervisee \<Rightarrow> bool" where
  "requires_restart_for_init_exit st sv =
     (case (restart_mode (cfg sv), st) of
        (Always, _) \<Rightarrow> True
      | (Never, _) \<Rightarrow> False
      | (OnError, Normal) \<Rightarrow> False
      | (OnError, _) \<Rightarrow> True)"

definition acquire_restart_permit :: "instant \<Rightarrow> supervisee \<Rightarrow> supervisee \<times> bool" where
  "acquire_restart_permit now sv =
     (case restarter sv of
        None \<Rightarrow> (sv, True)
      | Some rl \<Rightarrow> (let (rl', b) = acquire_permit now rl in (sv\<lparr>restarter := Some rl'\<rparr>, b)))"

definition start :: "supervisee \<Rightarrow> supervisee \<times> (supervisee_is_shutting_down + bool)" where
  "start sv =
     (case state sv of
        Dead \<Rightarrow> (sv\<lparr>state := Starting\<rparr>, Inr True)
      | Starting \<Rightarrow> (sv, Inr False)
      | SvInitializing \<Rightarrow> (sv, Inr False)
      | Alive \<Rightarrow> (sv, Inr False)
      | ShuttingDown _ \<Rightarrow> (sv, Inl SuperviseeIsShuttingDown))"

definition stop :: "supervisee \<Rightarrow> supervisee \<times> stop_outcome" where
  "stop sv =
     (case state sv of
        Dead \<Rightarrow> (sv, StopDead)
      | Starting \<Rightarrow> (sv\<lparr>state := Dead\<rparr>, StopCancelled)
      | SvInitializing \<Rightarrow>
          (sv\<lparr>state := ShuttingDown (abort_timeout (cfg sv))\<rparr>, StopShuttingDown)
      | Alive \<Rightarrow> (sv\<lparr>state := ShuttingDown (abort_timeout (cfg sv))\<rparr>, StopShuttingDown)
      | ShuttingDown d \<Rightarrow> (sv\<lparr>state := ShuttingDown d\<rparr>, StopShuttingDown))"

text \<open>What a future of the supervisee resolves to; \<open>Elapsed\<close> is the timeout of the start.\<close>

datatype future_result =
  StartDone "start_on_error + unit"
| StartElapsed
| InitDone "exit_status + unit"
| JoinDone "join_error + unit"

definition supervise :: "future_result \<Rightarrow> supervisee \<Rightarrow> supervisee \<times> supervisee_item poll" where
  "supervise r sv =
     (case (state sv, r) of
        (Starting, StartDone (Inr _)) \<Rightarrow> (sv\<lparr>state := SvInitializing\<rparr>, Ready (Started (Inr ())))
      | (Starting, StartDone (Inl e)) \<Rightarrow> (sv\<lparr>state := Dead\<rparr>, Ready (Started (Inl (start_error_from e))))
      | (Starting, StartElapsed) \<Rightarrow> (sv\<lparr>state := Dead\<rparr>, Ready (Started (Inl StartTimeout)))
      | (SvInitializing, InitDone (Inr _)) \<Rightarrow> (sv\<lparr>state := Alive\<rparr>, Ready (Initialized (Inr ())))
      | (SvInitializing, InitDone (Inl e)) \<Rightarrow> (sv\<lparr>state := Dead\<rparr>, Ready (Initialized (Inl e)))
      | (Alive, JoinDone (Inr _)) \<Rightarrow> (sv\<lparr>state := Dead\<rparr>, Ready (Exit NormalExit))
      | (Alive, JoinDone (Inl e)) \<Rightarrow> (sv\<lparr>state := Dead\<rparr>, Ready (Exit (JoinError e)))
      | (ShuttingDown _, JoinDone (Inr _)) \<Rightarrow> (sv\<lparr>state := Dead\<rparr>, Ready (Exit NormalShutdown))
      | (ShuttingDown _, JoinDone (Inl e)) \<Rightarrow> (sv\<lparr>state := Dead\<rparr>, Ready (Exit (JoinError e)))
      | _ \<Rightarrow> (sv, Pending))"

datatype exit_reason = StartFailure | InitExit exit_status | ExitedWith supervisee_exit

fun reason_requires_restart :: "exit_reason \<Rightarrow> supervisee \<Rightarrow> bool" where
  "reason_requires_restart StartFailure sv = (restart_mode (cfg sv) \<noteq> Never)"
| "reason_requires_restart (InitExit st) sv = requires_restart_for_init_exit st sv"
| "reason_requires_restart (ExitedWith e) sv = requires_restart e sv"

section \<open>Laws\<close>

text \<open>No operation but the removal changes which child it is.\<close>

lemma spec_ops [simp]:
  "spec (fst (acquire_restart_permit now sv)) = spec sv"
  "spec (fst (start sv)) = spec sv" "spec (fst (stop sv)) = spec sv"
  "spec (fst (supervise r sv)) = spec sv"
  by (auto simp: acquire_restart_permit_def start_def stop_def supervise_def Let_def
      split: option.splits prod.splits supervisee_state.splits future_result.splits sum.splits)

lemma spec_supervisee_new [simp]: "spec (supervisee_new sp) = sp"
  by (simp add: supervisee_new_def)

lemma sv_name_ops [simp]:
  "sv_name (fst (acquire_restart_permit now sv)) = sv_name sv"
  "sv_name (fst (start sv)) = sv_name sv" "sv_name (fst (stop sv)) = sv_name sv"
  "sv_name (fst (supervise r sv)) = sv_name sv" "sv_name (supervisee_new sp) = spec_name sp"
  by (simp_all add: sv_name_def)

lemma state_acquire_restart_permit [simp]: "state (fst (acquire_restart_permit now sv)) = state sv"
  by (auto simp: acquire_restart_permit_def Let_def split: option.splits prod.splits)

definition owes_exit :: "supervisee_state \<Rightarrow> bool" where
  "owes_exit st \<longleftrightarrow> (\<exists>d. st = ShuttingDown d)"

lemma stop_state:
  "state (fst (stop sv)) = (case state sv of
     Dead \<Rightarrow> Dead | Starting \<Rightarrow> Dead | ShuttingDown d \<Rightarrow> ShuttingDown d
   | _ \<Rightarrow> ShuttingDown (abort_timeout (cfg sv)))"
  by (auto simp: stop_def split: supervisee_state.splits)

lemma stop_outcome_iff: "is_shutting_down (snd (stop sv)) \<longleftrightarrow> owes_exit (state (fst (stop sv)))"
  by (auto simp: stop_def is_shutting_down_def owes_exit_def split: supervisee_state.splits)

lemma stop_not_shutting_down:
  "\<not> is_shutting_down (snd (stop sv)) \<longleftrightarrow> state (fst (stop sv)) = Dead"
  by (auto simp: stop_def is_shutting_down_def split: supervisee_state.splits)

lemma start_from_Dead [simp]:
  "state sv = Dead \<Longrightarrow> start sv = (sv\<lparr>state := Starting\<rparr>, Inr True)"
  by (simp add: start_def)

text \<open>\<open>stop\<close> reports that an exit event will follow exactly when the child was spawned and not
  yet gone; it is then shutting down, and whichever way its task ends the next event is its exit and it
  is dead. Otherwise it is dead at once, and no future of it has any effect any more.\<close>

theorem stop_reports_owed_exit:
  "if state sv = Dead \<or> state sv = Starting
   then \<not> is_shutting_down (snd (stop sv)) \<and> state (fst (stop sv)) = Dead
     \<and> supervise f (fst (stop sv)) = (fst (stop sv), Pending)
   else is_shutting_down (snd (stop sv))
     \<and> (\<exists>e. supervise (JoinDone r) (fst (stop sv)) = ((fst (stop sv))\<lparr>state := Dead\<rparr>, Ready (Exit e)))"
  by (cases "state sv"; cases r; simp add: stop_def is_shutting_down_def supervise_def)

fun exit_status_of :: "supervisee_exit \<Rightarrow> exit_status" where
  "exit_status_of (JoinError JoinPanic) = Panicked"
| "exit_status_of (JoinError JoinAborted) = Aborted"
| "exit_status_of (JoinError JoinUnhandledError) = UnhandledError"
| "exit_status_of NormalExit = Normal"
| "exit_status_of NormalShutdown = Normal"

text \<open>Whether a child is restarted depends on its mode and on whether it ended with an error, the
  same way before and after its initialization, and as \<open>RestartMode::should_restart\<close> says.\<close>

theorem restart_decision_uniform:
  "requires_restart e sv = should_restart (restart_mode (cfg sv)) (exit_status_of e)
   \<and> requires_restart_for_init_exit st sv = should_restart (restart_mode (cfg sv)) st"
  by (cases "restart_mode (cfg sv)"; cases st; cases e rule: exit_status_of.cases)
     (simp_all add: requires_restart_def requires_restart_for_init_exit_def is_normal_def)

end
