(* ===== verification/Supervisee_Map.thy ===== *)
theory Supervisee_Map
  imports Supervisee
begin

text \<open>
  The children of a supervisor in start order (\<open>supervisor/src/actor/map.rs\<close>).

  The code keeps an \<open>IndexMap\<close> from names to tokens and the children in a \<open>StreamUnordered\<close>, which
  gives out the tokens. A removed child leaves its name behind without a token, so a child that is
  registered again takes its old place in the order. How the stream set chooses a token is
  a parameter of the model (the field \<open>alloc\<close>); the code relies on it being none of those in use.

  \<open>child_store\<close> is what the strategies rely on. The map is shown to provide it, and to
  behave as one list of slots.
\<close>

section \<open>The map\<close>

record supervisee_map =
  mapping :: "(name \<times> nat option) list"
  supervisees :: "(nat \<times> supervisee) list"
  alloc :: "nat list \<Rightarrow> nat"

definition token_of :: "name \<Rightarrow> supervisee_map \<Rightarrow> nat option" where
  "token_of n sm = Option.bind (map_of (mapping sm) n) id"

definition insert_supervisee :: "supervisee \<Rightarrow> supervisee_map \<Rightarrow> supervisee_map \<times> nat" where
  "insert_supervisee sv sm =
     (let t = alloc sm (map fst (supervisees sm))
      in (sm\<lparr>supervisees := (t, sv) # supervisees sm\<rparr>, t))"

definition put_supervisee :: "supervisee \<Rightarrow> supervisee_map \<Rightarrow> supervisee_map" where
  "put_supervisee sv sm =
     (let (sm', t) = insert_supervisee sv sm
      in sm'\<lparr>mapping := imap_insert (sv_name sv) (Some t) (mapping sm')\<rparr>)"

definition sm_empty :: "(nat list \<Rightarrow> nat) \<Rightarrow> supervisee_map" where
  "sm_empty a = \<lparr>mapping = [], supervisees = [], alloc = a\<rparr>"

definition sm_new :: "(nat list \<Rightarrow> nat) \<Rightarrow> child_spec list \<Rightarrow> supervisee_map" where
  "sm_new a specs = fold (\<lambda>sp. put_supervisee (supervisee_new sp)) specs (sm_empty a)"

definition get_token :: "nat \<Rightarrow> supervisee_map \<Rightarrow> supervisee option" where
  "get_token t sm = map_of (supervisees sm) t"

definition set_token :: "nat \<Rightarrow> supervisee \<Rightarrow> supervisee_map \<Rightarrow> supervisee_map" where
  "set_token t sv sm =
     sm\<lparr>supervisees := map (\<lambda>(t', sv'). (t', if t' = t then sv else sv')) (supervisees sm)\<rparr>"

definition sm_get :: "supervisee_map \<Rightarrow> name \<Rightarrow> supervisee option" where
  "sm_get sm n = Option.bind (token_of n sm) (\<lambda>t. get_token t sm)"

text \<open>\<open>get_mut\<close> followed by an operation on the child it gives.\<close>

definition sm_modify ::
    "name \<Rightarrow> (supervisee \<Rightarrow> supervisee \<times> 'r) \<Rightarrow> supervisee_map \<Rightarrow> supervisee_map \<times> 'r option" where
  "sm_modify n f sm =
     (case Option.bind (token_of n sm) (\<lambda>t. map_option (Pair t) (get_token t sm)) of
        None \<Rightarrow> (sm, None)
      | Some (t, sv) \<Rightarrow> (let (sv', r) = f sv in (set_token t sv' sm, Some r)))"

definition sm_supervisees :: "supervisee_map \<Rightarrow> supervisee list" where
  "sm_supervisees sm =
     List.map_filter (\<lambda>(n, t). Option.bind t (\<lambda>t. get_token t sm)) (mapping sm)"

definition sm_names :: "supervisee_map \<Rightarrow> name list" where
  "sm_names sm = map sv_name (sm_supervisees sm)"

definition child_descriptions :: "supervisee_map \<Rightarrow> child_description list" where
  "child_descriptions sm = map get_description (sm_supervisees sm)"

definition sm_remove :: "name \<Rightarrow> supervisee_map \<Rightarrow> supervisee_map \<times> supervisee option" where
  "sm_remove n sm =
     (case token_of n sm of
        None \<Rightarrow> (sm, None)
      | Some t \<Rightarrow>
          (sm\<lparr>mapping := imap_insert n None (mapping sm),
              supervisees := filter (\<lambda>(t', _). t' \<noteq> t) (supervisees sm)\<rparr>,
           get_token t sm))"

datatype duplicate_name_error = DuplicateNameError name

definition sm_add :: "supervisee \<Rightarrow> supervisee_map \<Rightarrow> supervisee_map \<times> (duplicate_name_error + unit)" where
  "sm_add sv sm =
     (if token_of (sv_name sv) sm \<noteq> None then (sm, Inl (DuplicateNameError (sv_name sv)))
      else (put_supervisee sv sm, Inr ()))"

fun start_entries ::
    "(name \<times> nat option) list \<Rightarrow> supervisee_map \<Rightarrow>
     supervisee_map \<times> ((name \<times> supervisee_is_shutting_down) + unit)" where
  "start_entries [] sm = (sm, Inr ())"
| "start_entries ((n, None) # es) sm = start_entries es sm"
| "start_entries ((n, Some t) # es) sm =
     (case get_token t sm of
        None \<Rightarrow> start_entries es sm
      | Some sv \<Rightarrow>
          (case start sv of
             (sv', Inr _) \<Rightarrow> start_entries es (set_token t sv' sm)
           | (sv', Inl e) \<Rightarrow> (set_token t sv' sm, Inl (n, e))))"

definition start_all ::
    "supervisee_map \<Rightarrow> supervisee_map \<times> ((name \<times> supervisee_is_shutting_down) + unit)" where
  "start_all sm = start_entries (mapping sm) sm"

fun stop_entries ::
    "(name \<times> nat option) list \<Rightarrow> supervisee_map \<Rightarrow> supervisee_map \<times> name list" where
  "stop_entries [] sm = (sm, [])"
| "stop_entries ((n, None) # es) sm = stop_entries es sm"
| "stop_entries ((n, Some t) # es) sm =
     (case get_token t sm of
        None \<Rightarrow> stop_entries es sm
      | Some sv \<Rightarrow>
          (let (sv', out) = stop sv; (sm', ns) = stop_entries es (set_token t sv' sm)
           in (sm', (if is_shutting_down out then [n] else []) @ ns)))"

definition stop_all :: "supervisee_map \<Rightarrow> supervisee_map \<times> name list" where
  "stop_all sm = stop_entries (mapping sm) sm"

text \<open>One child's future completes; its event, if its state waits for that future, carries its name.\<close>

definition sm_poll :: "name \<Rightarrow> future_result \<Rightarrow> supervisee_map \<Rightarrow> supervisee_map \<times> supervisee_next poll" where
  "sm_poll n r sm =
     (case sm_modify n (supervise r) sm of
        (sm', Some (Ready item)) \<Rightarrow> (sm', Ready \<lparr>next_name = n, next_item = item\<rparr>)
      | (sm', _) \<Rightarrow> (sm', Pending))"

section \<open>Lookups\<close>

text \<open>
  The map is its order (the names ever registered, tombstones included) and what a lookup gives.
\<close>

definition order :: "supervisee_map \<Rightarrow> name list" where
  "order sm = map fst (mapping sm)"

definition sm_wf :: "supervisee_map \<Rightarrow> bool" where
  "sm_wf sm \<longleftrightarrow>
     distinct (order sm) \<and>
     (\<forall>n t. token_of n sm = Some t \<longrightarrow> (\<exists>sv. get_token t sm = Some sv \<and> sv_name sv = n)) \<and>
     (\<forall>ts. alloc sm ts \<notin> set ts)"

lemma sm_wf_alloc: "sm_wf sm \<Longrightarrow> alloc sm ts \<notin> set ts"
  by (simp add: sm_wf_def)

lemma sm_wf_distinct: "sm_wf sm \<Longrightarrow> distinct (order sm)"
  by (simp add: sm_wf_def)

lemma sm_wf_token:
  "sm_wf sm \<Longrightarrow> token_of n sm = Some t \<Longrightarrow> \<exists>sv. get_token t sm = Some sv \<and> sv_name sv = n"
  by (auto simp: sm_wf_def)

lemma sm_wf_token_inj:
  "sm_wf sm \<Longrightarrow> token_of n sm = Some t \<Longrightarrow> token_of n' sm = Some t \<Longrightarrow> n = n'"
  by (metis option.inject sm_wf_token)

lemma token_of_Some: "token_of n sm = Some t \<longleftrightarrow> map_of (mapping sm) n = Some (Some t)"
  by (cases "map_of (mapping sm) n") (auto simp: token_of_def)

lemma sm_get_token: "token_of n sm = Some t \<Longrightarrow> sm_get sm n = get_token t sm"
  by (simp add: sm_get_def)

lemma sm_get_no_token: "token_of n sm = None \<Longrightarrow> sm_get sm n = None"
  by (simp add: sm_get_def)

text \<open>The tokens the code unwraps are always there.\<close>

lemma sm_get_None_iff: "sm_wf sm \<Longrightarrow> sm_get sm n = None \<longleftrightarrow> token_of n sm = None"
  using sm_wf_token [of sm n] by (cases "token_of n sm") (auto simp: sm_get_def)

lemma sm_get_name: "sm_wf sm \<Longrightarrow> sm_get sm n = Some sv \<Longrightarrow> sv_name sv = n"
  using sm_wf_token [of sm n] by (cases "token_of n sm") (auto simp: sm_get_def)

lemma token_of_in_order: "token_of n sm = Some t \<Longrightarrow> n \<in> set (order sm)"
  by (force simp: token_of_Some order_def dest: map_of_SomeD)

lemma sm_get_in_order: "sm_get sm n = Some sv \<Longrightarrow> n \<in> set (order sm)"
  by (cases "token_of n sm") (auto simp: sm_get_def token_of_in_order)

section \<open>Changing one child\<close>

lemma get_token_set_token:
  "get_token t' (set_token t sv sm) =
     (if t' = t then map_option (\<lambda>_. sv) (get_token t sm) else get_token t' sm)"
proof -
  have "map_of (map (\<lambda>(t', sv'). (t', if t' = t then sv else sv')) xs) t'
      = (if t' = t then map_option (\<lambda>_. sv) (map_of xs t) else map_of xs t')" for xs
    by (induction xs) auto
  then show ?thesis by (simp add: get_token_def set_token_def)
qed

lemma set_token_simps [simp]:
  "mapping (set_token t sv sm) = mapping sm" "alloc (set_token t sv sm) = alloc sm"
  "order (set_token t sv sm) = order sm" "token_of n (set_token t sv sm) = token_of n sm"
  by (simp_all add: set_token_def order_def token_of_def)

lemma sm_get_set_token:
  assumes "sm_wf sm" "token_of n sm = Some t"
  shows "sm_get (set_token t sv sm) k = (if k = n then Some sv else sm_get sm k)"
  using sm_wf_token [OF assms] sm_wf_token_inj [OF assms(1), of k t n] assms(2)
  by (cases "token_of k sm") (auto simp: sm_get_def get_token_set_token)

lemma sm_wf_set_token:
  assumes "sm_wf sm" "token_of n sm = Some t" "sv_name sv = n"
  shows "sm_wf (set_token t sv sm)"
  using assms sm_wf_token [OF assms(1)] sm_wf_token_inj [OF assms(1)]
  by (fastforce simp: sm_wf_def get_token_set_token)

lemma sm_modify_None [simp]: "sm_get sm n = None \<Longrightarrow> sm_modify n f sm = (sm, None)"
  by (cases "token_of n sm") (auto simp: sm_modify_def sm_get_def)

lemma sm_modify_Some:
  assumes "sm_get sm n = Some sv"
  obtains t where "token_of n sm = Some t" "get_token t sm = Some sv"
    "sm_modify n f sm = (set_token t (fst (f sv)) sm, Some (snd (f sv)))"
  using assms by (cases "token_of n sm") (auto simp: sm_modify_def sm_get_def split: prod.splits)

lemma snd_sm_modify [simp]: "snd (sm_modify n f sm) = map_option (snd \<circ> f) (sm_get sm n)"
  by (cases "sm_get sm n") (auto elim!: sm_modify_Some [of sm n _ f])

lemma order_sm_modify [simp]: "order (fst (sm_modify n f sm)) = order sm"
  by (cases "sm_get sm n") (auto elim!: sm_modify_Some [of sm n _ f])

lemma sm_get_modify:
  assumes "sm_wf sm"
  shows "sm_get (fst (sm_modify n f sm)) k =
    (if k = n then map_option (fst \<circ> f) (sm_get sm n) else sm_get sm k)"
proof (cases "sm_get sm n")
  case (Some sv)
  from sm_modify_Some [OF this, of f] obtain t where t: "token_of n sm = Some t"
    "sm_modify n f sm = (set_token t (fst (f sv)) sm, Some (snd (f sv)))" by metis
  then show ?thesis using sm_get_set_token [OF assms t(1)] Some by simp
qed simp

lemma sm_wf_modify:
  assumes "sm_wf sm" "\<And>sv. sv_name (fst (f sv)) = sv_name sv"
  shows "sm_wf (fst (sm_modify n f sm))"
proof (cases "sm_get sm n")
  case (Some sv)
  from sm_modify_Some [OF this, of f] obtain t where t: "token_of n sm = Some t"
    "sm_modify n f sm = (set_token t (fst (f sv)) sm, Some (snd (f sv)))" by metis
  have "sv_name (fst (f sv)) = n" using assms(2) sm_get_name [OF assms(1) Some] by simp
  then show ?thesis using sm_wf_set_token [OF assms(1) t(1)] t(2) by simp
qed (use assms in simp)

section \<open>Adding and removing\<close>

lemma token_of_update_mapping:
  "token_of k (sm\<lparr>mapping := imap_insert n v (mapping sm), supervisees := xs\<rparr>) = (if k = n then v else token_of k sm)"
  by (simp add: token_of_def)

lemma sm_remove_None [simp]: "sm_get sm n = None \<Longrightarrow> sm_wf sm \<Longrightarrow> sm_remove n sm = (sm, None)"
  by (simp add: sm_remove_def sm_get_None_iff)

lemma snd_sm_remove [simp]: "snd (sm_remove n sm) = sm_get sm n"
  by (cases "token_of n sm") (auto simp: sm_remove_def sm_get_def)

lemma map_of_filter_ne: "map_of (filter (\<lambda>(t', _). t' \<noteq> t) xs) k = (if k = t then None else map_of xs k)"
  by (induction xs) auto

lemma get_token_sm_remove:
  "token_of n sm = Some t \<Longrightarrow>
   get_token k (fst (sm_remove n sm)) = (if k = t then None else get_token k sm)"
  by (simp add: sm_remove_def get_token_def map_of_filter_ne)

lemma token_of_sm_remove [simp]:
  "token_of k (fst (sm_remove n sm)) = (if k = n then None else token_of k sm)"
  by (cases "token_of n sm") (auto simp: sm_remove_def token_of_update_mapping)

lemma order_sm_remove [simp]: "order (fst (sm_remove n sm)) = order sm"
proof (cases "token_of n sm")
  case (Some t)
  then have "n \<in> fst ` set (mapping sm)" using token_of_in_order by (fastforce simp: order_def)
  then show ?thesis using Some by (simp add: sm_remove_def order_def keys_imap_insert)
qed (simp add: sm_remove_def)

lemma sm_get_remove:
  assumes "sm_wf sm"
  shows "sm_get (fst (sm_remove n sm)) k = (if k = n then None else sm_get sm k)"
proof (cases "token_of n sm")
  case (Some t)
  then show ?thesis using sm_wf_token_inj [OF assms, of k _ n] get_token_sm_remove [OF Some]
    by (cases "token_of k sm") (auto simp: sm_get_def)
qed (auto simp: sm_remove_def sm_get_def)

lemma alloc_sm_remove [simp]: "alloc (fst (sm_remove n sm)) = alloc sm"
  by (cases "token_of n sm") (auto simp: sm_remove_def)

lemma sm_wf_remove:
  assumes "sm_wf sm"
  shows "sm_wf (fst (sm_remove n sm))"
proof (cases "token_of n sm")
  case (Some t)
  then show ?thesis
    using assms sm_wf_token [OF assms] sm_wf_token_inj [OF assms] get_token_sm_remove [OF Some]
    by (fastforce simp: sm_wf_def)
qed (use assms in \<open>simp add: sm_remove_def\<close>)

lemma put_supervisee_simps:
  "token_of k (put_supervisee sv sm) =
     (if k = sv_name sv then Some (alloc sm (map fst (supervisees sm))) else token_of k sm)"
  "get_token t (put_supervisee sv sm) =
     (if t = alloc sm (map fst (supervisees sm)) then Some sv else get_token t sm)"
  "alloc (put_supervisee sv sm) = alloc sm"
  "order (put_supervisee sv sm) = iset_insert (sv_name sv) (order sm)"
  by (auto simp: put_supervisee_def insert_supervisee_def token_of_def get_token_def order_def
      keys_imap_insert iset_insert_def Let_def)

lemma get_token_in_supervisees: "get_token t sm = Some sv \<Longrightarrow> t \<in> set (map fst (supervisees sm))"
  by (force simp: get_token_def dest: map_of_SomeD)

lemma sm_wf_put:
  assumes "sm_wf sm"
  shows "sm_wf (put_supervisee sv sm)"
  using assms sm_wf_alloc [OF assms, of "map fst (supervisees sm)"] sm_wf_token [OF assms]
    get_token_in_supervisees [of _ sm]
  by (fastforce simp: sm_wf_def put_supervisee_simps)

lemma sm_get_put:
  assumes "sm_wf sm"
  shows "sm_get (put_supervisee sv sm) k = (if k = sv_name sv then Some sv else sm_get sm k)"
proof (cases "k = sv_name sv")
  case False
  have "t \<noteq> alloc sm (map fst (supervisees sm))" if "token_of k sm = Some t" for t
    using that sm_wf_token [OF assms that] get_token_in_supervisees
      sm_wf_alloc [OF assms, of "map fst (supervisees sm)"] by metis
  then show ?thesis using False by (cases "token_of k sm") (auto simp: sm_get_def put_supervisee_simps)
qed (simp add: sm_get_def put_supervisee_simps)

lemma sm_wf_empty: "(\<And>ts. a ts \<notin> set ts) \<Longrightarrow> sm_wf (sm_empty a)"
  by (simp add: sm_wf_def sm_empty_def order_def token_of_def)

section \<open>Walking over all children\<close>

definition entries_of :: "(name \<times> nat option) list \<Rightarrow> supervisee_map \<Rightarrow> bool" where
  "entries_of es sm \<longleftrightarrow> distinct (map fst es) \<and> (\<forall>(n, t)\<in>set es. token_of n sm = t)"

lemma entries_of_mapping: "sm_wf sm \<Longrightarrow> entries_of (mapping sm) sm"
  by (auto simp: entries_of_def sm_wf_def order_def token_of_def)

lemma entries_of_Cons:
  "entries_of ((n, t) # es) sm \<longleftrightarrow> token_of n sm = t \<and> n \<notin> fst ` set es \<and> entries_of es sm"
  by (auto simp: entries_of_def)

lemma entries_of_set_token [simp]: "entries_of es (set_token t sv sm) = entries_of es sm"
  by (auto simp: entries_of_def)

lemma sm_supervisees_lookup:
  assumes "sm_wf sm"
  shows "sm_supervisees sm = List.map_filter (sm_get sm) (order sm)"
proof -
  have "List.map_filter (\<lambda>(n, t). Option.bind t (\<lambda>t. get_token t sm)) es
      = List.map_filter (sm_get sm) (map fst es)" if "entries_of es sm" for es
    using that
    by (induction es) (auto simp: map_filter_simps entries_of_Cons sm_get_def split: option.splits)
  from this [OF entries_of_mapping [OF assms]] show ?thesis
    by (simp add: sm_supervisees_def order_def)
qed

lemma sm_names_lookup:
  assumes "sm_wf sm"
  shows "sm_names sm = filter (\<lambda>n. sm_get sm n \<noteq> None) (order sm)"
proof -
  have "map sv_name (List.map_filter (sm_get sm) ns) = filter (\<lambda>n. sm_get sm n \<noteq> None) ns" for ns
    using sm_get_name [OF assms]
    by (induction ns) (auto simp: map_filter_simps split: option.splits)
  then show ?thesis by (simp add: sm_names_def sm_supervisees_lookup [OF assms])
qed

lemma set_sm_names: "sm_wf sm \<Longrightarrow> n \<in> set (sm_names sm) \<longleftrightarrow> sm_get sm n \<noteq> None"
  by (auto simp: sm_names_lookup dest: sm_get_in_order)

lemma distinct_sm_names: "sm_wf sm \<Longrightarrow> distinct (sm_names sm)"
  by (simp add: sm_names_lookup sm_wf_distinct)

definition still_owes :: "supervisee_map \<Rightarrow> name \<Rightarrow> bool" where
  "still_owes sm n \<longleftrightarrow> (\<exists>sv. sm_get sm n = Some sv \<and> owes_exit (state sv))"

lemma stop_entries_spec:
  assumes "sm_wf sm" "entries_of es sm"
  shows "sm_wf (fst (stop_entries es sm)) \<and> order (fst (stop_entries es sm)) = order sm
    \<and> (\<forall>k. sm_get (fst (stop_entries es sm)) k =
        (if k \<in> fst ` set es then map_option (fst \<circ> stop) (sm_get sm k) else sm_get sm k))
    \<and> snd (stop_entries es sm) = filter (still_owes (fst (stop_entries es sm))) (map fst es)"
  using assms
proof (induction es sm rule: stop_entries.induct)
  case (2 n es sm)
  then show ?case
    by (auto simp: entries_of_Cons sm_get_no_token still_owes_def)
next
  case (3 n t es sm)
  then have tok: "token_of n sm = Some t" "n \<notin> fst ` set es" "entries_of es sm"
    by (auto simp: entries_of_Cons)
  then obtain sv where sv: "get_token t sm = Some sv" "sv_name sv = n"
    using sm_wf_token [OF 3(3)] by blast
  let ?sm = "set_token t (fst (stop sv)) sm"
  have wf: "sm_wf ?sm" using 3(3) tok sv by (auto intro: sm_wf_set_token)
  have get: "sm_get ?sm k = (if k = n then Some (fst (stop sv)) else sm_get sm k)" for k
    using sm_get_set_token [OF 3(3) tok(1)] .
  have ih: "sm_wf (fst (stop_entries es ?sm)) \<and> order (fst (stop_entries es ?sm)) = order ?sm
    \<and> (\<forall>k. sm_get (fst (stop_entries es ?sm)) k =
        (if k \<in> fst ` set es then map_option (fst \<circ> stop) (sm_get ?sm k) else sm_get ?sm k))
    \<and> snd (stop_entries es ?sm) = filter (still_owes (fst (stop_entries es ?sm))) (map fst es)"
    using 3(1,2) sv wf tok by (metis entries_of_set_token prod.collapse)
  have st: "stop_entries ((n, Some t) # es) sm =
     (fst (stop_entries es ?sm),
      (if is_shutting_down (snd (stop sv)) then [n] else []) @ snd (stop_entries es ?sm))"
    using sv by (auto split: prod.splits simp: Let_def)
  have o: "still_owes (fst (stop_entries es ?sm)) n \<longleftrightarrow> is_shutting_down (snd (stop sv))"
    using ih get tok by (simp add: still_owes_def stop_outcome_iff)
  show ?case
    unfolding st using ih get tok sv o by (auto simp: sm_get_token)
qed simp

lemma stop_all_spec:
  assumes "sm_wf sm"
  shows "sm_wf (fst (stop_all sm))" "order (fst (stop_all sm)) = order sm"
    "sm_get (fst (stop_all sm)) k = map_option (fst \<circ> stop) (sm_get sm k)"
    "snd (stop_all sm) = filter (still_owes (fst (stop_all sm))) (order sm)"
proof -
  note spec = stop_entries_spec [OF assms entries_of_mapping [OF assms]]
  show "sm_wf (fst (stop_all sm))" "order (fst (stop_all sm)) = order sm"
    "snd (stop_all sm) = filter (still_owes (fst (stop_all sm))) (order sm)"
    using spec by (simp_all add: stop_all_def order_def)
  have "k \<notin> fst ` set (mapping sm) \<Longrightarrow> sm_get sm k = None"
    using sm_get_in_order [of sm k] by (cases "sm_get sm k") (auto simp: order_def)
  then show "sm_get (fst (stop_all sm)) k = map_option (fst \<circ> stop) (sm_get sm k)"
    using spec by (auto simp: stop_all_def)
qed

lemma start_entries_spec:
  assumes "sm_wf sm" "entries_of es sm" "\<And>n. n \<in> fst ` set es \<Longrightarrow> \<not> still_owes sm n"
  shows "sm_wf (fst (start_entries es sm)) \<and> order (fst (start_entries es sm)) = order sm
    \<and> (\<forall>k. sm_get (fst (start_entries es sm)) k =
        (if k \<in> fst ` set es then map_option (fst \<circ> start) (sm_get sm k) else sm_get sm k))
    \<and> snd (start_entries es sm) = Inr ()"
  using assms
proof (induction es sm rule: start_entries.induct)
  case (2 n es sm)
  then show ?case by (auto simp: entries_of_Cons sm_get_no_token)
next
  case (3 n t es sm)
  then have tok: "token_of n sm = Some t" "n \<notin> fst ` set es" "entries_of es sm"
    by (auto simp: entries_of_Cons)
  then obtain sv where sv: "get_token t sm = Some sv" "sv_name sv = n"
    using sm_wf_token [OF 3(3)] by blast
  have "sm_get sm n = Some sv" using sm_get_token [OF tok(1)] sv by simp
  then have "\<not> owes_exit (state sv)" using 3(5) [of n] by (auto simp: still_owes_def)
  then obtain sv' b where b: "start sv = (sv', Inr b)"
    by (cases "state sv") (auto simp: start_def owes_exit_def)
  then have nm: "sv_name sv' = n" using sv_name_ops(2) [of sv] sv by simp
  let ?sm = "set_token t sv' sm"
  have wf: "sm_wf ?sm" using 3(3) tok nm by (auto intro: sm_wf_set_token)
  have get: "sm_get ?sm k = (if k = n then Some sv' else sm_get sm k)" for k
    using sm_get_set_token [OF 3(3) tok(1)] .
  have no: "\<not> still_owes ?sm k" if "k \<in> fst ` set es" for k
    using that tok(2) 3(5) [of k] get [of k] by (auto simp: still_owes_def)
  have "entries_of es ?sm" using tok by simp
  then have ih: "sm_wf (fst (start_entries es ?sm)) \<and> order (fst (start_entries es ?sm)) = order ?sm
    \<and> (\<forall>k. sm_get (fst (start_entries es ?sm)) k =
        (if k \<in> fst ` set es then map_option (fst \<circ> start) (sm_get ?sm k) else sm_get ?sm k))
    \<and> snd (start_entries es ?sm) = Inr ()"
    using 3(2) [OF sv(1) b [symmetric] refl wf] no by simp
  have st: "start_entries ((n, Some t) # es) sm = start_entries es ?sm"
    using sv b by simp
  show ?case unfolding st using ih get tok sv b \<open>sm_get sm n = Some sv\<close> by auto
qed simp

lemma start_all_spec:
  assumes "sm_wf sm" "\<And>n. \<not> still_owes sm n"
  shows "sm_wf (fst (start_all sm))" "order (fst (start_all sm)) = order sm"
    "sm_get (fst (start_all sm)) k = map_option (fst \<circ> start) (sm_get sm k)"
    "snd (start_all sm) = Inr ()"
proof -
  note spec = start_entries_spec [OF assms(1) entries_of_mapping [OF assms(1)] assms(2)]
  show "sm_wf (fst (start_all sm))" "order (fst (start_all sm)) = order sm"
    "snd (start_all sm) = Inr ()"
    using spec by (simp_all add: start_all_def)
  have "k \<notin> fst ` set (mapping sm) \<Longrightarrow> sm_get sm k = None"
    using sm_get_in_order [of sm k] by (cases "sm_get sm k") (auto simp: order_def)
  then show "sm_get (fst (start_all sm)) k = map_option (fst \<circ> start) (sm_get sm k)"
    using spec by (auto simp: start_all_def)
qed

section \<open>What the strategies rely on\<close>

locale child_store =
  fixes inv :: "'m \<Rightarrow> bool"
    and lookup :: "'m \<Rightarrow> name \<Rightarrow> 'c option"
    and names :: "'m \<Rightarrow> name list"
    and modify :: "name \<Rightarrow> ('c \<Rightarrow> 'c \<times> 'r) \<Rightarrow> 'm \<Rightarrow> 'm \<times> 'r option"
    and remove :: "name \<Rightarrow> 'm \<Rightarrow> 'm \<times> 'c option"
    and same_child :: "('c \<Rightarrow> 'c \<times> 'r) \<Rightarrow> bool"
  assumes inv_modify: "inv m \<Longrightarrow> same_child f \<Longrightarrow> inv (fst (modify n f m))"
    and lookup_modify: "inv m \<Longrightarrow> lookup (fst (modify n f m)) k =
        (if k = n then map_option (fst \<circ> f) (lookup m n) else lookup m k)"
    and names_modify: "inv m \<Longrightarrow> same_child f \<Longrightarrow> names (fst (modify n f m)) = names m"
    and inv_remove: "inv m \<Longrightarrow> inv (fst (remove n m))"
    and lookup_remove: "inv m \<Longrightarrow> lookup (fst (remove n m)) k = (if k = n then None else lookup m k)"
    and names_remove: "inv m \<Longrightarrow> names (fst (remove n m)) = filter (\<lambda>k. k \<noteq> n) (names m)"
    and set_names: "inv m \<Longrightarrow> set (names m) = {n. lookup m n \<noteq> None}"
begin

definition modify_many :: "('c \<Rightarrow> 'c \<times> 'r) \<Rightarrow> name list \<Rightarrow> 'm \<Rightarrow> 'm" where
  "modify_many f ns m = fold (\<lambda>n m. fst (modify n f m)) ns m"

definition remove_many :: "name list \<Rightarrow> 'm \<Rightarrow> 'm" where
  "remove_many ns m = fold (\<lambda>n m. fst (remove n m)) ns m"

lemma inv_modify_many: "inv m \<Longrightarrow> same_child f \<Longrightarrow> inv (modify_many f ns m)"
  by (induction ns arbitrary: m) (auto simp: modify_many_def inv_modify)

lemma names_modify_many: "inv m \<Longrightarrow> same_child f \<Longrightarrow> names (modify_many f ns m) = names m"
  by (induction ns arbitrary: m) (auto simp: modify_many_def inv_modify names_modify)

lemma lookup_modify_many:
  assumes "inv m" "same_child f" "distinct ns"
  shows "lookup (modify_many f ns m) k =
    (if k \<in> set ns then map_option (fst \<circ> f) (lookup m k) else lookup m k)"
  using assms
  by (induction ns arbitrary: m) (auto simp: modify_many_def inv_modify lookup_modify)

lemma inv_remove_many: "inv m \<Longrightarrow> inv (remove_many ns m)"
  by (induction ns arbitrary: m) (auto simp: remove_many_def inv_remove)

lemma lookup_remove_many:
  "inv m \<Longrightarrow> lookup (remove_many ns m) k = (if k \<in> set ns then None else lookup m k)"
  by (induction ns arbitrary: m) (auto simp: remove_many_def inv_remove lookup_remove)

lemma names_remove_many:
  "inv m \<Longrightarrow> names (remove_many ns m) = filter (\<lambda>k. k \<notin> set ns) (names m)"
  by (induction ns arbitrary: m)
     (auto simp: remove_many_def inv_remove names_remove intro!: filter_cong)

lemma lookup_in_names: "inv m \<Longrightarrow> lookup m n = Some c \<Longrightarrow> n \<in> set (names m)"
  by (simp add: set_names)

end

definition keeps_name :: "(supervisee \<Rightarrow> supervisee \<times> 'r) \<Rightarrow> bool" where
  "keeps_name f \<longleftrightarrow> (\<forall>sv. sv_name (fst (f sv)) = sv_name sv)"

lemma keeps_name_ops [simp]:
  "keeps_name start" "keeps_name stop" "keeps_name (acquire_restart_permit now)" "keeps_name (supervise r)"
  by (simp_all add: keeps_name_def)

lemma sm_names_modify:
  "sm_wf sm \<Longrightarrow> keeps_name f \<Longrightarrow> sm_names (fst (sm_modify n f sm)) = sm_names sm"
  by (auto simp: sm_names_lookup sm_wf_modify keeps_name_def sm_get_modify intro!: filter_cong)

lemma sm_names_remove:
  "sm_wf sm \<Longrightarrow> sm_names (fst (sm_remove n sm)) = filter (\<lambda>k. k \<noteq> n) (sm_names sm)"
  by (auto simp: sm_names_lookup sm_wf_remove sm_get_remove intro!: filter_cong)

interpretation sm: child_store sm_wf sm_get sm_names sm_modify sm_remove keeps_name
  by unfold_locales
     (auto simp: sm_wf_modify keeps_name_def sm_get_modify sm_names_modify sm_wf_remove
       sm_get_remove sm_names_remove set_sm_names)

lemma sm_names_put:
  "sm_wf sm \<Longrightarrow> sm_names (put_supervisee sv sm) =
    filter (\<lambda>n. n = sv_name sv \<or> sm_get sm n \<noteq> None) (iset_insert (sv_name sv) (order sm))"
  by (auto simp: sm_names_lookup sm_wf_put sm_get_put put_supervisee_simps intro!: filter_cong)

lemma sm_wf_new: "(\<And>ts. a ts \<notin> set ts) \<Longrightarrow> sm_wf (sm_new a specs)"
proof -
  assume a: "\<And>ts. a ts \<notin> set ts"
  have "sm_wf (fold (\<lambda>sp. put_supervisee (supervisee_new sp)) specs sm)" if "sm_wf sm" for sm
    using that by (induction specs arbitrary: sm) (auto simp: sm_wf_put)
  then show ?thesis using sm_wf_empty [OF a] by (simp add: sm_new_def)
qed

lemma sm_wf_add: "sm_wf sm \<Longrightarrow> sm_wf (fst (sm_add sv sm))"
  by (simp add: sm_add_def sm_wf_put)

lemma sm_get_add:
  "sm_wf sm \<Longrightarrow> sm_get (fst (sm_add sv sm)) k =
    (if k = sv_name sv \<and> sm_get sm k = None then Some sv else sm_get sm k)"
  by (auto simp: sm_add_def sm_get_put sm_get_None_iff)

section \<open>Properties\<close>

text \<open>The map keeps the start order of the children: a removal closes the gap, a name that was never
  registered goes to the end, a duplicate is refused without an effect, and a child that is
  registered again after its removal takes the place it had.\<close>

theorem supervisee_map_keeps_start_order:
  assumes "sm_wf sm"
  shows "sm_names (fst (sm_remove n sm)) = filter (\<lambda>k. k \<noteq> n) (sm_names sm)
    \<and> (sv_name sv \<notin> set (order sm) \<longrightarrow>
        sm_names (fst (sm_add sv sm)) = sm_names sm @ [sv_name sv])
    \<and> (sm_get sm (sv_name sv) \<noteq> None \<longrightarrow>
        sm_add sv sm = (sm, Inl (DuplicateNameError (sv_name sv))) \<and>
        sm_names (fst (sm_add sv (fst (sm_remove (sv_name sv) sm)))) = sm_names sm)"
proof (intro conjI impI)
  show "sm_names (fst (sm_remove n sm)) = filter (\<lambda>k. k \<noteq> n) (sm_names sm)"
    using assms by (rule sm_names_remove)
next
  assume n: "sv_name sv \<notin> set (order sm)"
  then have "token_of (sv_name sv) sm = None"
    using token_of_in_order by (cases "token_of (sv_name sv) sm") auto
  then show "sm_names (fst (sm_add sv sm)) = sm_names sm @ [sv_name sv]"
    using n assms
    by (auto simp: sm_add_def sm_names_put iset_insert_def sm_names_lookup intro!: filter_cong)
next
  assume n: "sm_get sm (sv_name sv) \<noteq> None"
  then show "sm_add sv sm = (sm, Inl (DuplicateNameError (sv_name sv)))"
    using assms by (simp add: sm_add_def sm_get_None_iff)
  have "sv_name sv \<in> set (order sm)" using n sm_get_in_order by fastforce
  then show "sm_names (fst (sm_add sv (fst (sm_remove (sv_name sv) sm)))) = sm_names sm"
    using n assms
    by (auto simp: sm_add_def sm_names_put sm_wf_remove iset_insert_def sm_names_lookup sm_get_remove
        intro!: filter_cong)
qed

definition example_spec :: "name \<Rightarrow> restart_mode \<Rightarrow> child_spec" where
  "example_spec n m =
     \<lparr>spec_name = n,
      spec_cfg = \<lparr>restart_mode = m, cfg_intensity = None, abort_timeout = 5, init_timeout = 5,
        start_timeout = 5\<rparr>,
      spec_blueprint = 0\<rparr>"

definition next_token :: "nat list \<Rightarrow> nat" where
  "next_token ts = Suc (sum_list ts)"

lemma next_token_fresh: "next_token ts \<notin> set ts"
  using member_le_sum_list [of "next_token ts" ts] by (auto simp: next_token_def)

definition example_map :: supervisee_map where
  "example_map = sm_new next_token [example_spec ''a'' Always, example_spec ''b'' Never]"

lemma sm_wf_example_map: "sm_wf example_map"
  unfolding example_map_def by (rule sm_wf_new) (rule next_token_fresh)

theorem supervisee_map_keeps_start_order_witness:
  "sm_names (fst (sm_remove ''b'' example_map)) = filter (\<lambda>k. k \<noteq> ''b'') (sm_names example_map)"
  using supervisee_map_keeps_start_order [OF sm_wf_example_map] by blast

end
