(* ===== verification/Supervisor.thy ===== *)
theory Supervisor
  imports Supervisee_Map Inbox
begin

text \<open>
  What all supervision strategies share (\<open>supervisor/src/actor/mod.rs\<close> and \<open>runner.rs\<close>): the inner
  state of a supervisor and the event loop. A strategy is the record of the operations of the
  \<open>Strategy\<close> trait; the loop is defined once over it.

  An event is what the supervisor's \<open>select!\<close> gives it, with the moment it is handled at; a
  child's event is the completion of one of its futures. A panic is \<open>None\<close>.
\<close>

section \<open>The shared state\<close>

record supervisor_inner =
  kids :: supervisee_map
  ibox :: "unit inbox"
  inner_restarter :: restart_limiter

definition inner_is_initializing :: "supervisor_inner \<Rightarrow> bool" where
  "inner_is_initializing si \<longleftrightarrow> inbox_status (ibox si) = Initializing"

definition inner_is_exiting :: "supervisor_inner \<Rightarrow> bool" where
  "inner_is_exiting si \<longleftrightarrow> inbox_status (ibox si) = Exiting"

definition inner_add_spec ::
    "child_spec \<Rightarrow> supervisor_inner \<Rightarrow> (supervisor_inner \<times> (duplicate_name_error + unit)) option" where
  "inner_add_spec sp si =
     (if inner_is_exiting si then Some (si, Inr ())
      else case sm_add (supervisee_new sp) (kids si) of
        (sm, Inl e) \<Rightarrow> Some (si\<lparr>kids := sm\<rparr>, Inl e)
      | (sm, Inr _) \<Rightarrow>
          (case sm_modify (spec_name sp) start sm of
             (sm', Some (Inr _)) \<Rightarrow> Some (si\<lparr>kids := sm'\<rparr>, Inr ())
           | _ \<Rightarrow> None))"

definition register_inner_exiting :: "supervisor_inner \<Rightarrow> supervisor_inner" where
  "register_inner_exiting si = si\<lparr>ibox := fst (inbox_register_exiting (ibox si))\<rparr>"

definition inner_shutdown ::
    "name list \<Rightarrow> supervisor_inner \<Rightarrow> supervisor_inner \<times> name list \<times> control_flow" where
  "inner_shutdown exiting si =
     (let si = register_inner_exiting si;
          (sm, ns) = stop_all (kids si);
          exiting = iset_extend ns exiting
      in (si\<lparr>kids := sm\<rparr>, exiting, if exiting = [] then Break else Continue))"

definition inner_handle_initialized ::
    "name \<Rightarrow> name list \<Rightarrow> supervisor_inner \<Rightarrow> supervisor_inner \<times> name list" where
  "inner_handle_initialized n initializing si =
     (let (was, initializing) = iset_swap_remove n initializing
      in (if was \<and> inner_is_initializing si \<and> initializing = []
          then si\<lparr>ibox := fst (inbox_register_initialized (ibox si))\<rparr> else si,
          initializing))"

definition inner_remove_spec ::
    "name \<Rightarrow> name list \<Rightarrow> name list \<Rightarrow> supervisor_inner \<Rightarrow>
     supervisor_inner \<times> name list \<times> name list \<times> supervisee option" where
  "inner_remove_spec n initializing exiting si =
     (case sm_remove n (kids si) of
        (sm, None) \<Rightarrow> (si\<lparr>kids := sm\<rparr>, initializing, exiting, None)
      | (sm, Some sv) \<Rightarrow>
          (si\<lparr>kids := sm\<rparr>, snd (iset_swap_remove n initializing), snd (iset_swap_remove n exiting),
           Some sv))"

definition inner_acquire_permit :: "instant \<Rightarrow> supervisor_inner \<Rightarrow> supervisor_inner \<times> bool" where
  "inner_acquire_permit now si =
     (let (rl, b) = acquire_permit now (inner_restarter si) in (si\<lparr>inner_restarter := rl\<rparr>, b))"

text \<open>An operation on one child; \<open>None\<close> when there is no such child.\<close>

definition on_child ::
    "name \<Rightarrow> (supervisee \<Rightarrow> supervisee \<times> 'r) \<Rightarrow> supervisor_inner \<Rightarrow> supervisor_inner \<times> 'r option" where
  "on_child n f si = (let (sm, r) = sm_modify n f (kids si) in (si\<lparr>kids := sm\<rparr>, r))"

definition child_of :: "supervisor_inner \<Rightarrow> name \<Rightarrow> supervisee option" where
  "child_of si n = sm_get (kids si) n"

section \<open>The event loop\<close>

datatype health_status = Healthy | Degraded | Unhealthy

datatype supervisor_message =
  MsgChildren | MsgHealth | MsgRegister child_spec | MsgDeregister name

datatype supervisor_reply =
  ReplyChildren "child_description list"
| ReplyHealth health_status
| ReplyRegister "duplicate_name_error + unit"
| ReplyDeregister "child_description option"
| NoReply

datatype source_event = Added child_spec | Removed name

datatype inner_next =
  NextSignal Actor_Status.signal
| NextMessage supervisor_message
| NextSource source_event
| NextSupervisee supervisee_next

record 's strategy =
  parts_inner :: "'s \<Rightarrow> supervisor_inner"
  set_inner :: "supervisor_inner \<Rightarrow> 's \<Rightarrow> 's"
  parts_initializing :: "'s \<Rightarrow> name list"
  set_initializing :: "name list \<Rightarrow> 's \<Rightarrow> 's"
  handle_exit :: "instant \<Rightarrow> name \<Rightarrow> exit_reason \<Rightarrow> 's \<Rightarrow> ('s \<times> control_flow) option"
  shutdown :: "'s \<Rightarrow> ('s \<times> control_flow) option"
  remove_spec :: "instant \<Rightarrow> name \<Rightarrow> 's \<Rightarrow> ('s \<times> supervisee option) option"
  after_initialized :: "instant \<Rightarrow> name \<Rightarrow> 's \<Rightarrow> ('s \<times> control_flow) option"

definition strategy_add_spec ::
    "'s strategy \<Rightarrow> child_spec \<Rightarrow> 's \<Rightarrow> ('s \<times> (duplicate_name_error + unit)) option" where
  "strategy_add_spec S sp s =
     map_option (\<lambda>(si, r). (set_inner S si s, r)) (inner_add_spec sp (parts_inner S s))"

definition strategy_handle_initialized :: "'s strategy \<Rightarrow> name \<Rightarrow> 's \<Rightarrow> 's" where
  "strategy_handle_initialized S n s =
     (let (si, ini) = inner_handle_initialized n (parts_initializing S s) (parts_inner S s)
      in set_initializing S ini (set_inner S si s))"

definition health :: "supervisor_inner \<Rightarrow> health_status" where
  "health si = Healthy"

fun handle_message ::
    "'s strategy \<Rightarrow> instant \<Rightarrow> supervisor_message \<Rightarrow> 's \<Rightarrow> ('s \<times> supervisor_reply) option" where
  "handle_message S now MsgChildren s =
     Some (s, ReplyChildren (child_descriptions (kids (parts_inner S s))))"
| "handle_message S now MsgHealth s = Some (s, ReplyHealth (health (parts_inner S s)))"
| "handle_message S now (MsgRegister sp) s =
     map_option (\<lambda>(s', r). (s', ReplyRegister r)) (strategy_add_spec S sp s)"
| "handle_message S now (MsgDeregister n) s =
     map_option (\<lambda>(s', r). (s', ReplyDeregister (map_option get_description r))) (remove_spec S now n s)"

fun handle_item ::
    "'s strategy \<Rightarrow> instant \<Rightarrow> name \<Rightarrow> supervisee_item \<Rightarrow> 's \<Rightarrow> ('s \<times> control_flow) option" where
  "handle_item S now n (Started (Inr _)) s = Some (s, Continue)"
| "handle_item S now n (Started (Inl _)) s = handle_exit S now n StartFailure s"
| "handle_item S now n (Initialized (Inr _)) s =
     after_initialized S now n (strategy_handle_initialized S n s)"
| "handle_item S now n (Initialized (Inl st)) s = handle_exit S now n (InitExit st) s"
| "handle_item S now n (Exit e) s = handle_exit S now n (ExitedWith e) s"

fun handle_next ::
    "'s strategy \<Rightarrow> instant \<Rightarrow> inner_next \<Rightarrow> 's \<Rightarrow> ('s \<times> supervisor_reply \<times> control_flow) option" where
  "handle_next S now (NextSignal sig) s =
     (if sig = Shutdown then map_option (\<lambda>(s', c). (s', NoReply, c)) (shutdown S s)
      else Some (s, NoReply, Continue))"
| "handle_next S now (NextMessage m) s =
     map_option (\<lambda>(s', r). (s', r, Continue)) (handle_message S now m s)"
| "handle_next S now (NextSource (Added sp)) s =
     map_option (\<lambda>(s', _). (s', NoReply, Continue)) (strategy_add_spec S sp s)"
| "handle_next S now (NextSource (Removed n)) s =
     map_option (\<lambda>(s', _). (s', NoReply, Continue)) (remove_spec S now n s)"
| "handle_next S now (NextSupervisee nx) s =
     map_option (\<lambda>(s', c). (s', NoReply, c)) (handle_item S now (next_name nx) (next_item nx) s)"

definition strategy_start ::
    "'s strategy \<Rightarrow> 's \<Rightarrow> ('s \<times> ((name \<times> supervisee_is_shutting_down) + unit) \<times> control_flow) option" where
  "strategy_start S s =
     (let si = parts_inner S s;
          (sm, r) = start_all (kids si);
          s = set_initializing S (sm_names sm) (set_inner S (si\<lparr>kids := sm\<rparr>) s)
      in case r of
           Inr _ \<Rightarrow> Some (s, r, Continue)
         | Inl _ \<Rightarrow> map_option (\<lambda>(s', c). (s', r, c)) (shutdown S s))"

text \<open>
  One turn of the loop: a signal or message from the inbox, an event of the source, or the completion of
  a child's future, which reaches the loop only if the child's state waits for it.
\<close>

datatype supervisor_event =
  EvSignal Actor_Status.signal
| EvMessage supervisor_message
| EvSource source_event
| EvChild name future_result

fun supervisor_turn ::
    "'s strategy \<Rightarrow> instant \<times> supervisor_event \<Rightarrow> 's \<Rightarrow> ('s \<times> supervisor_reply \<times> control_flow) option" where
  "supervisor_turn S (now, EvSignal sig) s = handle_next S now (NextSignal sig) s"
| "supervisor_turn S (now, EvMessage m) s = handle_next S now (NextMessage m) s"
| "supervisor_turn S (now, EvSource e) s = handle_next S now (NextSource e) s"
| "supervisor_turn S (now, EvChild n r) s =
     (case sm_poll n r (kids (parts_inner S s)) of
        (sm, Ready nx) \<Rightarrow>
          handle_next S now (NextSupervisee nx) (set_inner S ((parts_inner S s)\<lparr>kids := sm\<rparr>) s)
      | (sm, Pending) \<Rightarrow> Some (s, NoReply, Continue))"

fun supervisor_loop ::
    "'s strategy \<Rightarrow> (instant \<times> supervisor_event) list \<Rightarrow> 's \<Rightarrow> ('s \<times> control_flow) option" where
  "supervisor_loop S [] s = Some (s, Continue)"
| "supervisor_loop S (e # es) s =
     (case supervisor_turn S e s of
        None \<Rightarrow> None
      | Some (s', _, Break) \<Rightarrow> Some (s', Break)
      | Some (s', _, Continue) \<Rightarrow> supervisor_loop S es s')"

definition supervisor_run ::
    "'s strategy \<Rightarrow> (instant \<times> supervisor_event) list \<Rightarrow> 's \<Rightarrow> ('s \<times> control_flow) option" where
  "supervisor_run S es s =
     (case strategy_start S s of
        None \<Rightarrow> None
      | Some (s', _, Break) \<Rightarrow> Some (s', Break)
      | Some (s', _, Continue) \<Rightarrow> supervisor_loop S es s')"

text \<open>Before the loop the children of the source are added; one it already has is an error.\<close>

fun load_specs :: "child_spec list \<Rightarrow> supervisor_inner \<Rightarrow> supervisor_inner \<times> (duplicate_name_error + unit)" where
  "load_specs [] si = (si, Inr ())"
| "load_specs (sp # sps) si =
     (case sm_add (supervisee_new sp) (kids si) of
        (sm, Inl e) \<Rightarrow> (si\<lparr>kids := sm\<rparr>, Inl e)
      | (sm, Inr _) \<Rightarrow> load_specs sps (si\<lparr>kids := sm\<rparr>))"

definition inner_prepare ::
    "child_spec list \<Rightarrow> supervisor_inner \<Rightarrow> supervisor_inner \<times> (duplicate_name_error + unit)" where
  "inner_prepare sps si = load_specs sps (si\<lparr>ibox := fst (set_manual_init (ibox si))\<rparr>)"

section \<open>Facts about the shared state\<close>

definition inner_wf :: "supervisor_inner \<Rightarrow> bool" where
  "inner_wf si \<longleftrightarrow> sm_wf (kids si) \<and> \<not> is_dead (inbox_status (ibox si))"

text \<open>
  The children waited for, \<open>W\<close>, are those that owe an exit event, except the ones in \<open>X\<close> whose event
  has just been taken.
\<close>

definition tracked :: "name set \<Rightarrow> name set \<Rightarrow> supervisor_inner \<Rightarrow> bool" where
  "tracked X W si \<longleftrightarrow>
     inner_wf si \<and> (\<forall>n\<in>W - X. still_owes (kids si) n) \<and> (\<forall>n. still_owes (kids si) n \<longrightarrow> n \<in> W)"

definition quiet :: "supervisor_inner \<Rightarrow> bool" where
  "quiet si \<longleftrightarrow> (\<forall>n sv. child_of si n = Some sv \<longrightarrow> state sv = Dead \<or> owes_exit (state sv))"

definition all_dead :: "supervisor_inner \<Rightarrow> bool" where
  "all_dead si \<longleftrightarrow> (\<forall>n sv. child_of si n = Some sv \<longrightarrow> state sv = Dead)"

lemma quiet_all_dead: "quiet si \<Longrightarrow> tracked X {} si \<Longrightarrow> all_dead si"
  by (auto simp: quiet_def all_dead_def tracked_def still_owes_def child_of_def)

lemma child_of_None_owes: "child_of si n = None \<Longrightarrow> \<not> still_owes (kids si) n"
  by (simp add: still_owes_def child_of_def)

lemma all_dead_quiet: "all_dead si \<Longrightarrow> quiet si"
  by (auto simp: quiet_def all_dead_def)

lemma inbox_status_register_exiting [simp]:
  "inbox_status (fst (inbox_register_exiting ib)) =
     (if is_dead (inbox_status ib) then inbox_status ib else Exiting)"
  by (cases "status (channel ib)")
     (simp_all add: inbox_register_exiting_def register_exiting_def update_status_def)

lemma inbox_status_register_initialized:
  "inbox_status (fst (inbox_register_initialized ib)) =
     (if inbox_status ib = Initializing \<and> init ib \<noteq> Completed then Running else inbox_status ib)"
  by (cases "status (channel ib)")
     (auto simp: inbox_register_initialized_def init_completed_def register_initialized_def
       update_status_def)

lemma register_inner_exiting_simps [simp]:
  "kids (register_inner_exiting si) = kids si"
  "inner_restarter (register_inner_exiting si) = inner_restarter si"
  "child_of (register_inner_exiting si) n = child_of si n"
  "inbox_status (ibox (register_inner_exiting si)) =
     (if is_dead (inbox_status (ibox si)) then inbox_status (ibox si) else Exiting)"
  by (simp_all add: register_inner_exiting_def child_of_def)

lemma inner_wf_register_exiting [simp]: "inner_wf (register_inner_exiting si) = inner_wf si"
  by (simp add: inner_wf_def)

lemma register_exiting_is_exiting: "inner_wf si \<Longrightarrow> inner_is_exiting (register_inner_exiting si)"
  by (simp add: inner_wf_def inner_is_exiting_def)

text \<open>An operation on one child.\<close>

lemma on_child_simps [simp]:
  "ibox (fst (on_child n f si)) = ibox si"
  "inner_restarter (fst (on_child n f si)) = inner_restarter si"
  "kids (fst (on_child n f si)) = fst (sm_modify n f (kids si))"
  "snd (on_child n f si) = map_option (snd \<circ> f) (child_of si n)"
  using snd_sm_modify [of n f "kids si"]
  by (cases "sm_modify n f (kids si)"; simp add: on_child_def child_of_def)+

lemma child_of_on_child:
  "inner_wf si \<Longrightarrow> child_of (fst (on_child n f si)) k =
    (if k = n then map_option (fst \<circ> f) (child_of si n) else child_of si k)"
  by (simp add: child_of_def inner_wf_def sm.lookup_modify)

lemma inner_wf_on_child: "inner_wf si \<Longrightarrow> keeps_name f \<Longrightarrow> inner_wf (fst (on_child n f si))"
  by (simp add: inner_wf_def sm.inv_modify)

lemma inner_is_on_child [simp]:
  "inner_is_exiting (fst (on_child n f si)) = inner_is_exiting si"
  "inner_is_initializing (fst (on_child n f si)) = inner_is_initializing si"
  by (simp_all add: inner_is_exiting_def inner_is_initializing_def)

lemma inner_acquire_permit_simps [simp]:
  "kids (fst (inner_acquire_permit now si)) = kids si"
  "ibox (fst (inner_acquire_permit now si)) = ibox si"
  "child_of (fst (inner_acquire_permit now si)) n = child_of si n"
  "inner_wf (fst (inner_acquire_permit now si)) = inner_wf si"
  "inner_is_exiting (fst (inner_acquire_permit now si)) = inner_is_exiting si"
  by (cases "acquire_permit now (inner_restarter si)";
      simp add: inner_acquire_permit_def child_of_def inner_wf_def inner_is_exiting_def)+

text \<open>Two states that differ in nothing the tracking looks at.\<close>

definition same_states :: "supervisor_inner \<Rightarrow> supervisor_inner \<Rightarrow> bool" where
  "same_states si si' \<longleftrightarrow>
     ibox si' = ibox si \<and> (inner_wf si \<longrightarrow> inner_wf si') \<and>
     (\<forall>n. map_option state (child_of si' n) = map_option state (child_of si n))"

lemma same_states_refl [simp]: "same_states si si"
  by (simp add: same_states_def)

lemma same_states_trans: "same_states a b \<Longrightarrow> same_states b c \<Longrightarrow> same_states a c"
  by (auto simp: same_states_def)

lemma same_statesD:
  "same_states si si' \<Longrightarrow> map_option state (child_of si' n) = map_option state (child_of si n)"
  by (simp add: same_states_def)

lemma same_states_owes: "same_states si si' \<Longrightarrow> still_owes (kids si') n = still_owes (kids si) n"
  using same_statesD [of si si' n]
  by (cases "child_of si n"; cases "child_of si' n") (auto simp: still_owes_def child_of_def)

lemma same_states_tracked: "same_states si si' \<Longrightarrow> tracked X W si \<Longrightarrow> tracked X W si'"
  unfolding tracked_def by (simp add: same_states_owes) (simp add: same_states_def)

lemma same_states_quiet:
  assumes "same_states si si'" "quiet si"
  shows "quiet si'"
  unfolding quiet_def
proof (intro allI impI)
  fix n sv assume "child_of si' n = Some sv"
  then obtain sv0 where "child_of si n = Some sv0" "state sv0 = state sv"
    using same_statesD [OF assms(1), of n] by (cases "child_of si n") auto
  then show "state sv = Dead \<or> owes_exit (state sv)"
    using assms(2) by (force simp: quiet_def)
qed

lemma same_states_exiting: "same_states si si' \<Longrightarrow> inner_is_exiting si' = inner_is_exiting si"
  by (simp add: same_states_def inner_is_exiting_def)

lemma same_states_acquire_permit [simp]: "same_states si (fst (inner_acquire_permit now si))"
  by (simp add: same_states_def)

lemma same_states_child_permit:
  "inner_wf si \<Longrightarrow> same_states si (fst (on_child n (acquire_restart_permit now) si))"
  by (cases "child_of si n") (auto simp: same_states_def child_of_on_child inner_wf_on_child)

section \<open>Stopping, removing, adding\<close>

lemma inner_shutdown_spec:
  fixes exiting
  assumes "inner_wf si"
  defines "r \<equiv> inner_shutdown exiting si"
  shows "inner_wf (fst r)" "inner_is_exiting (fst r)" "quiet (fst r)"
    "child_of (fst r) n = map_option (fst \<circ> stop) (child_of si n)"
    "set (fst (snd r)) = {n. still_owes (kids (fst r)) n} \<union> set exiting"
    "distinct (fst (snd r)) = distinct exiting"
    "snd (snd r) = Break \<longleftrightarrow> fst (snd r) = []"
proof -
  have wf: "sm_wf (kids si)" using assms(1) by (simp add: inner_wf_def)
  note spec = stop_all_spec [OF wf]
  have r: "r = ((register_inner_exiting si)\<lparr>kids := fst (stop_all (kids si))\<rparr>,
      iset_extend (snd (stop_all (kids si))) exiting,
      if iset_extend (snd (stop_all (kids si))) exiting = [] then Break else Continue)"
    by (simp add: r_def inner_shutdown_def Let_def split: prod.splits)
  show "inner_wf (fst r)" "inner_is_exiting (fst r)"
    using spec(1) assms(1) by (auto simp: r inner_wf_def inner_is_exiting_def)
  show get: "child_of (fst r) n = map_option (fst \<circ> stop) (child_of si n)" for n
    using spec(3) by (simp add: r child_of_def)
  show "quiet (fst r)"
    unfolding quiet_def get
    by (auto simp: stop_state owes_exit_def split: supervisee_state.splits)
  show "set (fst (snd r)) = {n. still_owes (kids (fst r)) n} \<union> set exiting"
    using spec(2,4) by (auto simp: r still_owes_def dest: sm_get_in_order)
  show "distinct (fst (snd r)) = distinct exiting"
    by (simp add: r)
  show "snd (snd r) = Break \<longleftrightarrow> fst (snd r) = []"
    by (simp add: r)
qed

lemma stop_keeps_owing: "still_owes (kids si) n \<Longrightarrow> inner_wf si \<Longrightarrow>
  still_owes (kids (fst (inner_shutdown exiting si))) n"
  using inner_shutdown_spec(4) [of si exiting n]
  by (auto simp: still_owes_def child_of_def stop_state owes_exit_def)

lemma tracked_inner_shutdown:
  assumes "inner_wf si" "\<forall>n\<in>set exiting. still_owes (kids si) n"
  shows "tracked {} (set (fst (snd (inner_shutdown exiting si)))) (fst (inner_shutdown exiting si))"
  using assms(2) inner_shutdown_spec(1,5) [OF assms(1), where exiting = exiting]
    stop_keeps_owing [OF _ assms(1)]
  by (auto simp: tracked_def)

lemma inner_remove_spec_eq:
  assumes "inner_wf si"
  shows "inner_remove_spec n initializing exiting si =
    (si\<lparr>kids := fst (sm_remove n (kids si))\<rparr>,
     if child_of si n = None then initializing else snd (iset_swap_remove n initializing),
     if child_of si n = None then exiting else snd (iset_swap_remove n exiting),
     child_of si n)"
proof -
  have "snd (sm_remove n (kids si)) = child_of si n" by (simp add: child_of_def)
  then show ?thesis
    by (cases "sm_remove n (kids si)") (auto simp: inner_remove_spec_def split: option.splits)
qed

lemma kids_removed:
  fixes n
  assumes "inner_wf si"
  defines "si' \<equiv> si\<lparr>kids := fst (sm_remove n (kids si))\<rparr>"
  shows "inner_wf si'" "child_of si' k = (if k = n then None else child_of si k)"
    "inner_is_exiting si' = inner_is_exiting si"
    "still_owes (kids si') k \<longleftrightarrow> k \<noteq> n \<and> still_owes (kids si) k" "ibox si' = ibox si"
  using assms(1) sm.lookup_remove [of "kids si" n]
  by (auto simp: si'_def inner_wf_def sm.inv_remove child_of_def inner_is_exiting_def still_owes_def)

lemma tracked_remove:
  "tracked X W si \<Longrightarrow> tracked X (W - {n}) (si\<lparr>kids := fst (sm_remove n (kids si))\<rparr>)"
  using kids_removed [of si n] by (auto simp: tracked_def)

lemma quiet_remove: "inner_wf si \<Longrightarrow> quiet si \<Longrightarrow> quiet (si\<lparr>kids := fst (sm_remove n (kids si))\<rparr>)"
  using kids_removed(2) [of si n] by (auto simp: quiet_def split: if_splits)

lemma inner_add_spec_total:
  assumes "inner_wf si"
  obtains si' r where "inner_add_spec sp si = Some (si', r)" "inner_wf si'" "ibox si' = ibox si"
    "inner_is_exiting si \<Longrightarrow> si' = si"
    "\<And>n. child_of si' n = child_of si n \<or>
       (n = spec_name sp \<and> child_of si n = None \<and> \<not> inner_is_exiting si \<and>
        child_of si' n = Some ((supervisee_new sp)\<lparr>state := Starting\<rparr>))"
proof (cases "inner_is_exiting si")
  case True
  then show ?thesis using assms that by (simp add: inner_add_spec_def)
next
  case False
  have wf: "sm_wf (kids si)" using assms by (simp add: inner_wf_def)
  let ?sv = "supervisee_new sp"
  show ?thesis
  proof (cases "sm_get (kids si) (spec_name sp)")
    case (Some sv)
    then have "sm_add ?sv (kids si) = (kids si, Inl (DuplicateNameError (spec_name sp)))"
      using wf by (simp add: sm_add_def sm_get_None_iff [symmetric])
    then show ?thesis using False assms that [of si "Inl (DuplicateNameError (spec_name sp))"]
      by (simp add: inner_add_spec_def)
  next
    case None
    let ?sm = "put_supervisee ?sv (kids si)"
    have add: "sm_add ?sv (kids si) = (?sm, Inr ())"
      using None wf by (simp add: sm_add_def sm_get_None_iff)
    have wf': "sm_wf ?sm" using wf by (rule sm_wf_put)
    have get: "sm_get ?sm k = (if k = spec_name sp then Some ?sv else sm_get (kids si) k)" for k
      using wf by (simp add: sm_get_put)
    have dead: "state ?sv = Dead" by (simp add: supervisee_new_def)
    obtain sm' where m: "sm_modify (spec_name sp) start ?sm = (sm', Some (Inr True))"
      using get [of "spec_name sp"] dead snd_sm_modify [of "spec_name sp" start ?sm]
      by (cases "sm_modify (spec_name sp) start ?sm") simp
    then have sm': "sm' = fst (sm_modify (spec_name sp) start ?sm)" by simp
    show ?thesis
    proof (rule that [of "si\<lparr>kids := sm'\<rparr>" "Inr ()"])
      show "inner_add_spec sp si = Some (si\<lparr>kids := sm'\<rparr>, Inr ())"
        unfolding inner_add_spec_def using False add m by simp
      show "inner_wf (si\<lparr>kids := sm'\<rparr>)"
        using assms wf' by (simp add: inner_wf_def sm' sm.inv_modify)
      show "child_of (si\<lparr>kids := sm'\<rparr>) n = child_of si n \<or>
       (n = spec_name sp \<and> child_of si n = None \<and> \<not> inner_is_exiting si \<and>
        child_of (si\<lparr>kids := sm'\<rparr>) n = Some (?sv\<lparr>state := Starting\<rparr>))" for n
        using wf' get None False dead by (simp add: sm' child_of_def sm.lookup_modify)
    qed (use False in auto)
  qed
qed

section \<open>A child's event\<close>

text \<open>The events after which the child goes on; after every other event it is dead.\<close>

fun goes_on :: "supervisee_item \<Rightarrow> bool" where
  "goes_on (Started (Inr _)) = True"
| "goes_on (Initialized (Inr _)) = True"
| "goes_on _ = False"

lemma supervise_Ready:
  "supervise r sv = (sv', Ready item) \<Longrightarrow>
   state sv \<noteq> Dead \<and>
   (if goes_on item then \<not> owes_exit (state sv) \<and> \<not> owes_exit (state sv') \<and> state sv' \<noteq> Dead
    else state sv' = Dead)"
  by (auto simp: supervise_def owes_exit_def
      split: supervisee_state.splits future_result.splits sum.splits)

lemma sm_poll_Ready:
  assumes "sm_wf sm" "sm_poll n r sm = (sm', Ready nx)"
  obtains sv sv' where "sm_get sm n = Some sv" "next_name nx = n"
    "supervise r sv = (sv', Ready (next_item nx))" "sm' = fst (sm_modify n (supervise r) sm)"
    "sm_get sm' n = Some sv'"
proof -
  obtain item where it: "sm_modify n (supervise r) sm = (sm', Some (Ready item))"
    "nx = \<lparr>next_name = n, next_item = item\<rparr>"
    using assms(2) by (auto simp: sm_poll_def split: prod.splits option.splits poll.splits)
  have "map_option (snd \<circ> supervise r) (sm_get sm n) = Some (Ready item)"
    using snd_sm_modify [of n "supervise r" sm] it by simp
  then obtain sv where *: "sm_get sm n = Some sv" "snd (supervise r sv) = Ready item"
    "nx = \<lparr>next_name = n, next_item = item\<rparr>" "sm' = fst (sm_modify n (supervise r) sm)"
    using it by auto
  then have "sm_get sm' n = Some (fst (supervise r sv))"
    using sm.lookup_modify [OF assms(1), of n "supervise r" n] by simp
  then show ?thesis using * that [of sv "fst (supervise r sv)"] by (simp add: prod_eq_iff)
qed

lemma polled_tracked:
  assumes "tracked {} W si" "sm_poll n r (kids si) = (sm', Ready nx)"
  defines "si' \<equiv> si\<lparr>kids := sm'\<rparr>"
  shows "next_name nx = n" "ibox si' = ibox si" "inner_is_exiting si' = inner_is_exiting si"
    "inner_wf si'" "k \<noteq> n \<Longrightarrow> child_of si' k = child_of si k"
    "goes_on (next_item nx) \<Longrightarrow> tracked {} W si' \<and> \<not> quiet si"
    "\<not> goes_on (next_item nx) \<Longrightarrow>
       tracked {n} W si' \<and> (\<exists>sv. child_of si' n = Some sv \<and> state sv = Dead) \<and> (quiet si \<longrightarrow> quiet si' \<and> n \<in> W)"
proof -
  have wf: "sm_wf (kids si)" "inner_wf si" using assms(1) by (auto simp: tracked_def inner_wf_def)
  from sm_poll_Ready [OF wf(1) assms(2)] obtain sv sv' where
    n: "sm_get (kids si) n = Some sv" "next_name nx = n"
       "supervise r sv = (sv', Ready (next_item nx))"
       "sm' = fst (sm_modify n (supervise r) (kids si))" "sm_get sm' n = Some sv'" .
  note st = supervise_Ready [OF n(3)]
  show "next_name nx = n" "ibox si' = ibox si" by (simp_all add: n si'_def)
  show "inner_is_exiting si' = inner_is_exiting si" by (simp add: si'_def inner_is_exiting_def)
  show wf': "inner_wf si'"
    using wf by (auto simp: si'_def n(4) inner_wf_def sm.inv_modify)
  have get: "child_of si' k = (if k = n then Some sv' else child_of si k)" for k
    using sm.lookup_modify [OF wf(1), of n "supervise r" k] n
    by (simp add: si'_def child_of_def)
  show "k \<noteq> n \<Longrightarrow> child_of si' k = child_of si k" by (simp add: get)
  have owes: "still_owes (kids si') k \<longleftrightarrow> (if k = n then owes_exit (state sv') else still_owes (kids si) k)"
    for k using get [of k] by (auto simp: still_owes_def child_of_def)
  have own: "still_owes (kids si) n \<longleftrightarrow> owes_exit (state sv)" using n by (auto simp: still_owes_def)
  have qw: "n \<in> W" if "quiet si"
    using that st n own assms(1) by (fastforce simp: quiet_def child_of_def tracked_def)
  show "goes_on (next_item nx) \<Longrightarrow> tracked {} W si' \<and> \<not> quiet si"
    using assms(1) wf' owes own st n by (auto simp: tracked_def quiet_def child_of_def split: if_splits)
  show "\<not> goes_on (next_item nx) \<Longrightarrow>
       tracked {n} W si' \<and> (\<exists>sv. child_of si' n = Some sv \<and> state sv = Dead) \<and> (quiet si \<longrightarrow> quiet si' \<and> n \<in> W)"
    using assms(1) wf' owes st get qw by (auto simp: tracked_def quiet_def owes_exit_def)
qed

lemma tracked_take: "tracked {n} W si \<Longrightarrow> \<not> still_owes (kids si) n \<Longrightarrow> tracked {} (W - {n}) si"
  unfolding tracked_def by blast

lemma tracked_taken: "tracked {n} W si \<Longrightarrow> n \<notin> W \<Longrightarrow> tracked {} W si"
  unfolding tracked_def by blast

lemma dead_owes_nothing:
  "(\<And>sv. child_of si n = Some sv \<Longrightarrow> state sv = Dead) \<Longrightarrow> \<not> still_owes (kids si) n"
  by (auto simp: still_owes_def child_of_def owes_exit_def)

fun exit_reason_of :: "supervisee_item \<Rightarrow> exit_reason" where
  "exit_reason_of (Initialized (Inl st)) = InitExit st"
| "exit_reason_of (Exit e) = ExitedWith e"
| "exit_reason_of _ = StartFailure"

lemma handle_item_dead:
  "\<not> goes_on item \<Longrightarrow> handle_item S now n item s = handle_exit S now n (exit_reason_of item) s"
  by (cases item rule: goes_on.cases) auto

lemma handle_item_goes_on:
  "goes_on item \<Longrightarrow> handle_item S now n item s =
    (case item of Started _ \<Rightarrow> Some (s, Continue)
     | _ \<Rightarrow> after_initialized S now n (strategy_handle_initialized S n s))"
  by (cases item rule: goes_on.cases) auto

lemma ibox_inner_add_spec: "inner_add_spec sp si = Some (si', r) \<Longrightarrow> ibox si' = ibox si"
  by (auto simp: inner_add_spec_def split: if_splits prod.splits sum.splits option.splits)

lemma inner_handle_initialized_nothing [simp]: "inner_handle_initialized n [] si = (si, [])"
  by (simp add: inner_handle_initialized_def)

section \<open>Stopping and starting one child\<close>

lemma tracked_stop:
  assumes "tracked {} W si" "child_of si n = Some sv"
  shows "tracked {} (if is_shutting_down (snd (stop sv)) then insert n W else W) (fst (on_child n stop si))"
proof -
  have wf: "inner_wf si" using assms(1) by (simp add: tracked_def)
  have own: "still_owes (kids si) n \<longleftrightarrow> owes_exit (state sv)"
    using assms(2) by (simp add: still_owes_def child_of_def)
  have keep: "owes_exit (state sv) \<Longrightarrow> is_shutting_down (snd (stop sv))"
    by (cases "state sv") (auto simp: stop_def is_shutting_down_def owes_exit_def)
  have owes: "still_owes (kids (fst (on_child n stop si))) k \<longleftrightarrow>
      (if k = n then is_shutting_down (snd (stop sv)) else still_owes (kids si) k)" for k
    using child_of_on_child [OF wf, of n stop k] assms(2)
    by (auto simp: still_owes_def child_of_def stop_outcome_iff)
  show ?thesis
    using assms(1) own keep inner_wf_on_child [OF wf, of stop n]
    by (auto simp: tracked_def owes simp del: on_child_simps(3))
qed

definition quiet_child :: "supervisor_inner \<Rightarrow> name \<Rightarrow> bool" where
  "quiet_child si n \<longleftrightarrow> (\<forall>sv. child_of si n = Some sv \<longrightarrow> state sv = Dead \<or> owes_exit (state sv))"

lemma quiet_iff: "quiet si \<longleftrightarrow> (\<forall>n. quiet_child si n)"
  by (simp add: quiet_def quiet_child_def)

lemma quiet_child_stop:
  assumes "inner_wf si" "k = n \<or> quiet_child si k"
  shows "quiet_child (fst (on_child n stop si)) k"
proof -
  have "state (fst (stop sv)) = Dead \<or> owes_exit (state (fst (stop sv)))" for sv
    by (cases "state sv") (auto simp: stop_def owes_exit_def)
  then show ?thesis using assms child_of_on_child [OF assms(1), of n stop k]
    by (auto simp: quiet_child_def)
qed

lemma quiet_child_same: "same_states si si' \<Longrightarrow> quiet_child si n \<Longrightarrow> quiet_child si' n"
  using same_statesD [of si si' n]
  by (cases "child_of si n"; cases "child_of si' n") (auto simp: quiet_child_def)

lemma polled_quiet_child:
  assumes "tracked {} W si" "sm_poll n r (kids si) = (sm', Ready nx)" "quiet_child si n"
  shows "n \<in> W \<and> \<not> goes_on (next_item nx)"
proof -
  have wf: "sm_wf (kids si)" using assms(1) by (auto simp: tracked_def inner_wf_def)
  from sm_poll_Ready [OF wf assms(2)] obtain sv sv' where
    n: "sm_get (kids si) n = Some sv" "supervise r sv = (sv', Ready (next_item nx))" by metis
  then have "state sv = Dead \<or> owes_exit (state sv)" using assms(3) by (auto simp: quiet_child_def child_of_def)
  then show ?thesis using supervise_Ready [OF n(2)] n(1) assms(1)
    by (auto simp: tracked_def still_owes_def split: if_splits)
qed

lemma polled_quiet_other:
  assumes "tracked {} W si" "sm_poll n r (kids si) = (sm', Ready nx)" "\<not> goes_on (next_item nx)"
    "k = n \<or> quiet_child si k"
  shows "quiet_child (si\<lparr>kids := sm'\<rparr>) k"
  using polled_tracked(5,7) [OF assms(1,2)] assms(3,4) by (cases "k = n") (auto simp: quiet_child_def)

section \<open>Registering a child and reaching Running\<close>

definition known :: "supervisor_inner \<Rightarrow> name \<Rightarrow> bool" where
  "known si n \<longleftrightarrow> child_of si n \<noteq> None"

lemma known_Some: "child_of si n = Some sv \<Longrightarrow> known si n"
  by (simp add: known_def)

lemma known_on_child: "inner_wf si \<Longrightarrow> known (fst (on_child n f si)) k = known si k"
  by (simp add: known_def child_of_on_child)

lemma known_same: "same_states si si' \<Longrightarrow> known si' n = known si n"
  using same_statesD [of si si' n] unfolding known_def by (metis option.map_disc_iff)

lemma known_removed:
  "inner_wf si \<Longrightarrow> known (si\<lparr>kids := fst (sm_remove n (kids si))\<rparr>) k \<longleftrightarrow> k \<noteq> n \<and> known si k"
  using kids_removed(2) [of si n k] by (simp add: known_def)

lemma known_polled:
  assumes "tracked {} W si" "sm_poll n r (kids si) = (sm', Ready nx)"
  shows "known (si\<lparr>kids := sm'\<rparr>) k = known si k"
proof -
  have wf: "sm_wf (kids si)" using assms(1) by (auto simp: tracked_def inner_wf_def)
  from sm_poll_Ready [OF wf assms(2)] have "sm' = fst (sm_modify n (supervise r) (kids si))" by metis
  then show ?thesis
    using sm.lookup_modify [OF wf, of n "supervise r" k] by (simp add: known_def child_of_def)
qed

lemma inner_add_spec_tracked:
  assumes "tracked X W si"
  obtains si' r where "inner_add_spec sp si = Some (si', r)" "tracked X W si'" "ibox si' = ibox si"
    "inner_is_exiting si' = inner_is_exiting si" "inner_is_exiting si \<Longrightarrow> si' = si"
    "\<And>n. child_of si n \<noteq> None \<Longrightarrow> child_of si' n = child_of si n"
proof -
  have wf: "inner_wf si" using assms by (simp add: tracked_def)
  obtain si' r where a: "inner_add_spec sp si = Some (si', r)" "inner_wf si'" "ibox si' = ibox si"
    "inner_is_exiting si \<Longrightarrow> si' = si"
    "\<And>n. child_of si' n = child_of si n \<or>
       (n = spec_name sp \<and> child_of si n = None \<and> \<not> inner_is_exiting si \<and>
        child_of si' n = Some ((supervisee_new sp)\<lparr>state := Starting\<rparr>))"
    using inner_add_spec_total [OF wf, of sp] by metis
  have owes: "still_owes (kids si') n \<longleftrightarrow> still_owes (kids si) n" for n
    using a(5) [of n] by (cases "child_of si n") (auto simp: still_owes_def child_of_def owes_exit_def)
  show ?thesis
  proof (rule that [OF a(1) _ a(3) _ a(4)])
    show "tracked X W si'" using assms a(2) owes by (simp add: tracked_def)
    show "inner_is_exiting si' = inner_is_exiting si" using a(3) by (simp add: inner_is_exiting_def)
    show "child_of si n \<noteq> None \<Longrightarrow> child_of si' n = child_of si n" for n using a(5) [of n] by auto
  qed
qed

lemma inner_handle_initialized_same:
  assumes "inner_wf si"
  shows "kids (fst (inner_handle_initialized n ini si)) = kids si"
    "inner_wf (fst (inner_handle_initialized n ini si))"
    "inner_is_exiting (fst (inner_handle_initialized n ini si)) = inner_is_exiting si"
  using assms
  by (auto simp: inner_handle_initialized_def Let_def inner_wf_def inner_is_exiting_def
      inner_is_initializing_def inbox_status_register_initialized split: prod.splits)

lemma tracked_kids:
  "kids si' = kids si \<Longrightarrow> inner_wf si' = inner_wf si \<Longrightarrow> tracked X W si' = tracked X W si"
  "kids si' = kids si \<Longrightarrow> quiet si' = quiet si"
  "kids si' = kids si \<Longrightarrow> quiet_child si' n = quiet_child si n"
  "kids si' = kids si \<Longrightarrow> child_of si' n = child_of si n"
  by (simp_all add: tracked_def quiet_def quiet_child_def child_of_def)

section \<open>The contract of a strategy\<close>

text \<open>
  What the event loop relies on. \<open>inv\<close> holds between two events, \<open>ended\<close> when an operation has asked the
  loop to end; a strategy that can panic says so with \<open>may_panic\<close>, and one that keeps the invariant
  when children are deregistered with \<open>removals\<close>. From the laws of the single operations the loop keeps the
  invariant over every sequence of events.
\<close>

fun is_removal :: "supervisor_event \<Rightarrow> bool" where
  "is_removal (EvMessage (MsgDeregister _)) = True"
| "is_removal (EvSource (Removed _)) = True"
| "is_removal _ = False"

locale supervision =
  fixes S :: "'s strategy"
    and inv :: "'s \<Rightarrow> bool"
    and ended :: "'s \<Rightarrow> bool"
    and may_panic :: bool
    and removals :: bool
    and good :: "('s \<times> control_flow) option \<Rightarrow> bool"
  assumes good_None: "good None \<longleftrightarrow> may_panic"
    and good_Some: "good (Some (s, c)) \<longleftrightarrow> inv s \<and> (c = Break \<longrightarrow> ended s)"
    and shutdown_good: "inv s \<Longrightarrow> good (shutdown S s)"
    and remove_good: "removals \<Longrightarrow> inv s \<Longrightarrow> good (map_option (\<lambda>(s', r). (s', Continue)) (remove_spec S now n s))"
    and add_good: "inv s \<Longrightarrow> good (map_option (\<lambda>(s', r). (s', Continue)) (strategy_add_spec S sp s))"
    and exit_good: "inv s \<Longrightarrow> sm_poll n r (kids (parts_inner S s)) = (sm, Ready nx) \<Longrightarrow>
        \<not> goes_on (next_item nx) \<Longrightarrow>
        good (handle_exit S now (next_name nx) (exit_reason_of (next_item nx))
                (set_inner S ((parts_inner S s)\<lparr>kids := sm\<rparr>) s))"
    and started_good: "inv s \<Longrightarrow> sm_poll n r (kids (parts_inner S s)) = (sm, Ready nx) \<Longrightarrow>
        goes_on (next_item nx) \<Longrightarrow> next_item nx = Started q \<Longrightarrow>
        inv (set_inner S ((parts_inner S s)\<lparr>kids := sm\<rparr>) s)"
    and initialized_good: "inv s \<Longrightarrow> sm_poll n r (kids (parts_inner S s)) = (sm, Ready nx) \<Longrightarrow>
        next_item nx = Initialized (Inr u) \<Longrightarrow>
        good (after_initialized S now (next_name nx) (strategy_handle_initialized S (next_name nx)
                (set_inner S ((parts_inner S s)\<lparr>kids := sm\<rparr>) s)))"
begin

definition drop_reply :: "('s \<times> supervisor_reply \<times> control_flow) option \<Rightarrow> ('s \<times> control_flow) option" where
  "drop_reply = map_option (\<lambda>(s, _, c). (s, c))"

lemma drop_reply_simps [simp]:
  "drop_reply None = None" "drop_reply (Some (s, rep, c)) = Some (s, c)"
  by (simp_all add: drop_reply_def)

lemma turn_good:
  assumes "inv s" "removals \<or> \<not> is_removal ev"
  shows "good (drop_reply (supervisor_turn S (now, ev) s))"
proof (cases ev)
  case (EvSignal sig)
  then show ?thesis using shutdown_good [OF assms(1)] assms
    by (cases "shutdown S s") (auto simp: good_None good_Some)
next
  case (EvMessage m)
  show ?thesis
  proof (cases m)
    case (MsgRegister sp)
    then show ?thesis using EvMessage add_good [OF assms(1), of sp]
      by (cases "strategy_add_spec S sp s") (auto simp: good_None good_Some)
  next
    case (MsgDeregister n)
    then show ?thesis using EvMessage remove_good [OF _ assms(1), of now n] assms(2)
      by (cases "remove_spec S now n s") (auto simp: good_None good_Some)
  qed (use EvMessage assms in \<open>auto simp: good_Some\<close>)
next
  case (EvSource e)
  show ?thesis
  proof (cases e)
    case (Added sp)
    then show ?thesis using EvSource add_good [OF assms(1), of sp]
      by (cases "strategy_add_spec S sp s") (auto simp: good_None good_Some)
  next
    case (Removed n)
    then show ?thesis using EvSource remove_good [OF _ assms(1), of now n] assms(2)
      by (cases "remove_spec S now n s") (auto simp: good_None good_Some)
  qed
next
  case (EvChild n r)
  obtain sm p where poll: "sm_poll n r (kids (parts_inner S s)) = (sm, p)" by fastforce
  show ?thesis
  proof (cases p)
    case Pending
    then show ?thesis using EvChild poll assms by (simp add: good_Some)
  next
    case (Ready nx)
    let ?s = "set_inner S ((parts_inner S s)\<lparr>kids := sm\<rparr>) s"
    have "good (handle_item S now (next_name nx) (next_item nx) ?s)"
    proof (cases "goes_on (next_item nx)")
      case True
      then show ?thesis
        using started_good [OF assms(1) poll [unfolded Ready] True]
          initialized_good [OF assms(1) poll [unfolded Ready]]
        by (cases "next_item nx" rule: goes_on.cases) (auto simp: good_Some)
    next
      case False
      then show ?thesis
        using exit_good [OF assms(1) poll [unfolded Ready] False] by (simp add: handle_item_dead)
    qed
    then show ?thesis using EvChild poll Ready
      by (cases "handle_item S now (next_name nx) (next_item nx) ?s") (auto simp: good_None)
  qed
qed

lemma loop_good:
  "inv s \<Longrightarrow> removals \<or> list_all (\<lambda>(_, ev). \<not> is_removal ev) es \<Longrightarrow> good (supervisor_loop S es s)"
proof (induction es arbitrary: s)
  case Nil
  then show ?case by (simp add: good_Some)
next
  case (Cons e es)
  obtain now ev where e: "e = (now, ev)" by fastforce
  have t: "good (drop_reply (supervisor_turn S e s))" using turn_good [OF Cons.prems(1), of ev now] Cons.prems(2) e by auto
  show ?case
  proof (cases "supervisor_turn S e s")
    case None
    then show ?thesis using t by (simp add: good_None)
  next
    case (Some x)
    obtain s1 rep c where "x = (s1, rep, c)" by (cases x)
    then show ?thesis using Some t Cons.IH [of s1] Cons.prems(2) by (cases c) (auto simp: good_Some)
  qed
qed

end

end
