(* ===== verification/One_For_One.thy ===== *)
theory One_For_One
  imports Supervisor
begin

text \<open>
  The one-for-one strategy (\<open>supervisor/src/actor/one_for_one.rs\<close>): only the child that exited is
  restarted. The invariant ties the set of children still waited for to their states; from it, a
  supervisor that ends leaves no task behind.
\<close>

record one_for_one =
  o_inner :: supervisor_inner
  o_initializing :: "name list"
  o_exiting :: "name list"

definition one_for_one_new :: "supervisor_inner \<Rightarrow> one_for_one" where
  "one_for_one_new si = \<lparr>o_inner = si, o_initializing = [], o_exiting = []\<rparr>"

definition ofo_shutdown :: "one_for_one \<Rightarrow> one_for_one \<times> control_flow" where
  "ofo_shutdown s =
     (let (si, ex, c) = inner_shutdown (o_exiting s) (o_inner s)
      in (s\<lparr>o_inner := si, o_exiting := ex\<rparr>, c))"

definition ofo_remove_spec :: "name \<Rightarrow> one_for_one \<Rightarrow> one_for_one \<times> supervisee option" where
  "ofo_remove_spec n s =
     (let (si, ini, ex, r) = inner_remove_spec n (o_initializing s) (o_exiting s) (o_inner s)
      in (s\<lparr>o_inner := si, o_initializing := ini, o_exiting := ex\<rparr>, r))"

text \<open>The supervisor's permit is asked first; the child's own limiter only when it was granted.\<close>

definition ofo_acquire_permits :: "instant \<Rightarrow> name \<Rightarrow> supervisor_inner \<Rightarrow> supervisor_inner \<times> bool" where
  "ofo_acquire_permits now n si =
     (case inner_acquire_permit now si of
        (si', False) \<Rightarrow> (si', False)
      | (si', True) \<Rightarrow>
          (case on_child n (acquire_restart_permit now) si' of
             (si'', Some b) \<Rightarrow> (si'', b)
           | (si'', None) \<Rightarrow> (si'', True)))"

definition ofo_handle_exit ::
    "instant \<Rightarrow> name \<Rightarrow> exit_reason \<Rightarrow> one_for_one \<Rightarrow> one_for_one \<times> control_flow" where
  "ofo_handle_exit now n reason s =
     (let (was, ex) = iset_swap_remove n (o_exiting s)
      in if was then (s\<lparr>o_exiting := ex\<rparr>, if ex = [] then Break else Continue)
         else case child_of (o_inner s) n of
           None \<Rightarrow> (s, Continue)
         | Some sv \<Rightarrow>
             if \<not> reason_requires_restart reason sv then (fst (ofo_remove_spec n s), Continue)
             else case ofo_acquire_permits now n (o_inner s) of
               (si, True) \<Rightarrow> (s\<lparr>o_inner := fst (on_child n start si)\<rparr>, Continue)
             | (si, False) \<Rightarrow> ofo_shutdown (s\<lparr>o_inner := si\<rparr>))"

definition OneForOneStrategy :: "one_for_one strategy" where
  "OneForOneStrategy =
     \<lparr>parts_inner = o_inner, set_inner = (\<lambda>si s. s\<lparr>o_inner := si\<rparr>),
      parts_initializing = o_initializing, set_initializing = (\<lambda>ini s. s\<lparr>o_initializing := ini\<rparr>),
      handle_exit = (\<lambda>now n r s. Some (ofo_handle_exit now n r s)),
      shutdown = (\<lambda>s. Some (ofo_shutdown s)),
      remove_spec = (\<lambda>now n s. Some (ofo_remove_spec n s)),
      after_initialized = (\<lambda>now n s. Some (s, Continue))\<rparr>"

section \<open>The invariant\<close>

definition ofo_inv :: "name set \<Rightarrow> one_for_one \<Rightarrow> bool" where
  "ofo_inv X s \<longleftrightarrow>
     distinct (o_exiting s) \<and> tracked X (set (o_exiting s)) (o_inner s) \<and>
     (inner_is_exiting (o_inner s) \<longrightarrow> quiet (o_inner s)) \<and>
     (\<not> inner_is_exiting (o_inner s) \<longrightarrow> o_exiting s = [])"

text \<open>What every operation guarantees: the invariant, and no task left when it ends the loop.\<close>

definition ofo_ok :: "one_for_one \<times> control_flow \<Rightarrow> bool" where
  "ofo_ok r \<longleftrightarrow> ofo_inv {} (fst r) \<and> (snd r = Break \<longrightarrow> all_dead (o_inner (fst r)))"

lemma ofo_inv_wf: "ofo_inv X s \<Longrightarrow> inner_wf (o_inner s)"
  by (simp add: ofo_inv_def tracked_def)

lemma ofo_inv_initializing [simp]: "ofo_inv X (s\<lparr>o_initializing := ini\<rparr>) = ofo_inv X s"
  by (simp add: ofo_inv_def)

lemma ofo_inv_ok: "ofo_inv {} s \<Longrightarrow> ofo_ok (s, Continue)"
  by (simp add: ofo_ok_def)

lemma ofo_shutdown_ok:
  assumes "ofo_inv {} s"
  shows "ofo_ok (ofo_shutdown s)"
proof -
  have wf: "inner_wf (o_inner s)" and tr: "tracked {} (set (o_exiting s)) (o_inner s)"
    using assms by (auto simp: ofo_inv_def tracked_def)
  note spec = inner_shutdown_spec [OF wf, where exiting = "o_exiting s"]
  have r: "ofo_shutdown s =
      (s\<lparr>o_inner := fst (inner_shutdown (o_exiting s) (o_inner s)),
         o_exiting := fst (snd (inner_shutdown (o_exiting s) (o_inner s)))\<rparr>,
       snd (snd (inner_shutdown (o_exiting s) (o_inner s))))"
    by (simp add: ofo_shutdown_def split: prod.splits)
  have tr': "tracked {} (set (fst (snd (inner_shutdown (o_exiting s) (o_inner s)))))
      (fst (inner_shutdown (o_exiting s) (o_inner s)))"
    using tr by (intro tracked_inner_shutdown [OF wf]) (simp add: tracked_def)
  have inv: "ofo_inv {} (fst (ofo_shutdown s))"
    using assms spec tr' by (simp add: r ofo_inv_def)
  moreover have "all_dead (o_inner (fst (ofo_shutdown s)))" if "snd (ofo_shutdown s) = Break"
    using that spec(3,7) tr' by (simp add: r quiet_all_dead)
  ultimately show ?thesis by (simp add: ofo_ok_def)
qed

lemma ofo_shutdown_exiting: "ofo_inv {} s \<Longrightarrow> inner_is_exiting (o_inner (fst (ofo_shutdown s)))"
  using inner_shutdown_spec(2) [OF ofo_inv_wf, where exiting = "o_exiting s"]
  by (simp add: ofo_shutdown_def split: prod.splits) (metis fst_conv)

lemma ofo_remove_spec_inv:
  assumes "ofo_inv X s"
  shows "ofo_inv X (fst (ofo_remove_spec n s))"
proof -
  have wf: "inner_wf (o_inner s)" using assms by (rule ofo_inv_wf)
  have "set (if child_of (o_inner s) n = None then o_exiting s else snd (iset_swap_remove n (o_exiting s)))
      = set (o_exiting s) - (if child_of (o_inner s) n = None then {} else {n})"
    using assms by (simp add: ofo_inv_def)
  then show ?thesis
    using assms kids_removed [OF wf, of n] tracked_remove [of X "set (o_exiting s)" "o_inner s" n]
      quiet_remove [OF wf, of n] child_of_None_owes [of "o_inner s" n]
    by (auto simp: ofo_remove_spec_def inner_remove_spec_eq [OF wf] ofo_inv_def tracked_def)
qed

lemma ofo_acquire_permits_same:
  assumes "inner_wf si"
  shows "same_states si (fst (ofo_acquire_permits now n si))"
proof -
  obtain si' b where p: "inner_acquire_permit now si = (si', b)" by fastforce
  have s1: "same_states si si'" using same_states_acquire_permit [of si now] p by simp
  then have "inner_wf si'" using assms by (simp add: same_states_def)
  from same_states_trans [OF s1 same_states_child_permit [OF this, of n now]]
  show ?thesis using p s1
    by (auto simp: ofo_acquire_permits_def split: bool.splits prod.splits option.splits)
qed

lemma ofo_inv_same:
  "ofo_inv X s \<Longrightarrow> same_states (o_inner s) si \<Longrightarrow> ofo_inv X (s\<lparr>o_inner := si\<rparr>)"
  by (auto simp: ofo_inv_def same_states_exiting intro: same_states_tracked same_states_quiet)

lemma start_same_owes:
  assumes "inner_wf si"
  shows "still_owes (kids (fst (on_child n start si))) k = still_owes (kids si) k"
proof -
  have "owes_exit (state (fst (start sv))) = owes_exit (state sv)" for sv
    by (cases "state sv") (simp_all add: start_def owes_exit_def)
  then show ?thesis using child_of_on_child [OF assms, of n start k]
    by (cases "child_of si n") (auto simp: still_owes_def child_of_def)
qed

lemma ofo_start_inv:
  assumes "ofo_inv {} s" "\<not> inner_is_exiting (o_inner s)"
  shows "ofo_inv {} (s\<lparr>o_inner := fst (on_child n start (o_inner s))\<rparr>)"
  using assms start_same_owes [OF ofo_inv_wf [OF assms(1)], of n]
    inner_wf_on_child [OF ofo_inv_wf [OF assms(1)], of start n]
  by (auto simp: ofo_inv_def tracked_def)

text \<open>The exit of a child, whose state is already dead.\<close>

lemma ofo_handle_exit_ok:
  assumes "ofo_inv {n} s" "\<And>sv. child_of (o_inner s) n = Some sv \<Longrightarrow> state sv = Dead"
    "inner_is_exiting (o_inner s) \<Longrightarrow> n \<in> set (o_exiting s)"
  shows "ofo_ok (ofo_handle_exit now n reason s)"
proof (cases "n \<in> set (o_exiting s)")
  case True
  let ?ex = "snd (iset_swap_remove n (o_exiting s))"
  have ex: "inner_is_exiting (o_inner s)" using True assms(1) by (auto simp: ofo_inv_def)
  have d: "distinct (o_exiting s)" and q: "quiet (o_inner s)"
    and tr: "tracked {n} (set (o_exiting s)) (o_inner s)"
    using assms(1) ex by (simp_all add: ofo_inv_def)
  have "tracked {} (set ?ex) (o_inner s)"
    using tracked_take [OF tr dead_owes_nothing] assms(2) d by simp
  then have inv: "ofo_inv {} (s\<lparr>o_exiting := ?ex\<rparr>)"
    using d q ex by (simp add: ofo_inv_def)
  have "all_dead (o_inner s)" if "?ex = []"
    using inv that ex by (auto simp: ofo_inv_def intro: quiet_all_dead)
  moreover have "ofo_handle_exit now n reason s =
      (s\<lparr>o_exiting := ?ex\<rparr>, if ?ex = [] then Break else Continue)"
    using True fst_iset_swap_remove [of n "o_exiting s"]
    by (cases "iset_swap_remove n (o_exiting s)") (simp add: ofo_handle_exit_def)
  ultimately show ?thesis using inv by (simp add: ofo_ok_def)
next
  case False
  then have nex: "\<not> inner_is_exiting (o_inner s)" using assms(3) by blast
  have inv: "ofo_inv {} s" using assms(1) False tracked_taken [of n "set (o_exiting s)" "o_inner s"]
    by (simp add: ofo_inv_def)
  obtain si b where p: "ofo_acquire_permits now n (o_inner s) = (si, b)" by fastforce
  have same: "same_states (o_inner s) si"
    using ofo_acquire_permits_same [OF ofo_inv_wf [OF inv], of now n] p by simp
  have inv': "ofo_inv {} (s\<lparr>o_inner := si\<rparr>)" using ofo_inv_same [OF inv same] .
  have "\<not> inner_is_exiting si" using nex same_states_exiting [OF same] by simp
  then have start: "ofo_ok (s\<lparr>o_inner := fst (on_child n start si)\<rparr>, Continue)"
    using ofo_start_inv [OF inv', of n] by (simp add: ofo_inv_ok)
  have eq: "ofo_handle_exit now n reason s =
    (case child_of (o_inner s) n of
       None \<Rightarrow> (s, Continue)
     | Some sv \<Rightarrow>
         if \<not> reason_requires_restart reason sv then (fst (ofo_remove_spec n s), Continue)
         else if b then (s\<lparr>o_inner := fst (on_child n start si)\<rparr>, Continue)
         else ofo_shutdown (s\<lparr>o_inner := si\<rparr>))"
    using False p by (simp add: ofo_handle_exit_def split: option.split bool.split)
  show ?thesis
    unfolding eq
    using start ofo_shutdown_ok [OF inv'] ofo_inv_ok [OF inv]
      ofo_inv_ok [OF ofo_remove_spec_inv [OF inv, of n]]
    by (simp split: option.split)
qed

lemma ofo_add_spec_inv:
  assumes "ofo_inv {} s"
  obtains s' r where "strategy_add_spec OneForOneStrategy sp s = Some (s', r)" "ofo_inv {} s'"
proof -
  have tr: "tracked {} (set (o_exiting s)) (o_inner s)" using assms by (simp add: ofo_inv_def)
  obtain si r where a: "inner_add_spec sp (o_inner s) = Some (si, r)"
    "tracked {} (set (o_exiting s)) si" "inner_is_exiting si = inner_is_exiting (o_inner s)"
    "inner_is_exiting (o_inner s) \<Longrightarrow> si = o_inner s"
    using inner_add_spec_tracked [OF tr, of sp] by metis
  have "ofo_inv {} (s\<lparr>o_inner := si\<rparr>)" using assms a(2,3,4) by (auto simp: ofo_inv_def)
  then show ?thesis using a(1) that
    by (simp add: strategy_add_spec_def OneForOneStrategy_def)
qed

lemma ofo_handle_initialized_inv:
  assumes "ofo_inv {} s"
  shows "ofo_inv {} (strategy_handle_initialized OneForOneStrategy n s)"
proof -
  let ?si = "fst (inner_handle_initialized n (o_initializing s) (o_inner s))"
  have "kids ?si = kids (o_inner s)" "inner_wf ?si" "inner_is_exiting ?si = inner_is_exiting (o_inner s)"
    using inner_handle_initialized_same [OF ofo_inv_wf [OF assms]] by auto
  then have "ofo_inv {} (s\<lparr>o_inner := ?si\<rparr>)"
    using assms by (simp add: ofo_inv_def tracked_def quiet_def child_of_def)
  then show ?thesis
    by (cases "inner_handle_initialized n (o_initializing s) (o_inner s)")
       (simp add: strategy_handle_initialized_def OneForOneStrategy_def)
qed

section \<open>The strategy keeps the contract\<close>

definition ofo_good :: "(one_for_one \<times> control_flow) option \<Rightarrow> bool" where
  "ofo_good r \<longleftrightarrow> (case r of None \<Rightarrow> False | Some x \<Rightarrow> ofo_ok x)"

lemma ofo_good_exit:
  assumes "ofo_inv {} s" "sm_poll n r (kids (o_inner s)) = (sm, Ready nx)" "\<not> goes_on (next_item nx)"
  shows "ofo_ok (ofo_handle_exit now (next_name nx) reason (s\<lparr>o_inner := (o_inner s)\<lparr>kids := sm\<rparr>\<rparr>))"
proof -
  have tr: "tracked {} (set (o_exiting s)) (o_inner s)" using assms(1) by (simp add: ofo_inv_def)
  note pt = polled_tracked [OF tr assms(2)]
  let ?s = "s\<lparr>o_inner := (o_inner s)\<lparr>kids := sm\<rparr>\<rparr>"
  have "ofo_inv {n} ?s" using assms pt(3,7) by (auto simp: ofo_inv_def)
  moreover have "inner_is_exiting (o_inner ?s) \<Longrightarrow> n \<in> set (o_exiting ?s)"
    using assms pt(3,7) by (auto simp: ofo_inv_def)
  ultimately show ?thesis
    using ofo_handle_exit_ok [of n ?s now reason] assms(3) pt(1,7) by auto
qed

lemma ofo_good_goes_on:
  assumes "ofo_inv {} s" "sm_poll n r (kids (o_inner s)) = (sm, Ready nx)" "goes_on (next_item nx)"
  shows "ofo_inv {} (s\<lparr>o_inner := (o_inner s)\<lparr>kids := sm\<rparr>\<rparr>)"
proof -
  have tr: "tracked {} (set (o_exiting s)) (o_inner s)" using assms(1) by (simp add: ofo_inv_def)
  show ?thesis using assms polled_tracked(3,6) [OF tr assms(2)] by (auto simp: ofo_inv_def)
qed

interpretation ofo: supervision OneForOneStrategy "ofo_inv {}" "\<lambda>s. all_dead (o_inner s)" False True ofo_good
proof (unfold_locales, goal_cases)
  case (3 s)
  then show ?case using ofo_shutdown_ok by (simp add: ofo_good_def OneForOneStrategy_def)
next
  case (4 s now n)
  then show ?case using ofo_inv_ok [OF ofo_remove_spec_inv [of "{}" s n]]
    by (cases "ofo_remove_spec n s") (simp add: ofo_good_def OneForOneStrategy_def)
next
  case (5 s sp)
  then obtain s' r where "strategy_add_spec OneForOneStrategy sp s = Some (s', r)" "ofo_inv {} s'"
    by (rule ofo_add_spec_inv)
  then show ?case by (simp add: ofo_good_def ofo_inv_ok)
next
  case (6 s n r sm nx now)
  then show ?case using ofo_good_exit by (simp add: ofo_good_def OneForOneStrategy_def)
next
  case (7 s n r sm nx q)
  then show ?case using ofo_good_goes_on by (simp add: OneForOneStrategy_def)
next
  case (8 s n r sm nx u now)
  then have "ofo_inv {} (set_inner OneForOneStrategy ((o_inner s)\<lparr>kids := sm\<rparr>) s)"
    using ofo_good_goes_on [of s n r sm nx] by (simp add: OneForOneStrategy_def)
  from ofo_inv_ok [OF ofo_handle_initialized_inv [OF this]] show ?case
    by (simp add: ofo_good_def OneForOneStrategy_def)
qed (auto simp: ofo_good_def ofo_ok_def)

lemma ofo_loop_ok:
  "ofo_inv {} s \<Longrightarrow> \<exists>s' c. supervisor_loop OneForOneStrategy es s = Some (s', c) \<and> ofo_ok (s', c)"
  using ofo.loop_good [of s es] by (auto simp: ofo_good_def split: option.splits)

lemma ofo_start_ok:
  assumes "inner_wf si" "\<not> inner_is_exiting si" "all_dead si"
  shows "\<exists>s'. strategy_start OneForOneStrategy (one_for_one_new si) = Some (s', Inr (), Continue)
    \<and> ofo_inv {} s' \<and> o_initializing s' = sm_names (kids si) \<and> ibox (o_inner s') = ibox si
    \<and> (\<forall>k. child_of (o_inner s') k = map_option (fst \<circ> start) (child_of si k))"
proof -
  have wf: "sm_wf (kids si)" using assms(1) by (simp add: inner_wf_def)
  have no: "\<not> still_owes (kids si) n" for n
    using assms(3) dead_owes_nothing [of si n] by (auto simp: all_dead_def)
  note spec = start_all_spec [OF wf no]
  let ?sm = "fst (start_all (kids si))"
  let ?s = "\<lparr>o_inner = si\<lparr>kids := ?sm\<rparr>, o_initializing = sm_names ?sm, o_exiting = []\<rparr>"
  have "\<not> still_owes ?sm k" for k
    using spec(3) [of k] assms(3)
    by (cases "sm_get (kids si) k") (auto simp: still_owes_def all_dead_def child_of_def owes_exit_def)
  then have inv: "ofo_inv {} ?s"
    using assms spec(1) by (simp add: ofo_inv_def tracked_def inner_wf_def inner_is_exiting_def)
  have names: "sm_names ?sm = sm_names (kids si)"
    using spec by (simp add: sm_names_lookup wf)
  have "strategy_start OneForOneStrategy (one_for_one_new si) = Some (?s, Inr (), Continue)"
    using spec(4) by (cases "start_all (kids si)")
      (simp add: strategy_start_def OneForOneStrategy_def one_for_one_new_def)
  then show ?thesis using inv names spec(3) by (auto simp: child_of_def)
qed

lemma ofo_run_ok:
  assumes "inner_wf si" "\<not> inner_is_exiting si" "all_dead si"
  shows "\<exists>s' c. supervisor_run OneForOneStrategy es (one_for_one_new si) = Some (s', c) \<and> ofo_ok (s', c)"
proof -
  obtain s' where "strategy_start OneForOneStrategy (one_for_one_new si) = Some (s', Inr (), Continue)"
    "ofo_inv {} s'" using ofo_start_ok [OF assms] by blast
  then show ?thesis using ofo_loop_ok [of s' es] by (auto simp: supervisor_run_def)
qed

section \<open>Properties\<close>

text \<open>C4: A one-for-one supervisor never panics, and when its loop ends no child is left: each one is
  dead, whatever children were added, removed, crashed or restarted on the way.\<close>

theorem one_for_one_ends_with_no_child_left:
  assumes "inner_wf si" "\<not> inner_is_exiting si" "all_dead si"
  shows "\<exists>s' c. supervisor_run OneForOneStrategy es (one_for_one_new si) = Some (s', c)
    \<and> (c = Break \<longrightarrow> all_dead (o_inner s'))"
  using ofo_run_ok [OF assms, of es] by (auto simp: ofo_ok_def)

lemma ofo_handle_exit_others:
  assumes "inner_wf (o_inner s)" "k \<noteq> n"
    "\<not> inner_is_exiting (o_inner (fst (ofo_handle_exit now n reason s)))"
    "n \<notin> set (o_exiting s)"
  shows "child_of (o_inner (fst (ofo_handle_exit now n reason s))) k = child_of (o_inner s) k"
proof -
  obtain si b where p: "ofo_acquire_permits now n (o_inner s) = (si, b)" by fastforce
  have same: "same_states (o_inner s) si" "inner_wf si"
    using ofo_acquire_permits_same [OF assms(1), of now n] p assms(1) by (auto simp: same_states_def)
  have si: "child_of si k = child_of (o_inner s) k"
  proof -
    obtain si1 b1 where q: "inner_acquire_permit now (o_inner s) = (si1, b1)" by fastforce
    have "inner_wf si1" "child_of si1 k = child_of (o_inner s) k"
      using assms(1) inner_acquire_permit_simps(3,4) [of now "o_inner s"] q by auto
    then show ?thesis
      using p q child_of_on_child [of si1 n "acquire_restart_permit now" k] assms(2)
      by (cases b1) (auto simp: ofo_acquire_permits_def split: prod.splits option.splits)
  qed
  have eq: "ofo_handle_exit now n reason s =
    (case child_of (o_inner s) n of
       None \<Rightarrow> (s, Continue)
     | Some sv \<Rightarrow>
         if \<not> reason_requires_restart reason sv then (fst (ofo_remove_spec n s), Continue)
         else if b then (s\<lparr>o_inner := fst (on_child n start si)\<rparr>, Continue)
         else ofo_shutdown (s\<lparr>o_inner := si\<rparr>))"
    using assms(4) p by (simp add: ofo_handle_exit_def split: option.split bool.split)
  have rem: "child_of (o_inner (fst (ofo_remove_spec n s))) k = child_of (o_inner s) k"
    using kids_removed(2) [OF assms(1), of n k] assms(2)
    by (simp add: ofo_remove_spec_def inner_remove_spec_eq [OF assms(1)])
  have shut: "inner_is_exiting (o_inner (fst (ofo_shutdown (s\<lparr>o_inner := si\<rparr>))))"
    using inner_shutdown_spec(2) [OF same(2), of "o_exiting s"]
    by (cases "inner_shutdown (o_exiting s) si") (simp add: ofo_shutdown_def)
  show ?thesis
    using assms(2,3) rem shut si child_of_on_child [OF same(2), of n start k]
    unfolding eq by (auto split: option.splits if_splits)
qed

text \<open>C5: One child's fate is its own: an event of one child, unless it makes the supervisor give up, leaves
  every other child of a one-for-one supervisor exactly as it was.\<close>

theorem one_for_one_isolates_children:
  assumes "inner_wf si" "\<not> inner_is_exiting si" "all_dead si"
    "supervisor_run OneForOneStrategy es (one_for_one_new si) = Some (s, Continue)"
    "supervisor_turn OneForOneStrategy (now, EvChild n r) s = Some (s', rep, c)"
    "\<not> inner_is_exiting (o_inner s')" "k \<noteq> n"
  shows "child_of (o_inner s') k = child_of (o_inner s) k"
proof -
  have inv: "ofo_inv {} s" using ofo_run_ok [OF assms(1-3), of es] assms(4) by (auto simp: ofo_ok_def)
  have tr: "tracked {} (set (o_exiting s)) (o_inner s)" using inv by (simp add: ofo_inv_def)
  obtain sm p where poll: "sm_poll n r (kids (o_inner s)) = (sm, p)" by fastforce
  show ?thesis
  proof (cases p)
    case Pending
    then show ?thesis using poll assms(5) by (simp add: OneForOneStrategy_def)
  next
    case (Ready nx)
    note pt = polled_tracked [OF tr poll [unfolded Ready]]
    let ?s = "s\<lparr>o_inner := (o_inner s)\<lparr>kids := sm\<rparr>\<rparr>"
    have other: "child_of (o_inner ?s) k = child_of (o_inner s) k" using pt(5) assms(7) by simp
    show ?thesis
    proof (cases "goes_on (next_item nx)")
      case True
      have same: "kids (o_inner (strategy_handle_initialized OneForOneStrategy n ?s)) = sm"
        using inner_handle_initialized_same [OF pt(4), of n "o_initializing s"]
        by (cases "inner_handle_initialized n (o_initializing s) (o_inner ?s)")
           (simp add: strategy_handle_initialized_def OneForOneStrategy_def)
      show ?thesis
        using True assms(5) poll Ready pt(1) other same
        by (cases "next_item nx" rule: goes_on.cases) (auto simp: OneForOneStrategy_def child_of_def)
    next
      case False
      obtain reason where he: "ofo_handle_exit now n reason ?s = (s', c)"
        using assms(5) poll Ready pt(1) False
        by (auto simp: handle_item_dead OneForOneStrategy_def split: prod.splits)
      have nex: "n \<notin> set (o_exiting s)"
      proof
        assume "n \<in> set (o_exiting s)"
        then have "inner_is_exiting (o_inner s)" using inv by (auto simp: ofo_inv_def)
        moreover have "o_inner s' = o_inner ?s"
          using he \<open>n \<in> set (o_exiting s)\<close> fst_iset_swap_remove [of n "o_exiting s"]
          by (cases "iset_swap_remove n (o_exiting s)") (auto simp: ofo_handle_exit_def)
        ultimately show False using assms(6) pt(3) by simp
      qed
      show ?thesis
        using ofo_handle_exit_others [of ?s k n now reason] pt(4) assms(6,7) nex he other by simp
    qed
  qed
qed

text \<open>
  Once the last child it waits for is taken away, an exiting supervisor waits for nothing and still does
  not end.
\<close>

definition ofo_stuck :: "one_for_one \<Rightarrow> bool" where
  "ofo_stuck s \<longleftrightarrow> ofo_inv {} s \<and> inner_is_exiting (o_inner s) \<and> o_exiting s = []"

fun no_shutdown_signal :: "instant \<times> supervisor_event \<Rightarrow> bool" where
  "no_shutdown_signal (_, EvSignal s) \<longleftrightarrow> s \<noteq> Shutdown"
| "no_shutdown_signal _ \<longleftrightarrow> True"

lemma ofo_stuck_all_dead: "ofo_stuck s \<Longrightarrow> all_dead (o_inner s)"
  by (auto simp: ofo_stuck_def ofo_inv_def intro: quiet_all_dead)

lemma all_dead_poll:
  assumes "all_dead si"
  shows "\<exists>sm. sm_poll n r (kids si) = (sm, Pending)"
proof (cases "sm_get (kids si) n")
  case (Some sv)
  then have "supervise r sv = (sv, Pending)"
    using assms by (auto simp: all_dead_def child_of_def supervise_def)
  then have "snd (sm_modify n (supervise r) (kids si)) = Some Pending"
    using Some by simp
  then show ?thesis by (cases "sm_modify n (supervise r) (kids si)") (auto simp: sm_poll_def)
qed (simp add: sm_poll_def)

lemma ofo_remove_stuck:
  assumes "ofo_inv {} s" "inner_is_exiting (o_inner s)" "set (o_exiting s) \<subseteq> {n}"
  shows "ofo_stuck (fst (ofo_remove_spec n s))"
proof -
  have wf: "inner_wf (o_inner s)" using assms(1) by (rule ofo_inv_wf)
  have inv: "ofo_inv {} (fst (ofo_remove_spec n s))" by (rule ofo_remove_spec_inv [OF assms(1)])
  have eq: "ofo_remove_spec n s =
    (s\<lparr>o_inner := (o_inner s)\<lparr>kids := fst (sm_remove n (kids (o_inner s)))\<rparr>,
       o_initializing := (if child_of (o_inner s) n = None then o_initializing s
         else snd (iset_swap_remove n (o_initializing s))),
       o_exiting := (if child_of (o_inner s) n = None then o_exiting s
         else snd (iset_swap_remove n (o_exiting s)))\<rparr>, child_of (o_inner s) n)"
    by (simp add: ofo_remove_spec_def inner_remove_spec_eq [OF wf])
  have "x \<notin> set (o_exiting (fst (ofo_remove_spec n s)))" for x
    using assms child_of_None_owes [of "o_inner s" n]
    by (auto simp: eq ofo_inv_def tracked_def)
  then have "o_exiting (fst (ofo_remove_spec n s)) = []" by (metis list.set_intros(1) neq_Nil_conv)
  then show ?thesis using inv kids_removed(3) [OF wf, of n] assms(2)
    by (simp add: ofo_stuck_def eq)
qed

lemma ofo_stuck_turn:
  assumes "ofo_stuck s" "no_shutdown_signal (now, ev)"
  shows "\<exists>s' rep. supervisor_turn OneForOneStrategy (now, ev) s = Some (s', rep, Continue) \<and> ofo_stuck s'"
proof -
  have inv: "ofo_inv {} s" and ex: "inner_is_exiting (o_inner s)" "o_exiting s = []"
    using assms(1) by (auto simp: ofo_stuck_def)
  have add: "strategy_add_spec OneForOneStrategy sp s = Some (s, Inr ())" for sp
    using ex by (simp add: strategy_add_spec_def inner_add_spec_def OneForOneStrategy_def)
  have rem: "\<exists>s' r. ofo_remove_spec n s = (s', r) \<and> ofo_stuck s'" for n
    using ofo_remove_stuck [OF inv ex(1), of n] ex(2) by (cases "ofo_remove_spec n s") simp
  show ?thesis
  proof (cases ev)
    case (EvMessage m)
    show ?thesis
    proof (cases m)
      case (MsgDeregister k)
      obtain s' r where "ofo_remove_spec k s = (s', r)" "ofo_stuck s'" using rem by blast
      then show ?thesis using EvMessage MsgDeregister by (simp add: OneForOneStrategy_def)
    qed (use EvMessage assms(1) add in \<open>auto simp: OneForOneStrategy_def\<close>)
  next
    case (EvSource e)
    show ?thesis
    proof (cases e)
      case (Removed k)
      obtain s' r where "ofo_remove_spec k s = (s', r)" "ofo_stuck s'" using rem by blast
      then show ?thesis using EvSource Removed by (simp add: OneForOneStrategy_def)
    qed (use EvSource assms(1) add in \<open>auto simp: OneForOneStrategy_def\<close>)
  next
    case (EvChild n r)
    obtain sm where "sm_poll n r (kids (o_inner s)) = (sm, Pending)"
      using all_dead_poll [OF ofo_stuck_all_dead [OF assms(1)]] by blast
    then show ?thesis using EvChild assms(1) by (simp add: OneForOneStrategy_def)
  qed (use assms in \<open>auto simp: OneForOneStrategy_def\<close>)
qed

lemma ofo_stuck_loop:
  "ofo_stuck s \<Longrightarrow> list_all no_shutdown_signal es \<Longrightarrow>
   \<exists>s'. supervisor_loop OneForOneStrategy es s = Some (s', Continue)"
proof (induction es arbitrary: s)
  case (Cons e es)
  obtain now ev where e: "e = (now, ev)" by fastforce
  obtain s1 rep where "supervisor_turn OneForOneStrategy e s = Some (s1, rep, Continue)" "ofo_stuck s1"
    using ofo_stuck_turn [OF Cons.prems(1), of now ev] Cons.prems(2) e by auto
  then show ?case using Cons.IH [of s1] Cons.prems(2) by simp
qed simp

text \<open>When the last child that a shutting-down one-for-one supervisor waits for is deregistered, the
  supervisor never ends: it has no child left, and no later event except another shutdown
  signal, which a channel that is exiting refuses, ends its loop.\<close>

theorem one_for_one_hangs_after_deregister:
  assumes "inner_wf si" "\<not> inner_is_exiting si" "all_dead si"
    "supervisor_run OneForOneStrategy es (one_for_one_new si) = Some (s, Continue)"
    "inner_is_exiting (o_inner s)" "o_exiting s = [n]" "list_all no_shutdown_signal es'"
  shows "\<exists>s' s''. supervisor_turn OneForOneStrategy (now, EvMessage (MsgDeregister n)) s
      = Some (s', ReplyDeregister (map_option get_description (child_of (o_inner s) n)), Continue)
    \<and> all_dead (o_inner s') \<and> supervisor_loop OneForOneStrategy es' s' = Some (s'', Continue)"
proof -
  have inv: "ofo_inv {} s" using ofo_run_ok [OF assms(1-3), of es] assms(4) by (auto simp: ofo_ok_def)
  have st: "ofo_stuck (fst (ofo_remove_spec n s))"
    using ofo_remove_stuck [OF inv assms(5)] assms(6) by simp
  have "snd (ofo_remove_spec n s) = child_of (o_inner s) n"
    by (simp add: ofo_remove_spec_def inner_remove_spec_eq [OF ofo_inv_wf [OF inv]])
  then have "supervisor_turn OneForOneStrategy (now, EvMessage (MsgDeregister n)) s
      = Some (fst (ofo_remove_spec n s),
          ReplyDeregister (map_option get_description (child_of (o_inner s) n)), Continue)"
    by (cases "ofo_remove_spec n s") (simp add: OneForOneStrategy_def)
  then show ?thesis using ofo_stuck_all_dead [OF st] ofo_stuck_loop [OF st assms(7)] by blast
qed

section \<open>Reaching Running\<close>

text \<open>A supervisor that waits for no child's initialization never registers its own.\<close>

definition never_initialized :: "one_for_one \<Rightarrow> bool" where
  "never_initialized s \<longleftrightarrow> o_initializing s = [] \<and> inbox_status (ibox (o_inner s)) \<noteq> Running"

lemma ibox_ofo_acquire_permits [simp]: "ibox (fst (ofo_acquire_permits now n si)) = ibox si"
  by (cases "inner_acquire_permit now si"; cases "snd (inner_acquire_permit now si)")
     (use inner_acquire_permit_simps(2) [of now si] in \<open>auto simp: ofo_acquire_permits_def
       split: prod.splits option.splits\<close>, (metis fst_conv on_child_simps(1))+)

lemma never_initialized_shutdown: "never_initialized s \<Longrightarrow> never_initialized (fst (ofo_shutdown s))"
  by (auto simp: never_initialized_def ofo_shutdown_def inner_shutdown_def Let_def split: prod.splits)

lemma never_initialized_remove: "never_initialized s \<Longrightarrow> never_initialized (fst (ofo_remove_spec n s))"
  by (auto simp: never_initialized_def ofo_remove_spec_def inner_remove_spec_def iset_swap_remove_def
      split: prod.splits option.splits)

lemma never_initialized_exit:
  assumes "never_initialized s"
  shows "never_initialized (fst (ofo_handle_exit now n reason s))"
proof -
  obtain si b where p: "ofo_acquire_permits now n (o_inner s) = (si, b)" by fastforce
  then have "ibox si = ibox (o_inner s)" using ibox_ofo_acquire_permits [of now n "o_inner s"] by simp
  then have si: "never_initialized (s\<lparr>o_inner := si\<rparr>)"
    "never_initialized (s\<lparr>o_inner := fst (on_child n start si)\<rparr>)"
    using assms by (auto simp: never_initialized_def)
  then show ?thesis
    using assms p never_initialized_shutdown [OF si(1)] never_initialized_remove [OF assms, of n]
    by (auto simp: ofo_handle_exit_def Let_def never_initialized_def
        split: prod.splits option.splits bool.splits)
qed

lemma never_initialized_turn:
  assumes "never_initialized s" "supervisor_turn OneForOneStrategy (now, ev) s = Some (s', rep, c)"
  shows "never_initialized s'"
proof -
  have add: "strategy_add_spec OneForOneStrategy sp s = Some (s1, r) \<Longrightarrow> never_initialized s1" for sp s1 r
    using assms(1) ibox_inner_add_spec [of sp "o_inner s"]
    by (auto simp: strategy_add_spec_def OneForOneStrategy_def never_initialized_def)
  have rem: "ofo_remove_spec n s = (s1, r) \<Longrightarrow> never_initialized s1" for n s1 r
    using never_initialized_remove [OF assms(1), of n] by simp
  show ?thesis
  proof (cases ev)
    case (EvSignal sig)
    then show ?thesis using assms never_initialized_shutdown [OF assms(1)]
      by (cases "ofo_shutdown s") (auto simp: OneForOneStrategy_def split: if_splits)
  next
    case (EvMessage m)
    then show ?thesis using assms(1,2) add rem
      by (cases m) (auto simp: OneForOneStrategy_def split: prod.splits)
  next
    case (EvSource e)
    then show ?thesis using assms(1,2) add rem
      by (cases e) (auto simp: OneForOneStrategy_def split: prod.splits)
  next
    case (EvChild n r)
    obtain sm p where poll: "sm_poll n r (kids (o_inner s)) = (sm, p)" by fastforce
    let ?s = "s\<lparr>o_inner := (o_inner s)\<lparr>kids := sm\<rparr>\<rparr>"
    have s: "never_initialized ?s" using assms(1) by (simp add: never_initialized_def)
    have "handle_item OneForOneStrategy now m item ?s = Some (s1, c1) \<Longrightarrow> never_initialized s1"
      for m item s1 c1
    proof (cases "goes_on item")
      case True
      then show "handle_item OneForOneStrategy now m item ?s = Some (s1, c1) \<Longrightarrow> never_initialized s1"
        using s by (cases item rule: goes_on.cases)
          (auto simp: never_initialized_def OneForOneStrategy_def strategy_handle_initialized_def)
    next
      case False
      then show "handle_item OneForOneStrategy now m item ?s = Some (s1, c1) \<Longrightarrow> never_initialized s1"
        using never_initialized_exit [OF s, of now m "exit_reason_of item"]
        by (auto simp: handle_item_dead OneForOneStrategy_def)
    qed
    then show ?thesis using assms EvChild poll
      by (cases p) (auto simp: OneForOneStrategy_def)
  qed
qed

lemma never_initialized_loop:
  "never_initialized s \<Longrightarrow> supervisor_loop OneForOneStrategy es s = Some (s', c) \<Longrightarrow> never_initialized s'"
proof (induction es arbitrary: s)
  case (Cons e es)
  obtain now ev where e: "e = (now, ev)" by fastforce
  obtain s1 rep c1 where t: "supervisor_turn OneForOneStrategy e s = Some (s1, rep, c1)"
    using Cons.prems(2) by (auto split: option.splits)
  have "never_initialized s1" using never_initialized_turn [OF Cons.prems(1)] t e by blast
  then show ?case using Cons t by (cases c1) auto
qed simp

text \<open>A supervisor that is started without children never becomes \<open>Running\<close>, whatever children are
  registered later and however well they run.\<close>

theorem childless_supervisor_never_running:
  assumes "inner_wf si" "\<not> inner_is_exiting si" "sm_names (kids si) = []"
    "inbox_status (ibox si) = Initializing"
    "supervisor_run OneForOneStrategy es (one_for_one_new si) = Some (s', c)"
  shows "inbox_status (ibox (o_inner s')) \<noteq> Running"
proof -
  have "child_of si n = None" for n
    using set_sm_names [of "kids si" n] assms(1,3) by (auto simp: child_of_def inner_wf_def)
  then have "all_dead si" by (simp add: all_dead_def)
  from ofo_start_ok [OF assms(1,2) this] obtain s1 where
    s1: "strategy_start OneForOneStrategy (one_for_one_new si) = Some (s1, Inr (), Continue)"
      "o_initializing s1 = []" "ibox (o_inner s1) = ibox si" using assms(3) by auto
  then have "never_initialized s1" using assms(4) by (simp add: never_initialized_def)
  then show ?thesis
    using never_initialized_loop [of s1 es s' c] s1 assms(5)
    by (simp add: supervisor_run_def never_initialized_def)
qed

section \<open>Witnesses\<close>

definition example_inner :: "child_spec list \<Rightarrow> actor_status \<Rightarrow> supervisor_inner" where
  "example_inner specs st =
     \<lparr>kids = sm_new next_token specs,
      ibox = \<lparr>channel = (channel_with_limits ''s'' 1 example_iface 1 1 0)
           \<lparr>status := st, msg_backpressure_limit := 1\<rparr>, init = Manual\<rparr>,
      inner_restarter = limiter_new example_intensity\<rparr>"

lemma inner_wf_example: "\<not> is_dead st \<Longrightarrow> inner_wf (example_inner specs st)"
  by (simp add: inner_wf_def example_inner_def sm_wf_new next_token_fresh)

lemma sm_new_all_dead:
  "sm_get (sm_new next_token specs) n = Some sv \<Longrightarrow> state sv = Dead"
proof -
  have "sm_wf sm \<Longrightarrow> (\<And>n sv. sm_get sm n = Some sv \<Longrightarrow> state sv = Dead) \<Longrightarrow>
    sm_get (fold (\<lambda>sp. put_supervisee (supervisee_new sp)) specs sm) n = Some sv \<Longrightarrow> state sv = Dead" for sm
  proof (induction specs arbitrary: sm)
    case (Cons sp specs)
    have "sm_get (put_supervisee (supervisee_new sp) sm) k = Some sv' \<Longrightarrow> state sv' = Dead" for k sv'
      using Cons.prems(1,2) by (auto simp: sm_get_put supervisee_new_def split: if_splits)
    then show ?case using Cons.IH [of "put_supervisee (supervisee_new sp) sm"] Cons.prems
      by (simp add: sm_wf_put)
  qed simp
  from this [of "sm_empty next_token"]
  show "sm_get (sm_new next_token specs) n = Some sv \<Longrightarrow> state sv = Dead"
    using sm_wf_empty [of next_token, OF next_token_fresh]
    by (simp add: sm_new_def sm_empty_def sm_get_def token_of_def)
qed

lemma all_dead_example: "all_dead (example_inner specs st)"
  using sm_new_all_dead by (auto simp: all_dead_def child_of_def example_inner_def)

lemma not_exiting_example: "st \<noteq> Exiting \<Longrightarrow> \<not> inner_is_exiting (example_inner specs st)"
  by (simp add: inner_is_exiting_def example_inner_def)

lemmas example_inner_facts = inner_wf_example not_exiting_example all_dead_example

definition example_two :: supervisor_inner where
  "example_two = example_inner [example_spec ''a'' Always, example_spec ''b'' Always] Initializing"

lemma example_two_facts:
  "inner_wf example_two" "\<not> inner_is_exiting example_two" "all_dead example_two"
  by (simp_all add: example_two_def example_inner_facts)

definition example_events :: "(instant \<times> supervisor_event) list" where
  "example_events =
     [(1, EvChild ''a'' (StartDone (Inr ()))), (2, EvChild ''b'' (StartDone (Inr ()))),
      (3, EvChild ''a'' (InitDone (Inr ()))), (4, EvChild ''b'' (InitDone (Inr ()))),
      (5, EvChild ''b'' (JoinDone (Inl JoinPanic)))]"

theorem one_for_one_ends_with_no_child_left_witness:
  "\<exists>s' c. supervisor_run OneForOneStrategy (example_events @ [(6, EvSignal Shutdown),
       (7, EvChild ''a'' (JoinDone (Inr ())))]) (one_for_one_new example_two) = Some (s', c)
     \<and> (c = Break \<longrightarrow> all_dead (o_inner s'))"
  by (rule one_for_one_ends_with_no_child_left) (rule example_two_facts)+

lemma example_run_exiting:
  "map_option (\<lambda>(s, c). (o_exiting s, inner_is_exiting (o_inner s), c))
     (supervisor_run OneForOneStrategy (example_events @ [(6, EvSignal Shutdown)])
        (one_for_one_new example_two)) = Some ([''a''], True, Continue)"
  by code_simp

theorem one_for_one_hangs_after_deregister_witness:
  "\<exists>s s' s'' rep. supervisor_turn OneForOneStrategy (7, EvMessage (MsgDeregister ''a'')) s = Some (s', rep, Continue)
     \<and> all_dead (o_inner s') \<and> supervisor_loop OneForOneStrategy [(8, EvMessage MsgHealth)] s' = Some (s'', Continue)"
proof -
  obtain s where "supervisor_run OneForOneStrategy (example_events @ [(6, EvSignal Shutdown)])
      (one_for_one_new example_two) = Some (s, Continue)"
    "inner_is_exiting (o_inner s)" "o_exiting s = [''a'']"
    using example_run_exiting by auto
  from one_for_one_hangs_after_deregister [OF example_two_facts this, of "[(8, EvMessage MsgHealth)]" 7]
  show ?thesis by auto
qed

lemma example_run_running:
  "map_option snd (supervisor_run OneForOneStrategy (take 4 example_events) (one_for_one_new example_two))
     = Some Continue"
  "map_option (\<lambda>(s, c). map_option (\<lambda>(s', _, c). inner_is_exiting (o_inner s'))
       (supervisor_turn OneForOneStrategy (5, EvChild ''b'' (JoinDone (Inl JoinPanic))) s))
     (supervisor_run OneForOneStrategy (take 4 example_events) (one_for_one_new example_two))
     = Some (Some False)"
  by code_simp+

theorem one_for_one_isolates_children_witness:
  "\<exists>s s' rep c. supervisor_turn OneForOneStrategy (5, EvChild ''b'' (JoinDone (Inl JoinPanic))) s
       = Some (s', rep, c) \<and> child_of (o_inner s') ''a'' = child_of (o_inner s) ''a''"
proof -
  obtain s where s: "supervisor_run OneForOneStrategy (take 4 example_events)
      (one_for_one_new example_two) = Some (s, Continue)"
    using example_run_running(1) by auto
  then obtain s' rep c where t: "supervisor_turn OneForOneStrategy
      (5, EvChild ''b'' (JoinDone (Inl JoinPanic))) s = Some (s', rep, c)"
      "\<not> inner_is_exiting (o_inner s')"
    using example_run_running(2) by auto
  from one_for_one_isolates_children [OF example_two_facts s t, of "''a''"] t(1) show ?thesis by auto
qed

theorem childless_supervisor_never_running_witness:
  "\<exists>s' c. supervisor_run OneForOneStrategy
       [(1, EvMessage (MsgRegister (example_spec ''a'' Always))), (2, EvChild ''a'' (StartDone (Inr ()))),
        (3, EvChild ''a'' (InitDone (Inr ())))] (one_for_one_new (example_inner [] Initializing))
       = Some (s', c) \<and> inbox_status (ibox (o_inner s')) \<noteq> Running"
proof -
  have names: "sm_names (kids (example_inner [] Initializing)) = []"
    "inbox_status (ibox (example_inner [] Initializing)) = Initializing"
    by (simp_all add: example_inner_def sm_new_def sm_names_def sm_supervisees_def sm_empty_def
        map_filter_simps)
  have wf: "inner_wf (example_inner [] Initializing)" "\<not> inner_is_exiting (example_inner [] Initializing)"
    by (simp_all add: example_inner_facts)
  show ?thesis
    using childless_supervisor_never_running [OF wf names]
      ofo_run_ok [OF wf all_dead_example] by blast
qed

end
