(* ===== verification/One_For_All.thy ===== *)
theory One_For_All
  imports One_For_One
begin

text \<open>
  The one-for-all strategy (\<open>supervisor/src/actor/one_for_all.rs\<close>): when a child has to be restarted, every
  other one is stopped, and once the last of them has exited the whole group is started again,
  except the children that are never restarted, which are dropped.

  \<open>remove_spec\<close> and \<open>finish_cascade\<close> call each other in the code. The inner call happens only when no
  child is restarting any more, where \<open>remove_spec\<close> does not call back; \<open>ofa_remove_with_idle\<close> shows that
  tying the knot there loses nothing.
\<close>

record one_for_all =
  a_inner :: supervisor_inner
  a_initializing :: "name list"
  a_exiting :: "name list"
  a_restarting :: "name list"
  cascade_restart :: "name list"
  cascade_drop :: "name list"

definition one_for_all_new :: "supervisor_inner \<Rightarrow> one_for_all" where
  "one_for_all_new si =
     \<lparr>a_inner = si, a_initializing = [], a_exiting = [], a_restarting = [],
      cascade_restart = [], cascade_drop = []\<rparr>"

definition ofa_on_child ::
    "name \<Rightarrow> (supervisee \<Rightarrow> supervisee \<times> 'r) \<Rightarrow> one_for_all \<Rightarrow> one_for_all \<times> 'r option" where
  "ofa_on_child n f s = (let (si, r) = on_child n f (a_inner s) in (s\<lparr>a_inner := si\<rparr>, r))"

definition ofa_shutdown :: "one_for_all \<Rightarrow> one_for_all \<times> control_flow" where
  "ofa_shutdown s =
     (let (si, ex, c) = inner_shutdown (a_exiting s) (a_inner s)
      in (s\<lparr>a_inner := si, a_exiting := ex\<rparr>, c))"

definition ofa_remove_with ::
    "(one_for_all \<Rightarrow> one_for_all) \<Rightarrow> name \<Rightarrow> one_for_all \<Rightarrow> one_for_all \<times> supervisee option" where
  "ofa_remove_with finish n s =
     (case inner_remove_spec n (a_initializing s) (a_exiting s) (a_inner s) of
        (si, ini, ex, None) \<Rightarrow> (s\<lparr>a_inner := si, a_initializing := ini, a_exiting := ex\<rparr>, None)
      | (si, ini, ex, Some sv) \<Rightarrow>
          (let (was, re) = iset_swap_remove n (a_restarting s);
               s = s\<lparr>a_inner := si, a_initializing := ini, a_exiting := ex, a_restarting := re\<rparr>;
               s = (if was \<and> re = [] then finish s else s)
           in (s\<lparr>cascade_restart := snd (iset_swap_remove n (cascade_restart s)),
                 cascade_drop := snd (iset_swap_remove n (cascade_drop s))\<rparr>, Some sv)))"

definition ofa_remove_idle :: "name \<Rightarrow> one_for_all \<Rightarrow> one_for_all" where
  "ofa_remove_idle n s = fst (ofa_remove_with (\<lambda>s. s) n s)"

definition finish_cascade :: "one_for_all \<Rightarrow> one_for_all" where
  "finish_cascade s =
     (let s1 = fold ofa_remove_idle (cascade_drop s) (s\<lparr>cascade_drop := []\<rparr>)
      in fold (\<lambda>n s. fst (ofa_on_child n start s)) (cascade_restart s1) (s1\<lparr>cascade_restart := []\<rparr>))"

definition ofa_remove_spec :: "name \<Rightarrow> one_for_all \<Rightarrow> one_for_all \<times> supervisee option" where
  "ofa_remove_spec n s = ofa_remove_with finish_cascade n s"

text \<open>The loop over the siblings; \<open>Some\<close> is the early return when a sibling's budget is used up.\<close>

fun cascade_siblings ::
    "instant \<Rightarrow> name list \<Rightarrow> one_for_all \<Rightarrow> one_for_all \<times> control_flow option" where
  "cascade_siblings now [] s = (s, None)"
| "cascade_siblings now (n # ns) s =
     (case child_of (a_inner s) n of
        None \<Rightarrow> cascade_siblings now ns s
      | Some sv \<Rightarrow>
          if restart_mode (cfg sv) = Never then
            (let (s, out) = ofa_on_child n stop (s\<lparr>cascade_drop := iset_insert n (cascade_drop s)\<rparr>)
             in cascade_siblings now ns
                  (if out = Some StopShuttingDown
                   then s\<lparr>a_restarting := iset_insert n (a_restarting s)\<rparr> else s))
          else
            (case ofa_on_child n (acquire_restart_permit now) s of
               (s, Some False) \<Rightarrow> (let (s, c) = ofa_shutdown s in (s, Some c))
             | (s, _) \<Rightarrow>
                 (let (s, out) = ofa_on_child n stop (s\<lparr>cascade_restart := iset_insert n (cascade_restart s)\<rparr>)
                  in cascade_siblings now ns
                       (if out = Some StopShuttingDown
                        then s\<lparr>a_restarting := iset_insert n (a_restarting s)\<rparr> else s))))"

definition ofa_start_cascade :: "instant \<Rightarrow> name \<Rightarrow> one_for_all \<Rightarrow> one_for_all \<times> control_flow" where
  "ofa_start_cascade now trigger s =
     (let siblings = filter (\<lambda>n. n \<noteq> trigger \<and> n \<notin> set (cascade_restart s) \<and> n \<notin> set (cascade_drop s))
            (sm_names (kids (a_inner s)))
      in case cascade_siblings now siblings s of
           (s, Some c) \<Rightarrow> (s, c)
         | (s, None) \<Rightarrow> (if a_restarting s = [] then finish_cascade s else s, Continue))"

definition ofa_handle_exit ::
    "instant \<Rightarrow> name \<Rightarrow> exit_reason \<Rightarrow> one_for_all \<Rightarrow> one_for_all \<times> control_flow" where
  "ofa_handle_exit now n reason s =
     (let (was, ex) = iset_swap_remove n (a_exiting s)
      in if was then (s\<lparr>a_exiting := ex\<rparr>, if ex = [] then Break else Continue)
         else
           (let (was, re) = iset_swap_remove n (a_restarting s)
            in if was then
                 (let s = s\<lparr>a_restarting := re\<rparr> in (if re = [] then finish_cascade s else s, Continue))
               else case child_of (a_inner s) n of
                 None \<Rightarrow> (s, Continue)
               | Some sv \<Rightarrow>
                   if \<not> reason_requires_restart reason sv then (fst (ofa_remove_spec n s), Continue)
                   else case ofo_acquire_permits now n (a_inner s) of
                     (si, False) \<Rightarrow> ofa_shutdown (s\<lparr>a_inner := si\<rparr>)
                   | (si, True) \<Rightarrow>
                       ofa_start_cascade now n
                         (s\<lparr>a_inner := si, cascade_restart := iset_insert n (cascade_restart s)\<rparr>)))"

definition OneForAllStrategy :: "one_for_all strategy" where
  "OneForAllStrategy =
     \<lparr>parts_inner = a_inner, set_inner = (\<lambda>si s. s\<lparr>a_inner := si\<rparr>),
      parts_initializing = a_initializing, set_initializing = (\<lambda>ini s. s\<lparr>a_initializing := ini\<rparr>),
      handle_exit = (\<lambda>now n r s. Some (ofa_handle_exit now n r s)),
      shutdown = (\<lambda>s. Some (ofa_shutdown s)),
      remove_spec = (\<lambda>now n s. Some (ofa_remove_spec n s)),
      after_initialized = (\<lambda>now n s. Some (s, Continue))\<rparr>"

lemma ofa_remove_with_idle:
  "a_restarting s = [] \<Longrightarrow> ofa_remove_with f n s = ofa_remove_with g n s"
  by (auto simp: ofa_remove_with_def iset_swap_remove_def split: prod.splits option.splits)

section \<open>The invariant\<close>

text \<open>A cascade in progress: its members are dead or about to be, and the ones still running down are
  exactly those in \<open>restarting\<close>.\<close>

definition ofa_mid :: "name set \<Rightarrow> one_for_all \<Rightarrow> bool" where
  "ofa_mid X s \<longleftrightarrow>
     \<not> inner_is_exiting (a_inner s) \<and> a_exiting s = [] \<and> tracked X (set (a_restarting s)) (a_inner s) \<and>
     set (a_restarting s) \<subseteq> set (cascade_restart s) \<union> set (cascade_drop s) \<and>
     (\<forall>n \<in> set (cascade_restart s) \<union> set (cascade_drop s).
        quiet_child (a_inner s) n \<and> known (a_inner s) n) \<and>
     distinct (a_restarting s) \<and> distinct (cascade_restart s) \<and> distinct (cascade_drop s) \<and>
     set (cascade_restart s) \<inter> set (cascade_drop s) = {}"

definition ofa_down :: "name set \<Rightarrow> one_for_all \<Rightarrow> bool" where
  "ofa_down X s \<longleftrightarrow>
     inner_is_exiting (a_inner s) \<and> quiet (a_inner s) \<and> tracked X (set (a_exiting s)) (a_inner s) \<and>
     distinct (a_exiting s)"

definition ofa_inv :: "name set \<Rightarrow> one_for_all \<Rightarrow> bool" where
  "ofa_inv X s \<longleftrightarrow>
     (if inner_is_exiting (a_inner s) then ofa_down X s
      else ofa_mid X s \<and> (a_restarting s = [] \<longrightarrow> cascade_restart s = [] \<and> cascade_drop s = []))"

definition ofa_ok :: "one_for_all \<times> control_flow \<Rightarrow> bool" where
  "ofa_ok r \<longleftrightarrow> ofa_inv {} (fst r) \<and> (snd r = Break \<longrightarrow> all_dead (a_inner (fst r)))"

lemma ofa_mid_wf: "ofa_mid X s \<Longrightarrow> inner_wf (a_inner s)"
  by (simp add: ofa_mid_def tracked_def)

lemma ofa_inv_wf: "ofa_inv X s \<Longrightarrow> inner_wf (a_inner s)"
  by (auto simp: ofa_inv_def ofa_mid_def ofa_down_def tracked_def split: if_splits)

lemma ofa_inv_ok: "ofa_inv {} s \<Longrightarrow> ofa_ok (s, Continue)"
  by (simp add: ofa_ok_def)

lemma ofa_shutdown_ok:
  assumes "inner_wf (a_inner s)" "\<forall>n\<in>set (a_exiting s). still_owes (kids (a_inner s)) n"
    "distinct (a_exiting s)"
  shows "ofa_ok (ofa_shutdown s) \<and> inner_is_exiting (a_inner (fst (ofa_shutdown s)))"
proof -
  note spec = inner_shutdown_spec [OF assms(1), where exiting = "a_exiting s"]
  note tr = tracked_inner_shutdown [OF assms(1,2)]
  have r: "ofa_shutdown s =
      (s\<lparr>a_inner := fst (inner_shutdown (a_exiting s) (a_inner s)),
         a_exiting := fst (snd (inner_shutdown (a_exiting s) (a_inner s)))\<rparr>,
       snd (snd (inner_shutdown (a_exiting s) (a_inner s))))"
    by (simp add: ofa_shutdown_def split: prod.splits)
  have "all_dead (a_inner (fst (ofa_shutdown s)))" if "snd (ofa_shutdown s) = Break"
    using that spec(3,7) tr by (simp add: r quiet_all_dead)
  then show ?thesis
    using spec(2,3,6) tr assms(3) by (simp add: r ofa_ok_def ofa_inv_def ofa_down_def)
qed

lemma ofa_mid_shutdown:
  "ofa_mid {} s \<Longrightarrow> ofa_ok (ofa_shutdown s) \<and> inner_is_exiting (a_inner (fst (ofa_shutdown s)))"
  using ofa_shutdown_ok [OF ofa_mid_wf, of "{}" s] by (simp add: ofa_mid_def)

lemma ofa_down_shutdown: "ofa_down {} s \<Longrightarrow> ofa_ok (ofa_shutdown s)"
  using ofa_shutdown_ok [of s] by (simp add: ofa_down_def tracked_def)

section \<open>Finishing a cascade\<close>

text \<open>What the loop over the children to drop changes, seen through lookups.\<close>

definition ofa_idle :: "one_for_all \<Rightarrow> bool" where
  "ofa_idle s \<longleftrightarrow> a_restarting s = [] \<and> cascade_drop s = [] \<and> a_exiting s = [] \<and>
     inner_wf (a_inner s) \<and> \<not> inner_is_exiting (a_inner s) \<and> (\<forall>n. \<not> still_owes (kids (a_inner s)) n)"

lemma ofa_remove_idle_spec:
  assumes "ofa_idle s" "n \<notin> set (cascade_restart s)"
  shows "ofa_idle (fst (ofa_remove_with f n s))"
    "cascade_restart (fst (ofa_remove_with f n s)) = cascade_restart s"
    "child_of (a_inner (fst (ofa_remove_with f n s))) k =
      (if k = n then None else child_of (a_inner s) k)"
    "ibox (a_inner (fst (ofa_remove_with f n s))) = ibox (a_inner s)"
proof -
  have wf: "inner_wf (a_inner s)" using assms(1) by (simp add: ofa_idle_def)
  let ?si = "(a_inner s)\<lparr>kids := fst (sm_remove n (kids (a_inner s)))\<rparr>"
  have rest: "a_restarting s = []" "cascade_drop s = []" "a_exiting s = []"
    using assms(1) by (auto simp: ofa_idle_def)
  have "a_inner (fst (ofa_remove_with f n s)) = ?si \<and> a_exiting (fst (ofa_remove_with f n s)) = []
      \<and> a_restarting (fst (ofa_remove_with f n s)) = [] \<and> cascade_drop (fst (ofa_remove_with f n s)) = []
      \<and> cascade_restart (fst (ofa_remove_with f n s)) = cascade_restart s"
    using rest assms(2)
    by (cases "child_of (a_inner s) n")
       (simp_all add: ofa_remove_with_def inner_remove_spec_eq [OF wf])
  then show "ofa_idle (fst (ofa_remove_with f n s))"
    "cascade_restart (fst (ofa_remove_with f n s)) = cascade_restart s"
    "child_of (a_inner (fst (ofa_remove_with f n s))) k =
      (if k = n then None else child_of (a_inner s) k)"
    "ibox (a_inner (fst (ofa_remove_with f n s))) = ibox (a_inner s)"
    using assms(1) kids_removed [OF wf, of n] by (auto simp: ofa_idle_def)
qed

lemma ofa_remove_fold:
  assumes "ofa_idle s" "set ns \<inter> set (cascade_restart s) = {}"
  defines "s' \<equiv> fold ofa_remove_idle ns s"
  shows "ofa_idle s' \<and> cascade_restart s' = cascade_restart s \<and> ibox (a_inner s') = ibox (a_inner s)
    \<and> (\<forall>k. child_of (a_inner s') k = (if k \<in> set ns then None else child_of (a_inner s) k))"
  using assms(1,2) unfolding s'_def
proof (induction ns arbitrary: s)
  case (Cons n ns)
  have "ofa_idle (ofa_remove_idle n s)"
    "cascade_restart (ofa_remove_idle n s) = cascade_restart s"
    "\<And>k. child_of (a_inner (ofa_remove_idle n s)) k =
      (if k = n then None else child_of (a_inner s) k)"
    "ibox (a_inner (ofa_remove_idle n s)) = ibox (a_inner s)"
    unfolding ofa_remove_idle_def using ofa_remove_idle_spec [OF Cons.prems(1), of n "\<lambda>s. s"] Cons.prems(2) by auto
  then show ?case using Cons.IH [of "ofa_remove_idle n s"] Cons.prems(2) by auto
qed simp

lemma ofa_start_fold:
  assumes "inner_wf (a_inner s)" "distinct ns"
  defines "s' \<equiv> fold (\<lambda>n s. fst (ofa_on_child n start s)) ns s"
  shows "inner_wf (a_inner s') \<and> ibox (a_inner s') = ibox (a_inner s)
    \<and> a_restarting s' = a_restarting s \<and> cascade_drop s' = cascade_drop s
    \<and> cascade_restart s' = cascade_restart s \<and> a_exiting s' = a_exiting s
    \<and> (\<forall>k. still_owes (kids (a_inner s')) k = still_owes (kids (a_inner s)) k)
    \<and> (\<forall>k. child_of (a_inner s') k =
         (if k \<in> set ns then map_option (fst \<circ> start) (child_of (a_inner s) k) else child_of (a_inner s) k))"
  using assms(1,2) unfolding s'_def
proof (induction ns arbitrary: s)
  case (Cons n ns)
  have s: "fst (ofa_on_child n start s) = s\<lparr>a_inner := fst (on_child n start (a_inner s))\<rparr>"
    by (simp add: ofa_on_child_def split: prod.splits)
  have wf: "inner_wf (fst (on_child n start (a_inner s)))"
    by (rule inner_wf_on_child [OF Cons.prems(1)]) simp
  show ?case
    using Cons.IH [of "s\<lparr>a_inner := fst (on_child n start (a_inner s))\<rparr>"] Cons.prems wf
      child_of_on_child [OF Cons.prems(1), of n start] start_same_owes [OF Cons.prems(1), of n]
    by (auto simp: s)
qed simp

lemma start_dead: "state sv = Dead \<Longrightarrow> fst (start sv) = sv\<lparr>state := Starting\<rparr>"
  by simp

lemma finish_cascade_spec:
  assumes "ofa_mid {} s" "a_restarting s = []"
  shows "ofa_inv {} (finish_cascade s) \<and> a_restarting (finish_cascade s) = [] \<and> ibox (a_inner (finish_cascade s)) = ibox (a_inner s)
    \<and> (\<forall>k. child_of (a_inner (finish_cascade s)) k =
      (if k \<in> set (cascade_drop s) then None
       else if k \<in> set (cascade_restart s)
       then map_option (\<lambda>sv. sv\<lparr>state := Starting\<rparr>) (child_of (a_inner s) k)
       else child_of (a_inner s) k))"
proof -
  let ?s1 = "fold ofa_remove_idle (cascade_drop s) (s\<lparr>cascade_drop := []\<rparr>)"
  have mid: "\<not> inner_is_exiting (a_inner s)" "a_exiting s = []" "tracked {} {} (a_inner s)"
    "set (cascade_drop s) \<inter> set (cascade_restart s) = {}" "distinct (cascade_restart s)"
    "\<And>n. n \<in> set (cascade_restart s) \<Longrightarrow> quiet_child (a_inner s) n"
    using assms by (auto simp: ofa_mid_def)
  have idle: "ofa_idle (s\<lparr>cascade_drop := []\<rparr>)"
    using mid assms(2) by (auto simp: ofa_idle_def tracked_def)
  have s1: "ofa_idle ?s1" "cascade_restart ?s1 = cascade_restart s"
    "\<And>k. child_of (a_inner ?s1) k = (if k \<in> set (cascade_drop s) then None else child_of (a_inner s) k)"
    using ofa_remove_fold [OF idle] mid(4) by auto
  let ?s2 = "fold (\<lambda>n s. fst (ofa_on_child n start s)) (cascade_restart s) (?s1\<lparr>cascade_restart := []\<rparr>)"
  have wf1: "inner_wf (a_inner (?s1\<lparr>cascade_restart := []\<rparr>))" using s1(1) by (simp add: ofa_idle_def)
  note s2 = ofa_start_fold [OF wf1 mid(5)]
  have eq: "finish_cascade s = ?s2" using s1(2) by (simp add: finish_cascade_def Let_def)
  have dead: "state sv = Dead" if "child_of (a_inner s) k = Some sv" "k \<in> set (cascade_restart s)" for k sv
    using mid(3) mid(6) [OF that(2)] that(1)
    by (auto simp: quiet_child_def tracked_def still_owes_def child_of_def)
  have ibox: "ibox (a_inner ?s1) = ibox (a_inner s)"
    using ofa_remove_fold [OF idle] mid(4) by auto
  have inv: "ofa_inv {} ?s2"
    using s2 s1(1) by (simp add: ofa_inv_def ofa_mid_def ofa_idle_def tracked_def inner_is_exiting_def)
  have get: "child_of (a_inner ?s2) k =
      (if k \<in> set (cascade_drop s) then None
       else if k \<in> set (cascade_restart s)
       then map_option (\<lambda>sv. sv\<lparr>state := Starting\<rparr>) (child_of (a_inner s) k)
       else child_of (a_inner s) k)" for k
    using s2 s1(3) [of k] dead [of k] mid(4)
    by (cases "child_of (a_inner s) k") auto
  have "a_restarting ?s2 = []" using s2 s1(1) by (simp add: ofa_idle_def)
  then show ?thesis using inv get ibox s2 unfolding eq by simp
qed

section \<open>Starting a cascade\<close>

lemma ofa_on_child_eq: "ofa_on_child n f s = (s\<lparr>a_inner := fst (on_child n f (a_inner s))\<rparr>,
    map_option (snd \<circ> f) (child_of (a_inner s) n))"
  using on_child_simps(4) [of n f "a_inner s"]
  by (cases "on_child n f (a_inner s)") (simp add: ofa_on_child_def)

text \<open>One sibling joins the cascade: it is stopped, and waited for if it owes an exit event.\<close>

definition ofa_join :: "name \<Rightarrow> bool \<Rightarrow> one_for_all \<Rightarrow> one_for_all" where
  "ofa_join n dropped s =
     (let s1 = (if dropped then s\<lparr>cascade_drop := iset_insert n (cascade_drop s)\<rparr>
                else s\<lparr>cascade_restart := iset_insert n (cascade_restart s)\<rparr>);
          s2 = s1\<lparr>a_inner := fst (on_child n stop (a_inner s))\<rparr>
      in if map_option (snd \<circ> stop) (child_of (a_inner s) n) = Some StopShuttingDown
         then s2\<lparr>a_restarting := iset_insert n (a_restarting s)\<rparr> else s2)"

lemma cascade_siblings_Cons:
  "cascade_siblings now (n # ns) s =
     (case child_of (a_inner s) n of
        None \<Rightarrow> cascade_siblings now ns s
      | Some sv \<Rightarrow>
          if restart_mode (cfg sv) = Never then cascade_siblings now ns (ofa_join n True s)
          else if snd (acquire_restart_permit now sv)
          then cascade_siblings now ns
            (ofa_join n False (s\<lparr>a_inner := fst (on_child n (acquire_restart_permit now) (a_inner s))\<rparr>))
          else (let (s, c) = ofa_shutdown
                  (s\<lparr>a_inner := fst (on_child n (acquire_restart_permit now) (a_inner s))\<rparr>)
                in (s, Some c)))"
  by (cases "child_of (a_inner s) n")
     (auto simp: ofa_on_child_eq ofa_join_def Let_def split: bool.splits)

declare cascade_siblings.simps(2) [simp del]

lemma ofa_mid_join:
  assumes "ofa_mid {} s" "child_of (a_inner s) n = Some sv"
    "n \<notin> set (cascade_restart s) \<union> set (cascade_drop s)"
  shows "ofa_mid {} (ofa_join n d s)"
proof -
  have wf: "inner_wf (a_inner s)" and tr: "tracked {} (set (a_restarting s)) (a_inner s)"
    using assms(1) by (auto simp: ofa_mid_def tracked_def)
  have "quiet_child (fst (on_child n stop (a_inner s))) k"
    if "k = n \<or> k \<in> set (cascade_restart s) \<union> set (cascade_drop s)" for k
    using quiet_child_stop [OF wf, of k n] assms(1) that by (auto simp: ofa_mid_def)
  then show ?thesis
    using assms tracked_stop [OF tr assms(2)] known_on_child [OF wf, of n stop] known_Some [OF assms(2)]
    by (auto simp: ofa_mid_def ofa_join_def Let_def is_shutting_down_def)
qed

lemma ofa_mid_same:
  "ofa_mid X s \<Longrightarrow> same_states (a_inner s) si \<Longrightarrow> ofa_mid X (s\<lparr>a_inner := si\<rparr>)"
  using known_same [of "a_inner s" si]
  by (auto simp: ofa_mid_def same_states_exiting intro: same_states_tracked quiet_child_same)

lemma ofa_join_fields [simp]:
  "set (cascade_restart (ofa_join n d s)) \<union> set (cascade_drop (ofa_join n d s))
     = insert n (set (cascade_restart s) \<union> set (cascade_drop s))"
  by (simp add: ofa_join_def Let_def)

lemma cascade_siblings_ok:
  assumes "ofa_mid {} s" "distinct ns" "set ns \<inter> (set (cascade_restart s) \<union> set (cascade_drop s)) = {}"
  shows "case cascade_siblings now ns s of
      (s', None) \<Rightarrow> ofa_mid {} s' \<and> (\<forall>k. child_of (a_inner s) k = None \<longrightarrow> child_of (a_inner s') k = None)
        \<and> (\<forall>k. k \<in> set ns \<and> child_of (a_inner s) k \<noteq> None \<longrightarrow>
              k \<in> set (cascade_restart s') \<union> set (cascade_drop s'))
        \<and> set (cascade_restart s) \<union> set (cascade_drop s) \<subseteq> set (cascade_restart s') \<union> set (cascade_drop s')
    | (s', Some c) \<Rightarrow> ofa_ok (s', c) \<and> inner_is_exiting (a_inner s')"
  using assms
proof (induction ns arbitrary: s)
  case (Cons n ns)
  note wf = ofa_mid_wf [OF Cons.prems(1)]
  show ?case
  proof (cases "child_of (a_inner s) n")
    case None
    then show ?thesis using Cons.IH [OF Cons.prems(1)] Cons.prems(2,3)
      by (auto simp: cascade_siblings_Cons split: prod.splits option.splits)
  next
    case (Some sv)
    have step: ?thesis if "ofa_mid {} s1" "child_of (a_inner s1) n = Some sv1"
        "cascade_siblings now (n # ns) s = cascade_siblings now ns (ofa_join n d s1)"
        "cascade_restart s1 = cascade_restart s" "cascade_drop s1 = cascade_drop s"
        "\<And>k. child_of (a_inner s1) k = None \<longleftrightarrow> child_of (a_inner s) k = None" for s1 sv1 d
    proof -
      have mid: "ofa_mid {} (ofa_join n d s1)"
        using ofa_mid_join [OF that(1,2)] Cons.prems(3) that(4,5) by auto
      have none: "child_of (a_inner (ofa_join n d s1)) k = None \<longleftrightarrow> child_of (a_inner s) k = None" for k
        using that(6) [of k] child_of_on_child [OF ofa_mid_wf [OF that(1)], of n stop k] that(2)
        by (auto simp: ofa_join_def Let_def)
      have "set ns \<inter> (set (cascade_restart (ofa_join n d s1)) \<union> set (cascade_drop (ofa_join n d s1))) = {}"
        using Cons.prems(2,3) that(4,5) by auto
      from Cons.IH [OF mid _ this] Cons.prems(2) show ?thesis
        using none that(4,5) ofa_join_fields [of n d s1]
        by (simp add: that(3) split: prod.splits option.splits) blast
    qed
    let ?s1 = "s\<lparr>a_inner := fst (on_child n (acquire_restart_permit now) (a_inner s))\<rparr>"
    have mid1: "ofa_mid {} ?s1" using ofa_mid_same [OF Cons.prems(1) same_states_child_permit [OF wf]] .
    have none1: "child_of (a_inner ?s1) k = None \<longleftrightarrow> child_of (a_inner s) k = None" for k
      using child_of_on_child [OF wf, of n "acquire_restart_permit now" k] Some by auto
    show ?thesis
    proof (cases "restart_mode (cfg sv) = Never")
      case True
      show ?thesis
        by (rule step [OF Cons.prems(1) Some, of True]) (simp_all add: cascade_siblings_Cons Some True)
    next
      case False
      show ?thesis
      proof (cases "snd (acquire_restart_permit now sv)")
        case True
        have c1: "child_of (a_inner ?s1) n = Some (fst (acquire_restart_permit now sv))"
          using child_of_on_child [OF wf, of n "acquire_restart_permit now" n] Some by simp
        show ?thesis
          by (rule step [OF mid1 c1, of False])
             (use none1 in \<open>simp_all add: cascade_siblings_Cons Some False True\<close>)
      next
        case nope: False
        then show ?thesis using ofa_mid_shutdown [OF mid1] Some False
          by (cases "ofa_shutdown ?s1") (simp add: cascade_siblings_Cons)
      qed
    qed
  qed
qed simp

lemma ofa_start_cascade_ok:
  fixes now
  assumes "ofa_mid {} s" "trigger \<in> set (cascade_restart s)"
  defines "r \<equiv> ofa_start_cascade now trigger s"
  shows "ofa_ok r"
    "a_restarting (fst r) \<noteq> [] \<Longrightarrow> \<not> inner_is_exiting (a_inner (fst r)) \<Longrightarrow>
      quiet (a_inner (fst r))"
proof -
  have wf: "sm_wf (kids (a_inner s))" using ofa_mid_wf [OF assms(1)] by (simp add: inner_wf_def)
  let ?ns = "filter (\<lambda>n. n \<noteq> trigger \<and> n \<notin> set (cascade_restart s) \<and> n \<notin> set (cascade_drop s))
            (sm_names (kids (a_inner s)))"
  obtain s' o' where sib: "cascade_siblings now ?ns s = (s', o')" by fastforce
  have d: "distinct ?ns" using wf by (simp add: distinct_sm_names)
  have ok: "case (s', o') of
      (s', None) \<Rightarrow> ofa_mid {} s' \<and> (\<forall>k. child_of (a_inner s) k = None \<longrightarrow> child_of (a_inner s') k = None)
        \<and> (\<forall>k. k \<in> set ?ns \<and> child_of (a_inner s) k \<noteq> None \<longrightarrow>
              k \<in> set (cascade_restart s') \<union> set (cascade_drop s'))
        \<and> set (cascade_restart s) \<union> set (cascade_drop s) \<subseteq> set (cascade_restart s') \<union> set (cascade_drop s')
    | (s', Some c) \<Rightarrow> ofa_ok (s', c) \<and> inner_is_exiting (a_inner s')"
    using cascade_siblings_ok [OF assms(1) d, of now] sib by auto
  have r: "r = (case o' of Some c \<Rightarrow> (s', c)
      | None \<Rightarrow> (if a_restarting s' = [] then finish_cascade s' else s', Continue))"
    using sib by (simp add: r_def ofa_start_cascade_def split: option.splits)
  have quiet: "quiet (a_inner s')" if "o' = None"
    unfolding quiet_iff
  proof
    fix k
    have all: "child_of (a_inner s) k \<noteq> None \<Longrightarrow> k \<in> set (cascade_restart s') \<union> set (cascade_drop s')"
      using ok that assms(2) wf by (auto simp: child_of_def set_sm_names)
    show "quiet_child (a_inner s') k"
    proof (cases "child_of (a_inner s) k")
      case None
      then show ?thesis using ok that by (simp add: quiet_child_def)
    next
      case (Some a)
      then show ?thesis using ok that all by (auto simp: ofa_mid_def)
    qed
  qed
  show "ofa_ok r"
    using ok finish_cascade_spec [of s']
    by (cases o') (auto simp: r ofa_inv_ok ofa_inv_def ofa_mid_def intro!: ofa_inv_ok)
  show "a_restarting (fst r) \<noteq> [] \<Longrightarrow> \<not> inner_is_exiting (a_inner (fst r)) \<Longrightarrow>
      quiet (a_inner (fst r))"
    using ok quiet finish_cascade_spec [of s'] by (cases o') (auto simp: r split: if_splits)
qed

section \<open>The strategy keeps the contract\<close>

lemma swap_remove_Pair:
  obtains ys where "iset_swap_remove x xs = (x \<in> set xs, ys)" "ys = snd (iset_swap_remove x xs)"
  using fst_iset_swap_remove [of x xs] by (cases "iset_swap_remove x xs") simp

lemma ofa_remove_mid:
  assumes "ofa_mid {} s" "n \<notin> set (a_restarting s)" "a_restarting s = [] \<longrightarrow> cascade_restart s = [] \<and> cascade_drop s = []"
  shows "ofa_inv {} (fst (ofa_remove_spec n s))"
proof -
  have wf: "inner_wf (a_inner s)" using assms(1) by (rule ofa_mid_wf)
  let ?si = "(a_inner s)\<lparr>kids := fst (sm_remove n (kids (a_inner s)))\<rparr>"
  have tr: "tracked {} (set (a_restarting s)) ?si"
    using tracked_remove [of "{}" "set (a_restarting s)" "a_inner s" n] assms(1,2)
    by (simp add: ofa_mid_def)
  have q: "quiet_child (a_inner s) k \<Longrightarrow> quiet_child ?si k" for k
    using kids_removed(2) [OF wf, of n k] by (auto simp: quiet_child_def)
  have ex: "\<not> inner_is_exiting ?si"
    using kids_removed(3) [OF wf, of n] assms(1) by (simp add: ofa_mid_def)
  have "child_of (a_inner s) n = None \<Longrightarrow> \<not> known (a_inner s) n" by (simp add: known_def)
  then have notin: "child_of (a_inner s) n = None \<Longrightarrow> n \<notin> set (cascade_restart s) \<union> set (cascade_drop s)"
    using assms(1) by (auto simp: ofa_mid_def)
  show ?thesis
    using assms tr q ex notin known_removed [OF wf, of n]
    by (cases "child_of (a_inner s) n")
       (auto simp: ofa_remove_spec_def ofa_remove_with_def inner_remove_spec_eq [OF wf] ofa_inv_def
         ofa_mid_def)
qed

lemma ofa_exit_down:
  assumes "ofa_down {n} s" "n \<in> set (a_exiting s)" "\<not> still_owes (kids (a_inner s)) n"
  shows "ofa_ok (ofa_handle_exit now n reason s)"
proof -
  obtain ex where ex: "iset_swap_remove n (a_exiting s) = (n \<in> set (a_exiting s), ex)"
    "ex = snd (iset_swap_remove n (a_exiting s))" by (rule swap_remove_Pair)
  have "set ex = set (a_exiting s) - {n}" "distinct ex"
    using assms(1) by (simp_all add: ex(2) ofa_down_def)
  then have inv: "ofa_inv {} (s\<lparr>a_exiting := ex\<rparr>)"
    using assms tracked_take [of n "set (a_exiting s)" "a_inner s"] by (simp add: ofa_down_def ofa_inv_def)
  then have "all_dead (a_inner s)" if "ex = []"
    using that assms(1) by (auto simp: ofa_inv_def ofa_down_def intro: quiet_all_dead)
  then show ?thesis using inv assms(2) ex(1) by (simp add: ofa_handle_exit_def ofa_ok_def)
qed

lemma ofa_exit_mid:
  assumes "ofa_mid {n} s" "\<not> still_owes (kids (a_inner s)) n" "quiet_child (a_inner s) n"
    "n \<in> set (a_restarting s) \<or> n \<notin> set (cascade_restart s) \<union> set (cascade_drop s)"
    "a_restarting s = [] \<longrightarrow> cascade_restart s = [] \<and> cascade_drop s = []"
  shows "ofa_ok (ofa_handle_exit now n reason s)"
proof (cases "n \<in> set (a_restarting s)")
  case True
  obtain re where re: "iset_swap_remove n (a_restarting s) = (n \<in> set (a_restarting s), re)"
    "re = snd (iset_swap_remove n (a_restarting s))" by (rule swap_remove_Pair)
  have "set re = set (a_restarting s) - {n}" "distinct re"
    using assms(1) by (simp_all add: re(2) ofa_mid_def)
  then have mid: "ofa_mid {} (s\<lparr>a_restarting := re\<rparr>)"
    using assms tracked_take [of n "set (a_restarting s)" "a_inner s"] by (auto simp: ofa_mid_def)
  have ex: "a_exiting s = []" using assms(1) by (simp add: ofa_mid_def)
  have "ofa_handle_exit now n reason s =
      (if re = [] then finish_cascade (s\<lparr>a_restarting := re\<rparr>) else s\<lparr>a_restarting := re\<rparr>, Continue)"
    using True re(1) ex by (simp add: ofa_handle_exit_def)
  then show ?thesis
    using mid finish_cascade_spec [OF mid] by (auto simp: ofa_ok_def ofa_inv_def ofa_mid_def)
next
  case False
  have mid: "ofa_mid {} s"
    using assms(1) False tracked_taken [of n "set (a_restarting s)" "a_inner s"] by (simp add: ofa_mid_def)
  have ex: "a_exiting s = []" using assms(1) by (simp add: ofa_mid_def)
  obtain si b where p: "ofo_acquire_permits now n (a_inner s) = (si, b)" by fastforce
  have same: "same_states (a_inner s) si"
    using ofo_acquire_permits_same [OF ofa_mid_wf [OF mid], of now n] p by simp
  have mid1: "ofa_mid {} (s\<lparr>a_inner := si\<rparr>)" using ofa_mid_same [OF mid same] .
  let ?s2 = "s\<lparr>a_inner := si, cascade_restart := iset_insert n (cascade_restart s)\<rparr>"
  have mid2: "ofa_mid {} ?s2" if "child_of (a_inner s) n = Some sv" for sv
    using mid1 assms(4) False quiet_child_same [OF same assms(3)] known_Some [OF that]
      known_same [OF same, of n] by (auto simp: ofa_mid_def)
  have "ofa_ok (ofa_start_cascade now n ?s2)" if "child_of (a_inner s) n = Some sv" for sv
    by (rule ofa_start_cascade_ok [OF mid2 [OF that]]) simp
  moreover have "ofa_inv {} s" using mid assms(5) by (simp add: ofa_inv_def ofa_mid_def)
  moreover have "ofa_handle_exit now n reason s =
    (case child_of (a_inner s) n of
       None \<Rightarrow> (s, Continue)
     | Some sv \<Rightarrow>
         if \<not> reason_requires_restart reason sv then (fst (ofa_remove_spec n s), Continue)
         else if b then ofa_start_cascade now n ?s2 else ofa_shutdown (s\<lparr>a_inner := si\<rparr>))"
    using False p ex by (simp add: ofa_handle_exit_def split: option.split bool.split)
  ultimately show ?thesis
    using ofa_mid_shutdown [OF mid1] ofa_inv_ok ofa_remove_mid [OF mid False assms(5)]
    by (simp split: option.split)
qed

lemma ofa_polled:
  assumes "ofa_inv {} s" "sm_poll n r (kids (a_inner s)) = (sm, Ready nx)"
  shows "next_name nx = n"
    "goes_on (next_item nx) \<Longrightarrow> ofa_inv {} (s\<lparr>a_inner := (a_inner s)\<lparr>kids := sm\<rparr>\<rparr>)"
    "\<not> goes_on (next_item nx) \<Longrightarrow>
      ofa_ok (ofa_handle_exit now n reason (s\<lparr>a_inner := (a_inner s)\<lparr>kids := sm\<rparr>\<rparr>))"
proof -
  let ?W = "if inner_is_exiting (a_inner s) then set (a_exiting s) else set (a_restarting s)"
  let ?s = "s\<lparr>a_inner := (a_inner s)\<lparr>kids := sm\<rparr>\<rparr>"
  have tr: "tracked {} ?W (a_inner s)"
    using assms(1) by (auto simp: ofa_inv_def ofa_down_def ofa_mid_def)
  note pt = polled_tracked [OF tr assms(2)] and qc = polled_quiet_child [OF tr assms(2)]
    and qo = polled_quiet_other [OF tr assms(2)]
  show "next_name nx = n" using pt(1) .
  show "goes_on (next_item nx) \<Longrightarrow> ofa_inv {} ?s"
  proof -
    assume g: "goes_on (next_item nx)"
    have "quiet_child (a_inner s) k \<Longrightarrow> quiet_child (a_inner ?s) k" for k
      using pt(5) [of k] qc g by (cases "k = n") (auto simp: quiet_child_def)
    then show ?thesis using assms(1) pt(3,6) g known_polled [OF tr assms(2)]
      by (auto simp: ofa_inv_def ofa_down_def ofa_mid_def)
  qed
  assume g: "\<not> goes_on (next_item nx)"
  then have dead: "\<not> still_owes (kids (a_inner ?s)) n" "quiet_child (a_inner ?s) n"
    using pt(7) dead_owes_nothing [of "a_inner ?s" n] by (auto simp: quiet_child_def)
  show "ofa_ok (ofa_handle_exit now n reason ?s)"
  proof (cases "inner_is_exiting (a_inner s)")
    case True
    then have "ofa_down {n} ?s" "n \<in> set (a_exiting ?s)"
      using assms(1) pt(3,7) g by (auto simp: ofa_inv_def ofa_down_def)
    then show ?thesis using dead(1) by (rule ofa_exit_down)
  next
    case False
    then have inv: "ofa_mid {} s" "a_restarting s = [] \<longrightarrow> cascade_restart s = [] \<and> cascade_drop s = []"
      using assms(1) by (auto simp: ofa_inv_def)
    then have "ofa_mid {n} ?s"
      using False pt(3,7) g qo [OF g] known_polled [OF tr assms(2)] by (auto simp: ofa_mid_def)
    moreover have "n \<in> set (a_restarting ?s) \<or> n \<notin> set (cascade_restart ?s) \<union> set (cascade_drop ?s)"
      using inv(1) qc False by (auto simp: ofa_mid_def)
    ultimately show ?thesis using ofa_exit_mid [of n ?s] dead inv(2) by simp
  qed
qed

lemma ofa_add_spec_inv:
  assumes "ofa_inv {} s"
  obtains s' r where "strategy_add_spec OneForAllStrategy sp s = Some (s', r)" "ofa_inv {} s'"
proof -
  let ?W = "if inner_is_exiting (a_inner s) then set (a_exiting s) else set (a_restarting s)"
  have tr: "tracked {} ?W (a_inner s)"
    using assms by (auto simp: ofa_inv_def ofa_down_def ofa_mid_def)
  obtain si r where a: "inner_add_spec sp (a_inner s) = Some (si, r)" "tracked {} ?W si"
    "inner_is_exiting si = inner_is_exiting (a_inner s)"
    "inner_is_exiting (a_inner s) \<Longrightarrow> si = a_inner s"
    "\<And>n. child_of (a_inner s) n \<noteq> None \<Longrightarrow> child_of si n = child_of (a_inner s) n"
    using inner_add_spec_tracked [OF tr, of sp] by metis
  have "known (a_inner s) n \<Longrightarrow> known si n" "known (a_inner s) n \<Longrightarrow> quiet_child si n = quiet_child (a_inner s) n" for n
    using a(5) [of n] by (auto simp: known_def quiet_child_def)
  then have "ofa_inv {} (s\<lparr>a_inner := si\<rparr>)"
    using assms a(2-4) by (cases "inner_is_exiting (a_inner s)") (auto simp: ofa_inv_def ofa_mid_def)
  then show ?thesis using a(1) that
    by (simp add: strategy_add_spec_def OneForAllStrategy_def)
qed

lemma ofa_handle_initialized_inv:
  assumes "ofa_inv {} s"
  shows "ofa_inv {} (strategy_handle_initialized OneForAllStrategy n s)"
proof -
  let ?si = "fst (inner_handle_initialized n (a_initializing s) (a_inner s))"
  note same = inner_handle_initialized_same [OF ofa_inv_wf [OF assms], of n "a_initializing s"]
  have "known ?si k = known (a_inner s) k" for k using tracked_kids(4) [OF same(1)] by (simp add: known_def)
  moreover have "inner_wf ?si = inner_wf (a_inner s)" using same(2) ofa_inv_wf [OF assms] by simp
  ultimately have "ofa_inv {} (s\<lparr>a_inner := ?si\<rparr>)"
    using assms same(3) tracked_kids(1) [OF same(1)] tracked_kids(2,3) [OF same(1)]
    by (auto simp: ofa_inv_def ofa_mid_def ofa_down_def split: if_splits)
  then show ?thesis
    by (cases "inner_handle_initialized n (a_initializing s) (a_inner s)")
       (auto simp: strategy_handle_initialized_def OneForAllStrategy_def ofa_inv_def ofa_mid_def ofa_down_def
         split: if_splits)
qed

definition ofa_good :: "(one_for_all \<times> control_flow) option \<Rightarrow> bool" where
  "ofa_good r \<longleftrightarrow> (case r of None \<Rightarrow> False | Some x \<Rightarrow> ofa_ok x)"

lemma ofa_inv_shutdown: "ofa_inv {} s \<Longrightarrow> ofa_ok (ofa_shutdown s)"
  using ofa_mid_shutdown [of s] ofa_down_shutdown [of s] by (auto simp: ofa_inv_def split: if_splits)

interpretation ofa: supervision OneForAllStrategy "ofa_inv {}" "\<lambda>s. all_dead (a_inner s)" False False ofa_good
proof (unfold_locales, goal_cases)
  case (3 s)
  then show ?case using ofa_inv_shutdown by (simp add: ofa_good_def OneForAllStrategy_def)
next
  case (5 s sp)
  then obtain s' r where "strategy_add_spec OneForAllStrategy sp s = Some (s', r)" "ofa_inv {} s'"
    by (rule ofa_add_spec_inv)
  then show ?case by (simp add: ofa_good_def ofa_inv_ok)
next
  case (6 s n r sm nx now)
  then show ?case using ofa_polled(1,3) [of s n r sm nx] by (simp add: ofa_good_def OneForAllStrategy_def)
next
  case (7 s n r sm nx q)
  then show ?case using ofa_polled(2) [of s n r sm nx] by (simp add: OneForAllStrategy_def)
next
  case (8 s n r sm nx u now)
  then have "ofa_inv {} (set_inner OneForAllStrategy ((a_inner s)\<lparr>kids := sm\<rparr>) s)"
    using ofa_polled(2) [of s n r sm nx] by (simp add: OneForAllStrategy_def)
  from ofa_inv_ok [OF ofa_handle_initialized_inv [OF this]] show ?case
    by (simp add: ofa_good_def OneForAllStrategy_def)
qed (auto simp: ofa_good_def ofa_ok_def)

lemma ofa_start_ok:
  assumes "inner_wf si" "\<not> inner_is_exiting si" "all_dead si"
  shows "\<exists>s'. strategy_start OneForAllStrategy (one_for_all_new si) = Some (s', Inr (), Continue)
    \<and> ofa_inv {} s'"
proof -
  have wf: "sm_wf (kids si)" using assms(1) by (simp add: inner_wf_def)
  have no: "\<not> still_owes (kids si) n" for n
    using assms(3) dead_owes_nothing [of si n] by (auto simp: all_dead_def)
  note spec = start_all_spec [OF wf no]
  let ?sm = "fst (start_all (kids si))"
  let ?s = "\<lparr>a_inner = si\<lparr>kids := ?sm\<rparr>, a_initializing = sm_names ?sm, a_exiting = [],
    a_restarting = [], cascade_restart = [], cascade_drop = []\<rparr>"
  have "\<not> still_owes ?sm k" for k
    using spec(3) [of k] assms(3)
    by (cases "sm_get (kids si) k") (auto simp: still_owes_def all_dead_def child_of_def owes_exit_def)
  then have inv: "ofa_inv {} ?s"
    using assms spec(1) by (simp add: ofa_inv_def ofa_mid_def tracked_def inner_wf_def inner_is_exiting_def)
  have "strategy_start OneForAllStrategy (one_for_all_new si) = Some (?s, Inr (), Continue)"
    using spec(4) by (cases "start_all (kids si)")
      (simp add: strategy_start_def OneForAllStrategy_def one_for_all_new_def)
  then show ?thesis using inv by blast
qed

definition no_removal :: "(instant \<times> supervisor_event) list \<Rightarrow> bool" where
  "no_removal es \<longleftrightarrow> list_all (\<lambda>(_, ev). \<not> is_removal ev) es"

lemma ofa_run_ok:
  assumes "inner_wf si" "\<not> inner_is_exiting si" "all_dead si" "no_removal es"
  shows "\<exists>s' c. supervisor_run OneForAllStrategy es (one_for_all_new si) = Some (s', c) \<and> ofa_ok (s', c)"
proof -
  obtain s' where "strategy_start OneForAllStrategy (one_for_all_new si) = Some (s', Inr (), Continue)"
    "ofa_inv {} s'" using ofa_start_ok [OF assms(1-3)] by blast
  then show ?thesis using ofa.loop_good [of s' es] assms(4)
    by (auto simp: supervisor_run_def no_removal_def ofa_good_def split: option.splits)
qed

text \<open>The two exits of the properties below: the one that starts a cascade and the one that ends it.\<close>

lemma ofa_polled_mid:
  assumes "ofa_inv {} s" "sm_poll n r (kids (a_inner s)) = (sm, Ready nx)" "\<not> goes_on (next_item nx)"
    "\<not> inner_is_exiting (a_inner s)"
  defines "s1 \<equiv> s\<lparr>a_inner := (a_inner s)\<lparr>kids := sm\<rparr>\<rparr>"
  shows "ofa_mid {n} s1" "\<not> still_owes (kids (a_inner s1)) n" "quiet_child (a_inner s1) n"
    "n \<in> set (a_restarting s1) \<or> n \<notin> set (cascade_restart s1) \<union> set (cascade_drop s1)"
proof -
  have tr: "tracked {} (set (a_restarting s)) (a_inner s)"
    using assms(1,4) by (simp add: ofa_inv_def ofa_mid_def)
  note pt = polled_tracked [OF tr assms(2)] and qc = polled_quiet_child [OF tr assms(2)]
    and qo = polled_quiet_other [OF tr assms(2) assms(3)]
  have mid: "ofa_mid {} s" using assms(1,4) by (simp add: ofa_inv_def)
  show "\<not> still_owes (kids (a_inner s1)) n" "quiet_child (a_inner s1) n"
    using pt(7) assms(3) dead_owes_nothing [of "a_inner s1" n] by (auto simp: quiet_child_def s1_def)
  show "ofa_mid {n} s1" unfolding s1_def
    using mid pt(3,7) assms(3) qo known_polled [OF tr assms(2)] by (auto simp: ofa_mid_def)
  show "n \<in> set (a_restarting s1) \<or> n \<notin> set (cascade_restart s1) \<union> set (cascade_drop s1)"
    using mid qc assms(4) by (auto simp: ofa_mid_def s1_def)
qed

lemma ofa_exit_last:
  assumes "ofa_inv {} s" "sm_poll n r (kids (a_inner s)) = (sm, Ready nx)" "\<not> goes_on (next_item nx)"
    "ofa_handle_exit now n reason (s\<lparr>a_inner := (a_inner s)\<lparr>kids := sm\<rparr>\<rparr>) = (s', c)"
    "\<not> inner_is_exiting (a_inner s)" "a_restarting s = [n]"
  defines "s2 \<equiv> s\<lparr>a_inner := (a_inner s)\<lparr>kids := sm\<rparr>\<rparr>\<lparr>a_restarting := []\<rparr>"
  shows "ofa_mid {} s2" "s' = finish_cascade s2" "c = Continue"
proof -
  note pm = ofa_polled_mid [OF assms(1-3,5)]
  show "ofa_mid {} s2"
    using pm(1,2) tracked_take [of n "{n}" "(a_inner s)\<lparr>kids := sm\<rparr>"] assms(6)
    by (auto simp: ofa_mid_def s2_def)
  have "a_exiting s = []" using assms(1,5) by (simp add: ofa_inv_def ofa_mid_def)
  then show "s' = finish_cascade s2" "c = Continue"
    using assms(4,6) by (auto simp: ofa_handle_exit_def s2_def iset_swap_remove_def)
qed

lemma ofa_exit_starts:
  assumes "ofa_inv {} s" "sm_poll n r (kids (a_inner s)) = (sm, Ready nx)" "\<not> goes_on (next_item nx)"
    "ofa_handle_exit now n reason (s\<lparr>a_inner := (a_inner s)\<lparr>kids := sm\<rparr>\<rparr>) = (s', c)"
    "\<not> inner_is_exiting (a_inner s')" "a_restarting s = []" "a_restarting s' \<noteq> []"
  shows "quiet (a_inner s')"
proof -
  let ?s = "s\<lparr>a_inner := (a_inner s)\<lparr>kids := sm\<rparr>\<rparr>"
  show ?thesis
  proof (cases "inner_is_exiting (a_inner s)")
    case True
    then have "n \<in> set (a_exiting s)"
      using assms(1,2,3) polled_tracked(7) [of "set (a_exiting s)" "a_inner s" n r sm nx]
      by (auto simp: ofa_inv_def ofa_down_def)
    then have "a_restarting s' = a_restarting s"
      using assms(4) fst_iset_swap_remove [of n "a_exiting s"]
      by (cases "iset_swap_remove n (a_exiting s)") (auto simp: ofa_handle_exit_def)
    then show ?thesis using assms(6,7) by simp
  next
    case False
    note pm = ofa_polled_mid [OF assms(1-3) False]
    have ex: "a_exiting s = []" using assms(1) False by (simp add: ofa_inv_def ofa_mid_def)
    obtain si b where p: "ofo_acquire_permits now n (a_inner ?s) = (si, b)" by fastforce
    have mid: "ofa_mid {} ?s"
      using pm(1) assms(6) tracked_taken [of n "{}" "a_inner ?s"] by (simp add: ofa_mid_def)
    have same: "same_states (a_inner ?s) si"
      using ofo_acquire_permits_same [OF ofa_mid_wf [OF mid], of now n] p by simp
    let ?s2 = "?s\<lparr>a_inner := si, cascade_restart := iset_insert n (cascade_restart s)\<rparr>"
    have eq: "ofa_handle_exit now n reason ?s =
      (case child_of (a_inner ?s) n of
         None \<Rightarrow> (?s, Continue)
       | Some sv \<Rightarrow>
           if \<not> reason_requires_restart reason sv then (fst (ofa_remove_spec n ?s), Continue)
           else if b then ofa_start_cascade now n ?s2 else ofa_shutdown (?s\<lparr>a_inner := si\<rparr>))"
      using p ex assms(6) by (simp add: ofa_handle_exit_def iset_swap_remove_def split: option.split bool.split)
    have mid1: "ofa_mid {} (?s\<lparr>a_inner := si\<rparr>)" using ofa_mid_same [OF mid same] .
    have "a_restarting (fst (ofa_remove_spec n ?s)) = []"
      using assms(6) inner_remove_spec_eq [OF ofa_mid_wf [OF mid]]
      by (cases "child_of (a_inner ?s) n") (simp_all add: ofa_remove_spec_def ofa_remove_with_def Let_def)
    moreover have "inner_is_exiting (a_inner (fst (ofa_shutdown (?s\<lparr>a_inner := si\<rparr>))))"
      using ofa_mid_shutdown [OF mid1] by simp
    moreover have "ofa_mid {} ?s2" if "child_of (a_inner ?s) n = Some sv" for sv
      using mid1 pm(3,4) assms(6) quiet_child_same [OF same pm(3)] known_Some [OF that]
        known_same [OF same, of n] by (auto simp: ofa_mid_def)
    ultimately have "s' = fst (ofa_start_cascade now n ?s2) \<and> ofa_mid {} ?s2"
      using assms(4-7) unfolding eq by (auto split: option.splits if_splits)
    then show ?thesis using ofa_start_cascade_ok(2) [of ?s2 n now] assms(5,7) by simp
  qed
qed

section \<open>Properties\<close>

text \<open>C6: A one-for-all supervisor none of whose children is deregistered never panics, and when its loop
  ends every child is dead.\<close>

theorem one_for_all_ends_with_no_child_left:
  assumes "inner_wf si" "\<not> inner_is_exiting si" "all_dead si" "no_removal es"
  shows "\<exists>s' c. supervisor_run OneForAllStrategy es (one_for_all_new si) = Some (s', c)
    \<and> (c = Break \<longrightarrow> all_dead (a_inner s'))"
  using ofa_run_ok [OF assms] by (auto simp: ofa_ok_def)

text \<open>The turn in which a child exits, as a call of the exit handler on the state after the poll.\<close>

lemma ofa_turn_exit:
  assumes "ofa_inv {} s" "supervisor_turn OneForAllStrategy (now, EvChild n r) s = Some (s', rep, c)"
    "a_restarting s' \<noteq> a_restarting s"
  obtains sm nx reason where "sm_poll n r (kids (a_inner s)) = (sm, Ready nx)" "\<not> goes_on (next_item nx)"
    "ofa_handle_exit now n reason (s\<lparr>a_inner := (a_inner s)\<lparr>kids := sm\<rparr>\<rparr>) = (s', c)"
proof -
  obtain sm p where poll: "sm_poll n r (kids (a_inner s)) = (sm, p)" by fastforce
  have same: "a_restarting (strategy_handle_initialized OneForAllStrategy k t) = a_restarting t" for k t
    by (cases "inner_handle_initialized k (a_initializing t) (a_inner t)")
       (simp add: strategy_handle_initialized_def OneForAllStrategy_def)
  show ?thesis
  proof (cases p)
    case Pending
    then show ?thesis using poll assms(2,3) by (simp add: OneForAllStrategy_def)
  next
    case (Ready nx)
    have nm: "next_name nx = n" using ofa_polled(1) [OF assms(1) poll [unfolded Ready]] .
    have "\<not> goes_on (next_item nx)"
      using assms(2,3) poll Ready same
      by (cases "next_item nx" rule: goes_on.cases) (auto simp: OneForAllStrategy_def)
    moreover have "\<exists>reason. ofa_handle_exit now n reason (s\<lparr>a_inner := (a_inner s)\<lparr>kids := sm\<rparr>\<rparr>) = (s', c)"
      using assms(2) poll Ready nm calculation
      by (auto simp: handle_item_dead OneForAllStrategy_def split: prod.splits)
    ultimately show ?thesis using poll Ready that by blast
  qed
qed

text \<open>When a child of a one-for-all supervisor has to be restarted and another one is still alive, every
  child is stopped: after the turn each one is dead or shutting down, and the supervisor waits for
  exactly those that are shutting down.\<close>

theorem one_for_all_stops_the_whole_group:
  assumes "inner_wf si" "\<not> inner_is_exiting si" "all_dead si" "no_removal es"
    "supervisor_run OneForAllStrategy es (one_for_all_new si) = Some (s, Continue)"
    "supervisor_turn OneForAllStrategy (now, EvChild n r) s = Some (s', rep, c)"
    "\<not> inner_is_exiting (a_inner s')" "a_restarting s = []" "a_restarting s' \<noteq> []"
  shows "quiet (a_inner s') \<and> set (a_restarting s') = {k. still_owes (kids (a_inner s')) k}"
proof -
  have inv: "ofa_inv {} s" using ofa_run_ok [OF assms(1-4)] assms(5) by (auto simp: ofa_ok_def)
  obtain sm nx reason where poll: "sm_poll n r (kids (a_inner s)) = (sm, Ready nx)" "\<not> goes_on (next_item nx)"
    and he: "ofa_handle_exit now n reason (s\<lparr>a_inner := (a_inner s)\<lparr>kids := sm\<rparr>\<rparr>) = (s', c)"
    using ofa_turn_exit [OF inv assms(6)] assms(8,9) by metis
  have "ofa_ok (s', c)" using ofa_polled(3) [OF inv poll, of now reason] he by simp
  then have "tracked {} (set (a_restarting s')) (a_inner s')"
    using assms(7) by (simp add: ofa_ok_def ofa_inv_def ofa_mid_def)
  moreover have "quiet (a_inner s')"
    by (rule ofa_exit_starts [OF inv poll he assms(7-9)])
  ultimately show ?thesis by (auto simp: tracked_def)
qed

text \<open>C7: When the last child a group restart waits for has exited, the children of the group that are never
  restarted are dropped, all others are started in that same turn, and no child outside the
  group changes.\<close>

theorem one_for_all_restarts_the_group_together:
  assumes "inner_wf si" "\<not> inner_is_exiting si" "all_dead si" "no_removal es"
    "supervisor_run OneForAllStrategy es (one_for_all_new si) = Some (s, Continue)"
    "supervisor_turn OneForAllStrategy (now, EvChild n r) s = Some (s', rep, c)"
    "\<not> inner_is_exiting (a_inner s)" "a_restarting s = [n]" "a_restarting s' = []"
  shows "map_option state (child_of (a_inner s') k) =
      (if k \<in> set (cascade_drop s) then None
       else if k \<in> set (cascade_restart s) then Some Starting
       else map_option state (child_of (a_inner s) k))"
proof -
  have inv: "ofa_inv {} s" using ofa_run_ok [OF assms(1-4)] assms(5) by (auto simp: ofa_ok_def)
  obtain sm nx reason where poll: "sm_poll n r (kids (a_inner s)) = (sm, Ready nx)" "\<not> goes_on (next_item nx)"
    and he: "ofa_handle_exit now n reason (s\<lparr>a_inner := (a_inner s)\<lparr>kids := sm\<rparr>\<rparr>) = (s', c)"
    using ofa_turn_exit [OF inv assms(6)] assms(8,9) by (metis not_Cons_self2)
  let ?s = "s\<lparr>a_inner := (a_inner s)\<lparr>kids := sm\<rparr>\<rparr>"
  have tr: "tracked {} (set (a_restarting s)) (a_inner s)" using inv assms(7) by (simp add: ofa_inv_def ofa_mid_def)
  have mid: "ofa_mid {} (?s\<lparr>a_restarting := []\<rparr>)" "s' = finish_cascade (?s\<lparr>a_restarting := []\<rparr>)"
    using ofa_exit_last [OF inv poll he assms(7,8)] by auto
  have other: "k \<noteq> n \<Longrightarrow> child_of (a_inner ?s) k = child_of (a_inner s) k"
    using polled_tracked(5) [OF tr poll(1)] by simp
  have "n \<in> set (cascade_restart s) \<union> set (cascade_drop s)"
    using inv assms(7,8) by (auto simp: ofa_inv_def ofa_mid_def)
  moreover have "k \<in> set (cascade_restart s) \<Longrightarrow> child_of (a_inner ?s) k \<noteq> None"
    using mid(1) by (auto simp: ofa_mid_def known_def)
  moreover have "child_of (a_inner s') k =
      (if k \<in> set (cascade_drop s) then None
       else if k \<in> set (cascade_restart s)
       then map_option (\<lambda>sv. sv\<lparr>state := Starting\<rparr>) (child_of (a_inner ?s) k)
       else child_of (a_inner ?s) k)"
    using finish_cascade_spec [OF mid(1)] unfolding mid(2) by simp
  ultimately show ?thesis using other by (cases "k = n") auto
qed

section \<open>A group restart that outlives its supervisor\<close>

text \<open>Finishing a cascade in any state starts the dead members that stay.\<close>

lemma swap_remove_with_keeps: "k \<in> set xs \<Longrightarrow> k \<noteq> x \<Longrightarrow> k \<in> set (swap_remove_with l x xs)"
  by (induction xs) auto

lemma swap_remove_with_last: "x \<in> set xs \<Longrightarrow> l \<in> set (swap_remove_with l x xs)"
  by (induction xs) auto

lemma iset_swap_remove_keeps:
  assumes "k \<in> set xs" "k \<noteq> x"
  shows "k \<in> set (snd (iset_swap_remove x xs))"
proof (cases "x \<in> set xs")
  case True
  have xs: "xs = butlast xs @ [last xs]" using assms(1) by (metis append_butlast_last_id empty_iff empty_set)
  then have m: "y \<in> set xs \<longleftrightarrow> y \<in> set (butlast xs) \<or> y = last xs" for y
    by (metis Un_iff empty_iff empty_set insert_iff list.simps(15) set_append)
  show ?thesis using True assms m [of x] m [of k]
    by (auto simp: iset_swap_remove_def swap_remove_with_keeps swap_remove_with_last)
qed (use assms in simp)

lemma ofa_drop_fold_keeps:
  assumes "inner_wf (a_inner s)" "a_restarting s = []" "k \<notin> set ns"
  defines "s' \<equiv> fold ofa_remove_idle ns s"
  shows "inner_wf (a_inner s') \<and> ibox (a_inner s') = ibox (a_inner s) \<and> a_restarting s' = []
    \<and> child_of (a_inner s') k = child_of (a_inner s) k
    \<and> (k \<in> set (cascade_restart s) \<longrightarrow> k \<in> set (cascade_restart s'))"
  using assms(1-3) unfolding s'_def
proof (induction ns arbitrary: s)
  case (Cons n ns)
  note wf = Cons.prems(1)
  let ?s = "ofa_remove_idle n s"
  have "inner_wf (a_inner ?s) \<and> ibox (a_inner ?s) = ibox (a_inner s) \<and> a_restarting ?s = []
    \<and> child_of (a_inner ?s) k = child_of (a_inner s) k
    \<and> (k \<in> set (cascade_restart s) \<longrightarrow> k \<in> set (cascade_restart ?s))"
    using Cons.prems kids_removed [OF wf, of n] iset_swap_remove_keeps [of k "cascade_restart s" n]
    by (cases "child_of (a_inner s) n")
       (auto simp: ofa_remove_idle_def ofa_remove_with_def inner_remove_spec_eq [OF wf] Let_def)
  then show ?case using Cons.IH [of ?s] Cons.prems(3) by simp
qed simp

lemma ofa_start_fold_starts:
  fixes ns k
  assumes "inner_wf (a_inner s)"
  defines "s' \<equiv> fold (\<lambda>n s. fst (ofa_on_child n start s)) ns s"
  shows "ibox (a_inner s') = ibox (a_inner s)
    \<and> (map_option state (child_of (a_inner s) k) = Some Starting \<or>
         map_option state (child_of (a_inner s) k) = Some Dead \<and> k \<in> set ns \<longrightarrow>
          map_option state (child_of (a_inner s') k) = Some Starting)"
  using assms(1) unfolding s'_def
proof (induction ns arbitrary: s)
  case (Cons n ns)
  have wf: "inner_wf (fst (on_child n start (a_inner s)))"
    by (rule inner_wf_on_child [OF Cons.prems]) simp
  let ?s = "s\<lparr>a_inner := fst (on_child n start (a_inner s))\<rparr>"
  have "map_option state (child_of (a_inner ?s) k) = Some Starting"
    if "map_option state (child_of (a_inner s) k) = Some Starting \<or>
      map_option state (child_of (a_inner s) k) = Some Dead \<and> k = n"
    using that child_of_on_child [OF Cons.prems, of n start k] by (auto simp: start_def)
  moreover have "k \<noteq> n \<Longrightarrow> child_of (a_inner ?s) k = child_of (a_inner s) k"
    using child_of_on_child [OF Cons.prems, of n start k] by simp
  ultimately show ?case using Cons.IH [of ?s] wf
    by (cases "k = n") (simp_all add: ofa_on_child_eq)
qed simp

text \<open>Deregistering the last child that an unfinished group restart waits for, while the one-for-all
  supervisor is shutting down, starts the other children of the group again: each dead one is started,
  and the supervisor stays in its loop, still exiting.\<close>

theorem one_for_all_deregister_restarts_while_exiting:
  assumes "inner_wf (a_inner s)" "inner_is_exiting (a_inner s)" "a_restarting s = [n]"
    "child_of (a_inner s) n \<noteq> None" "k \<in> set (cascade_restart s)" "k \<noteq> n" "k \<notin> set (cascade_drop s)"
    "map_option state (child_of (a_inner s) k) = Some Dead"
  shows "\<exists>s' rep. supervisor_turn OneForAllStrategy (now, EvMessage (MsgDeregister n)) s = Some (s', rep, Continue)
    \<and> map_option state (child_of (a_inner s') k) = Some Starting \<and> inner_is_exiting (a_inner s')"
proof -
  note wf = assms(1)
  let ?s = "s\<lparr>a_inner := (a_inner s)\<lparr>kids := fst (sm_remove n (kids (a_inner s)))\<rparr>,
    a_initializing := snd (iset_swap_remove n (a_initializing s)),
    a_exiting := snd (iset_swap_remove n (a_exiting s)), a_restarting := []\<rparr>"
  obtain sv where sv: "child_of (a_inner s) n = Some sv" using assms(4) by blast
  have fin: "a_inner (fst (ofa_remove_spec n s)) = a_inner (finish_cascade ?s)"
    using assms(3) sv by (simp add: ofa_remove_spec_def ofa_remove_with_def inner_remove_spec_eq [OF wf] Let_def
        iset_swap_remove_def)
  have wf': "inner_wf (a_inner (?s\<lparr>cascade_drop := []\<rparr>))" using kids_removed(1) [OF wf, of n] by simp
  let ?s1 = "fold ofa_remove_idle (cascade_drop ?s) (?s\<lparr>cascade_drop := []\<rparr>)"
  have d: "inner_wf (a_inner ?s1)" "ibox (a_inner ?s1) = ibox (a_inner s)"
    "child_of (a_inner ?s1) k = child_of (a_inner s) k" "k \<in> set (cascade_restart ?s1)"
    using ofa_drop_fold_keeps [OF wf', of k "cascade_drop ?s"] assms(5-7) kids_removed(2,5) [OF wf, of n] by auto
  have wf1: "inner_wf (a_inner (?s1\<lparr>cascade_restart := []\<rparr>))" using d(1) by simp
  have "ibox (a_inner (finish_cascade ?s)) = ibox (a_inner s)"
    "map_option state (child_of (a_inner (finish_cascade ?s)) k) = Some Starting"
    using ofa_start_fold_starts [OF wf1, where ns = "cascade_restart ?s1" and k = k] d assms(8)
    by (auto simp: finish_cascade_def Let_def)
  then show ?thesis using assms(2) fin
    by (cases "ofa_remove_spec n s") (simp add: OneForAllStrategy_def inner_is_exiting_def)
qed

section \<open>Witnesses\<close>

definition crashes :: "name \<Rightarrow> supervisor_event" where
  "crashes n = EvChild n (JoinDone (Inl JoinPanic))"

definition example_group :: "restart_mode \<Rightarrow> supervisor_inner" where
  "example_group m = example_inner [example_spec ''a'' Always, example_spec ''b'' m] Initializing"

lemma example_group_facts:
  "inner_wf (example_group m)" "\<not> inner_is_exiting (example_group m)" "all_dead (example_group m)"
  by (simp_all add: example_group_def example_inner_facts)

definition group_up :: "(instant \<times> supervisor_event) list" where
  "group_up = [(1, EvChild ''a'' (StartDone (Inr ()))), (2, EvChild ''b'' (StartDone (Inr ()))),
      (3, EvChild ''a'' (InitDone (Inr ()))), (4, EvChild ''b'' (InitDone (Inr ())))]"

lemma no_removal_examples: "no_removal group_up" "no_removal (group_up @ [(5, crashes ''a'')])"
  "no_removal (group_up @ [(5, crashes ''a''), (6, crashes ''b'')])"
  by (simp_all add: no_removal_def group_up_def crashes_def)

theorem one_for_all_ends_with_no_child_left_witness:
  "\<exists>s' c. supervisor_run OneForAllStrategy (group_up @ [(5, crashes ''a''), (6, crashes ''b'')])
      (one_for_all_new (example_group Always)) = Some (s', c) \<and> (c = Break \<longrightarrow> all_dead (a_inner s'))"
  by (rule one_for_all_ends_with_no_child_left) (simp_all add: example_group_facts no_removal_examples)

lemma example_group_crash:
  "map_option (\<lambda>(s, c). (a_restarting s, c))
     (supervisor_run OneForAllStrategy group_up (one_for_all_new (example_group Always)))
     = Some ([], Continue)"
  "map_option (\<lambda>(s, c). map_option (\<lambda>(s', _, c). (a_restarting s', inner_is_exiting (a_inner s')))
       (supervisor_turn OneForAllStrategy (5, crashes ''a'') s))
     (supervisor_run OneForAllStrategy group_up (one_for_all_new (example_group Always)))
     = Some (Some ([''b''], False))"
  by code_simp+

theorem one_for_all_stops_the_whole_group_witness:
  "\<exists>s s' rep c. supervisor_turn OneForAllStrategy (5, crashes ''a'') s = Some (s', rep, c)
     \<and> a_restarting s' = [''b''] \<and> quiet (a_inner s')"
proof -
  obtain s where s: "supervisor_run OneForAllStrategy group_up (one_for_all_new (example_group Always))
      = Some (s, Continue)" "a_restarting s = []"
    using example_group_crash(1) by auto
  then obtain s' rep c where t: "supervisor_turn OneForAllStrategy (5, crashes ''a'') s = Some (s', rep, c)"
      "a_restarting s' = [''b'']" "\<not> inner_is_exiting (a_inner s')"
    using example_group_crash(2) by auto
  from one_for_all_stops_the_whole_group [OF example_group_facts no_removal_examples(1) s(1)
      t(1) [unfolded crashes_def] t(3) s(2)] t show ?thesis by auto
qed

lemma example_group_never:
  "map_option (\<lambda>(s, c). (a_restarting s, inner_is_exiting (a_inner s), cascade_restart s, cascade_drop s, c))
     (supervisor_run OneForAllStrategy (group_up @ [(5, crashes ''a'')]) (one_for_all_new (example_group Never)))
     = Some ([''b''], False, [''a''], [''b''], Continue)"
  "map_option (\<lambda>(s, c). map_option (\<lambda>(s', _, c). a_restarting s')
       (supervisor_turn OneForAllStrategy (6, crashes ''b'') s))
     (supervisor_run OneForAllStrategy (group_up @ [(5, crashes ''a'')]) (one_for_all_new (example_group Never)))
     = Some (Some [])"
  by code_simp+

theorem one_for_all_restarts_the_group_together_witness:
  "\<exists>s s' rep c. supervisor_turn OneForAllStrategy (6, crashes ''b'') s = Some (s', rep, c)
     \<and> map_option state (child_of (a_inner s') ''a'') = Some Starting
     \<and> child_of (a_inner s') ''b'' = None"
proof -
  obtain s where s: "supervisor_run OneForAllStrategy (group_up @ [(5, crashes ''a'')])
      (one_for_all_new (example_group Never)) = Some (s, Continue)"
      "a_restarting s = [''b'']" "\<not> inner_is_exiting (a_inner s)" "cascade_restart s = [''a'']"
      "cascade_drop s = [''b'']"
    using example_group_never(1) by auto
  then obtain s' rep c where t: "supervisor_turn OneForAllStrategy (6, crashes ''b'') s = Some (s', rep, c)"
      "a_restarting s' = []"
    using example_group_never(2) by auto
  note together = one_for_all_restarts_the_group_together [OF example_group_facts no_removal_examples(2)
      s(1) t(1) [unfolded crashes_def] s(3,2) t(2)]
  show ?thesis using together [of "''a''"] together [of "''b''"] s(4,5) t(1) by auto
qed

lemma example_group_exiting:
  "map_option (\<lambda>(s, c). (inner_is_exiting (a_inner s), a_exiting s, a_restarting s, cascade_restart s,
        cascade_drop s, map_option state (child_of (a_inner s) ''a''),
        map_option state (child_of (a_inner s) ''b''), c))
     (supervisor_run OneForAllStrategy (group_up @ [(5, crashes ''a''), (6, EvSignal Shutdown)])
        (one_for_all_new (example_group Always)))
   = Some (True, [''b''], [''b''], [''a'', ''b''], [], Some Dead, Some (ShuttingDown 5), Continue)"
  by code_simp

theorem one_for_all_deregister_restarts_while_exiting_witness:
  "\<exists>s s' rep. supervisor_run OneForAllStrategy (group_up @ [(5, crashes ''a''), (6, EvSignal Shutdown)])
        (one_for_all_new (example_group Always)) = Some (s, Continue)
    \<and> supervisor_turn OneForAllStrategy (7, EvMessage (MsgDeregister ''b'')) s = Some (s', rep, Continue)
    \<and> map_option state (child_of (a_inner s') ''a'') = Some Starting \<and> inner_is_exiting (a_inner s')"
proof -
  obtain s where s: "supervisor_run OneForAllStrategy (group_up @ [(5, crashes ''a''), (6, EvSignal Shutdown)])
      (one_for_all_new (example_group Always)) = Some (s, Continue)"
    "inner_is_exiting (a_inner s)" "a_restarting s = [''b'']" "cascade_restart s = [''a'', ''b'']"
    "cascade_drop s = []" "map_option state (child_of (a_inner s) ''a'') = Some Dead"
    "child_of (a_inner s) ''b'' \<noteq> None"
    using example_group_exiting by auto
  have "no_removal (group_up @ [(5, crashes ''a''), (6, EvSignal Shutdown)])"
    by (simp add: no_removal_def group_up_def crashes_def)
  from ofa_run_ok [OF example_group_facts [of Always] this] s(1) have "ofa_ok (s, Continue)" by auto
  then have "inner_wf (a_inner s)" using ofa_inv_wf [of "{}" s] by (simp add: ofa_ok_def)
  from one_for_all_deregister_restarts_while_exiting [OF this s(2,3,7), of "''a''" 7] s show ?thesis by auto
qed

end
