(* ===== verification/Rest_For_One.thy ===== *)
theory Rest_For_One
  imports One_For_All
begin

text \<open>
  The rest-for-one strategy (\<open>supervisor/src/actor/rest_for_one.rs\<close>): when a child has to be restarted,
  the children started after it are stopped one at a time, the last one first, and then started
  again one at a time, each when the one before has initialized.

  Most calls of the strategy's operations form a chain; the one that goes back, the removal of the
  children to drop at the end of the stop phase, happens only when no cascade is in progress, where the
  removal does not advance one (\<open>rfo_remove_with_idle\<close>). \<open>None\<close> is a panic: a position that is asked for a
  name which is no longer there, a failed debug assertion, or the branch the code calls unreachable.
\<close>

section \<open>The strategy\<close>

datatype cascade =
  Idle
| ExitingCascade name "name list" "name list" "name list"
  \<comment> \<open>current, pending, to restart, to drop\<close>
| Restarting name "name list"
| ShuttingDownCascade name "name list"

fun current :: "cascade \<Rightarrow> name option" where
  "current Idle = None"
| "current (ExitingCascade c _ _ _) = Some c"
| "current (Restarting c _) = Some c"
| "current (ShuttingDownCascade c _) = Some c"

fun pending_contains :: "cascade \<Rightarrow> name \<Rightarrow> bool" where
  "pending_contains (ExitingCascade _ p _ _) n = (n \<in> set p)"
| "pending_contains (ShuttingDownCascade _ p) n = (n \<in> set p)"
| "pending_contains _ n = False"

record rest_for_one =
  r_inner :: supervisor_inner
  r_initializing :: "name list"
  cascade :: cascade

definition rest_for_one_new :: "supervisor_inner \<Rightarrow> rest_for_one" where
  "rest_for_one_new si = \<lparr>r_inner = si, r_initializing = [], cascade = Idle\<rparr>"

definition rfo_on_child ::
    "name \<Rightarrow> (supervisee \<Rightarrow> supervisee \<times> 'r) \<Rightarrow> rest_for_one \<Rightarrow> rest_for_one \<times> 'r option" where
  "rfo_on_child n f s = (let (si, r) = on_child n f (r_inner s) in (s\<lparr>r_inner := si\<rparr>, r))"

text \<open>The pending names are taken from the back.\<close>

function advance_shutdown :: "name list \<Rightarrow> rest_for_one \<Rightarrow> rest_for_one \<times> control_flow" where
  "advance_shutdown pending s =
     (if pending = [] then (s\<lparr>cascade := Idle\<rparr>, Break)
      else case rfo_on_child (last pending) stop s of
          (s, Some StopShuttingDown) \<Rightarrow>
            (s\<lparr>cascade := ShuttingDownCascade (last pending) (butlast pending)\<rparr>, Continue)
        | (s, _) \<Rightarrow> advance_shutdown (butlast pending) s)"
  by pat_completeness auto
termination by (relation "measure (\<lambda>(p, s). length p)") simp_all

declare advance_shutdown.simps [simp del]

definition rfo_shutdown :: "rest_for_one \<Rightarrow> rest_for_one \<times> control_flow" where
  "rfo_shutdown s =
     (case cascade s of
        ShuttingDownCascade _ _ \<Rightarrow> (s, Continue)
      | _ \<Rightarrow>
          (let s = s\<lparr>r_inner := register_inner_exiting (r_inner s)\<rparr>
           in advance_shutdown (sm_names (kids (r_inner s))) s))"

fun advance_restart :: "name list \<Rightarrow> rest_for_one \<Rightarrow> rest_for_one \<times> control_flow" where
  "advance_restart [] s = (s\<lparr>cascade := Idle\<rparr>, Continue)"
| "advance_restart (n # ns) s =
     (case rfo_on_child n start s of
        (s, Some (Inr True)) \<Rightarrow> (s\<lparr>cascade := Restarting n ns\<rparr>, Continue)
      | (s, _) \<Rightarrow> advance_restart ns s)"

definition rfo_remove_with ::
    "(rest_for_one \<Rightarrow> rest_for_one) \<Rightarrow> name \<Rightarrow> rest_for_one \<Rightarrow> rest_for_one \<times> supervisee option" where
  "rfo_remove_with advance n s =
     (let (si, ini, _, r) = inner_remove_spec n (r_initializing s) [] (r_inner s);
          s = s\<lparr>r_inner := si, r_initializing := ini\<rparr>
      in (if r \<noteq> None \<and> current (cascade s) = Some n then advance s else s, r))"

definition rfo_remove_idle :: "name \<Rightarrow> rest_for_one \<Rightarrow> rest_for_one" where
  "rfo_remove_idle n s = fst (rfo_remove_with (\<lambda>s. s) n s)"

lemma rfo_remove_with_idle: "cascade s = Idle \<Longrightarrow> rfo_remove_with f n s = rfo_remove_with g n s"
  by (simp add: rfo_remove_with_def split: prod.splits)

text \<open>
  One turn of the loop of \<open>advance_stop\<close>: \<open>Inl\<close> when the child's restart budget is used up, otherwise the
  names to restart and to drop so far, and whether the child is now waited for.
\<close>

definition stop_turn ::
    "instant \<Rightarrow> name \<Rightarrow> name list \<Rightarrow> name list \<Rightarrow> rest_for_one \<Rightarrow>
     rest_for_one + (name list \<times> name list \<times> bool \<times> rest_for_one)" where
  "stop_turn now n to_restart to_drop s =
     (case child_of (r_inner s) n of
        None \<Rightarrow> Inr (to_restart, to_drop, False, s)
      | Some sv \<Rightarrow>
          if restart_mode (cfg sv) = Never then
            (case rfo_on_child n stop s of
               (s, out) \<Rightarrow> Inr (to_restart, to_drop @ [n], out = Some StopShuttingDown, s))
          else
            (case rfo_on_child n (acquire_restart_permit now) s of
               (s, Some False) \<Rightarrow> Inl s
             | (s, _) \<Rightarrow>
                 (case rfo_on_child n stop s of
                    (s, out) \<Rightarrow> Inr (to_restart @ [n], to_drop, out = Some StopShuttingDown, s))))"

function advance_stop ::
    "instant \<Rightarrow> name list \<Rightarrow> name list \<Rightarrow> name list \<Rightarrow> rest_for_one \<Rightarrow> rest_for_one \<times> control_flow" where
  "advance_stop now pending to_restart to_drop s =
     (if pending = [] then advance_restart (rev to_restart) (fold rfo_remove_idle to_drop s)
      else case stop_turn now (last pending) to_restart to_drop s of
          Inl s \<Rightarrow> rfo_shutdown s
        | Inr (to_restart, to_drop, waits, s) \<Rightarrow>
            if waits
            then (s\<lparr>cascade := ExitingCascade (last pending) (butlast pending) to_restart to_drop\<rparr>, Continue)
            else advance_stop now (butlast pending) to_restart to_drop s)"
  by pat_completeness auto
termination by (relation "measure (\<lambda>(now, p, r, d, s). length p)") simp_all

declare advance_stop.simps [simp del]

definition advance_cascade :: "instant \<Rightarrow> rest_for_one \<Rightarrow> rest_for_one \<times> control_flow" where
  "advance_cascade now s =
     (let s' = s\<lparr>cascade := Idle\<rparr>
      in case cascade s of
           Idle \<Rightarrow> (s', Continue)
         | ExitingCascade _ p r d \<Rightarrow> advance_stop now p r d s'
         | Restarting _ p \<Rightarrow> advance_restart p s'
         | ShuttingDownCascade _ p \<Rightarrow> advance_shutdown p s')"

definition rfo_remove_spec :: "instant \<Rightarrow> name \<Rightarrow> rest_for_one \<Rightarrow> rest_for_one \<times> supervisee option" where
  "rfo_remove_spec now n s = rfo_remove_with (\<lambda>s. fst (advance_cascade now s)) n s"

fun before_alive :: "exit_reason \<Rightarrow> bool" where
  "before_alive StartFailure = True"
| "before_alive (InitExit _) = True"
| "before_alive (ExitedWith _) = False"

definition handle_cascade_current_exit ::
    "instant \<Rightarrow> name \<Rightarrow> exit_reason \<Rightarrow> rest_for_one \<Rightarrow> (rest_for_one \<times> control_flow) option" where
  "handle_cascade_current_exit now n reason s =
     (case cascade s of
        Restarting _ _ \<Rightarrow>
          if \<not> before_alive reason then None
          else (case child_of (r_inner s) n of
            None \<Rightarrow> Some (advance_cascade now s)
          | Some sv \<Rightarrow>
              if \<not> reason_requires_restart reason sv then Some (fst (rfo_remove_spec now n s), Continue)
              else (case rfo_on_child n (acquire_restart_permit now) s of
                  (s, Some False) \<Rightarrow> Some (rfo_shutdown s)
                | (s, _) \<Rightarrow> Some (fst (rfo_on_child n start s), Continue)))
      | Idle \<Rightarrow> None
      | _ \<Rightarrow> Some (advance_cascade now s))"

text \<open>The position of a name among the children, in start order.\<close>

fun position :: "name \<Rightarrow> name list \<Rightarrow> nat option" where
  "position n [] = None"
| "position n (k # ks) = (if k = n then Some 0 else map_option Suc (position n ks))"

definition rfo_start_cascade ::
    "instant \<Rightarrow> name \<Rightarrow> rest_for_one \<Rightarrow> (rest_for_one \<times> control_flow) option" where
  "rfo_start_cascade now trigger s =
     (let all = sm_names (kids (r_inner s))
      in map_option (\<lambda>i. advance_stop now (drop (i + 1) all) [trigger] [] s) (position trigger all))"

text \<open>
  \<open>sort_by_key\<close> asks for the position of every name, but of none when there is at most one to sort.
\<close>

definition sort_by_position :: "name list \<Rightarrow> name list \<Rightarrow> name list option" where
  "sort_by_position all ns =
     (if length ns \<le> 1 then Some ns
      else if list_all (\<lambda>n. position n all \<noteq> None) ns
      then Some (sort_key (\<lambda>n. the (position n all)) ns)
      else None)"

definition merge_into_stopping ::
    "name \<Rightarrow> name \<Rightarrow> name list \<Rightarrow> name list \<Rightarrow> name list \<Rightarrow> rest_for_one \<Rightarrow>
     (rest_for_one \<times> control_flow) option" where
  "merge_into_stopping trigger cur old_pending to_restart to_drop s =
     (if trigger = cur then None
      else
        let all = sm_names (kids (r_inner s))
        in case (position trigger all, position cur all) of
             (Some ti, Some ci) \<Rightarrow>
               (let low = min ti ci; high = max ti ci;
                    between = filter (\<lambda>p. p \<notin> set to_restart \<union> set to_drop)
                      (drop (low + 1) (take high all))
                in map_option
                     (\<lambda>pending.
                        (s\<lparr>cascade := ExitingCascade cur (remdups_adj pending) (to_restart @ [trigger]) to_drop\<rparr>,
                         Continue))
                     (sort_by_position all (between @ old_pending)))
           | _ \<Rightarrow> None)"

definition rfo_handle_exit ::
    "instant \<Rightarrow> name \<Rightarrow> exit_reason \<Rightarrow> rest_for_one \<Rightarrow> (rest_for_one \<times> control_flow) option" where
  "rfo_handle_exit now n reason s =
     (if current (cascade s) = Some n then handle_cascade_current_exit now n reason s
      else if pending_contains (cascade s) n then Some (s, Continue)
      else case child_of (r_inner s) n of
        None \<Rightarrow> Some (s, Continue)
      | Some sv \<Rightarrow>
          if \<not> reason_requires_restart reason sv then Some (fst (rfo_remove_spec now n s), Continue)
          else case ofo_acquire_permits now n (r_inner s) of
            (si, False) \<Rightarrow> Some (rfo_shutdown (s\<lparr>r_inner := si\<rparr>))
          | (si, True) \<Rightarrow>
              (let s' = s\<lparr>r_inner := si, cascade := Idle\<rparr>
               in case cascade s of
                    Idle \<Rightarrow> rfo_start_cascade now n s'
                  | ExitingCascade c p r d \<Rightarrow> merge_into_stopping n c p r d s'
                  | Restarting _ _ \<Rightarrow> rfo_start_cascade now n s'
                  | ShuttingDownCascade _ _ \<Rightarrow> None))"

definition rfo_after_initialized ::
    "instant \<Rightarrow> name \<Rightarrow> rest_for_one \<Rightarrow> rest_for_one \<times> control_flow" where
  "rfo_after_initialized now n s =
     (if current (cascade s) = Some n then advance_cascade now s else (s, Continue))"

definition RestForOneStrategy :: "rest_for_one strategy" where
  "RestForOneStrategy =
     \<lparr>parts_inner = r_inner, set_inner = (\<lambda>si s. s\<lparr>r_inner := si\<rparr>),
      parts_initializing = r_initializing, set_initializing = (\<lambda>ini s. s\<lparr>r_initializing := ini\<rparr>),
      handle_exit = rfo_handle_exit,
      shutdown = (\<lambda>s. Some (rfo_shutdown s)),
      remove_spec = (\<lambda>now n s. Some (rfo_remove_spec now n s)),
      after_initialized = (\<lambda>now n s. Some (rfo_after_initialized now n s))\<rparr>"

section \<open>The operations, one turn of their loops at a time\<close>

definition stopping :: "supervisor_inner \<Rightarrow> name \<Rightarrow> bool" where
  "stopping si n \<longleftrightarrow> (\<exists>sv. child_of si n = Some sv \<and> is_shutting_down (snd (stop sv)))"

definition stop_one :: "name \<Rightarrow> rest_for_one \<Rightarrow> rest_for_one" where
  "stop_one n s = s\<lparr>r_inner := fst (on_child n stop (r_inner s))\<rparr>"

lemma rfo_on_child_eq: "rfo_on_child n f s = (s\<lparr>r_inner := fst (on_child n f (r_inner s))\<rparr>,
    map_option (snd \<circ> f) (child_of (r_inner s) n))"
  using on_child_simps(4) [of n f "r_inner s"]
  by (cases "on_child n f (r_inner s)") (simp add: rfo_on_child_def)

lemma stopping_iff:
  "stopping si n \<longleftrightarrow> map_option (snd \<circ> stop) (child_of si n) = Some StopShuttingDown"
  by (auto simp: stopping_def is_shutting_down_def)

lemma stop_one_simps [simp]:
  "cascade (stop_one n s) = cascade s" "r_initializing (stop_one n s) = r_initializing s"
  "r_inner (stop_one n s) = fst (on_child n stop (r_inner s))"
  by (simp_all add: stop_one_def)

lemma rfo_on_child_stop:
  "rfo_on_child n stop s = (stop_one n s, map_option (snd \<circ> stop) (child_of (r_inner s) n))"
  by (simp add: rfo_on_child_eq stop_one_def)

lemma advance_shutdown_eqs:
  "advance_shutdown [] s = (s\<lparr>cascade := Idle\<rparr>, Break)"
  "advance_shutdown (p @ [n]) s =
     (if stopping (r_inner s) n then ((stop_one n s)\<lparr>cascade := ShuttingDownCascade n p\<rparr>, Continue)
      else advance_shutdown p (stop_one n s))"
  by (subst advance_shutdown.simps, simp)
     (subst advance_shutdown.simps,
       auto simp: rfo_on_child_stop stopping_iff Let_def split: option.splits stop_outcome.splits)

lemma advance_stop_eqs:
  "advance_stop now [] r d s = advance_restart (rev r) (fold rfo_remove_idle d s)"
  "advance_stop now (p @ [n]) r d s =
     (case child_of (r_inner s) n of
        None \<Rightarrow> advance_stop now p r d s
      | Some sv \<Rightarrow>
          if restart_mode (cfg sv) = Never then
            if stopping (r_inner s) n
            then ((stop_one n s)\<lparr>cascade := ExitingCascade n p r (d @ [n])\<rparr>, Continue)
            else advance_stop now p r (d @ [n]) (stop_one n s)
          else
            let s1 = s\<lparr>r_inner := fst (on_child n (acquire_restart_permit now) (r_inner s))\<rparr>
            in if \<not> snd (acquire_restart_permit now sv) then rfo_shutdown s1
               else if stopping (r_inner s1) n
               then ((stop_one n s1)\<lparr>cascade := ExitingCascade n p (r @ [n]) d\<rparr>, Continue)
               else advance_stop now p (r @ [n]) d (stop_one n s1))"
proof -
  show "advance_stop now [] r d s = advance_restart (rev r) (fold rfo_remove_idle d s)"
    by (subst advance_stop.simps) simp
  show "advance_stop now (p @ [n]) r d s =
     (case child_of (r_inner s) n of
        None \<Rightarrow> advance_stop now p r d s
      | Some sv \<Rightarrow>
          if restart_mode (cfg sv) = Never then
            if stopping (r_inner s) n
            then ((stop_one n s)\<lparr>cascade := ExitingCascade n p r (d @ [n])\<rparr>, Continue)
            else advance_stop now p r (d @ [n]) (stop_one n s)
          else
            let s1 = s\<lparr>r_inner := fst (on_child n (acquire_restart_permit now) (r_inner s))\<rparr>
            in if \<not> snd (acquire_restart_permit now sv) then rfo_shutdown s1
               else if stopping (r_inner s1) n
               then ((stop_one n s1)\<lparr>cascade := ExitingCascade n p (r @ [n]) d\<rparr>, Continue)
               else advance_stop now p (r @ [n]) d (stop_one n s1))"
  proof (cases "child_of (r_inner s) n")
    case None
    then show ?thesis by (subst advance_stop.simps) (simp add: stop_turn_def)
  next
    case (Some sv)
    show ?thesis
      by (subst advance_stop.simps, cases "restart_mode (cfg sv) = Never";
          cases "snd (acquire_restart_permit now sv)")
         (auto simp: stop_turn_def Some rfo_on_child_stop rfo_on_child_eq [of n "acquire_restart_permit now"]
            stopping_iff Let_def)
  qed
qed

text \<open>Who owes an exit event, and who is dead, after one child was told to stop.\<close>

definition dead_child :: "supervisor_inner \<Rightarrow> name \<Rightarrow> bool" where
  "dead_child si n \<longleftrightarrow> (\<forall>sv. child_of si n = Some sv \<longrightarrow> state sv = Dead)"

lemma stop_one_owes:
  assumes "inner_wf (r_inner s)"
  shows "inner_wf (r_inner (stop_one n s))"
    "still_owes (kids (r_inner (stop_one n s))) k \<longleftrightarrow>
       (if k = n then stopping (r_inner s) n else still_owes (kids (r_inner s)) k)"
    "dead_child (r_inner (stop_one n s)) k \<longleftrightarrow>
       (if k = n then \<not> stopping (r_inner s) n else dead_child (r_inner s) k)"
    "known (r_inner (stop_one n s)) k = known (r_inner s) k"
    "sm_names (kids (r_inner (stop_one n s))) = sm_names (kids (r_inner s))"
proof -
  have wf: "sm_wf (kids (r_inner s))" using assms by (simp add: inner_wf_def)
  have get: "child_of (fst (on_child n stop (r_inner s))) k =
      (if k = n then map_option (fst \<circ> stop) (child_of (r_inner s) n) else child_of (r_inner s) k)"
    using child_of_on_child [OF assms] .
  show "inner_wf (r_inner (stop_one n s))"
    unfolding stop_one_simps by (rule inner_wf_on_child [OF assms]) simp
  show "still_owes (kids (r_inner (stop_one n s))) k \<longleftrightarrow>
       (if k = n then stopping (r_inner s) n else still_owes (kids (r_inner s)) k)"
    using get by (auto simp: still_owes_def child_of_def stopping_def stop_outcome_iff)
  have "state (fst (stop sv)) = Dead \<longleftrightarrow> \<not> is_shutting_down (snd (stop sv))" for sv
    by (cases "state sv") (simp_all add: stop_def is_shutting_down_def)
  then show "dead_child (r_inner (stop_one n s)) k \<longleftrightarrow>
       (if k = n then \<not> stopping (r_inner s) n else dead_child (r_inner s) k)"
    using get by (auto simp: dead_child_def stopping_def simp del: on_child_simps(3))
  show "known (r_inner (stop_one n s)) k = known (r_inner s) k"
    unfolding stop_one_simps by (rule known_on_child [OF assms])
  show "sm_names (kids (r_inner (stop_one n s))) = sm_names (kids (r_inner s))"
    using sm_names_modify [OF wf, of stop n] by simp
qed

section \<open>The invariant\<close>

definition rfo_inv :: "rest_for_one \<Rightarrow> bool" where
  "rfo_inv s \<longleftrightarrow>
     (case cascade s of
        Idle \<Rightarrow> tracked {} {} (r_inner s) \<and> (inner_is_exiting (r_inner s) \<longrightarrow> all_dead (r_inner s))
      | ExitingCascade c p _ _ \<Rightarrow>
          tracked {} {c} (r_inner s) \<and> \<not> inner_is_exiting (r_inner s) \<and> (\<forall>n\<in>set p. known (r_inner s) n)
      | Restarting c _ \<Rightarrow>
          tracked {} {} (r_inner s) \<and> \<not> inner_is_exiting (r_inner s) \<and>
          (\<exists>sv. child_of (r_inner s) c = Some sv \<and> state sv \<in> {Starting, SvInitializing})
      | ShuttingDownCascade c p \<Rightarrow>
          inner_wf (r_inner s) \<and> inner_is_exiting (r_inner s) \<and> still_owes (kids (r_inner s)) c \<and>
          (\<forall>k. k \<noteq> c \<and> k \<notin> set p \<longrightarrow> dead_child (r_inner s) k))"

definition rfo_ok :: "rest_for_one \<times> control_flow \<Rightarrow> bool" where
  "rfo_ok r \<longleftrightarrow> rfo_inv (fst r) \<and> (snd r = Break \<longrightarrow> all_dead (r_inner (fst r)))"

definition rfo_good :: "(rest_for_one \<times> control_flow) option \<Rightarrow> bool" where
  "rfo_good r \<longleftrightarrow> (case r of None \<Rightarrow> False | Some x \<Rightarrow> rfo_ok x)"

lemma rfo_good_simps [simp]: "\<not> rfo_good None" "rfo_good (Some x) = rfo_ok x"
  by (simp_all add: rfo_good_def)

lemma rfo_inv_wf: "rfo_inv s \<Longrightarrow> inner_wf (r_inner s)"
  by (auto simp: rfo_inv_def tracked_def split: cascade.splits)

lemma rfo_inv_ok: "rfo_inv s \<Longrightarrow> rfo_ok (s, Continue)"
  by (simp add: rfo_ok_def)

lemma rfo_inv_initializing [simp]: "rfo_inv (s\<lparr>r_initializing := ini\<rparr>) = rfo_inv s"
  by (cases "cascade s") (simp_all add: rfo_inv_def)

lemma all_dead_iff: "all_dead si \<longleftrightarrow> (\<forall>n. dead_child si n)"
  by (auto simp: all_dead_def dead_child_def)

lemma all_dead_tracked: "inner_wf si \<Longrightarrow> all_dead si \<Longrightarrow> tracked {} {} si"
  by (auto simp: tracked_def all_dead_def still_owes_def child_of_def owes_exit_def)

lemma advance_shutdown_ok:
  assumes "inner_wf (r_inner s)" "inner_is_exiting (r_inner s)"
    "\<And>k. k \<notin> set p \<Longrightarrow> dead_child (r_inner s) k"
  shows "rfo_ok (advance_shutdown p s)"
  using assms
proof (induction p arbitrary: s rule: rev_induct)
  case Nil
  then have "all_dead (r_inner s)" by (simp add: all_dead_iff)
  then show ?case using Nil(1) by (simp add: advance_shutdown_eqs rfo_ok_def rfo_inv_def all_dead_tracked)
next
  case (snoc n p)
  note st = stop_one_owes [OF snoc.prems(1), where n = n]
  have ex: "inner_is_exiting (r_inner (stop_one n s))" using snoc.prems(2) by simp
  have dead: "dead_child (r_inner (stop_one n s)) k" if "k \<notin> set p" "k \<noteq> n" for k
    using that st(3) snoc.prems(3) by simp
  show ?case
  proof (cases "stopping (r_inner s) n")
    case True
    then show ?thesis using st(1) st(2) [of n] ex dead
      by (auto simp: advance_shutdown_eqs rfo_ok_def rfo_inv_def simp del: stop_one_simps(3))
  next
    case False
    have "dead_child (r_inner (stop_one n s)) k" if "k \<notin> set p" for k
      using that dead st(3) [of n] False by (cases "k = n") auto
    then show ?thesis using snoc.IH [OF st(1) ex] False by (simp add: advance_shutdown_eqs)
  qed
qed

lemma rfo_shutdown_ok:
  assumes "inner_wf (r_inner s)" "\<And>c p. cascade s \<noteq> ShuttingDownCascade c p"
  shows "rfo_ok (rfo_shutdown s)"
proof -
  let ?s = "s\<lparr>r_inner := register_inner_exiting (r_inner s)\<rparr>"
  have wf: "inner_wf (r_inner ?s)" using assms(1) by simp
  have "rfo_ok (advance_shutdown (sm_names (kids (r_inner ?s))) ?s)"
  proof (rule advance_shutdown_ok [OF wf])
    show "inner_is_exiting (r_inner ?s)" using assms(1) by (simp add: register_exiting_is_exiting)
    show "dead_child (r_inner ?s) k" if "k \<notin> set (sm_names (kids (r_inner ?s)))" for k
      using that wf by (simp add: dead_child_def child_of_def set_sm_names inner_wf_def)
  qed
  then show ?thesis using assms(2) by (simp add: rfo_shutdown_def Let_def split: cascade.splits)
qed

lemma rfo_inv_shutdown: "rfo_inv s \<Longrightarrow> rfo_ok (rfo_shutdown s)"
  using rfo_shutdown_ok [OF rfo_inv_wf, of s] rfo_inv_ok [of s]
  by (cases "cascade s") (auto simp: rfo_shutdown_def)

lemma start_tracked:
  "tracked X W si \<Longrightarrow> tracked X W (fst (on_child n start si))"
  using start_same_owes [of si n] inner_wf_on_child [of si start n]
  by (auto simp: tracked_def simp del: on_child_simps(3))

lemma advance_restart_ok:
  assumes "tracked {} {} (r_inner s)" "\<not> inner_is_exiting (r_inner s)"
  shows "rfo_inv (fst (advance_restart ns s)) \<and> snd (advance_restart ns s) = Continue
    \<and> \<not> inner_is_exiting (r_inner (fst (advance_restart ns s)))"
  using assms
proof (induction ns arbitrary: s)
  case (Cons n ns)
  let ?s = "s\<lparr>r_inner := fst (on_child n start (r_inner s))\<rparr>"
  have tr: "tracked {} {} (r_inner ?s)" using start_tracked [OF Cons.prems(1)] by simp
  have ex: "\<not> inner_is_exiting (r_inner ?s)" using Cons.prems(2) by simp
  have wf: "inner_wf (r_inner s)" using Cons.prems(1) by (simp add: tracked_def)
  have eq: "advance_restart (n # ns) s =
    (if map_option (snd \<circ> start) (child_of (r_inner s) n) = Some (Inr True)
     then (?s\<lparr>cascade := Restarting n ns\<rparr>, Continue) else advance_restart ns ?s)"
    by (auto simp: rfo_on_child_eq split: option.splits sum.splits bool.splits)
  have inv: "rfo_inv (?s\<lparr>cascade := Restarting n ns\<rparr>)"
    if "map_option (snd \<circ> start) (child_of (r_inner s) n) = Some (Inr True)"
  proof -
    from that obtain sv where sv: "child_of (r_inner s) n = Some sv" "snd (start sv) = Inr True"
      unfolding map_option_eq_Some comp_def by blast
    then have "state (fst (start sv)) = Starting" by (auto simp: start_def split: supervisee_state.splits)
    then show ?thesis using tr ex child_of_on_child [OF wf, of n start n] sv(1) by (auto simp: rfo_inv_def)
  qed
  show ?case using inv Cons.IH [OF tr ex] ex unfolding eq by auto
qed (simp_all add: rfo_inv_def)


lemma rfo_remove_idle_ok:
  assumes "tracked {} {} (r_inner s)" "\<not> inner_is_exiting (r_inner s)"
  shows "tracked {} {} (r_inner (rfo_remove_idle n s)) \<and> \<not> inner_is_exiting (r_inner (rfo_remove_idle n s))"
proof -
  have wf: "inner_wf (r_inner s)" using assms(1) by (simp add: tracked_def)
  have "r_inner (rfo_remove_idle n s) = (r_inner s)\<lparr>kids := fst (sm_remove n (kids (r_inner s)))\<rparr>"
    by (simp add: rfo_remove_idle_def rfo_remove_with_def inner_remove_spec_eq [OF wf])
  then show ?thesis using assms kids_removed [OF wf, of n] by (auto simp: tracked_def)
qed

lemma rfo_remove_idle_fold:
  "tracked {} {} (r_inner s) \<Longrightarrow> \<not> inner_is_exiting (r_inner s) \<Longrightarrow>
   tracked {} {} (r_inner (fold rfo_remove_idle ns s)) \<and>
   \<not> inner_is_exiting (r_inner (fold rfo_remove_idle ns s))"
  by (induction ns arbitrary: s) (simp_all add: rfo_remove_idle_ok)

lemma rfo_permit_same:
  assumes "inner_wf (r_inner s)"
  shows "same_states (r_inner s) (fst (on_child n (acquire_restart_permit now) (r_inner s)))"
  using same_states_child_permit [OF assms] .

text \<open>One turn of the stop phase: the child is waited for, or it is dead at once.\<close>

lemma stop_one_step:
  assumes "tracked {} {} (r_inner s)" "\<not> inner_is_exiting (r_inner s)" "\<forall>n\<in>set p. known (r_inner s) n"
  shows "stopping (r_inner s) n \<Longrightarrow> rfo_ok ((stop_one n s)\<lparr>cascade := ExitingCascade n p r d\<rparr>, Continue)"
    "\<not> stopping (r_inner s) n \<Longrightarrow> tracked {} {} (r_inner (stop_one n s))"
    "\<not> inner_is_exiting (r_inner (stop_one n s))" "\<forall>n'\<in>set p. known (r_inner (stop_one n s)) n'"
proof -
  have wf: "inner_wf (r_inner s)" using assms(1) by (simp add: tracked_def)
  note st = stop_one_owes [OF wf, where n = n]
  show ex: "\<not> inner_is_exiting (r_inner (stop_one n s))" using assms(2) by simp
  show kn: "\<forall>n'\<in>set p. known (r_inner (stop_one n s)) n'" using st(4) assms(3) by blast
  have owes: "still_owes (kids (r_inner (stop_one n s))) k \<longleftrightarrow> k = n \<and> stopping (r_inner s) n" for k
    using st(2) [of k] assms(1) by (auto simp: tracked_def)
  show "stopping (r_inner s) n \<Longrightarrow> rfo_ok ((stop_one n s)\<lparr>cascade := ExitingCascade n p r d\<rparr>, Continue)"
    using st(1) ex owes kn by (simp add: rfo_ok_def rfo_inv_def tracked_def del: stop_one_simps(3))
  show "\<not> stopping (r_inner s) n \<Longrightarrow> tracked {} {} (r_inner (stop_one n s))"
    using st(1) owes by (simp add: tracked_def del: stop_one_simps(3))
qed

lemma advance_stop_ok:
  assumes "tracked {} {} (r_inner s)" "\<not> inner_is_exiting (r_inner s)" "cascade s = Idle"
    "\<forall>n\<in>set p. known (r_inner s) n"
  shows "rfo_ok (advance_stop now p r d s)"
  using assms
proof (induction p arbitrary: r d s rule: rev_induct)
  case Nil
  show ?case
    using advance_restart_ok rfo_remove_idle_fold [OF Nil(1,2)]
    by (simp add: advance_stop_eqs rfo_ok_def)
next
  case (snoc n p)
  have wf: "inner_wf (r_inner s)" using snoc.prems(1) by (simp add: tracked_def)
  obtain sv where sv: "child_of (r_inner s) n = Some sv" using snoc.prems(4) by (auto simp: known_def)
  let ?s1 = "s\<lparr>r_inner := fst (on_child n (acquire_restart_permit now) (r_inner s))\<rparr>"
  note same = rfo_permit_same [OF wf, of n now]
  have s1: "tracked {} {} (r_inner ?s1)" "\<not> inner_is_exiting (r_inner ?s1)" "cascade ?s1 = Idle"
    "\<forall>k\<in>set p. known (r_inner ?s1) k" "inner_wf (r_inner ?s1)"
    using same_states_tracked [OF same] same_states_exiting [OF same] known_same [OF same] snoc.prems
      same wf by (auto simp: same_states_def)
  have s0: "\<forall>k\<in>set p. known (r_inner s) k" using snoc.prems(4) by simp
  note st0 = stop_one_step [OF snoc.prems(1,2) s0, of n] and st1 = stop_one_step [OF s1(1,2,4), of n]
  have ih0: "\<not> stopping (r_inner s) n \<Longrightarrow> rfo_ok (advance_stop now p r' d' (stop_one n s))" for r' d'
    by (rule snoc.IH) (use st0 snoc.prems(3) in simp_all)
  have ih1: "\<not> stopping (r_inner ?s1) n \<Longrightarrow> rfo_ok (advance_stop now p r' d' (stop_one n ?s1))" for r' d'
    by (rule snoc.IH) (use st1 s1(3) in simp_all)
  show ?case
  proof (cases "restart_mode (cfg sv) = Never")
    case True
    then show ?thesis using st0(1) ih0 by (simp add: advance_stop_eqs sv)
  next
    case False
    then show ?thesis
      using st1(1) ih1 rfo_shutdown_ok [OF s1(5)] s1(3)
      unfolding advance_stop_eqs sv Let_def option.case if_False by simp
  qed
qed

section \<open>The exit of a child\<close>

lemma wf_tracked: "inner_wf si \<Longrightarrow> tracked {} {n. still_owes (kids si) n} si"
  by (simp add: tracked_def)

lemma supervise_before_alive:
  "supervise r sv = (sv', Ready item) \<Longrightarrow> state sv \<in> {Starting, SvInitializing} \<Longrightarrow>
   \<not> goes_on item \<Longrightarrow> before_alive (exit_reason_of item)"
  by (auto simp: supervise_def split: future_result.splits sum.splits)

lemma supervise_started:
  "supervise r sv = (sv', Ready (Started (Inr u))) \<Longrightarrow> state sv' = SvInitializing"
  by (auto simp: supervise_def split: supervisee_state.splits future_result.splits sum.splits)

lemma rfo_poll:
  assumes "inner_wf si" "sm_poll n r (kids si) = (sm, Ready nx)"
  defines "si1 \<equiv> si\<lparr>kids := sm\<rparr>"
  shows "next_name nx = n" "inner_wf si1" "inner_is_exiting si1 = inner_is_exiting si"
    "\<not> dead_child si n" "k \<noteq> n \<Longrightarrow> child_of si1 k = child_of si k" "known si1 k = known si k"
    "goes_on (next_item nx) \<Longrightarrow> still_owes (kids si1) k = still_owes (kids si) k \<and> \<not> still_owes (kids si) n"
    "\<not> goes_on (next_item nx) \<Longrightarrow> known si1 n \<and> dead_child si1 n \<and>
       (still_owes (kids si1) k \<longleftrightarrow> k \<noteq> n \<and> still_owes (kids si) k)"
    "\<exists>sv. child_of si n = Some sv \<and> state sv \<in> {Starting, SvInitializing} \<Longrightarrow> \<not> goes_on (next_item nx) \<Longrightarrow>
       before_alive (exit_reason_of (next_item nx))"
    "next_item nx = Started (Inr u) \<Longrightarrow> \<exists>sv. child_of si1 n = Some sv \<and> state sv = SvInitializing"
proof -
  have tr: "tracked {} {n. still_owes (kids si) n} si" using wf_tracked [OF assms(1)] .
  note pt = polled_tracked [OF tr assms(2), folded si1_def]
  have wf: "sm_wf (kids si)" using assms(1) by (simp add: inner_wf_def)
  from sm_poll_Ready [OF wf assms(2)] obtain sv sv' where
    n: "child_of si n = Some sv" "supervise r sv = (sv', Ready (next_item nx))" "child_of si1 n = Some sv'"
    by (metis child_of_def si1_def supervisor_inner.select_convs(1) supervisor_inner.surjective
        supervisor_inner.update_convs(1))
  show "next_name nx = n" "inner_wf si1" "inner_is_exiting si1 = inner_is_exiting si"
    using pt(1,3,4) by auto
  show other: "k \<noteq> n \<Longrightarrow> child_of si1 k = child_of si k" for k using pt(5) .
  show "\<not> dead_child si n" using supervise_Ready [OF n(2)] n(1) by (simp add: dead_child_def)
  show "known si1 k = known si k" using n other [of k] by (cases "k = n") (auto simp: known_def)
  show "goes_on (next_item nx) \<Longrightarrow> still_owes (kids si1) k = still_owes (kids si) k \<and> \<not> still_owes (kids si) n"
    using pt(6) n supervise_Ready [OF n(2)] other [of k]
    by (cases "k = n") (auto simp: still_owes_def child_of_def)
  show "\<not> goes_on (next_item nx) \<Longrightarrow> known si1 n \<and> dead_child si1 n \<and>
       (still_owes (kids si1) k \<longleftrightarrow> k \<noteq> n \<and> still_owes (kids si) k)"
    using pt(7) n supervise_Ready [OF n(2)] other [of k]
    by (cases "k = n") (auto simp: still_owes_def child_of_def known_def dead_child_def owes_exit_def)
  show "\<exists>sv. child_of si n = Some sv \<and> state sv \<in> {Starting, SvInitializing} \<Longrightarrow> \<not> goes_on (next_item nx) \<Longrightarrow>
       before_alive (exit_reason_of (next_item nx))"
    using supervise_before_alive [OF n(2)] n(1) by auto
  show "next_item nx = Started (Inr u) \<Longrightarrow> \<exists>sv. child_of si1 n = Some sv \<and> state sv = SvInitializing"
    using supervise_started n(2,3) by metis
qed

lemma position_iff: "position n ns \<noteq> None \<longleftrightarrow> n \<in> set ns"
  by (induction ns) auto

lemma known_names: "inner_wf si \<Longrightarrow> known si n \<longleftrightarrow> n \<in> set (sm_names (kids si))"
  by (simp add: known_def child_of_def inner_wf_def set_sm_names)

lemma rfo_start_cascade_ok:
  assumes "tracked {} {} (r_inner s)" "\<not> inner_is_exiting (r_inner s)" "cascade s = Idle" "known (r_inner s) n"
  shows "rfo_good (rfo_start_cascade now n s)"
proof -
  have wf: "inner_wf (r_inner s)" using assms(1) by (simp add: tracked_def)
  obtain i where i: "position n (sm_names (kids (r_inner s))) = Some i"
    using assms(4) known_names [OF wf] position_iff by fastforce
  have "\<forall>k\<in>set (drop (i + 1) (sm_names (kids (r_inner s)))). known (r_inner s) k"
    using known_names [OF wf] by (auto dest: in_set_dropD)
  then show ?thesis using advance_stop_ok [OF assms(1-3)] i by (simp add: rfo_start_cascade_def)
qed

lemma sort_by_position_ok:
  assumes "set ns \<subseteq> set all"
  shows "\<exists>ps. sort_by_position all ns = Some ps \<and> set ps = set ns"
proof -
  have "list_all (\<lambda>n. position n all \<noteq> None) ns"
    using assms position_iff by (fastforce simp: list_all_iff)
  then show ?thesis by (simp add: sort_by_position_def)
qed

lemma merge_into_stopping_ok:
  assumes "tracked {} {c} (r_inner s)" "\<not> inner_is_exiting (r_inner s)" "n \<noteq> c" "known (r_inner s) n"
    "\<forall>k\<in>set p. known (r_inner s) k"
  shows "rfo_good (merge_into_stopping n c p r d s)"
proof -
  have wf: "inner_wf (r_inner s)" using assms(1) by (simp add: tracked_def)
  have "known (r_inner s) c" using assms(1) by (auto simp: tracked_def still_owes_def known_def child_of_def)
  then obtain i j where ij: "position n (sm_names (kids (r_inner s))) = Some i"
      "position c (sm_names (kids (r_inner s))) = Some j"
    using assms(4) known_names [OF wf] position_iff by (metis not_Some_eq)
  let ?between = "filter (\<lambda>p. p \<notin> set r \<union> set d) (drop (min i j + 1) (take (max i j) (sm_names (kids (r_inner s)))))"
  have "set (?between @ p) \<subseteq> set (sm_names (kids (r_inner s)))"
    using assms(5) known_names [OF wf] by (auto dest: in_set_dropD in_set_takeD)
  from sort_by_position_ok [OF this] obtain ps where
    "sort_by_position (sm_names (kids (r_inner s))) (?between @ p) = Some ps"
    "set ps \<subseteq> set (sm_names (kids (r_inner s)))"
    using \<open>set (?between @ p) \<subseteq> _\<close> by metis
  then show ?thesis
    using ij assms(1-3) known_names [OF wf]
    by (auto simp: merge_into_stopping_def Let_def rfo_ok_def rfo_inv_def)
qed

text \<open>What happens to a child that nothing waits for: dropped, or restarted with those after it.\<close>

lemma rfo_exit_fresh:
  assumes "inner_wf (r_inner s)" "\<not> inner_is_exiting (r_inner s)" "known (r_inner s) n"
    "current (cascade s) \<noteq> Some n" "\<not> pending_contains (cascade s) n" "rfo_inv s"
  shows "rfo_good (rfo_handle_exit now n reason s)"
proof -
  obtain sv where sv: "child_of (r_inner s) n = Some sv" using assms(3) by (auto simp: known_def)
  obtain si b where p: "ofo_acquire_permits now n (r_inner s) = (si, b)" by fastforce
  have same: "same_states (r_inner s) si"
    using ofo_acquire_permits_same [OF assms(1), of now n] p by simp
  have si: "inner_wf si" "\<not> inner_is_exiting si" "known si n" "\<And>k. known si k = known (r_inner s) k"
    "\<And>X W. tracked X W (r_inner s) \<Longrightarrow> tracked X W si"
    using same assms(1-3) same_states_exiting [OF same] known_same [OF same] same_states_tracked [OF same]
    by (auto simp: same_states_def)
  let ?s' = "s\<lparr>r_inner := si, cascade := Idle\<rparr>"
  have eq: "rfo_handle_exit now n reason s =
    (if \<not> reason_requires_restart reason sv then Some (fst (rfo_remove_spec now n s), Continue)
     else if \<not> b then Some (rfo_shutdown (s\<lparr>r_inner := si\<rparr>))
     else case cascade s of
            Idle \<Rightarrow> rfo_start_cascade now n ?s'
          | ExitingCascade c p r d \<Rightarrow> merge_into_stopping n c p r d ?s'
          | Restarting _ _ \<Rightarrow> rfo_start_cascade now n ?s'
          | ShuttingDownCascade _ _ \<Rightarrow> None)"
    using assms(4,5) sv p by (simp add: rfo_handle_exit_def Let_def split: bool.split)
  have nsd: "cascade s \<noteq> ShuttingDownCascade c q" for c q
    using assms(2,6) by (auto simp: rfo_inv_def)
  have shut: "rfo_ok (rfo_shutdown (s\<lparr>r_inner := si\<rparr>))" by (rule rfo_shutdown_ok) (use si(1) nsd in simp_all)
  have rem: "rfo_ok (fst (rfo_remove_spec now n s), Continue)"
  proof -
    have r: "fst (rfo_remove_spec now n s) =
      s\<lparr>r_inner := (r_inner s)\<lparr>kids := fst (sm_remove n (kids (r_inner s)))\<rparr>,
        r_initializing := snd (iset_swap_remove n (r_initializing s))\<rparr>"
      using assms(4) sv by (simp add: rfo_remove_spec_def rfo_remove_with_def inner_remove_spec_eq [OF assms(1)])
    note k = kids_removed [OF assms(1), of n] known_removed [OF assms(1), of n]
    show ?thesis unfolding r
      by (rule rfo_inv_ok) (use assms(2,4-6) k in
        \<open>cases "cascade s"; auto simp: rfo_inv_def tracked_def\<close>)
  qed
  have fresh: "rfo_good (rfo_start_cascade now n ?s')" if "tracked {} {} (r_inner s)"
    by (rule rfo_start_cascade_ok) (use si that in simp_all)
  have "rfo_good (merge_into_stopping n c p r d ?s')" if "cascade s = ExitingCascade c p r d" for c p r d
    by (rule merge_into_stopping_ok) (use si that assms(4,6) in \<open>auto simp: rfo_inv_def\<close>)
  then show ?thesis
    using shut rem fresh nsd assms(6) unfolding eq
    by (cases "cascade s") (auto simp: rfo_inv_def)
qed

lemma rfo_exit_restarting:
  assumes "tracked {} {} (r_inner s)" "\<not> inner_is_exiting (r_inner s)" "cascade s = Restarting n p"
    "known (r_inner s) n" "dead_child (r_inner s) n" "before_alive reason"
  shows "rfo_good (handle_cascade_current_exit now n reason s)"
proof -
  have wf: "inner_wf (r_inner s)" using assms(1) by (simp add: tracked_def)
  obtain sv where sv: "child_of (r_inner s) n = Some sv" "state sv = Dead"
    using assms(4,5) by (auto simp: known_def dead_child_def)
  let ?s1 = "s\<lparr>r_inner := fst (on_child n (acquire_restart_permit now) (r_inner s))\<rparr>"
  note same = rfo_permit_same [OF wf, of n now]
  have s1: "tracked {} {} (r_inner ?s1)" "\<not> inner_is_exiting (r_inner ?s1)" "inner_wf (r_inner ?s1)"
    using same_states_tracked [OF same assms(1)] same_states_exiting [OF same] assms(2)
    by (auto simp: tracked_def)
  have c1: "child_of (r_inner ?s1) n = Some (fst (acquire_restart_permit now sv))"
    using child_of_on_child [OF wf, of n "acquire_restart_permit now" n] sv by simp
  have eq: "handle_cascade_current_exit now n reason s =
    (if \<not> reason_requires_restart reason sv then Some (fst (rfo_remove_spec now n s), Continue)
     else if \<not> snd (acquire_restart_permit now sv) then Some (rfo_shutdown ?s1)
     else Some (?s1\<lparr>r_inner := fst (on_child n start (r_inner ?s1))\<rparr>, Continue))"
    using assms(3,6) sv(1) by (simp add: handle_cascade_current_exit_def rfo_on_child_eq split: bool.split)
  have shut: "rfo_ok (rfo_shutdown ?s1)" by (rule rfo_shutdown_ok) (use s1(3) assms(3) in simp_all)
  have again: "rfo_ok (?s1\<lparr>r_inner := fst (on_child n start (r_inner ?s1))\<rparr>, Continue)"
  proof -
    have "child_of (fst (on_child n start (r_inner ?s1))) n = Some (fst (start (fst (acquire_restart_permit now sv))))"
      using child_of_on_child [OF s1(3), of n start n] c1 by simp
    moreover have "state (fst (acquire_restart_permit now sv)) = Dead"
      using sv(2) same_statesD [OF same, of n] c1 sv(1) by simp
    ultimately have "\<exists>sv'. child_of (fst (on_child n start (r_inner ?s1))) n = Some sv' \<and> state sv' = Starting"
      by simp
    then show ?thesis using start_tracked [OF s1(1), of n] s1(2) assms(3)
      by (auto simp: rfo_ok_def rfo_inv_def simp del: rest_for_one.update_convs)
  qed
  have rem: "rfo_ok (fst (rfo_remove_spec now n s), Continue)"
  proof -
    let ?si = "(r_inner s)\<lparr>kids := fst (sm_remove n (kids (r_inner s)))\<rparr>"
    let ?sr = "s\<lparr>r_inner := ?si, r_initializing := snd (iset_swap_remove n (r_initializing s)), cascade := Idle\<rparr>"
    have "fst (rfo_remove_spec now n s) = fst (advance_restart p ?sr)"
      using assms(3) sv(1)
      by (simp add: rfo_remove_spec_def rfo_remove_with_def inner_remove_spec_eq [OF wf] advance_cascade_def Let_def)
    moreover have "tracked {} {} ?si" "\<not> inner_is_exiting ?si"
      using kids_removed [OF wf, of n] assms(1,2) by (auto simp: tracked_def)
    ultimately show ?thesis using advance_restart_ok [of ?sr p] by (simp add: rfo_inv_ok)
  qed
  show ?thesis using shut again rem unfolding eq by auto
qed

lemma rfo_polled_exit:
  assumes "rfo_inv s" "sm_poll n r (kids (r_inner s)) = (sm, Ready nx)" "\<not> goes_on (next_item nx)"
  shows "rfo_good (rfo_handle_exit now n (exit_reason_of (next_item nx))
    (s\<lparr>r_inner := (r_inner s)\<lparr>kids := sm\<rparr>\<rparr>))"
proof -
  let ?si = "(r_inner s)\<lparr>kids := sm\<rparr>"
  let ?s = "s\<lparr>r_inner := ?si\<rparr>"
  note pt = rfo_poll [OF rfo_inv_wf [OF assms(1)] assms(2)]
  have dead: "known ?si n" "dead_child ?si n" "\<And>k. still_owes (kids ?si) k \<longleftrightarrow> k \<noteq> n \<and> still_owes (kids (r_inner s)) k"
    using pt(8) assms(3) by auto
  have same: "dead_child ?si k = dead_child (r_inner s) k" if "k \<noteq> n" for k
    using pt(5) [OF that] by (simp add: dead_child_def)
  show ?thesis
  proof (cases "current (cascade s) = Some n")
    case True
    have eq: "rfo_handle_exit now n reason ?s = handle_cascade_current_exit now n reason ?s" for reason
      using True by (simp add: rfo_handle_exit_def)
    show ?thesis
    proof (cases "cascade s")
      case (ExitingCascade c p r d)
      then have "rfo_ok (advance_stop now p r d (?s\<lparr>cascade := Idle\<rparr>))"
        using True assms(1) pt(2,3,6) dead(3)
        by (intro advance_stop_ok) (auto simp: rfo_inv_def tracked_def)
      then show ?thesis using ExitingCascade unfolding eq
        by (simp add: handle_cascade_current_exit_def advance_cascade_def)
    next
      case (ShuttingDownCascade c p)
      have "rfo_ok (advance_shutdown p (?s\<lparr>cascade := Idle\<rparr>))"
      proof (rule advance_shutdown_ok)
        show "dead_child (r_inner (?s\<lparr>cascade := Idle\<rparr>)) k" if "k \<notin> set p" for k
          using True assms(1) ShuttingDownCascade dead(2) same [of k] that by (auto simp: rfo_inv_def)
      qed (use assms(1) ShuttingDownCascade pt(2,3) in \<open>auto simp: rfo_inv_def\<close>)
      then show ?thesis using ShuttingDownCascade unfolding eq
        by (simp add: handle_cascade_current_exit_def advance_cascade_def)
    next
      case (Restarting c p)
      then have c: "cascade ?s = Restarting n p" using True by simp
      have tr: "tracked {} {} (r_inner ?s)" "\<not> inner_is_exiting (r_inner ?s)"
        "before_alive (exit_reason_of (next_item nx))"
        using assms(1) True Restarting pt(2,3) pt(9) assms(3) dead(3)
        by (auto simp: rfo_inv_def tracked_def)
      show ?thesis unfolding eq
        by (rule rfo_exit_restarting [OF tr(1,2) c _ _ tr(3)]) (use dead in simp_all)
    qed (use True in simp)
  next
    case False
    show ?thesis
    proof (cases "pending_contains (cascade s) n")
      case pend: True
      have "dead_child ?si k" if "dead_child (r_inner s) k" for k
        using that same [of k] dead(2) by (cases "k = n") simp_all
      then have "rfo_inv ?s" using assms(1) pend False pt(2,3,6) dead(3)
        by (cases "cascade s") (auto simp: rfo_inv_def tracked_def)
      then show ?thesis using False pend by (simp add: rfo_handle_exit_def rfo_inv_ok)
    next
      case nopend: False
      have ex: "\<not> inner_is_exiting ?si"
        using assms(1) pt(3,4) False nopend by (cases "cascade s") (auto simp: rfo_inv_def all_dead_iff)
      have inv: "rfo_inv ?s"
        using assms(1) False nopend pt(2,3,5,6) dead(3) ex
        by (cases "cascade s") (auto simp: rfo_inv_def tracked_def)
      show ?thesis
        by (rule rfo_exit_fresh) (use pt(2) ex dead False nopend inv in simp_all)
    qed
  qed
qed

lemma rfo_polled_goes_on:
  assumes "rfo_inv s" "sm_poll n r (kids (r_inner s)) = (sm, Ready nx)" "goes_on (next_item nx)"
    "current (cascade s) \<noteq> Some n \<or> next_item nx = Started (Inr u)"
  shows "rfo_inv (s\<lparr>r_inner := (r_inner s)\<lparr>kids := sm\<rparr>\<rparr>)"
proof -
  note pt = rfo_poll [OF rfo_inv_wf [OF assms(1)] assms(2)]
  have owes: "still_owes (kids ((r_inner s)\<lparr>kids := sm\<rparr>)) k = still_owes (kids (r_inner s)) k"
    "\<not> still_owes (kids (r_inner s)) n" for k
    using pt(7) assms(3) by auto
  have same: "dead_child ((r_inner s)\<lparr>kids := sm\<rparr>) k" if "dead_child (r_inner s) k" for k
    using pt(4) pt(5) [of k] that by (cases "k = n") (auto simp: dead_child_def)
  have no: "\<not> all_dead (r_inner s)" using pt(4) by (auto simp: all_dead_iff)
  show ?thesis
  proof (cases "cascade s")
    case (Restarting c p)
    then show ?thesis using assms(1,4) pt(2,3) pt(5) [of c] pt(10) owes
      by (cases "c = n") (auto simp: rfo_inv_def tracked_def)
  qed (use assms(1) pt(2,3,6) owes same no in \<open>auto simp: rfo_inv_def tracked_def\<close>)
qed

lemma rfo_same_kids:
  assumes "kids si' = kids (r_inner s)" "inner_wf si'" "inner_is_exiting si' = inner_is_exiting (r_inner s)"
    "rfo_inv s"
  shows "rfo_inv (s\<lparr>r_inner := si'\<rparr>)"
proof -
  note kd = tracked_kids [OF assms(1)]
  have "known si' k = known (r_inner s) k" "dead_child si' k = dead_child (r_inner s) k" for k
    using kd(4) by (simp_all add: known_def dead_child_def)
  then show ?thesis using assms kd(1,4) rfo_inv_wf [OF assms(4)]
    by (cases "cascade s") (auto simp: rfo_inv_def all_dead_iff)
qed

lemma rfo_add_spec_inv:
  assumes "rfo_inv s"
  obtains s' r where "strategy_add_spec RestForOneStrategy sp s = Some (s', r)" "rfo_inv s'"
proof -
  let ?W = "{n. still_owes (kids (r_inner s)) n}"
  have tr: "tracked {} ?W (r_inner s)" using wf_tracked [OF rfo_inv_wf [OF assms]] .
  obtain si r where a: "inner_add_spec sp (r_inner s) = Some (si, r)" "tracked {} ?W si"
    "inner_is_exiting si = inner_is_exiting (r_inner s)"
    "inner_is_exiting (r_inner s) \<Longrightarrow> si = r_inner s"
    "\<And>n. child_of (r_inner s) n \<noteq> None \<Longrightarrow> child_of si n = child_of (r_inner s) n"
    using inner_add_spec_tracked [OF tr, of sp] by metis
  have "known (r_inner s) n \<Longrightarrow> known si n" for n using a(5) [of n] by (simp add: known_def)
  moreover have "inner_wf si" "still_owes (kids si) n = still_owes (kids (r_inner s)) n" for n
    using a(2) by (auto simp: tracked_def)
  ultimately have "rfo_inv (s\<lparr>r_inner := si\<rparr>)"
    using assms a(3-5) by (cases "inner_is_exiting (r_inner s)"; cases "cascade s")
      (auto simp: rfo_inv_def tracked_def)
  then show ?thesis using a(1) that
    by (simp add: strategy_add_spec_def RestForOneStrategy_def)
qed

lemma rfo_handle_initialized_eq:
  "strategy_handle_initialized RestForOneStrategy n s =
     s\<lparr>r_inner := fst (inner_handle_initialized n (r_initializing s) (r_inner s)),
       r_initializing := snd (inner_handle_initialized n (r_initializing s) (r_inner s))\<rparr>"
  by (cases "inner_handle_initialized n (r_initializing s) (r_inner s)")
     (simp add: strategy_handle_initialized_def RestForOneStrategy_def)

lemma rfo_polled_initialized:
  assumes "rfo_inv s" "sm_poll n r (kids (r_inner s)) = (sm, Ready nx)" "next_item nx = Initialized (Inr u)"
  shows "rfo_ok (rfo_after_initialized now n
    (strategy_handle_initialized RestForOneStrategy n (s\<lparr>r_inner := (r_inner s)\<lparr>kids := sm\<rparr>\<rparr>)))"
proof -
  let ?s = "s\<lparr>r_inner := (r_inner s)\<lparr>kids := sm\<rparr>\<rparr>"
  let ?si = "fst (inner_handle_initialized n (r_initializing ?s) (r_inner ?s))"
  let ?s' = "strategy_handle_initialized RestForOneStrategy n ?s"
  note pt = rfo_poll [OF rfo_inv_wf [OF assms(1)] assms(2)]
  have g: "goes_on (next_item nx)" using assms(3) by simp
  have wf: "inner_wf (r_inner ?s)" using pt(2) by simp
  note same = inner_handle_initialized_same [OF wf, of n "r_initializing ?s"]
  show ?thesis
  proof (cases "current (cascade s) = Some n")
    case False
    have "rfo_inv ?s" by (rule rfo_polled_goes_on [OF assms(1,2) g]) (use False in simp)
    from rfo_same_kids [OF same this] have "rfo_inv (?s\<lparr>r_inner := ?si\<rparr>)" .
    then have "rfo_inv ?s'" unfolding rfo_handle_initialized_eq by simp
    then show ?thesis using False
      by (simp add: rfo_after_initialized_def rfo_handle_initialized_eq rfo_inv_ok)
  next
    case True
    have own: "\<not> still_owes (kids (r_inner s)) n" using pt(7) g by auto
    obtain p where p: "cascade s = Restarting n p"
      using assms(1) True own by (cases "cascade s") (auto simp: rfo_inv_def tracked_def)
    have "still_owes (kids ?si) k = still_owes (kids (r_inner s)) k" for k
      using pt(7) [of k] g same(1) by simp
    then have tr: "tracked {} {} ?si" "\<not> inner_is_exiting ?si"
      using assms(1) p same(2,3) pt(3) by (auto simp: rfo_inv_def tracked_def)
    have "rfo_after_initialized now n ?s' = advance_restart p (?s'\<lparr>cascade := Idle\<rparr>)"
      using p by (simp add: rfo_after_initialized_def rfo_handle_initialized_eq advance_cascade_def Let_def)
    moreover have "rfo_ok (advance_restart p (?s'\<lparr>cascade := Idle\<rparr>))"
      using advance_restart_ok [of "?s'\<lparr>cascade := Idle\<rparr>" p] tr
      by (simp add: rfo_handle_initialized_eq rfo_ok_def)
    ultimately show ?thesis by simp
  qed
qed

interpretation rfo: supervision RestForOneStrategy rfo_inv "\<lambda>s. all_dead (r_inner s)" False False rfo_good
proof (unfold_locales, goal_cases)
  case (2 s c)
  then show ?case by (simp add: rfo_ok_def)
next
  case (3 s)
  then show ?case using rfo_inv_shutdown by (simp add: RestForOneStrategy_def)
next
  case (5 s sp)
  then obtain s' r where "strategy_add_spec RestForOneStrategy sp s = Some (s', r)" "rfo_inv s'"
    by (rule rfo_add_spec_inv)
  then show ?case by (simp add: rfo_inv_ok)
next
  case (6 s n r sm nx now)
  then have "next_name nx = n" using rfo_poll(1) [OF rfo_inv_wf] by (simp add: RestForOneStrategy_def)
  then show ?case using 6 rfo_polled_exit [of s n r sm nx now] by (simp add: RestForOneStrategy_def)
next
  case (7 s n r sm nx q)
  then show ?case using rfo_polled_goes_on [of s n r sm nx]
    by (cases q) (auto simp: RestForOneStrategy_def)
next
  case (8 s n r sm nx u now)
  then have "next_name nx = n" using rfo_poll(1) [OF rfo_inv_wf] by (simp add: RestForOneStrategy_def)
  then show ?case using 8 rfo_polled_initialized [of s n r sm nx u now] by (simp add: RestForOneStrategy_def)
qed simp_all

lemma rfo_start_ok:
  assumes "inner_wf si" "\<not> inner_is_exiting si" "all_dead si"
  shows "\<exists>s'. strategy_start RestForOneStrategy (rest_for_one_new si) = Some (s', Inr (), Continue)
    \<and> rfo_inv s'"
proof -
  have wf: "sm_wf (kids si)" using assms(1) by (simp add: inner_wf_def)
  have no: "\<not> still_owes (kids si) n" for n
    using assms(3) dead_owes_nothing [of si n] by (auto simp: all_dead_def)
  note spec = start_all_spec [OF wf no]
  let ?sm = "fst (start_all (kids si))"
  let ?s = "\<lparr>r_inner = si\<lparr>kids := ?sm\<rparr>, r_initializing = sm_names ?sm, cascade = Idle\<rparr>"
  have "\<not> still_owes ?sm k" for k
    using spec(3) [of k] assms(3)
    by (cases "sm_get (kids si) k") (auto simp: still_owes_def all_dead_def child_of_def owes_exit_def)
  then have inv: "rfo_inv ?s"
    using assms spec(1) by (simp add: rfo_inv_def tracked_def inner_wf_def inner_is_exiting_def)
  have "strategy_start RestForOneStrategy (rest_for_one_new si) = Some (?s, Inr (), Continue)"
    using spec(4) by (cases "start_all (kids si)")
      (simp add: strategy_start_def RestForOneStrategy_def rest_for_one_new_def)
  then show ?thesis using inv by blast
qed

lemma rfo_run_ok:
  assumes "inner_wf si" "\<not> inner_is_exiting si" "all_dead si" "no_removal es"
  shows "\<exists>s' c. supervisor_run RestForOneStrategy es (rest_for_one_new si) = Some (s', c) \<and> rfo_ok (s', c)"
proof -
  obtain s' where "strategy_start RestForOneStrategy (rest_for_one_new si) = Some (s', Inr (), Continue)"
    "rfo_inv s'" using rfo_start_ok [OF assms(1-3)] by blast
  then show ?thesis using rfo.loop_good [of s' es] assms(4)
    by (auto simp: supervisor_run_def no_removal_def rfo_good_def split: option.splits)
qed

section \<open>Properties\<close>

text \<open>C8: A rest-for-one supervisor none of whose children is deregistered never panics, and when its
  loop ends every child is dead.\<close>

theorem rest_for_one_ends_with_no_child_left:
  assumes "inner_wf si" "\<not> inner_is_exiting si" "all_dead si" "no_removal es"
  shows "\<exists>s' c. supervisor_run RestForOneStrategy es (rest_for_one_new si) = Some (s', c)
    \<and> (c = Break \<longrightarrow> all_dead (r_inner s'))"
  using rfo_run_ok [OF assms] by (auto simp: rfo_ok_def)

text \<open>While a rest-for-one supervisor is not shutting down, its cascades stop one child at a time: a
  child shuts down only as the one the cascade waits for, and during the restart phase none does and
  the one waited for is starting.\<close>

theorem rest_for_one_cascade_one_at_a_time:
  assumes "inner_wf si" "\<not> inner_is_exiting si" "all_dead si" "no_removal es"
    "supervisor_run RestForOneStrategy es (rest_for_one_new si) = Some (s, Continue)"
    "\<not> inner_is_exiting (r_inner s)"
  shows "{k. still_owes (kids (r_inner s)) k} =
      (case cascade s of ExitingCascade c _ _ _ \<Rightarrow> {c} | _ \<Rightarrow> {})
    \<and> (\<forall>c p. cascade s = Restarting c p \<longrightarrow>
        map_option state (child_of (r_inner s) c) \<in> {Some Starting, Some SvInitializing})"
proof -
  have "rfo_inv s" using rfo_run_ok [OF assms(1-4)] assms(5) by (auto simp: rfo_ok_def)
  then show ?thesis using assms(6)
    by (cases "cascade s") (auto simp: rfo_inv_def tracked_def)
qed

text \<open>
  How far a stop phase gets in one turn: it waits for \<open>k\<close>, the children after it are dead, and those it
  has not reached are untouched.
\<close>

definition never_restarted :: "supervisor_inner \<Rightarrow> name \<Rightarrow> bool" where
  "never_restarted si n \<longleftrightarrow> (\<exists>sv. child_of si n = Some sv \<and> restart_mode (cfg sv) = Never)"

lemma advance_restart_not_exiting: "cascade (fst (advance_restart ns s)) \<noteq> ExitingCascade k q r d"
proof (induction ns arbitrary: s)
  case (Cons n ns)
  then show ?case by (auto simp: rfo_on_child_eq split: option.splits sum.splits bool.splits)
qed simp

lemma advance_shutdown_not_exiting:
  "cascade (fst (advance_shutdown p s)) \<noteq> ExitingCascade k q r d"
  by (induction p arbitrary: s rule: rev_induct) (auto simp: advance_shutdown_eqs)

lemma rfo_shutdown_not_exiting:
  "cascade (fst (rfo_shutdown s)) \<noteq> ExitingCascade k q r d"
  using advance_shutdown_not_exiting by (auto simp: rfo_shutdown_def Let_def split: cascade.splits)

lemma never_restarted_on_child:
  "inner_wf si \<Longrightarrow> (\<And>sv. spec (fst (f sv)) = spec sv) \<Longrightarrow>
   never_restarted (fst (on_child n f si)) k = never_restarted si k"
  using child_of_on_child [of si n f k]
  by (cases "child_of si n") (auto simp: never_restarted_def cfg_def)

definition stop_reaches ::
    "name list \<Rightarrow> name list \<Rightarrow> name list \<Rightarrow> rest_for_one \<Rightarrow> rest_for_one \<Rightarrow> bool" where
  "stop_reaches p r d s s' \<longleftrightarrow>
     (\<forall>k q r' d'. cascade s' = ExitingCascade k q r' d' \<longrightarrow>
        (\<exists>rest. p = q @ k # rest
          \<and> r' = r @ filter (\<lambda>n. \<not> never_restarted (r_inner s) n) (rev (k # rest))
          \<and> d' = d @ filter (never_restarted (r_inner s)) (rev (k # rest))
          \<and> (\<forall>n\<in>set rest. dead_child (r_inner s') n)
          \<and> (\<forall>n. n \<notin> set (k # rest) \<longrightarrow> child_of (r_inner s') n = child_of (r_inner s) n)))"

lemma stop_reaches_none:
  "(\<And>k q r' d'. cascade s' \<noteq> ExitingCascade k q r' d') \<Longrightarrow> stop_reaches p r d s s'"
  by (simp add: stop_reaches_def)

lemma stop_reaches_step:
  fixes n s1 s
  defines "s2 \<equiv> stop_one n s1"
  assumes "inner_wf (r_inner s1)" "known (r_inner s1) n" "n \<notin> set p"
    "\<And>k. k \<noteq> n \<Longrightarrow> child_of (r_inner s1) k = child_of (r_inner s) k"
    "\<And>k. never_restarted (r_inner s1) k = never_restarted (r_inner s) k"
    "r1 = r @ (if never_restarted (r_inner s) n then [] else [n])"
    "d1 = d @ (if never_restarted (r_inner s) n then [n] else [])"
  shows "stop_reaches (p @ [n]) r d s (s2\<lparr>cascade := ExitingCascade n p r1 d1\<rparr>)"
    "\<not> stopping (r_inner s1) n \<Longrightarrow> stop_reaches p r1 d1 s2 s' \<Longrightarrow> stop_reaches (p @ [n]) r d s s'"
proof -
  have get: "child_of (r_inner s2) k = child_of (r_inner s) k" if "k \<noteq> n" for k
    using child_of_on_child [OF assms(2), of n stop k] assms(5) that by (simp add: s2_def)
  have mode: "never_restarted (r_inner s2) = never_restarted (r_inner s)"
    using never_restarted_on_child [OF assms(2), of stop n] assms(6) by (simp add: s2_def fun_eq_iff)
  show "stop_reaches (p @ [n]) r d s (s2\<lparr>cascade := ExitingCascade n p r1 d1\<rparr>)"
    using get assms(7,8) by (auto simp: stop_reaches_def)
  assume ns: "\<not> stopping (r_inner s1) n" and sr: "stop_reaches p r1 d1 s2 s'"
  have dead: "dead_child (r_inner s2) n" using stop_one_owes(3) [OF assms(2), of n n] ns by (simp add: s2_def)
  show "stop_reaches (p @ [n]) r d s s'"
    unfolding stop_reaches_def
  proof (intro allI impI)
    fix k q r' d' assume "cascade s' = ExitingCascade k q r' d'"
    with sr obtain rest where
      p: "p = q @ k # rest" and
      r': "r' = r1 @ filter (\<lambda>n. \<not> never_restarted (r_inner s2) n) (rev (k # rest))" and
      d': "d' = d1 @ filter (never_restarted (r_inner s2)) (rev (k # rest))" and
      dd: "\<forall>n\<in>set rest. dead_child (r_inner s') n" and
      un: "\<forall>n. n \<notin> set (k # rest) \<longrightarrow> child_of (r_inner s') n = child_of (r_inner s2) n"
      unfolding stop_reaches_def by blast
    have "child_of (r_inner s') n = child_of (r_inner s2) n" using un p assms(4) by simp
    then have dn: "dead_child (r_inner s') n" using dead by (simp add: dead_child_def)
    show "\<exists>rest. p @ [n] = q @ k # rest
          \<and> r' = r @ filter (\<lambda>n. \<not> never_restarted (r_inner s) n) (rev (k # rest))
          \<and> d' = d @ filter (never_restarted (r_inner s)) (rev (k # rest))
          \<and> (\<forall>n\<in>set rest. dead_child (r_inner s') n)
          \<and> (\<forall>n. n \<notin> set (k # rest) \<longrightarrow> child_of (r_inner s') n = child_of (r_inner s) n)"
      by (rule exI [of _ "rest @ [n]"]) (use p r' d' dd un dn get mode assms(7,8) in auto)
  qed
qed

lemma advance_stop_reaches:
  assumes "inner_wf (r_inner s)" "distinct p" "\<forall>n\<in>set p. known (r_inner s) n"
  shows "stop_reaches p r d s (fst (advance_stop now p r d s))"
  using assms
proof (induction p arbitrary: r d s rule: rev_induct)
  case Nil
  then show ?case by (simp add: advance_stop_eqs stop_reaches_none advance_restart_not_exiting)
next
  case (snoc n p)
  have n: "n \<notin> set p" "distinct p" "known (r_inner s) n" using snoc.prems by auto
  obtain sv where sv: "child_of (r_inner s) n = Some sv" using n(3) by (auto simp: known_def)
  let ?s1 = "s\<lparr>r_inner := fst (on_child n (acquire_restart_permit now) (r_inner s))\<rparr>"
  have nr: "never_restarted (r_inner s) n \<longleftrightarrow> restart_mode (cfg sv) = Never"
    using sv by (simp add: never_restarted_def)
  have ih: "stop_reaches p r1 d1 (stop_one n s1) (fst (advance_stop now p r1 d1 (stop_one n s1)))"
    if "inner_wf (r_inner s1)" "\<And>k. known (r_inner s1) k = known (r_inner s) k" for s1 r1 d1
    by (rule snoc.IH) (use stop_one_owes(1,4) [OF that(1), of n] that(2) snoc.prems(3) n(2) in auto)
  note same = rfo_permit_same [OF snoc.prems(1), of n now]
  have s1: "inner_wf (r_inner ?s1)" "\<And>k. known (r_inner ?s1) k = known (r_inner s) k"
    "\<And>k. k \<noteq> n \<Longrightarrow> child_of (r_inner ?s1) k = child_of (r_inner s) k"
    "\<And>k. never_restarted (r_inner ?s1) k = never_restarted (r_inner s) k"
    using same snoc.prems(1) known_same [OF same]
      never_restarted_on_child [OF snoc.prems(1), of "acquire_restart_permit now"]
    by (simp_all add: same_states_def child_of_on_child [OF snoc.prems(1)])
  show ?case
  proof (cases "restart_mode (cfg sv) = Never")
    case True
    note step = stop_reaches_step [OF snoc.prems(1) n(3,1), of s r r "d @ [n]" d]
    show ?thesis
      using step ih [OF snoc.prems(1)] True nr by (simp add: advance_stop_eqs sv)
  next
    case False
    have kn: "known (r_inner ?s1) n" using s1(2) n(3) by simp
    note step = stop_reaches_step [OF s1(1) kn n(1) s1(3,4), of "r @ [n]" r d d]
    show ?thesis
      using step ih [OF s1(1,2)] False nr stop_reaches_none [OF rfo_shutdown_not_exiting]
      unfolding advance_stop_eqs sv Let_def option.case by simp
  qed
qed

lemma rfo_after: "after_initialized RestForOneStrategy now n s = Some (rfo_after_initialized now n s)"
  by (simp add: RestForOneStrategy_def)

text \<open>The turn in which a child exits, as a call of the exit handler on the state after the poll.\<close>

lemma rfo_turn_exit:
  assumes "rfo_inv s" "supervisor_turn RestForOneStrategy (now, EvChild n r) s = Some (s', rep, c)"
    "cascade s' \<noteq> cascade s" "\<And>k p. cascade s \<noteq> Restarting k p"
  obtains sm nx where "sm_poll n r (kids (r_inner s)) = (sm, Ready nx)" "\<not> goes_on (next_item nx)"
    "rfo_handle_exit now n (exit_reason_of (next_item nx)) (s\<lparr>r_inner := (r_inner s)\<lparr>kids := sm\<rparr>\<rparr>) = Some (s', c)"
proof -
  obtain sm p where poll: "sm_poll n r (kids (r_inner s)) = (sm, p)" by fastforce
  show ?thesis
  proof (cases p)
    case Pending
    then show ?thesis using poll assms(2,3) by (simp add: RestForOneStrategy_def)
  next
    case (Ready nx)
    note pt = rfo_poll [OF rfo_inv_wf [OF assms(1)] poll [unfolded Ready]]
    let ?s = "s\<lparr>r_inner := (r_inner s)\<lparr>kids := sm\<rparr>\<rparr>"
    have item: "handle_item RestForOneStrategy now n (next_item nx) ?s = Some (s', c)"
      using assms(2) poll Ready pt(1) by (auto simp: RestForOneStrategy_def split: prod.splits)
    have go: "\<not> goes_on (next_item nx)"
    proof
      assume g: "goes_on (next_item nx)"
      then have "\<not> still_owes (kids (r_inner s)) n" using pt(7) by auto
      moreover have "\<not> dead_child (r_inner s) n" using pt(4) .
      ultimately have "current (cascade s) \<noteq> Some n"
        using assms(1,4) by (cases "cascade s") (auto simp: rfo_inv_def tracked_def)
      then have "cascade s' = cascade s" using item g
        by (cases "next_item nx" rule: goes_on.cases)
           (auto simp: rfo_after_initialized_def rfo_handle_initialized_eq rfo_after)
      then show False using assms(3) by simp
    qed
    then show ?thesis using item poll Ready that by (simp add: handle_item_dead RestForOneStrategy_def)
  qed
qed

lemma permits_others:
  assumes "inner_wf si" "ofo_acquire_permits now n si = (si', b)"
  shows "sm_names (kids si') = sm_names (kids si)" "k \<noteq> n \<Longrightarrow> child_of si' k = child_of si k"
    "never_restarted si' k = never_restarted si k"
proof -
  obtain si1 b1 where q: "inner_acquire_permit now si = (si1, b1)" by fastforce
  have si1: "inner_wf si1" "kids si1 = kids si"
    using assms(1) inner_acquire_permit_simps(1,4) [of now si] q by auto
  have nr1: "never_restarted si1 k = never_restarted si k" using si1(2) by (simp add: never_restarted_def child_of_def)
  let ?si2 = "fst (on_child n (acquire_restart_permit now) si1)"
  have si': "si' = (if b1 then ?si2 else si1)"
    using assms(2) q by (auto simp: ofo_acquire_permits_def split: prod.splits option.splits bool.splits)
  have wf: "sm_wf (kids si1)" using si1(1) by (simp add: inner_wf_def)
  show "sm_names (kids si') = sm_names (kids si)"
    using sm_names_modify [OF wf, of "acquire_restart_permit now" n] si1(2) by (simp add: si')
  show "k \<noteq> n \<Longrightarrow> child_of si' k = child_of si k"
    using child_of_on_child [OF si1(1), of n "acquire_restart_permit now" k] si1(2) by (simp add: si' child_of_def)
  show "never_restarted si' k = never_restarted si k"
    using never_restarted_on_child [OF si1(1), of "acquire_restart_permit now" n k] nr1 by (simp add: si')
qed

lemma position_split: "position n ns = Some i \<Longrightarrow> ns = take i ns @ n # drop (i + 1) ns"
  by (induction ns arbitrary: i) (auto split: if_splits)

lemma poll_keeps:
  assumes "inner_wf si" "sm_poll n r (kids si) = (sm, Ready nx)"
  defines "si1 \<equiv> si\<lparr>kids := sm\<rparr>"
  shows "sm_names (kids si1) = sm_names (kids si)" "never_restarted si1 k = never_restarted si k"
proof -
  have wf: "sm_wf (kids si)" using assms(1) by (simp add: inner_wf_def)
  from sm_poll_Ready [OF wf assms(2)] have sm: "sm = fst (sm_modify n (supervise r) (kids si))" by metis
  then have eq: "kids si1 = kids (fst (on_child n (supervise r) si))" by (simp add: si1_def)
  show "sm_names (kids si1) = sm_names (kids si)"
    using sm_names_modify [OF wf, of "supervise r" n] sm by (simp add: si1_def)
  show "never_restarted si1 k = never_restarted si k"
    using never_restarted_on_child [OF assms(1), of "supervise r" n k] eq
    by (simp add: never_restarted_def child_of_def)
qed

lemma rfo_exit_from_idle:
  assumes "inner_wf (r_inner s)" "rfo_handle_exit now n reason s = Some (s', c)" "cascade s = Idle"
    "cascade s' = ExitingCascade k q rs ds"
  obtains si i where "inner_wf si" "sm_names (kids si) = sm_names (kids (r_inner s))"
    "\<And>m. m \<noteq> n \<Longrightarrow> child_of si m = child_of (r_inner s) m"
    "never_restarted si = never_restarted (r_inner s)" "position n (sm_names (kids si)) = Some i"
    "stop_reaches (drop (i + 1) (sm_names (kids si))) [n] [] (s\<lparr>r_inner := si\<rparr>) s'"
proof -
  obtain si b where p: "ofo_acquire_permits now n (r_inner s) = (si, b)" by fastforce
  have wf: "inner_wf si" using ofo_acquire_permits_same [OF assms(1), of now n] p assms(1)
    by (auto simp: same_states_def)
  note po = permits_others [OF assms(1) p]
  let ?all = "sm_names (kids si)"
  have rem: "cascade (fst (rfo_remove_spec now n s)) = Idle"
    using assms(3) by (simp add: rfo_remove_spec_def rfo_remove_with_def split: prod.splits)
  have shut: "cascade (fst (rfo_shutdown (s\<lparr>r_inner := si\<rparr>))) \<noteq> ExitingCascade k q rs ds"
    by (rule rfo_shutdown_not_exiting)
  have s1: "s\<lparr>r_inner := si, cascade := Idle\<rparr> = s\<lparr>r_inner := si\<rparr>" using assms(3) by simp
  have "rfo_start_cascade now n (s\<lparr>r_inner := si, cascade := Idle\<rparr>) = Some (s', c)"
    using assms(2-4) p rem shut
    by (auto simp: rfo_handle_exit_def split: option.splits if_splits bool.splits)
  then have "rfo_start_cascade now n (s\<lparr>r_inner := si\<rparr>) = Some (s', c)" unfolding s1 .
  then obtain i where i: "position n ?all = Some i"
      "advance_stop now (drop (i + 1) ?all) [n] [] (s\<lparr>r_inner := si\<rparr>) = (s', c)"
    by (auto simp: rfo_start_cascade_def Let_def)
  have d: "distinct (drop (i + 1) ?all)" using distinct_sm_names wf by (simp add: inner_wf_def)
  have kn: "\<forall>m\<in>set (drop (i + 1) ?all). known (r_inner (s\<lparr>r_inner := si\<rparr>)) m"
    using known_names [OF wf] by (auto dest: in_set_dropD)
  have "inner_wf (r_inner (s\<lparr>r_inner := si\<rparr>))" using wf by simp
  from advance_stop_reaches [OF this d kn, of "[n]" "[]" now]
  have "stop_reaches (drop (i + 1) ?all) [n] [] (s\<lparr>r_inner := si\<rparr>) s'" using i(2) by simp
  moreover have "never_restarted si = never_restarted (r_inner s)" using po(3) by blast
  ultimately show ?thesis using that wf po(1,2) i(1) by blast
qed

text \<open>A restart cascade works from the last child backwards: after the turn in which child \<open>n\<close> starts
  one, the children are, in start order, those before \<open>n\<close>, \<open>n\<close> itself, those still to stop, the one being
  stopped, and the rest, which are dead; the children before \<open>n\<close> and those still to stop are untouched, and
  the ones stopped are noted for the restart or, if never restarted, for the drop.\<close>

theorem rest_for_one_stops_last_child_first:
  assumes "inner_wf si" "\<not> inner_is_exiting si" "all_dead si" "no_removal es"
    "supervisor_run RestForOneStrategy es (rest_for_one_new si) = Some (s, Continue)"
    "supervisor_turn RestForOneStrategy (now, EvChild n r) s = Some (s', rep, c)"
    "cascade s = Idle" "cascade s' = ExitingCascade k pending to_restart to_drop"
  shows "\<exists>before rest. sm_names (kids (r_inner s)) = before @ n # pending @ k # rest
    \<and> to_restart = n # filter (\<lambda>m. \<not> never_restarted (r_inner s) m) (rev (k # rest))
    \<and> to_drop = filter (never_restarted (r_inner s)) (rev (k # rest))
    \<and> still_owes (kids (r_inner s')) k \<and> (\<forall>m\<in>set rest. dead_child (r_inner s') m)
    \<and> (\<forall>m\<in>set (before @ pending). child_of (r_inner s') m = child_of (r_inner s) m)"
proof -
  have inv: "rfo_inv s" using rfo_run_ok [OF assms(1-4)] assms(5) by (auto simp: rfo_ok_def)
  obtain sm nx where poll: "sm_poll n r (kids (r_inner s)) = (sm, Ready nx)" "\<not> goes_on (next_item nx)"
    and he: "rfo_handle_exit now n (exit_reason_of (next_item nx))
      (s\<lparr>r_inner := (r_inner s)\<lparr>kids := sm\<rparr>\<rparr>) = Some (s', c)"
    using rfo_turn_exit [OF inv assms(6)] assms(7,8) by auto
  have "rfo_inv s'" using rfo_polled_exit [OF inv poll, of now] he by (simp add: rfo_ok_def)
  then have owes: "still_owes (kids (r_inner s')) k" using assms(8) by (auto simp: rfo_inv_def tracked_def)
  note pt = rfo_poll [OF rfo_inv_wf [OF inv] poll(1)] and pk = poll_keeps [OF rfo_inv_wf [OF inv] poll(1)]
  let ?s = "s\<lparr>r_inner := (r_inner s)\<lparr>kids := sm\<rparr>\<rparr>"
  have idle: "inner_wf (r_inner ?s)" "cascade ?s = Idle" using pt(2) assms(7) by simp_all
  obtain si i where
    si: "inner_wf si" "sm_names (kids si) = sm_names (kids (r_inner ?s))"
      "\<And>m. m \<noteq> n \<Longrightarrow> child_of si m = child_of (r_inner ?s) m"
      "never_restarted si = never_restarted (r_inner ?s)"
      "position n (sm_names (kids si)) = Some i"
      "stop_reaches (drop (i + 1) (sm_names (kids si))) [n] [] (?s\<lparr>r_inner := si\<rparr>) s'"
    by (rule rfo_exit_from_idle [OF idle(1) he idle(2) assms(8)], rule that)
  have nr: "never_restarted si = never_restarted (r_inner s)" using si(4) pk(2) by (simp add: fun_eq_iff)
  from si(6) assms(8) obtain rest where
    rest: "drop (i + 1) (sm_names (kids si)) = pending @ k # rest"
      "to_restart = [n] @ filter (\<lambda>n. \<not> never_restarted si n) (rev (k # rest))"
      "to_drop = [] @ filter (never_restarted si) (rev (k # rest))"
      "\<forall>n\<in>set rest. dead_child (r_inner s') n"
      "\<forall>m. m \<notin> set (k # rest) \<longrightarrow> child_of (r_inner s') m = child_of si m"
    unfolding stop_reaches_def by auto
  have names: "sm_names (kids (r_inner s)) = take i (sm_names (kids si)) @ n # pending @ k # rest"
    using position_split [OF si(5)] rest(1) si(2) pk(1) by simp
  have "distinct (sm_names (kids (r_inner s)))"
    using distinct_sm_names rfo_inv_wf [OF inv] by (simp add: inner_wf_def)
  then have "m \<noteq> n \<and> m \<noteq> k \<and> m \<notin> set rest" if "m \<in> set (take i (sm_names (kids si)) @ pending)" for m
    using that unfolding names by auto
  then have "child_of (r_inner s') m = child_of (r_inner s) m" if "m \<in> set (take i (sm_names (kids si)) @ pending)" for m
    using that rest(5) si(3) [of m] pt(5) [of m] by simp
  then show ?thesis using names rest(2-4) owes nr by auto
qed

lemma rfo_remove_idle_fold_get:
  "inner_wf (r_inner s) \<Longrightarrow> k \<notin> set ns \<Longrightarrow>
   inner_wf (r_inner (fold rfo_remove_idle ns s)) \<and>
   child_of (r_inner (fold rfo_remove_idle ns s)) k = child_of (r_inner s) k"
proof (induction ns arbitrary: s)
  case (Cons n ns)
  have "r_inner (rfo_remove_idle n s) = (r_inner s)\<lparr>kids := fst (sm_remove n (kids (r_inner s)))\<rparr>"
    by (simp add: rfo_remove_idle_def rfo_remove_with_def inner_remove_spec_eq [OF Cons.prems(1)])
  then show ?case
    using Cons.IH [of "rfo_remove_idle n s"] Cons.prems kids_removed(1,2) [OF Cons.prems(1), of n] by simp
qed simp

text \<open>The child whose exit started a restart cascade is restarted last: when the last child to stop has
  exited, the children stopped after it are started first, in start order, and the trigger comes at
  the end of the queue, although it was started before them.\<close>

theorem rest_for_one_restarts_trigger_last:
  assumes "inner_wf si" "\<not> inner_is_exiting si" "all_dead si" "no_removal es"
    "supervisor_run RestForOneStrategy es (rest_for_one_new si) = Some (s, Continue)"
    "supervisor_turn RestForOneStrategy (now, EvChild k r) s = Some (s', rep, c)"
    "cascade s = ExitingCascade k [] (trigger # stopped @ [k]) to_drop" "k \<notin> set to_drop"
    "cascade s' \<noteq> cascade s"
  shows "cascade s' = Restarting k (rev stopped @ [trigger])
    \<and> map_option state (child_of (r_inner s') k) = Some Starting"
proof -
  have inv: "rfo_inv s" using rfo_run_ok [OF assms(1-4)] assms(5) by (auto simp: rfo_ok_def)
  obtain sm nx where poll: "sm_poll k r (kids (r_inner s)) = (sm, Ready nx)" "\<not> goes_on (next_item nx)"
    and he: "rfo_handle_exit now k (exit_reason_of (next_item nx))
      (s\<lparr>r_inner := (r_inner s)\<lparr>kids := sm\<rparr>\<rparr>) = Some (s', c)"
    using rfo_turn_exit [OF inv assms(6,9)] assms(7) by auto
  note pt = rfo_poll [OF rfo_inv_wf [OF inv] poll(1)]
  let ?s = "s\<lparr>r_inner := (r_inner s)\<lparr>kids := sm\<rparr>\<rparr>\<lparr>cascade := Idle\<rparr>"
  let ?t = "fold rfo_remove_idle to_drop ?s"
  have s': "(s', c) = advance_stop now [] (trigger # stopped @ [k]) to_drop ?s"
    using he assms(7)
    by (simp add: rfo_handle_exit_def handle_cascade_current_exit_def advance_cascade_def)
  then have s': "(s', c) = advance_restart (k # rev stopped @ [trigger]) ?t"
    by (simp add: advance_stop_eqs)
  have t: "inner_wf (r_inner ?t)" "child_of (r_inner ?t) k = child_of (r_inner ?s) k"
    using rfo_remove_idle_fold_get [of ?s k to_drop] pt(2) assms(8) by simp_all
  obtain sv where sv: "child_of (r_inner ?t) k = Some sv" "state sv = Dead"
    using t(2) pt(8) poll(2) by (auto simp: known_def dead_child_def)
  have "child_of (fst (on_child k start (r_inner ?t))) k = Some (sv\<lparr>state := Starting\<rparr>)"
    using child_of_on_child [OF t(1), of k start k] sv by simp
  then show ?thesis using s' sv by (simp add: rfo_on_child_eq)
qed

lemma merge_panics:
  assumes "x \<in> set p" "x \<notin> set (sm_names (kids (r_inner s)))" "2 \<le> length p"
  shows "merge_into_stopping t c p rs ds s = None"
proof -
  have "position x (sm_names (kids (r_inner s))) = None" using assms(2) position_iff by blast
  then have "\<not> list_all (\<lambda>n. position n (sm_names (kids (r_inner s))) \<noteq> None) p"
    using assms(1) by (auto simp: list_all_iff)
  then have "sort_by_position (sm_names (kids (r_inner s))) (xs @ p) = None" for xs
    using assms(3) by (simp add: sort_by_position_def)
  then show ?thesis by (simp add: merge_into_stopping_def Let_def split: option.split)
qed

text \<open>Deregistering a child that a running cascade has yet to stop leaves its name in the queue of the
  cascade. When another child outside the cascade then has to be restarted, the supervisor panics:
  it asks for the position of the name that is gone.\<close>

theorem rest_for_one_panics_on_deregistered_pending:
  assumes "inner_wf si" "\<not> inner_is_exiting si" "all_dead si" "no_removal es"
    "supervisor_run RestForOneStrategy es (rest_for_one_new si) = Some (s, Continue)"
    "cascade s = ExitingCascade c pending to_restart to_drop" "2 \<le> length pending"
    "x \<in> set pending" "x \<noteq> c"
    "supervisor_turn RestForOneStrategy (now, EvMessage (MsgDeregister x)) s = Some (s1, rep, Continue)"
    "t \<noteq> c" "t \<notin> set pending" "child_of (r_inner s1) t = Some sv" "reason_requires_restart reason sv"
    "snd (ofo_acquire_permits now' t (r_inner s1))"
  shows "rfo_handle_exit now' t reason s1 = None"
proof -
  have inv: "rfo_inv s" using rfo_run_ok [OF assms(1-4)] assms(5) by (auto simp: rfo_ok_def)
  note wf = rfo_inv_wf [OF inv]
  have s1: "cascade s1 = cascade s" "r_inner s1 = (r_inner s)\<lparr>kids := fst (sm_remove x (kids (r_inner s)))\<rparr>"
    using assms(6,9,10)
    by (auto simp: RestForOneStrategy_def rfo_remove_spec_def rfo_remove_with_def inner_remove_spec_eq [OF wf]
        split: prod.splits)
  have wf1: "inner_wf (r_inner s1)" and gone: "\<not> known (r_inner s1) x"
    using kids_removed(1,2) [OF wf, of x] s1(2) by (simp_all add: known_def)
  obtain si' where p: "ofo_acquire_permits now' t (r_inner s1) = (si', True)"
    using assms(15) by (cases "ofo_acquire_permits now' t (r_inner s1)") simp
  have "x \<notin> set (sm_names (kids si'))"
    using permits_others(1) [OF wf1 p] gone known_names [OF wf1] by simp
  from merge_panics [OF assms(8), of "s1\<lparr>r_inner := si', cascade := Idle\<rparr>" t c to_restart to_drop] this assms(7)
  show ?thesis
    using assms(6,11-14) s1(1) p by (simp add: rfo_handle_exit_def Let_def)
qed

section \<open>Witnesses\<close>

definition example_chain :: "name list \<Rightarrow> supervisor_inner" where
  "example_chain ns = example_inner (map (\<lambda>n. example_spec n Always) ns) Initializing"

lemma example_chain_facts:
  "inner_wf (example_chain ns)" "\<not> inner_is_exiting (example_chain ns)" "all_dead (example_chain ns)"
  by (simp_all add: example_chain_def example_inner_facts)

definition chain_up :: "name list \<Rightarrow> (instant \<times> supervisor_event) list" where
  "chain_up ns = map (\<lambda>n. (1, EvChild n (StartDone (Inr ())))) ns @ map (\<lambda>n. (2, EvChild n (InitDone (Inr ())))) ns"

definition abc :: "name list" where "abc = [''a'', ''b'', ''c'']"

definition abcde :: "name list" where "abcde = [''a'', ''b'', ''c'', ''d'', ''e'']"

lemma chain_no_removal:
  "no_removal (chain_up ns)" "no_removal (chain_up ns @ [(5, crashes n)])"
  "no_removal (chain_up ns @ [(5, crashes n), (6, crashes n')])"
  by (auto simp: no_removal_def chain_up_def crashes_def list_all_iff)

theorem rest_for_one_ends_with_no_child_left_witness:
  "\<exists>s' c. supervisor_run RestForOneStrategy (chain_up abc @ [(5, crashes ''a'')])
      (rest_for_one_new (example_chain abc)) = Some (s', c) \<and> (c = Break \<longrightarrow> all_dead (r_inner s'))"
  by (rule rest_for_one_ends_with_no_child_left) (simp_all add: example_chain_facts chain_no_removal)

lemma example_chain_crash:
  "map_option (\<lambda>(s, c). (cascade s, c))
     (supervisor_run RestForOneStrategy (chain_up abc) (rest_for_one_new (example_chain abc))) = Some (Idle, Continue)"
  "map_option (\<lambda>(s, c). map_option (\<lambda>(s', _, c). cascade s')
       (supervisor_turn RestForOneStrategy (5, crashes ''a'') s))
     (supervisor_run RestForOneStrategy (chain_up abc) (rest_for_one_new (example_chain abc)))
     = Some (Some (ExitingCascade ''c'' [''b''] [''a'', ''c''] []))"
  by code_simp+

lemma example_chain_stopping:
  "map_option (\<lambda>(s, c). (cascade s, inner_is_exiting (r_inner s), c))
     (supervisor_run RestForOneStrategy (chain_up abc @ [(5, crashes ''a''), (6, crashes ''c'')])
       (rest_for_one_new (example_chain abc)))
     = Some (ExitingCascade ''b'' [] [''a'', ''c'', ''b''] [], False, Continue)"
  by code_simp

theorem rest_for_one_cascade_one_at_a_time_witness:
  "\<exists>s. supervisor_run RestForOneStrategy (chain_up abc @ [(5, crashes ''a''), (6, crashes ''c'')])
      (rest_for_one_new (example_chain abc)) = Some (s, Continue)
    \<and> {k. still_owes (kids (r_inner s)) k} = {''b''}"
proof -
  obtain s where s: "supervisor_run RestForOneStrategy (chain_up abc @ [(5, crashes ''a''), (6, crashes ''c'')])
      (rest_for_one_new (example_chain abc)) = Some (s, Continue)"
    "cascade s = ExitingCascade ''b'' [] [''a'', ''c'', ''b''] []" "\<not> inner_is_exiting (r_inner s)"
    using example_chain_stopping(1) by auto
  from rest_for_one_cascade_one_at_a_time [OF example_chain_facts chain_no_removal(3) s(1,3)] s(1,2)
  show ?thesis by simp
qed

theorem rest_for_one_stops_last_child_first_witness:
  "\<exists>s s' rep c. supervisor_turn RestForOneStrategy (5, crashes ''a'') s = Some (s', rep, c)
    \<and> still_owes (kids (r_inner s')) ''c'' \<and> child_of (r_inner s') ''b'' = child_of (r_inner s) ''b''"
proof -
  obtain s where s: "supervisor_run RestForOneStrategy (chain_up abc) (rest_for_one_new (example_chain abc))
      = Some (s, Continue)" "cascade s = Idle"
    using example_chain_crash(1) by auto
  then obtain s' rep c where t: "supervisor_turn RestForOneStrategy (5, crashes ''a'') s = Some (s', rep, c)"
      "cascade s' = ExitingCascade ''c'' [''b''] [''a'', ''c''] []"
    using example_chain_crash(2) by auto
  from rest_for_one_stops_last_child_first [OF example_chain_facts chain_no_removal(1) s(1)
      t(1) [unfolded crashes_def] s(2) t(2)] t(1) show ?thesis by auto
qed

lemma example_chain_restarting:
  "map_option (\<lambda>(s, c). map_option (\<lambda>(s', _, c). cascade s' = cascade s)
       (supervisor_turn RestForOneStrategy (7, crashes ''b'') s))
     (supervisor_run RestForOneStrategy (chain_up abc @ [(5, crashes ''a''), (6, crashes ''c'')])
       (rest_for_one_new (example_chain abc)))
     = Some (Some False)"
  by code_simp

theorem rest_for_one_restarts_trigger_last_witness:
  "\<exists>s s' rep c. supervisor_turn RestForOneStrategy (7, crashes ''b'') s = Some (s', rep, c)
    \<and> cascade s' = Restarting ''b'' [''c'', ''a'']"
proof -
  obtain s where s: "supervisor_run RestForOneStrategy (chain_up abc @ [(5, crashes ''a''), (6, crashes ''c'')])
      (rest_for_one_new (example_chain abc)) = Some (s, Continue)"
    "cascade s = ExitingCascade ''b'' [] [''a'', ''c'', ''b''] []"
    using example_chain_stopping(1) by auto
  then obtain s' rep c where t: "supervisor_turn RestForOneStrategy (7, crashes ''b'') s = Some (s', rep, c)"
      "cascade s' \<noteq> cascade s"
    using example_chain_restarting by auto
  have c: "cascade s = ExitingCascade ''b'' [] (''a'' # [''c''] @ [''b'']) []" "''b'' \<notin> set []"
    using s(2) by simp_all
  from rest_for_one_restarts_trigger_last [OF example_chain_facts chain_no_removal(3) s(1)
      t(1) [unfolded crashes_def] c t(2)] t(1) show ?thesis by auto
qed

definition failing_start :: "(instant \<times> supervisor_event) list" where
  "failing_start =
     [(1, EvChild ''e'' (StartDone (Inr ()))), (2, EvChild ''b'' (StartDone (Inl StartOnInstantiation)))]"

lemma failing_start_no_removal: "no_removal failing_start"
  by (simp add: no_removal_def failing_start_def)

lemma example_chain_deregister:
  "map_option (\<lambda>(s, c). (cascade s, c))
     (supervisor_run RestForOneStrategy (failing_start) (rest_for_one_new (example_chain abcde)))
     = Some (ExitingCascade ''e'' [''c'', ''d''] [''b'', ''e''] [], Continue)"
  "map_option (\<lambda>(s, c). map_option (\<lambda>(s', _, c).
         (map_option (reason_requires_restart (ExitedWith (JoinError JoinPanic))) (child_of (r_inner s') ''a''),
          snd (ofo_acquire_permits 7 ''a'' (r_inner s')), c))
       (supervisor_turn RestForOneStrategy (6, EvMessage (MsgDeregister ''d'')) s))
     (supervisor_run RestForOneStrategy (failing_start) (rest_for_one_new (example_chain abcde)))
     = Some (Some (Some True, True, Continue))"
  by code_simp+

theorem rest_for_one_panics_on_deregistered_pending_witness:
  "\<exists>s s1 rep. supervisor_turn RestForOneStrategy (6, EvMessage (MsgDeregister ''d'')) s = Some (s1, rep, Continue)
    \<and> rfo_handle_exit 7 ''a'' (ExitedWith (JoinError JoinPanic)) s1 = None"
proof -
  obtain s where s: "supervisor_run RestForOneStrategy (failing_start)
      (rest_for_one_new (example_chain abcde)) = Some (s, Continue)"
    "cascade s = ExitingCascade ''e'' [''c'', ''d''] [''b'', ''e''] []"
    using example_chain_deregister(1) by auto
  then obtain s1 rep sv where t:
      "supervisor_turn RestForOneStrategy (6, EvMessage (MsgDeregister ''d'')) s = Some (s1, rep, Continue)"
      "child_of (r_inner s1) ''a'' = Some sv" "reason_requires_restart (ExitedWith (JoinError JoinPanic)) sv"
      "snd (ofo_acquire_permits 7 ''a'' (r_inner s1))"
    using example_chain_deregister(2) by auto
  from rest_for_one_panics_on_deregistered_pending [OF example_chain_facts failing_start_no_removal s(1,2)
      _ _ _ t(1) _ _ t(2-4)] t(1) show ?thesis by auto
qed

end
