(* ===== verification/Wire_Format.thy ===== *)
theory Wire_Format
  imports Zestors_Prelude
begin

text \<open>
  Bytes: big-endian integers as \<open>to_be_bytes\<close> and the \<open>bytes\<close> crate's
  \<open>put_u64\<close>/\<open>get_u64\<close> lay them out, Rust strings as their UTF-8 bytes, decoders that
  may refuse their input or panic, and the interface \<open>wire_format\<close> of a pair of an encoder and a
  decoder, with what follows from it.

  A string is its UTF-8 bytes, one \<open>char\<close> each; that these are valid UTF-8, which the type
  guarantees in Rust, is the predicate \<open>utf8_valid\<close>.
\<close>

section \<open>Big-endian integers\<close>

type_synonym bytes = "byte list"
type_synonym u32 = "32 word"
type_synonym u128 = "128 word"

fun be_bytes :: "nat \<Rightarrow> nat \<Rightarrow> bytes" where
  "be_bytes 0 x = []"
| "be_bytes (Suc n) x = be_bytes n (x div 256) @ [word_of_nat x]"

definition be_value :: "bytes \<Rightarrow> nat" where
  "be_value bs = foldl (\<lambda>a b. a * 256 + unat b) 0 bs"

lemma byte_less: "unat (b :: byte) < 256"
  using unsigned_less [of b, where ?'a = nat] by simp

lemma length_be_bytes [simp]: "length (be_bytes n x) = n"
  by (induction n arbitrary: x) auto

lemma be_value_Nil [simp]: "be_value [] = 0"
  by (simp add: be_value_def)

lemma be_value_snoc [simp]: "be_value (bs @ [b]) = be_value bs * 256 + unat b"
  by (simp add: be_value_def)

lemma be_value_be_bytes [simp]: "be_value (be_bytes n x) = x mod 256 ^ n"
  by (induction n arbitrary: x) (simp_all add: unat_of_nat mod_mult2_eq)

lemma be_bytes_be_value: "length bs = n \<Longrightarrow> be_bytes n (be_value bs) = bs"
proof (induction n arbitrary: bs)
  case (Suc n)
  then obtain cs b where bs: "bs = cs @ [b]"
    by (metis length_0_conv nat.distinct(1) rev_exhaust)
  have "word_of_nat (be_value cs * 256 + unat b) = b"
    using byte_less [of b] by (simp only: word_unat_eq_iff unat_of_nat) simp
  then show ?case using Suc byte_less [of b] by (simp add: bs)
qed simp

lemma be_value_bound: "be_value bs < 256 ^ length bs"
proof (induction bs rule: rev_induct)
  case (snoc b bs)
  have "unat b < 256" by (rule byte_less)
  with snoc show ?case by simp
qed simp

section \<open>Decoders\<close>

text \<open>
  A decoder takes its value off the front of the bytes. The outer option is a panic (a read past the
  end), the inner one input that the code refuses.
\<close>

type_synonym 'a decoder = "bytes \<Rightarrow> ('a \<times> bytes) option option"

definition yield :: "'a \<Rightarrow> 'a decoder" where
  "yield x bs = Some (Some (x, bs))"

definition refuse :: "'a decoder" where
  "refuse bs = Some None"

definition and_then :: "'a decoder \<Rightarrow> ('a \<Rightarrow> 'b decoder) \<Rightarrow> 'b decoder" where
  "and_then d f bs = (case d bs of
       None \<Rightarrow> None
     | Some None \<Rightarrow> Some None
     | Some (Some (x, rest)) \<Rightarrow> f x rest)"

definition remaining :: "nat decoder" where
  "remaining bs = Some (Some (length bs, bs))"

definition split_to :: "nat \<Rightarrow> bytes decoder" where
  "split_to n bs = (if length bs < n then None else Some (Some (take n bs, drop n bs)))"

definition read_be :: "nat \<Rightarrow> nat decoder" where
  "read_be n = and_then (split_to n) (\<lambda>raw. yield (be_value raw))"

definition the_rest :: "bytes decoder" where
  "the_rest bs = Some (Some (bs, []))"

definition guarded :: "nat \<Rightarrow> 'a decoder \<Rightarrow> 'a decoder" where
  "guarded n d = and_then remaining (\<lambda>left. if left < n then refuse else d)"

lemmas decoder_defs = yield_def refuse_def and_then_def remaining_def split_to_def read_be_def
  the_rest_def guarded_def

lemma guarded_split_to:
  "guarded n (split_to n) bs =
     (if length bs < n then Some None else Some (Some (take n bs, drop n bs)))"
  by (simp add: decoder_defs)

lemma guarded_read_be:
  "guarded n (read_be n) bs =
     (if length bs < n then Some None else Some (Some (be_value (take n bs), drop n bs)))"
  by (simp add: decoder_defs)

section \<open>Encoders and decoders that belong together\<close>

text \<open>
  What a format promises: the decoder never panics, it reads back what the encoder wrote whatever
  follows, and what it reads does not depend on what follows.
\<close>

definition reads_prefix :: "'a decoder \<Rightarrow> bool" where
  "reads_prefix get \<longleftrightarrow> (\<forall>bs x rest. get bs = Some (Some (x, rest)) \<longrightarrow>
     (\<exists>used. bs = used @ rest \<and> (\<forall>more. get (used @ more) = Some (Some (x, more)))))"

definition no_panic :: "'a decoder \<Rightarrow> bool" where
  "no_panic get \<longleftrightarrow> (\<forall>bs. get bs \<noteq> None)"

lemma no_panicD: "no_panic get \<Longrightarrow> get bs \<noteq> None"
  by (simp add: no_panic_def)

lemma reads_prefixE:
  assumes "reads_prefix get" "get bs = Some (Some (x, rest))"
  obtains used where "bs = used @ rest" "\<And>more. get (used @ more) = Some (Some (x, more))"
  using assms unfolding reads_prefix_def by metis

lemma reads_prefixI:
  assumes "\<And>bs x rest. get bs = Some (Some (x, rest)) \<Longrightarrow>
    \<exists>used. bs = used @ rest \<and> (\<forall>more. get (used @ more) = Some (Some (x, more)))"
  shows "reads_prefix get"
  using assms by (simp add: reads_prefix_def)

locale wire_format =
  fixes put :: "'a \<Rightarrow> bytes" and get :: "'a decoder" and valid :: "'a \<Rightarrow> bool"
  assumes get_put: "valid x \<Longrightarrow> get (put x @ rest) = Some (Some (x, rest))"
    and get_prefix: "reads_prefix get"
    and get_total: "no_panic get"
begin

lemma roundtrip: "valid x \<Longrightarrow> get (put x) = Some (Some (x, []))"
  using get_put [of x "[]"] by simp

lemma unambiguous:
  assumes "valid x" "valid y" "put x @ u = put y @ v"
  shows "x = y \<and> u = v"
proof -
  have "get (put x @ u) = get (put y @ v)" using assms(3) by (rule arg_cong)
  then show ?thesis by (simp only: get_put [OF assms(1)] get_put [OF assms(2)]) simp
qed

lemma cut_short:
  assumes "valid x" "n < length (put x)" shows "get (take n (put x)) = Some None"
proof (rule ccontr)
  assume "get (take n (put x)) \<noteq> Some None"
  then obtain y r where y: "get (take n (put x)) = Some (Some (y, r))"
    using no_panicD [OF get_total] by (metis not_Some_eq surj_pair)
  obtain u where u: "take n (put x) = u @ r"
      "\<And>more. get (u @ more) = Some (Some (y, more))"
    by (rule reads_prefixE [OF get_prefix y], rule that)
  have "u @ (r @ drop n (put x)) = put x" using u(1) by (metis append.assoc append_take_drop_id)
  then have "get (put x) = Some (Some (y, r @ drop n (put x)))" using u(2) by metis
  then show False using roundtrip [OF assms(1)] assms(2) by simp
qed

end

text \<open>
  A canonical format has one encoding of each value: what was read is what the encoder writes for
  it. Then the decoder reads a prefix.
\<close>

locale canonical_format =
  fixes put :: "'a \<Rightarrow> bytes" and get :: "'a decoder" and valid :: "'a \<Rightarrow> bool"
  assumes get_put: "valid x \<Longrightarrow> get (put x @ rest) = Some (Some (x, rest))"
    and put_get: "get bs = Some (Some (x, rest)) \<Longrightarrow> valid x \<and> bs = put x @ rest"
    and get_total: "no_panic get"
begin

lemma is_format: "wire_format put get valid"
proof
  show "reads_prefix get"
  proof (rule reads_prefixI)
    fix bs x rest assume "get bs = Some (Some (x, rest))"
    then have "valid x" "bs = put x @ rest" using put_get by blast+
    then show "\<exists>used. bs = used @ rest \<and> (\<forall>more. get (used @ more) = Some (Some (x, more)))"
      using get_put by blast
  qed
qed (use get_put get_total in auto)

lemma get_iff: "get bs = Some (Some (x, rest)) \<longleftrightarrow> valid x \<and> bs = put x @ rest"
  using get_put put_get by blast

end

sublocale canonical_format \<subseteq> fmt: wire_format put get valid
  by (rule is_format)

named_theorems prefix_intros \<open>decoders that read a prefix of their input\<close>
named_theorems total_intros \<open>decoders that never panic\<close>

lemma reads_prefix_yield [prefix_intros]: "reads_prefix (yield x)"
  by (simp add: reads_prefix_def yield_def)

lemma reads_prefix_refuse [prefix_intros]: "reads_prefix refuse"
  by (simp add: reads_prefix_def refuse_def)

lemma reads_prefix_split_to [prefix_intros]: "reads_prefix (guarded n (split_to n))"
proof (rule reads_prefixI)
  fix bs x rest assume "guarded n (split_to n) bs = Some (Some (x, rest))"
  then have "length x = n" "bs = x @ rest" by (auto simp: guarded_split_to split: if_splits)
  then show "\<exists>used. bs = used @ rest \<and>
      (\<forall>more. guarded n (split_to n) (used @ more) = Some (Some (x, more)))"
    by (intro exI [of _ x]) (simp add: guarded_split_to)
qed

lemma reads_prefix_read_be [prefix_intros]: "reads_prefix (guarded n (read_be n))"
proof (rule reads_prefixI)
  fix bs x rest assume "guarded n (read_be n) bs = Some (Some (x, rest))"
  then have n: "n \<le> length bs" and "x = be_value (take n bs)" "rest = drop n bs"
    by (auto simp: guarded_read_be split: if_splits)
  then show "\<exists>used. bs = used @ rest \<and>
      (\<forall>more. guarded n (read_be n) (used @ more) = Some (Some (x, more)))"
    by (intro exI [of _ "take n bs"]) (simp add: guarded_read_be)
qed

lemma reads_prefix_and_then [prefix_intros]:
  assumes "reads_prefix d" "\<And>x. reads_prefix (f x)" shows "reads_prefix (and_then d f)"
proof (rule reads_prefixI)
  fix bs y rest assume "and_then d f bs = Some (Some (y, rest))"
  then obtain x mid where d: "d bs = Some (Some (x, mid))" and f: "f x mid = Some (Some (y, rest))"
    by (auto simp: and_then_def split: option.splits)
  obtain u where u: "bs = u @ mid" "\<And>more. d (u @ more) = Some (Some (x, more))"
    by (rule reads_prefixE [OF assms(1) d], rule that)
  obtain v where v: "mid = v @ rest" "\<And>more. f x (v @ more) = Some (Some (y, more))"
    by (rule reads_prefixE [OF assms(2) f], rule that)
  show "\<exists>used. bs = used @ rest \<and> (\<forall>more. and_then d f (used @ more) = Some (Some (y, more)))"
    by (rule exI [of _ "u @ v"]) (simp add: u v and_then_def)
qed

lemma no_panic_yield [total_intros]: "no_panic (yield x)"
  by (simp add: no_panic_def yield_def)

lemma no_panic_refuse [total_intros]: "no_panic refuse"
  by (simp add: no_panic_def refuse_def)

lemma no_panic_the_rest [total_intros]: "no_panic the_rest"
  by (simp add: no_panic_def the_rest_def)

lemma no_panic_split_to [total_intros]: "no_panic (guarded n (split_to n))"
  by (simp add: no_panic_def guarded_split_to)

lemma no_panic_read_be [total_intros]: "no_panic (guarded n (read_be n))"
  by (simp add: no_panic_def guarded_read_be)

lemma no_panic_and_then [total_intros]:
  "no_panic d \<Longrightarrow> (\<And>x. no_panic (f x)) \<Longrightarrow> no_panic (and_then d f)"
  by (auto simp: no_panic_def and_then_def split: option.splits)

lemma and_then_Some [simp]: "d bs = Some (Some (x, rest)) \<Longrightarrow> and_then d f bs = f x rest"
  by (simp add: and_then_def)

section \<open>The integers as formats\<close>

definition put_u8 :: "byte \<Rightarrow> bytes" where
  "put_u8 b = [b]"

definition get_u8 :: "byte decoder" where
  "get_u8 = and_then (guarded 1 (split_to 1)) (\<lambda>bs. yield (hd bs))"

definition put_u16 :: "u16 \<Rightarrow> bytes" where
  "put_u16 w = be_bytes 2 (unat w)"

definition get_u16 :: "u16 decoder" where
  "get_u16 = and_then (guarded 2 (read_be 2)) (\<lambda>n. yield (word_of_nat n))"

definition put_u64 :: "u64 \<Rightarrow> bytes" where
  "put_u64 w = be_bytes 8 (unat w)"

definition get_u64 :: "u64 decoder" where
  "get_u64 = and_then (guarded 8 (read_be 8)) (\<lambda>n. yield (word_of_nat n))"

definition put_u128 :: "u128 \<Rightarrow> bytes" where
  "put_u128 w = be_bytes 16 (unat w)"

definition get_u128 :: "u128 decoder" where
  "get_u128 = and_then (read_be 16) (\<lambda>n. yield (word_of_nat n))"

lemma be_format:
  fixes w :: "'w::len word"
  assumes "LENGTH('w) = 8 * n"
  shows "guarded n (read_be n) (be_bytes n (unat w) @ rest) = Some (Some (unat w, rest))"
proof -
  have "(2::nat) ^ (8 * n) = 256 ^ n" by (simp add: power_mult)
  then have "unat w < 256 ^ n" using unsigned_less [of w, where ?'a = nat] assms by simp
  then show ?thesis by (simp add: guarded_read_be)
qed

lemma be_canonical:
  fixes w :: "'w::len word"
  assumes "guarded n (read_be n) bs = Some (Some (x, rest))" "LENGTH('w) = 8 * n"
    "w = word_of_nat x"
  shows "bs = be_bytes n (unat w) @ rest"
proof -
  have n: "n \<le> length bs" "x = be_value (take n bs)" "rest = drop n bs"
    using assms(1) by (auto simp: guarded_read_be split: if_splits)
  have "x < 256 ^ n" using be_value_bound [of "take n bs"] n by simp
  then have "unat w = x" using assms(2,3) by (simp add: unat_of_nat power_mult)
  then show ?thesis using n be_bytes_be_value [of "take n bs" n] by simp
qed

lemma and_then_SomeD:
  "and_then d f bs = Some (Some (y, rest)) \<Longrightarrow>
    \<exists>x mid. d bs = Some (Some (x, mid)) \<and> f x mid = Some (Some (y, rest))"
  by (auto simp: and_then_def split: option.splits)

interpretation u8: canonical_format put_u8 get_u8 "\<lambda>_. True"
proof
  show "no_panic get_u8" unfolding get_u8_def by (intro total_intros)
qed (auto simp: put_u8_def get_u8_def guarded_split_to yield_def and_then_def neq_Nil_conv
    split: if_splits)

interpretation u16: canonical_format put_u16 get_u16 "\<lambda>_. True"
proof
  show "no_panic get_u16" unfolding get_u16_def by (intro total_intros)
  show "True \<and> bs = put_u16 x @ rest" if "get_u16 bs = Some (Some (x, rest))" for bs x rest
    using that be_canonical [of 2 bs _ rest x]
    by (auto simp: put_u16_def get_u16_def yield_def dest!: and_then_SomeD)
qed (simp add: put_u16_def get_u16_def be_format yield_def)

interpretation u64: canonical_format put_u64 get_u64 "\<lambda>_. True"
proof
  show "no_panic get_u64" unfolding get_u64_def by (intro total_intros)
  show "True \<and> bs = put_u64 x @ rest" if "get_u64 bs = Some (Some (x, rest))" for bs x rest
    using that be_canonical [of 8 bs _ rest x]
    by (auto simp: put_u64_def get_u64_def yield_def dest!: and_then_SomeD)
qed (simp add: put_u64_def get_u64_def be_format yield_def)

text \<open>The code checks the length before it reads a \<open>u128\<close>.\<close>

lemma guarded_and_then:
  "guarded n (and_then d f) bs = and_then (guarded n d) f bs"
  by (simp add: decoder_defs)

interpretation u128: canonical_format put_u128 "guarded 16 get_u128" "\<lambda>_. True"
proof
  have eq: "guarded 16 get_u128 = and_then (guarded 16 (read_be 16)) (\<lambda>n. yield (word_of_nat n))"
    by (rule ext) (simp add: get_u128_def guarded_and_then)
  show "no_panic (guarded 16 get_u128)" unfolding eq by (intro total_intros)
  show "True \<and> bs = put_u128 x @ rest" if "guarded 16 get_u128 bs = Some (Some (x, rest))"
    for bs x rest
    using that be_canonical [of 16 bs _ rest x] unfolding eq
    by (auto simp: put_u128_def yield_def dest!: and_then_SomeD)
  show "guarded 16 get_u128 (put_u128 x @ rest) = Some (Some (x, rest))" for x rest
    unfolding eq by (simp add: put_u128_def be_format yield_def)
qed

section \<open>A counted list of integers\<close>

fun read_u64s :: "nat \<Rightarrow> u64 list decoder" where
  "read_u64s 0 = yield []"
| "read_u64s (Suc n) = and_then (read_be 8) (\<lambda>x.
     and_then (read_u64s n) (\<lambda>xs. yield (word_of_nat x # xs)))"

lemma read_be_8: "8 \<le> length bs \<Longrightarrow> read_be 8 bs = guarded 8 (read_be 8) bs"
  by (simp add: decoder_defs)

lemma length_concat_put_u64 [simp]: "length (concat (map put_u64 xs)) = length xs * 8"
  by (induction xs) (simp_all add: put_u64_def)

lemma read_u64s_iff:
  "n * 8 \<le> length bs \<Longrightarrow> \<exists>xs. length xs = n \<and> bs = concat (map put_u64 xs) @ drop (n * 8) bs \<and>
     read_u64s n bs = Some (Some (xs, drop (n * 8) bs))"
proof (induction n arbitrary: bs)
  case (Suc n)
  define w :: u64 where "w = word_of_nat (be_value (take 8 bs))"
  have r: "read_be 8 bs = Some (Some (be_value (take 8 bs), drop 8 bs))"
    using Suc.prems by (simp add: decoder_defs)
  have "guarded 8 (read_be 8) bs = Some (Some (be_value (take 8 bs), drop 8 bs))"
    using Suc.prems by (simp add: guarded_read_be)
  then have w: "bs = put_u64 w @ drop 8 bs"
    unfolding put_u64_def by (rule be_canonical) (simp_all add: w_def)
  have "n * 8 \<le> length (drop 8 bs)" using Suc.prems by simp
  from Suc.IH [OF this] obtain xs where xs: "length xs = n"
      "drop 8 bs = concat (map put_u64 xs) @ drop (n * 8) (drop 8 bs)"
      "read_u64s n (drop 8 bs) = Some (Some (xs, drop (n * 8) (drop 8 bs)))"
    by (elim exE conjE) (rule that)
  have "drop (n * 8) (drop 8 bs) = drop (Suc n * 8) bs" by (simp add: add.commute)
  then show ?case using xs w
    by (intro exI [of _ "w # xs"]) (simp add: r yield_def w_def)
qed (simp add: yield_def)

lemma u64s_format:
  "guarded (n * 8) (read_u64s n) bs = Some (Some (xs, rest)) \<longleftrightarrow>
     length xs = n \<and> bs = concat (map put_u64 xs) @ rest"
proof
  assume l: "guarded (n * 8) (read_u64s n) bs = Some (Some (xs, rest))"
  then have "n * 8 \<le> length bs" by (auto simp: decoder_defs split: if_splits)
  from read_u64s_iff [OF this] l show "length xs = n \<and> bs = concat (map put_u64 xs) @ rest"
    by (auto simp: decoder_defs split: if_splits)
next
  assume r: "length xs = n \<and> bs = concat (map put_u64 xs) @ rest"
  then have len: "n * 8 \<le> length bs" by simp
  obtain ys where ys: "length ys = n" "bs = concat (map put_u64 ys) @ drop (n * 8) bs"
      "read_u64s n bs = Some (Some (ys, drop (n * 8) bs))"
    using read_u64s_iff [OF len] by blast
  have d: "drop (n * 8) bs = rest" using r by simp
  have "concat (map put_u64 xs) = concat (map put_u64 ys)" using r ys(2) d by simp
  moreover have "map put_u64 xs = map put_u64 ys" if "concat (map put_u64 xs) = concat (map put_u64 ys)"
    using that by (rule concat_injective) (use r ys(1) in \<open>auto simp: put_u64_def set_zip\<close>)
  moreover have "inj put_u64"
    by (rule injI) (use u64.fmt.unambiguous [where u = "[]" and v = "[]"] in simp)
  ultimately have "xs = ys" by (simp add: inj_map_eq_map)
  then show "guarded (n * 8) (read_u64s n) bs = Some (Some (xs, rest))"
    using ys(3) d len by (simp add: decoder_defs)
qed

lemma no_panic_u64s [total_intros]: "no_panic (guarded (n * 8) (read_u64s n))"
  unfolding no_panic_def
proof
  fix bs
  show "guarded (n * 8) (read_u64s n) bs \<noteq> None"
    using read_u64s_iff [of n bs] by (cases "n * 8 \<le> length bs") (auto simp: decoder_defs)
qed

end
