(* ===== verification/Link_Wire.thy ===== *)
theory Link_Wire
  imports Wire_Format
begin

text \<open>
  How things are laid out on the streams between two nodes (distr/src/link/wire.rs): frames of a
  32-bit length and that many bytes, the \<open>Hello\<close> that opens a connection, and the stream of a
  lane, a protocol byte and then frames, as \<open>read_stream\<close> (distr/src/link/mod.rs) reads it.

  A stream is the bytes that are still to come before it ends; reading is a function of them.
\<close>

section \<open>Frames\<close>

datatype io_error = InvalidData | UnexpectedEof

type_synonym ('e, 'a) reading = "'e + 'a \<times> bytes"

definition write_frame :: "bytes \<Rightarrow> bytes" where
  "write_frame payload = be_bytes 4 (unat (word_of_nat (length payload) :: u32)) @ payload"

definition read_exact :: "nat \<Rightarrow> bytes \<Rightarrow> (io_error, bytes) reading" where
  "read_exact n s = (if length s < n then Inl UnexpectedEof else Inr (take n s, drop n s))"

text \<open>\<open>None\<close> is a stream that ended cleanly between two frames.\<close>

definition read_frame :: "nat \<Rightarrow> bytes \<Rightarrow> (io_error, bytes option) reading" where
  "read_frame limit s = (case s of
       [] \<Rightarrow> Inr (None, [])
     | first # s \<Rightarrow> (case read_exact 3 s of
           Inl e \<Rightarrow> Inl e
         | Inr (others, s) \<Rightarrow>
             (let len = be_value (first # others) in
              if limit < len then Inl InvalidData
              else case read_exact len s of
                  Inl e \<Rightarrow> Inl e
                | Inr (payload, s) \<Rightarrow> Inr (Some payload, s))))"

definition write_hello :: "u64 \<Rightarrow> bytes" where
  "write_hello generation = write_frame (put_u64 generation)"

definition max_hello_size :: nat where
  "max_hello_size = 1024"

definition read_hello :: "bytes \<Rightarrow> (io_error, u64) reading" where
  "read_hello s = (case read_frame max_hello_size s of
       Inl e \<Rightarrow> Inl e
     | Inr (None, s) \<Rightarrow> Inl InvalidData
     | Inr (Some frame, s) \<Rightarrow>
         if length frame = 8 then Inr (word_of_nat (be_value frame), s) else Inl InvalidData)"

lemma read_frame_shorter:
  "read_frame limit s = Inr (Some payload, rest) \<Longrightarrow> length rest < length s"
  by (auto simp: read_frame_def read_exact_def Let_def split: list.splits if_splits)

lemma be_value_4: "length ls = 4 \<Longrightarrow> be_value ls < 4294967296"
  using be_value_bound [of ls] by simp

lemma read_write_frame:
  assumes "length payload \<le> limit" "length payload < 4294967296"
  shows "read_frame limit (write_frame payload @ rest) = Inr (Some payload, rest)"
proof -
  define ls where "ls = be_bytes 4 (unat (word_of_nat (length payload) :: u32))"
  have v: "be_value ls = length payload" using assms(2) by (simp add: ls_def unat_of_nat)
  have "length ls = 4" by (simp add: ls_def)
  then obtain a b c d where ls: "ls = [a, b, c, d]"
    by (auto simp: length_Suc_conv eval_nat_numeral)
  then have "read_frame limit (ls @ payload @ rest) = Inr (Some payload, rest)"
    using v assms(1) by (simp add: read_frame_def read_exact_def eval_nat_numeral)
  then show ?thesis by (simp add: write_frame_def ls_def)
qed

text \<open>What a frame was read from.\<close>

lemma read_frame_written:
  assumes "read_frame limit s = Inr (Some payload, rest)"
  shows "s = write_frame payload @ rest \<and> length payload \<le> limit"
proof -
  define others t where "others = take 3 (tl s)" and "t = drop 3 (tl s)"
  obtain first where s: "s = first # others @ t" "length others = 3"
      "length payload = be_value (first # others)" "t = payload @ rest"
      "be_value (first # others) \<le> limit"
    using assms unfolding others_def t_def
    by (auto simp: read_frame_def read_exact_def Let_def simp del: drop_drop
        split: list.splits if_splits)
  have len: "length (first # others) = 4" using s(2) by simp
  have "unat (word_of_nat (length payload) :: u32) = length payload"
    using be_value_4 [OF len] s(3) by (simp add: unat_of_nat)
  then have "write_frame payload = (first # others) @ payload"
    using be_bytes_be_value [OF len] s(3) by (simp add: write_frame_def)
  then show ?thesis using s by simp
qed

section \<open>The stream of a lane\<close>

text \<open>
  The frames that \<open>read_stream\<close> delivers, in order, and how it ends: \<open>None\<close> at a clean end,
  else the error.
\<close>

function read_frames :: "nat \<Rightarrow> bytes \<Rightarrow> bytes list \<times> io_error option" where
  "read_frames limit s = (case read_frame limit s of
       Inl e \<Rightarrow> ([], Some e)
     | Inr (None, _) \<Rightarrow> ([], None)
     | Inr (Some payload, s) \<Rightarrow>
         (payload # fst (read_frames limit s), snd (read_frames limit s)))"
  by pat_completeness auto

termination read_frames
  by (relation "measure (length \<circ> snd)") (auto dest: read_frame_shorter)

declare read_frames.simps [simp del]

definition max_message_size :: nat where
  "max_message_size = 4 * 1024 * 1024"

definition read_stream :: "bytes \<Rightarrow> (byte \<times> bytes) list \<times> io_error option" where
  "read_stream s = (case s of
       [] \<Rightarrow> ([], None)
     | protocol # s \<Rightarrow>
         (map (Pair protocol) (fst (read_frames max_message_size s)),
          snd (read_frames max_message_size s)))"

text \<open>What a lane writes on its stream: the protocol, then each message that is not over the limit.\<close>

definition write_stream :: "byte \<Rightarrow> bytes list \<Rightarrow> bytes" where
  "write_stream protocol payloads = protocol # concat (map write_frame payloads)"

lemma read_frames_step:
  assumes "length payload \<le> limit" "length payload < 4294967296"
  shows "read_frames limit (write_frame payload @ s) =
    (payload # fst (read_frames limit s), snd (read_frames limit s))"
  by (subst read_frames.simps) (simp add: read_write_frame [OF assms])

lemma read_frames_written:
  assumes "\<forall>payload \<in> set payloads. length payload \<le> limit \<and> length payload < 4294967296"
  shows "read_frames limit (concat (map write_frame payloads) @ s) =
    (payloads @ fst (read_frames limit s), snd (read_frames limit s))"
  using assms by (induction payloads) (simp_all add: read_frames_step)

lemma read_frames_Nil: "read_frames limit [] = ([], None)"
  by (subst read_frames.simps) (simp add: read_frame_def)

text \<open>A frame that is not whole gives nothing: the stream ends, or ends with an error.\<close>

lemma read_frames_cut:
  assumes "length payload \<le> limit" "length payload < 4294967296"
    and "n < length (write_frame payload)"
  shows "fst (read_frames limit (take n (write_frame payload))) = []"
proof -
  have "read_frame limit (take n (write_frame payload)) \<noteq> Inr (Some p, rest)" for p rest
  proof
    assume "read_frame limit (take n (write_frame payload)) = Inr (Some p, rest)"
    from read_frame_written [OF this]
    have p: "take n (write_frame payload) = write_frame p @ rest" "length p \<le> limit" by simp_all
    have small: "length p < 4294967296"
      using p(1) assms(2,3) by (metis (no_types) append_take_drop_id le_add1 length_append
          length_be_bytes less_le_trans linorder_not_less nat_add_left_cancel_less write_frame_def
          le_trans order.strict_trans1)
    have "write_frame payload @ [] = write_frame p @ (rest @ drop n (write_frame payload))"
      using p(1) by (metis append.assoc append_Nil2 append_take_drop_id)
    then have "read_frame limit (write_frame payload @ []) =
        read_frame limit (write_frame p @ (rest @ drop n (write_frame payload)))" by (rule arg_cong)
    then have "[] = rest @ drop n (write_frame payload)"
      by (simp only: read_write_frame [OF assms(1,2)] read_write_frame [OF p(2) small]
          sum.inject prod.inject)
    then have "drop n (write_frame payload) = []" by blast
    then show False using assms(3) by simp
  qed
  then show ?thesis
    by (subst read_frames.simps) (auto split: sum.splits option.splits prod.splits)
qed

section \<open>Properties\<close>

text \<open>C12: a lane's stream carries its messages: of a stream that was cut anywhere, the receiver
  delivers, in order and for the stream's protocol, exactly the messages whose frames arrived whole;
  an uncut one ends cleanly. No message may be over the size limit, which the lane makes sure of.\<close>

theorem lane_stream_delivers_whole_frames:
  assumes "\<forall>payload \<in> set (earlier @ torn # later). length payload \<le> max_message_size"
    and "n < length (write_frame torn)"
  shows "read_stream (write_stream protocol (earlier @ torn # later)) =
      (map (Pair protocol) (earlier @ torn # later), None) \<and>
    fst (read_stream (take (length (write_stream protocol earlier) + n)
      (write_stream protocol (earlier @ torn # later)))) = map (Pair protocol) earlier"
proof
  have small: "\<forall>payload \<in> set (earlier @ torn # later).
      length payload \<le> max_message_size \<and> length payload < 4294967296"
    using assms(1) by (force simp: max_message_size_def)
  then show "read_stream (write_stream protocol (earlier @ torn # later)) =
      (map (Pair protocol) (earlier @ torn # later), None)"
    using read_frames_written [of "earlier @ torn # later" max_message_size "[]"]
    by (simp add: read_stream_def write_stream_def read_frames_Nil del: map_append concat_append)
  have "take (length (write_stream protocol earlier) + n)
      (write_stream protocol (earlier @ torn # later)) =
      protocol # (concat (map write_frame earlier) @ take n (write_frame torn))"
    using assms(2) by (simp add: write_stream_def)
  then show "fst (read_stream (take (length (write_stream protocol earlier) + n)
      (write_stream protocol (earlier @ torn # later)))) = map (Pair protocol) earlier"
    using read_frames_written [of earlier max_message_size "take n (write_frame torn)"] small
      read_frames_cut [of torn max_message_size n] assms(2)
    by (simp add: read_stream_def)
qed

theorem lane_stream_delivers_whole_frames_witness:
  "read_stream (write_stream 1 [[1, 2], [], [3]]) = ([(1, [1, 2]), (1, []), (1, [3])], None) \<and>
   fst (read_stream (take 15 (write_stream 1 [[1, 2], [], [3]]))) = [(1, [1, 2]), (1, [])]"
  using lane_stream_delivers_whole_frames [of "[[1, 2], []]" "[3]" "[]" 4 1]
  by (simp add: max_message_size_def write_frame_def write_stream_def)

text \<open>A node reads the generation of a peer's \<open>Hello\<close> and leaves what follows it on the
  stream; any other frame in its place is refused, as is a stream that ends before it.\<close>

theorem hello_round_trips:
  "read_hello (write_hello generation @ rest) = Inr (generation, rest) \<and>
   (read_hello s = Inr (generation, rest) \<longrightarrow> s = write_hello generation @ rest)"
proof
  have "read_frame max_hello_size (write_hello generation @ rest) = Inr (Some (put_u64 generation), rest)"
    unfolding write_hello_def by (rule read_write_frame) (simp_all add: max_hello_size_def put_u64_def)
  moreover have "unat generation < 18446744073709551616"
    using unsigned_less [of generation, where ?'a = nat] by simp
  ultimately show "read_hello (write_hello generation @ rest) = Inr (generation, rest)"
    by (simp add: read_hello_def put_u64_def)
next
  show "read_hello s = Inr (generation, rest) \<longrightarrow> s = write_hello generation @ rest"
  proof
    assume "read_hello s = Inr (generation, rest)"
    then obtain frame where f: "read_frame max_hello_size s = Inr (Some frame, rest)"
        "length frame = 8" "generation = word_of_nat (be_value frame)"
      by (auto simp: read_hello_def split: sum.splits option.splits if_splits)
    have "unat generation = be_value frame"
      using be_value_bound [of frame] f by (simp add: unat_of_nat)
    then have "put_u64 generation = frame"
      using be_bytes_be_value [OF f(2)] by (simp add: put_u64_def)
    then show "s = write_hello generation @ rest"
      using read_frame_written [OF f(1)] by (simp add: write_hello_def)
  qed
qed

theorem hello_round_trips_witness:
  "[0, 0, 0, 8, 0, 0, 0, 0, 0, 0, 0, 42, 9] = write_hello 42 @ [9]"
proof -
  have "read_hello [0, 0, 0, 8, 0, 0, 0, 0, 0, 0, 0, 42, 9] = Inr (42, [9])" by code_simp
  with hello_round_trips [of 42 "[9]"] show ?thesis by blast
qed

end
