(* ===== verification/Cluster_State.thy ===== *)
theory Cluster_State
  imports Zestors_Prelude
begin

text \<open>
  What a node knows about its cluster (distr/src/cluster/state.rs, event.rs, member.rs): itself,
  the members that are up, which of them cannot be connected to, its own status, and the events that
  every change publishes. And the choice of a node's generation (generation.rs).

  A \<open>HashMap\<close> keyed by node name is an association list whose order means nothing. All
  mutators hold the lock from their first read to the publication, so each is one step; the record
  keeps all events published so far, and a subscription is the suffix after the moment it was made.
\<close>

section \<open>Members, events and the state\<close>

record member =
  member_name :: name
  member_addr :: string
  member_generation :: u64

datatype cluster_event =
    Up member | Left member | Failed member | Unreachable member | Reachable member

fun event_member :: "cluster_event \<Rightarrow> member" where
  "event_member (Up m) = m"
| "event_member (Left m) = m"
| "event_member (Failed m) = m"
| "event_member (Unreachable m) = m"
| "event_member (Reachable m) = m"

datatype node_status = NodeStarting | NodeUp | NodeLeaving | NodeDefunct

record cluster =
  cluster_local_name :: name
  cluster_local :: member
  cluster_members :: "(name \<times> member) list"
  cluster_unreachable :: "name set"
  cluster_status :: node_status
  cluster_events :: "cluster_event list"

definition cluster_new :: "member \<Rightarrow> cluster" where
  "cluster_new local = \<lparr>cluster_local_name = member_name local, cluster_local = local,
     cluster_members = [], cluster_unreachable = {}, cluster_status = NodeStarting,
     cluster_events = []\<rparr>"

section \<open>Reading\<close>

definition members :: "cluster \<Rightarrow> member list" where
  "members c = map snd (cluster_members c)"

definition member :: "name \<Rightarrow> cluster \<Rightarrow> member option" where
  "member node c = map_of (cluster_members c) node"

definition is_reachable :: "name \<Rightarrow> cluster \<Rightarrow> bool" where
  "is_reachable node c \<longleftrightarrow>
     node \<in> fst ` set (cluster_members c) \<and> node \<notin> cluster_unreachable c"

definition contains_member :: "member \<Rightarrow> cluster \<Rightarrow> bool" where
  "contains_member m c \<longleftrightarrow> map_of (cluster_members c) (member_name m) = Some m"

record cluster_snapshot =
  snapshot_members :: "member list"
  snapshot_unreachable :: "name set"

text \<open>The snapshot, and the number of events that the subscription does not deliver.\<close>

definition subscribe_with_snapshot :: "cluster \<Rightarrow> cluster_snapshot \<times> nat" where
  "subscribe_with_snapshot c =
     (\<lparr>snapshot_members = map snd (cluster_members c),
       snapshot_unreachable = cluster_unreachable c\<rparr>, length (cluster_events c))"

definition snapshot_is_reachable :: "cluster_snapshot \<Rightarrow> name \<Rightarrow> bool" where
  "snapshot_is_reachable s node \<longleftrightarrow>
     node \<notin> snapshot_unreachable s \<and> list_ex (\<lambda>m. member_name m = node) (snapshot_members s)"

text \<open>
  \<open>wait_until\<close> looks at the members of its snapshot, then at those current after each event it is
  woken by: the list holds the members that it finds.
\<close>

fun wait_until :: "(member list \<Rightarrow> bool) \<Rightarrow> member list list \<Rightarrow> member list poll" where
  "wait_until condition [] = Pending"
| "wait_until condition (ms # later) =
     (if condition ms then Ready ms else wait_until condition later)"

definition wait_for_members :: "nat \<Rightarrow> member list list \<Rightarrow> member list poll" where
  "wait_for_members count = wait_until (\<lambda>ms. length ms = count)"

section \<open>The mutators\<close>

text \<open>\<open>None\<close> is the debug assertion that a node is not renamed.\<close>

definition set_local :: "member \<Rightarrow> cluster \<Rightarrow> cluster option" where
  "set_local local c =
     (if member_name local = cluster_local_name c then Some (c\<lparr>cluster_local := local\<rparr>) else None)"

fun status_allowed :: "node_status \<Rightarrow> node_status \<Rightarrow> bool" where
  "status_allowed NodeDefunct next = False"
| "status_allowed NodeLeaving next = (next \<noteq> NodeUp)"
| "status_allowed current next = True"

definition set_status :: "node_status \<Rightarrow> cluster \<Rightarrow> bool \<times> cluster" where
  "set_status status c =
     (let changed = status_allowed (cluster_status c) status \<and> cluster_status c \<noteq> status in
      (changed, if changed then c\<lparr>cluster_status := status\<rparr> else c))"

definition publish :: "cluster_event \<Rightarrow> cluster \<Rightarrow> cluster" where
  "publish e c = c\<lparr>cluster_events := cluster_events c @ [e]\<rparr>"

definition insert_member :: "member \<Rightarrow> cluster \<Rightarrow> cluster" where
  "insert_member m c = c\<lparr>cluster_members := imap_insert (member_name m) m (cluster_members c)\<rparr>"

definition remove_member :: "name \<Rightarrow> cluster \<Rightarrow> cluster" where
  "remove_member node c = c\<lparr>cluster_members := snd (imap_shift_remove node (cluster_members c))\<rparr>"

definition clear_unreachable :: "name \<Rightarrow> cluster \<Rightarrow> cluster" where
  "clear_unreachable node c = c\<lparr>cluster_unreachable := cluster_unreachable c - {node}\<rparr>"

definition member_up :: "member \<Rightarrow> cluster \<Rightarrow> cluster" where
  "member_up m c =
     (let previous = member (member_name m) c; c = insert_member m c in
      if previous \<noteq> Some m then publish (Up m) (clear_unreachable (member_name m) c) else c)"

definition member_unreachable :: "name \<Rightarrow> cluster \<Rightarrow> member option \<times> cluster" where
  "member_unreachable node c = (case member node c of
       None \<Rightarrow> (None, c)
     | Some m \<Rightarrow>
         if node \<in> cluster_unreachable c then (None, c)
         else (Some m, publish (Unreachable m)
           (c\<lparr>cluster_unreachable := insert node (cluster_unreachable c)\<rparr>)))"

definition member_reachable :: "name \<Rightarrow> cluster \<Rightarrow> member option \<times> cluster" where
  "member_reachable node c = (case member node c of
       None \<Rightarrow> (None, c)
     | Some m \<Rightarrow>
         if node \<in> cluster_unreachable c
         then (Some m, publish (Reachable m) (clear_unreachable node c))
         else (None, c))"

definition member_left :: "name \<Rightarrow> u64 \<Rightarrow> cluster \<Rightarrow> member option \<times> cluster" where
  "member_left node generation c = (case member node c of
       None \<Rightarrow> (None, c)
     | Some m \<Rightarrow>
         if member_generation m \<noteq> generation then (None, c)
         else (Some m, publish (Left m) (clear_unreachable node (remove_member node c))))"

definition member_failed :: "member \<Rightarrow> cluster \<Rightarrow> cluster" where
  "member_failed m c =
     (if contains_member m c
      then publish (Failed m) (clear_unreachable (member_name m) (remove_member (member_name m) c))
      else c)"

definition member_renamed :: "member \<Rightarrow> member \<Rightarrow> cluster \<Rightarrow> cluster" where
  "member_renamed before after c =
     (if contains_member before c
      then publish (Up after) (publish (Failed before)
        (clear_unreachable (member_name after) (insert_member after c)))
      else c)"

lemmas cluster_defs = member_up_def member_unreachable_def member_reachable_def member_left_def
  member_failed_def member_renamed_def publish_def insert_member_def remove_member_def
  clear_unreachable_def contains_member_def member_def Let_def

section \<open>Steps of the membership view\<close>

datatype cluster_op =
    MemberUp member | MemberUnreachable name | MemberReachable name | MemberLeft name u64
  | MemberFailed member | MemberRenamed member member | SetLocal member | SetStatus node_status

fun cluster_step :: "cluster_op \<Rightarrow> cluster \<Rightarrow> cluster option" where
  "cluster_step (MemberUp m) c = Some (member_up m c)"
| "cluster_step (MemberUnreachable node) c = Some (snd (member_unreachable node c))"
| "cluster_step (MemberReachable node) c = Some (snd (member_reachable node c))"
| "cluster_step (MemberLeft node generation) c = Some (snd (member_left node generation c))"
| "cluster_step (MemberFailed m) c = Some (member_failed m c)"
| "cluster_step (MemberRenamed before after) c = Some (member_renamed before after c)"
| "cluster_step (SetLocal local) c = set_local local c"
| "cluster_step (SetStatus status) c = Some (snd (set_status status c))"

fun cluster_run :: "cluster_op list \<Rightarrow> cluster \<Rightarrow> cluster option" where
  "cluster_run [] c = Some c"
| "cluster_run (p # ps) c = (case cluster_step p c of None \<Rightarrow> None | Some c \<Rightarrow> cluster_run ps c)"

text \<open>A restarted node keeps its name: the membership protocol tells nodes apart by it.\<close>

fun keeps_names :: "cluster_op \<Rightarrow> bool" where
  "keeps_names (MemberRenamed before after) \<longleftrightarrow> member_name after = member_name before"
| "keeps_names _ \<longleftrightarrow> True"

definition cluster_wf :: "cluster \<Rightarrow> bool" where
  "cluster_wf c \<longleftrightarrow> distinct (map fst (cluster_members c)) \<and>
     (\<forall>(node, m) \<in> set (cluster_members c). member_name m = node) \<and>
     cluster_unreachable c \<subseteq> fst ` set (cluster_members c) \<and>
     member_name (cluster_local c) = cluster_local_name c"

text \<open>What a subscriber builds from a snapshot and the events after it.\<close>

type_synonym view = "(name \<rightharpoonup> member) \<times> name set"

fun replay :: "view \<Rightarrow> cluster_event \<Rightarrow> view" where
  "replay (ms, un) (Up m) = (ms(member_name m \<mapsto> m), un - {member_name m})"
| "replay (ms, un) (Left m) = (ms(member_name m := None), un - {member_name m})"
| "replay (ms, un) (Failed m) = (ms(member_name m := None), un - {member_name m})"
| "replay (ms, un) (Unreachable m) = (ms, insert (member_name m) un)"
| "replay (ms, un) (Reachable m) = (ms, un - {member_name m})"

text \<open>An event that is true of the view it changes, and news to it.\<close>

fun legal_event :: "view \<Rightarrow> cluster_event \<Rightarrow> bool" where
  "legal_event (ms, un) (Up m) \<longleftrightarrow> ms (member_name m) \<noteq> Some m"
| "legal_event (ms, un) (Left m) \<longleftrightarrow> ms (member_name m) = Some m"
| "legal_event (ms, un) (Failed m) \<longleftrightarrow> ms (member_name m) = Some m"
| "legal_event (ms, un) (Unreachable m) \<longleftrightarrow> ms (member_name m) = Some m \<and> member_name m \<notin> un"
| "legal_event (ms, un) (Reachable m) \<longleftrightarrow> ms (member_name m) = Some m \<and> member_name m \<in> un"

fun legal_events :: "view \<Rightarrow> cluster_event list \<Rightarrow> bool" where
  "legal_events v [] \<longleftrightarrow> True"
| "legal_events v (e # es) \<longleftrightarrow> legal_event v e \<and> legal_events (replay v e) es"

lemma legal_events_append:
  "legal_events v (as @ bs) \<longleftrightarrow> legal_events v as \<and> legal_events (foldl replay v as) bs"
  by (induction as arbitrary: v) auto

definition snapshot_view :: "cluster_snapshot \<Rightarrow> view" where
  "snapshot_view s =
     (map_of (map (\<lambda>m. (member_name m, m)) (snapshot_members s)), snapshot_unreachable s)"

lemma map_of_shift_remove [simp]: "map_of (snd (imap_shift_remove k m)) = (map_of m)(k := None)"
  by (rule ext) (simp add: imap_shift_remove_def map_of_filter_key)

lemma keys_shift_remove [simp]: "fst ` set (snd (imap_shift_remove k m)) = fst ` set m - {k}"
  by (auto simp: imap_shift_remove_def)

lemma cluster_wf_name: "cluster_wf c \<Longrightarrow> member node c = Some m \<Longrightarrow> member_name m = node"
  by (auto simp: cluster_wf_def member_def dest: map_of_SomeD)

lemma set_imap_insert_sub: "set (imap_insert k v m) \<subseteq> insert (k, v) (set m)"
  by (induction m) (auto split: if_splits)

lemma set_shift_remove_sub: "set (snd (imap_shift_remove k m)) \<subseteq> set m"
  by (auto simp: imap_shift_remove_def)

definition view_of :: "cluster \<Rightarrow> view" where
  "view_of c = (map_of (cluster_members c), cluster_unreachable c)"

lemma snapshot_view_of:
  assumes "cluster_wf c" shows "snapshot_view (fst (subscribe_with_snapshot c)) = view_of c"
proof -
  have "map (\<lambda>m. (member_name m, m)) (map snd (cluster_members c)) = cluster_members c"
    using assms by (auto simp: cluster_wf_def intro!: map_idI)
  then show ?thesis by (simp add: snapshot_view_def subscribe_with_snapshot_def view_of_def)
qed

text \<open>A change publishes the events that a subscriber needs to follow it.\<close>

definition follows :: "cluster \<Rightarrow> cluster \<Rightarrow> bool" where
  "follows c c' \<longleftrightarrow> cluster_wf c' \<and> cluster_local_name c' = cluster_local_name c \<and>
     (\<exists>new. cluster_events c' = cluster_events c @ new \<and>
       legal_events (view_of c) new \<and> foldl replay (view_of c) new = view_of c')"

lemma follows_refl: "cluster_wf c \<Longrightarrow> follows c c"
  by (simp add: follows_def)

lemma follows_trans: "follows a b \<Longrightarrow> follows b c \<Longrightarrow> follows a c"
  by (auto simp: follows_def legal_events_append)

lemma cluster_wf_insert:
  assumes "cluster_wf c" "n = member_name m"
  shows "cluster_wf (c\<lparr>cluster_members := imap_insert n m (cluster_members c),
    cluster_unreachable := cluster_unreachable c - {n}, cluster_events := es\<rparr>)"
proof -
  have "\<forall>(node, x) \<in> insert (n, m) (set (cluster_members c)). member_name x = node"
    using assms by (auto simp: cluster_wf_def)
  then have "\<forall>(node, x) \<in> set (imap_insert n m (cluster_members c)). member_name x = node"
    using set_imap_insert_sub [of n m "cluster_members c"] by blast
  then show ?thesis using assms(1) by (auto simp: cluster_wf_def)
qed

lemma cluster_wf_delete:
  assumes "cluster_wf c"
  shows "cluster_wf (c\<lparr>cluster_members := snd (imap_shift_remove n (cluster_members c)),
    cluster_unreachable := cluster_unreachable c - {n}, cluster_events := es\<rparr>)"
proof -
  have "\<forall>(node, x) \<in> set (snd (imap_shift_remove n (cluster_members c))). member_name x = node"
    using assms set_shift_remove_sub [of n "cluster_members c"] unfolding cluster_wf_def by blast
  then show ?thesis using assms by (auto simp: cluster_wf_def)
qed

lemma map_of_key: "map_of m k = Some v \<Longrightarrow> k \<in> fst ` set m"
  by (metis domI dom_map_of_conv_image_fst)

lemma imap_insert_same: "distinct (map fst m) \<Longrightarrow> map_of m k = Some v \<Longrightarrow> imap_insert k v m = m"
  by (induction m) (auto split: if_splits)

lemma followsI:
  "cluster_wf c' \<Longrightarrow> cluster_local_name c' = cluster_local_name c \<Longrightarrow>
    cluster_events c' = cluster_events c @ new \<Longrightarrow> legal_events (view_of c) new \<Longrightarrow> foldl replay (view_of c) new = view_of c' \<Longrightarrow>
    follows c c'"
  by (auto simp: follows_def)

lemma follows_insert:
  assumes "cluster_wf c" "n = member_name m" "legal_events (view_of c) new"
    "foldl replay (view_of c) new = ((map_of (cluster_members c))(n \<mapsto> m), cluster_unreachable c - {n})"
  shows "follows c (c\<lparr>cluster_members := imap_insert n m (cluster_members c),
    cluster_unreachable := cluster_unreachable c - {n}, cluster_events := cluster_events c @ new\<rparr>)"
  by (rule followsI [of _ _ new])
    (use assms in \<open>simp_all add: view_of_def cluster_wf_insert [OF assms(1) refl]\<close>)

lemma follows_delete:
  assumes "cluster_wf c" "legal_events (view_of c) new"
    "foldl replay (view_of c) new = ((map_of (cluster_members c))(n := None), cluster_unreachable c - {n})"
  shows "follows c (c\<lparr>cluster_members := snd (imap_shift_remove n (cluster_members c)),
    cluster_unreachable := cluster_unreachable c - {n}, cluster_events := cluster_events c @ new\<rparr>)"
  by (rule followsI [of _ _ new])
    (use assms in \<open>simp_all add: view_of_def cluster_wf_delete [OF assms(1)]\<close>)

lemma follows_mark:
  assumes "cluster_wf c" "un \<subseteq> fst ` set (cluster_members c)" "legal_events (view_of c) new"
    "foldl replay (view_of c) new = (map_of (cluster_members c), un)"
  shows "follows c (c\<lparr>cluster_unreachable := un, cluster_events := cluster_events c @ new\<rparr>)"
  by (rule followsI [of _ _ new]) (use assms in \<open>simp_all add: view_of_def cluster_wf_def\<close>)

lemma member_up_follows: "cluster_wf c \<Longrightarrow> follows c (member_up m c)"
proof (cases "member (member_name m) c = Some m")
  case True
  moreover assume wf: "cluster_wf c"
  ultimately have "member_up m c = c"
    by (simp add: member_up_def insert_member_def member_def imap_insert_same cluster_wf_def)
  then show ?thesis using wf by (simp add: follows_refl)
next
  case False
  assume "cluster_wf c"
  from follows_insert [OF this refl, of "[Up m]" m] show ?thesis using False
    by (simp add: view_of_def cluster_defs)
qed

lemma member_unreachable_follows:
  assumes "cluster_wf c" shows "follows c (snd (member_unreachable node c))"
proof (cases "member node c")
  case (Some m)
  then have "insert node (cluster_unreachable c) \<subseteq> fst ` set (cluster_members c)"
    using assms map_of_key [of "cluster_members c" node] by (simp add: member_def cluster_wf_def)
  from follows_mark [OF assms this, of "[Unreachable m]"] show ?thesis
    using cluster_wf_name [OF assms Some] Some assms
    by (simp add: view_of_def follows_refl member_unreachable_def publish_def member_def)
qed (simp add: member_unreachable_def follows_refl assms)

lemma member_reachable_follows:
  assumes "cluster_wf c" shows "follows c (snd (member_reachable node c))"
proof (cases "member node c")
  case (Some m)
  have "cluster_unreachable c - {node} \<subseteq> fst ` set (cluster_members c)"
    using assms by (auto simp: cluster_wf_def)
  from follows_mark [OF assms this, of "[Reachable m]"] show ?thesis
    using cluster_wf_name [OF assms Some] Some assms
    by (simp add: view_of_def follows_refl member_reachable_def publish_def clear_unreachable_def
        member_def)
qed (simp add: member_reachable_def follows_refl assms)

lemma member_left_follows:
  assumes "cluster_wf c" shows "follows c (snd (member_left node generation c))"
proof (cases "member node c")
  case (Some m)
  from follows_delete [OF assms, of "[Left m]" node] show ?thesis
    using cluster_wf_name [OF assms Some] Some assms
    by (simp add: view_of_def follows_refl member_left_def publish_def clear_unreachable_def
        remove_member_def member_def contains_member_def)
qed (simp add: member_left_def follows_refl assms)

lemma member_failed_follows:
  assumes "cluster_wf c" shows "follows c (member_failed m c)"
  using follows_delete [OF assms, of "[Failed m]" "member_name m"] assms
  by (simp add: view_of_def follows_refl member_failed_def publish_def clear_unreachable_def
      remove_member_def member_def contains_member_def)

lemma member_renamed_follows:
  assumes "cluster_wf c" "member_name after = member_name before"
  shows "follows c (member_renamed before after c)"
  using follows_insert [OF assms(1) refl, of "[Failed before, Up after]" after] assms
  by (simp add: view_of_def follows_refl member_renamed_def publish_def clear_unreachable_def
      insert_member_def contains_member_def)

lemma set_local_follows:
  assumes "cluster_wf c" "set_local m c = Some c'" shows "follows c c'"
  by (rule followsI [of _ _ "[]"])
    (use assms in \<open>auto simp: set_local_def view_of_def cluster_wf_def split: if_splits\<close>)

lemma set_status_follows:
  assumes "cluster_wf c" shows "follows c (snd (set_status status c))"
  by (rule followsI [of _ _ "[]"])
    (use assms in \<open>auto simp: set_status_def view_of_def cluster_wf_def Let_def\<close>)

lemma cluster_step_follows:
  assumes "cluster_wf c" "keeps_names op" "cluster_step op c = Some c'"
  shows "follows c c'"
  using assms(3,2)
  by (cases op) (auto simp: member_up_follows member_unreachable_follows member_reachable_follows
      member_left_follows member_failed_follows member_renamed_follows set_status_follows assms(1)
      intro: set_local_follows)

lemma cluster_run_follows:
  "cluster_wf c \<Longrightarrow> list_all keeps_names ops \<Longrightarrow> cluster_run ops c = Some c' \<Longrightarrow> follows c c'"
proof (induction ops arbitrary: c)
  case (Cons op ops)
  then obtain d where d: "cluster_step op c = Some d" "cluster_run ops d = Some c'"
    by (auto split: option.splits)
  then have "follows c d" using Cons.prems by (auto intro: cluster_step_follows)
  moreover from this have "follows d c'" using Cons d by (auto simp: follows_def)
  ultimately show ?case by (rule follows_trans)
qed (simp add: follows_refl)

section \<open>Generations\<close>

definition saturating_add_one :: "u64 \<Rightarrow> u64" where
  "saturating_add_one floor = (if floor = -1 then floor else floor + 1)"

definition pick :: "u64 \<Rightarrow> u64 \<Rightarrow> u64" where
  "pick now floor = max now (saturating_add_one floor)"

text \<open>
  What a store file holds. The loop of \<open>next\<close> reads the clock and tries to exchange the last
  generation of the process, which another task may have changed: \<open>attempts\<close> are the clock and
  the last generation found at each exchange, and \<open>None\<close> means there has to be another one. On
  success the result is the generation and the new last one.
\<close>

datatype stored = NoFile | GarbledFile | FileError | Holds u64

definition read_store :: "stored \<Rightarrow> unit + u64" where
  "read_store s = (case s of
       NoFile \<Rightarrow> Inr 0 | GarbledFile \<Rightarrow> Inl () | FileError \<Rightarrow> Inl () | Holds g \<Rightarrow> Inr g)"

fun claim_generation :: "u64 \<Rightarrow> u64 \<Rightarrow> (u64 \<times> u64) list \<Rightarrow> u64 option" where
  "claim_generation stored latest [] = None"
| "claim_generation stored latest ((now, current) # attempts) =
     (if current = latest then Some (pick now (max latest stored))
      else claim_generation stored current attempts)"

definition next_generation ::
  "stored option \<Rightarrow> u64 \<Rightarrow> (u64 \<times> u64) list \<Rightarrow> (unit + u64) option" where
  "next_generation store latest attempts =
     (case (case store of Some s \<Rightarrow> read_store s | None \<Rightarrow> Inr 0) of
        Inl e \<Rightarrow> Some (Inl e)
      | Inr stored \<Rightarrow> map_option Inr (claim_generation stored latest attempts))"

lemma pick_grows: "floor \<noteq> -1 \<Longrightarrow> floor < pick now floor"
proof -
  assume "floor \<noteq> -1"
  then have "floor < floor + 1" using unatSuc [of floor] by (simp add: word_less_nat_alt add.commute add_eq_0_iff)
  then show ?thesis using \<open>floor \<noteq> -1\<close>
    by (simp add: pick_def saturating_add_one_def less_max_iff_disj)
qed

text \<open>The last generation that the successful exchange found.\<close>

fun exchanged :: "u64 \<Rightarrow> (u64 \<times> u64) list \<Rightarrow> u64" where
  "exchanged latest [] = latest"
| "exchanged latest ((now, current) # attempts) =
     (if current = latest then latest else exchanged current attempts)"

lemma claim_generation_grows:
  assumes "claim_generation stored latest attempts = Some g" "exchanged latest attempts \<noteq> -1"
    "stored \<noteq> -1"
  shows "stored < g \<and> exchanged latest attempts < g"
  using assms
proof (induction stored latest attempts rule: claim_generation.induct)
  case (2 stored latest now current attempts)
  show ?case
  proof (cases "current = latest")
    case True
    then have "max latest stored \<noteq> -1" using 2 by (auto simp: max_def)
    from pick_grows [OF this, of now] show ?thesis using 2 True by auto
  qed (use 2 in auto)
qed simp

lemma claim_generation_saturated:
  "claim_generation stored latest attempts = Some g \<Longrightarrow> stored = -1 \<Longrightarrow> g = -1"
proof (induction stored latest attempts rule: claim_generation.induct)
  case (2 stored latest now current attempts)
  then show ?case by (auto simp: pick_def saturating_add_one_def max_def split: if_splits)
qed simp

section \<open>Properties\<close>


definition example_member :: "name \<Rightarrow> u64 \<Rightarrow> member" where
  "example_member n g = \<lparr>member_name = n, member_addr = n, member_generation = g\<rparr>"


text \<open>An event is true when it is published and news to whoever followed the earlier ones: only a
  member that is up leaves, fails or becomes unreachable, only an unreachable one becomes reachable,
  and \<open>Up\<close> is never repeated. In particular a node that left is not reported failed as well.\<close>

theorem events_are_true_when_published:
  assumes "cluster_run ops (cluster_new local) = Some c" "list_all keeps_names ops"
    and "cluster_events c = earlier @ e # later"
  shows "legal_event (foldl replay (Map.empty, {}) earlier) e"
proof -
  have "cluster_wf (cluster_new local)" by (simp add: cluster_new_def cluster_wf_def)
  from cluster_run_follows [OF this assms(2,1)] show ?thesis
    by (auto simp: follows_def cluster_new_def view_of_def assms(3) legal_events_append)
qed

theorem events_are_true_when_published_witness:
  "\<exists>c. cluster_run [MemberUp (example_member ''b'' 1), MemberLeft ''b'' 1,
      MemberFailed (example_member ''b'' 1)] (cluster_new (example_member ''a'' 1)) = Some c \<and>
    legal_event (foldl replay (Map.empty, {}) [Up (example_member ''b'' 1)])
      (Left (example_member ''b'' 1))"
proof -
  obtain c where c: "cluster_run [MemberUp (example_member ''b'' 1), MemberLeft ''b'' 1,
      MemberFailed (example_member ''b'' 1)] (cluster_new (example_member ''a'' 1)) = Some c"
    by simp
  then have "cluster_events c = [Up (example_member ''b'' 1)] @ Left (example_member ''b'' 1) # []"
    by (auto simp: cluster_new_def cluster_defs example_member_def imap_shift_remove_def)
  from events_are_true_when_published [OF c _ this] c show ?thesis by auto
qed

text \<open>Every change keeps the view consistent: the members are listed under their own names, only
  members are unreachable, and a node keeps its name. A defunct node stays defunct.\<close>

theorem cluster_view_stays_consistent:
  assumes "cluster_run ops (cluster_new local) = Some c" "list_all keeps_names ops"
  shows "cluster_unreachable c \<subseteq> fst ` set (cluster_members c) \<and>
    distinct (map member_name (members c)) \<and> member_name (cluster_local c) = member_name local \<and>
    (member node c = Some m \<longrightarrow> member_name m = node)"
proof -
  have "cluster_wf (cluster_new local)" by (simp add: cluster_new_def cluster_wf_def)
  from cluster_run_follows [OF this assms(2,1)]
  have wf: "cluster_wf c" and l: "cluster_local_name c = member_name local"
    by (simp_all add: follows_def cluster_new_def)
  have "map member_name (members c) = map fst (cluster_members c)"
    using wf by (auto simp: members_def cluster_wf_def)
  then show ?thesis using wf l cluster_wf_name [OF wf, of node m] by (simp add: cluster_wf_def)
qed

theorem cluster_view_stays_consistent_witness:
  "\<exists>c. cluster_run [MemberUp (example_member ''b'' 1), MemberUp (example_member ''b'' 2),
      MemberUnreachable ''b'', MemberLeft ''b'' 2] (cluster_new (example_member ''a'' 1)) = Some c \<and>
    cluster_unreachable c \<subseteq> fst ` set (cluster_members c) \<and> distinct (map member_name (members c))"
proof -
  obtain c where c: "cluster_run [MemberUp (example_member ''b'' 1), MemberUp (example_member ''b'' 2),
      MemberUnreachable ''b'', MemberLeft ''b'' 2] (cluster_new (example_member ''a'' 1)) = Some c"
    by simp
  then show ?thesis using cluster_view_stays_consistent [OF c] by auto
qed

text \<open>A node starting gets a generation above the last one of its process and above the one in its
  store, even when the clock stepped back and other nodes of the process start at the same time. Only
  a store that holds the largest generation there is cannot be passed: it gives the same again.\<close>

theorem generation_grows_unless_saturated:
  assumes "next_generation (Some (Holds stored)) latest attempts = Some (Inr g)"
  shows "(stored \<noteq> -1 \<and> exchanged latest attempts \<noteq> -1 \<longrightarrow>
      stored < g \<and> exchanged latest attempts < g) \<and> (stored = -1 \<longrightarrow> g = -1)"
  using assms claim_generation_grows [of stored latest attempts g]
    claim_generation_saturated [of stored latest attempts g]
  by (auto simp: next_generation_def read_store_def)

theorem generation_grows_unless_saturated_witness:
  "next_generation (Some (Holds 500)) 20 [(100, 600), (100, 600)] = Some (Inr 601) \<and> (600 :: u64) < 601 \<and>
   next_generation (Some (Holds (-1))) 20 [(100, 20)] = Some (Inr (-1))"
proof -
  have a: "next_generation (Some (Holds 500)) 20 [(100, 600), (100, 600)] = Some (Inr 601)"
    by (simp add: next_generation_def read_store_def pick_def saturating_add_one_def)
  have b: "next_generation (Some (Holds (-1))) 20 [(100, 20)] = Some (Inr (-1))"
    by (simp add: next_generation_def read_store_def pick_def saturating_add_one_def max_def)
  show ?thesis
    using a b generation_grows_unless_saturated [OF a] generation_grows_unless_saturated [OF b] by simp
qed

end
