(* ===== verification/Links.thy ===== *)
theory Links
  imports Wire_Format
begin

text \<open>
  One node's connections to its peers (distr/src/link/mod.rs): at most one registered connection per
  peer, the rule that decides between two, the lanes that messages are put into, and the inboxes of
  those that subscribed to a protocol.

  A connection is the number that this node gave it and the physical link, which both ends share;
  whether a link is closed is seen by each end in its own time, so the operations that look take a
  \<open>seen_closed\<close>. Dialing and the exchange of hellos are what they result in. Maps keyed by node
  are association lists whose order means nothing.
\<close>

section \<open>Connections\<close>

record conn =
  conn_id :: nat
  conn_link :: nat

record registered =
  reg_conn :: conn
  reg_generation :: u64
  reg_dialer :: name

datatype peer_event =
    PeerUnreachable name | PeerReachable name | PeerDisconnected name u64

type_synonym protocol = byte

datatype delivery = Datagram | Ordered

record lane_entry =
  lane_tx :: nat
  lane_addr :: string

type_synonym lane_key = "name \<times> protocol \<times> delivery \<times> byte"

record incoming =
  incoming_from :: name
  incoming_generation :: u64
  incoming_payload :: bytes

record links =
  lk_local :: name
  lk_generation :: u64
  lk_next_conn :: nat
  lk_conns :: "(name \<times> registered) list"
  lk_lanes :: "(lane_key \<times> lane_entry) list"
  lk_next_lane :: nat
  lk_health :: "name set" \<comment> \<open>the peers whose health is kept\<close>
  lk_inboxes :: "(protocol \<times> incoming list) list"
  lk_events :: "peer_event list" \<comment> \<open>published so far\<close>
  lk_closed :: "nat list" \<comment> \<open>the links this end closed\<close>

definition links_new :: "name \<Rightarrow> u64 \<Rightarrow> links" where
  "links_new local generation = \<lparr>lk_local = local, lk_generation = generation, lk_next_conn = 0,
     lk_conns = [], lk_lanes = [], lk_next_lane = 0, lk_health = {}, lk_inboxes = [],
     lk_events = [], lk_closed = []\<rparr>"

definition close_conn :: "conn \<Rightarrow> links \<Rightarrow> links" where
  "close_conn c l = l\<lparr>lk_closed := lk_closed l @ [conn_link c]\<rparr>"

definition report :: "peer_event \<Rightarrow> links \<Rightarrow> links" where
  "report e l = l\<lparr>lk_events := lk_events l @ [e]\<rparr>"

definition new_conn :: "nat \<Rightarrow> links \<Rightarrow> conn \<times> links" where
  "new_conn link l =
     (\<lparr>conn_id = lk_next_conn l, conn_link = link\<rparr>, l\<lparr>lk_next_conn := lk_next_conn l + 1\<rparr>)"

definition live :: "(nat \<Rightarrow> bool) \<Rightarrow> name \<Rightarrow> links \<Rightarrow> conn option" where
  "live seen_closed node l = (case map_of (lk_conns l) node of
       None \<Rightarrow> None
     | Some r \<Rightarrow> if seen_closed (conn_link (reg_conn r)) then None else Some (reg_conn r))"

section \<open>Which of two connections is kept\<close>

definition keep_new :: "name \<Rightarrow> name \<Rightarrow> u64 \<Rightarrow> name \<Rightarrow> registered \<Rightarrow> bool" where
  "keep_new local peer generation dialer existing =
     (if reg_generation existing < generation then True
      else if generation < reg_generation existing then False
      else if dialer = reg_dialer existing then True
      else dialer = (if local \<le> peer then local else peer))"

definition put_conn :: "name \<Rightarrow> registered \<Rightarrow> links \<Rightarrow> links" where
  "put_conn peer r l = l\<lparr>lk_conns := imap_insert peer r (lk_conns l)\<rparr>"

definition register ::
  "(nat \<Rightarrow> bool) \<Rightarrow> name \<Rightarrow> u64 \<Rightarrow> conn \<Rightarrow> name \<Rightarrow> links \<Rightarrow> bool \<times> links" where
  "register seen_closed peer generation c dialer l =
     (let r = \<lparr>reg_conn = c, reg_generation = generation, reg_dialer = dialer\<rparr> in
      case map_of (lk_conns l) peer of
        None \<Rightarrow> (True, put_conn peer r l)
      | Some existing \<Rightarrow>
          if seen_closed (conn_link (reg_conn existing)) then (True, put_conn peer r l)
          else if \<not> keep_new (lk_local l) peer generation dialer existing then (False, l)
          else (True, put_conn peer r (report (PeerDisconnected peer (reg_generation existing))
            (close_conn (reg_conn existing) l))))"

definition drop_conn :: "name \<Rightarrow> links \<Rightarrow> links" where
  "drop_conn peer l = l\<lparr>lk_conns := snd (imap_shift_remove peer (lk_conns l))\<rparr>"

definition unregister :: "name \<Rightarrow> nat \<Rightarrow> links \<Rightarrow> links" where
  "unregister peer cid l = (case map_of (lk_conns l) peer of
       None \<Rightarrow> l
     | Some r \<Rightarrow>
         if conn_id (reg_conn r) = cid
         then report (PeerDisconnected peer (reg_generation r)) (drop_conn peer l) else l)"

text \<open>
  Dialing ends with no connection, with one whose hellos failed, or with one to a peer of some
  generation, which is then registered; by then others may have been registered. The result says
  which connection to use, if any.
\<close>

definition dialed ::
  "(nat \<Rightarrow> bool) \<Rightarrow> name \<Rightarrow> nat \<Rightarrow> name \<Rightarrow> u64 \<Rightarrow> links \<Rightarrow> conn option \<times> links" where
  "dialed seen_closed node link peer generation l =
     (let made = new_conn link l;
          kept = register seen_closed peer generation (fst made) (lk_local l) (snd made) in
      if fst kept then (Some (fst made), snd kept)
      else (let l = close_conn (fst made) (snd kept) in (live seen_closed node l, l)))"

datatype dial_outcome = NotConnected | HelloFailed nat | Greeted nat name u64

definition connection ::
  "(nat \<Rightarrow> bool) \<Rightarrow> name \<Rightarrow> dial_outcome \<Rightarrow> links \<Rightarrow> conn option \<times> links" where
  "connection seen_closed node outcome l = (case live seen_closed node l of
       Some c \<Rightarrow> (Some c, l)
     | None \<Rightarrow> (case outcome of
           NotConnected \<Rightarrow> (None, l)
         | HelloFailed link \<Rightarrow> (None, snd (new_conn link l))
         | Greeted link peer generation \<Rightarrow> dialed seen_closed node link peer generation l))"

definition accept ::
  "(nat \<Rightarrow> bool) \<Rightarrow> nat \<Rightarrow> (name \<times> u64) option \<Rightarrow> links \<Rightarrow> bool \<times> links" where
  "accept seen_closed link hello l =
     (let made = new_conn link l in
      case hello of
        None \<Rightarrow> (False, snd made)
      | Some (peer, generation) \<Rightarrow>
          (let kept = register seen_closed peer generation (fst made) peer (snd made) in
           if fst kept then kept else (False, close_conn (fst made) (snd kept))))"

section \<open>Lanes and inboxes\<close>

definition start_lane :: "name \<Rightarrow> string \<Rightarrow> links \<Rightarrow> lane_entry \<times> links" where
  "start_lane node addr l =
     (\<lparr>lane_tx = lk_next_lane l, lane_addr = addr\<rparr>,
      l\<lparr>lk_next_lane := lk_next_lane l + 1, lk_health := insert node (lk_health l)\<rparr>)"

definition put_lane :: "lane_key \<Rightarrow> lane_entry \<times> links \<Rightarrow> lane_entry \<times> links" where
  "put_lane key started =
     (fst started, (snd started)\<lparr>lk_lanes := imap_insert key (fst started) (lk_lanes (snd started))\<rparr>)"

definition sender ::
  "(nat \<Rightarrow> bool) \<Rightarrow> name \<Rightarrow> string \<Rightarrow> protocol \<Rightarrow> delivery \<Rightarrow> byte \<Rightarrow> links \<Rightarrow> nat \<times> links" where
  "sender lane_closed node addr protocol delivery shard l =
     (let key = (node, protocol, delivery, shard);
          found = (case map_of (lk_lanes l) key of
              Some lane \<Rightarrow> (lane, l)
            | None \<Rightarrow> put_lane key (start_lane node addr l));
          lane = (if lane_addr (fst found) \<noteq> addr \<or> lane_closed (lane_tx (fst found))
            then put_lane key (start_lane node addr (snd found)) else found) in
      (lane_tx (fst lane), snd lane))"

definition forget :: "name \<Rightarrow> u64 \<Rightarrow> links \<Rightarrow> links" where
  "forget node generation l =
     (let l = l\<lparr>lk_lanes := filter (\<lambda>((n, _), _). n \<noteq> node) (lk_lanes l),
                lk_health := lk_health l - {node}\<rparr> in
      case map_of (lk_conns l) node of
        None \<Rightarrow> l
      | Some r \<Rightarrow> if reg_generation r \<le> generation then close_conn (reg_conn r) (drop_conn node l) else l)"

definition subscribe :: "protocol \<Rightarrow> links \<Rightarrow> links" where
  "subscribe protocol l = l\<lparr>lk_inboxes := imap_insert protocol [] (lk_inboxes l)\<rparr>"

definition inbox_queue :: nat where
  "inbox_queue = 1024"

text \<open>Delivery that waits is pending while the queue is full.\<close>

definition deliver :: "protocol \<Rightarrow> incoming \<Rightarrow> bool \<Rightarrow> links \<Rightarrow> links poll" where
  "deliver protocol msg wait l = (case map_of (lk_inboxes l) protocol of
       None \<Rightarrow> Ready l
     | Some queue \<Rightarrow>
         if length queue < inbox_queue
         then Ready (l\<lparr>lk_inboxes := imap_insert protocol (queue @ [msg]) (lk_inboxes l)\<rparr>)
         else if wait then Pending else Ready l)"

definition receive_datagram :: "name \<Rightarrow> u64 \<Rightarrow> bytes \<Rightarrow> links \<Rightarrow> links poll" where
  "receive_datagram peer generation bytes l = (case bytes of
       [] \<Rightarrow> Ready l
     | protocol # payload \<Rightarrow>
         deliver protocol \<lparr>incoming_from = peer, incoming_generation = generation, incoming_payload = payload\<rparr> False l)"

section \<open>Both ends of a pair of connections\<close>

abbreviation kept_link :: "links \<Rightarrow> name \<Rightarrow> nat option" where
  "kept_link l peer \<equiv> map_option (conn_link \<circ> reg_conn) (map_of (lk_conns l) peer)"

text \<open>
  One end of two nodes that dial each other at once: its own connection, and the one it accepts, in
  either order. What it sees of the other link being closed does not matter.
\<close>

definition crossing_end ::
  "bool \<Rightarrow> (nat \<Rightarrow> bool) \<Rightarrow> name \<Rightarrow> u64 \<Rightarrow> nat \<Rightarrow> nat \<Rightarrow> links \<Rightarrow> links" where
  "crossing_end dials_first seen_closed peer generation mine theirs l =
     (if dials_first
      then snd (accept seen_closed theirs (Some (peer, generation))
        (snd (dialed seen_closed peer mine peer generation l)))
      else snd (dialed seen_closed peer mine peer generation
        (snd (accept seen_closed theirs (Some (peer, generation)) l))))"

lemma register_vacant:
  "map_of (lk_conns l) peer = None \<Longrightarrow> register seen_closed peer generation c dialer l =
    (True, put_conn peer \<lparr>reg_conn = c, reg_generation = generation, reg_dialer = dialer\<rparr> l)"
  by (simp add: register_def)

text \<open>Between two connections of the same generation the smaller name decides.\<close>

lemma register_other_dialer:
  assumes "map_of (lk_conns l) peer = Some r" "reg_generation r = generation" "reg_dialer r \<noteq> dialer"
    and "new = \<lparr>reg_conn = c, reg_generation = generation, reg_dialer = dialer\<rparr>"
  shows "register seen_closed peer generation c dialer l =
    (if seen_closed (conn_link (reg_conn r)) then (True, put_conn peer new l)
     else if dialer = (if lk_local l \<le> peer then lk_local l else peer)
     then (True, put_conn peer new (report (PeerDisconnected peer generation) (close_conn (reg_conn r) l)))
     else (False, l))"
  using assms by (auto simp: register_def keep_new_def)

lemma put_conn_simps [simp]:
  "map_of (lk_conns (put_conn peer r l)) peer = Some r" "lk_closed (put_conn peer r l) = lk_closed l"
  "lk_local (put_conn peer r l) = lk_local l" "lk_events (put_conn peer r l) = lk_events l"
  "lk_conns (close_conn c l) = lk_conns l" "lk_local (close_conn c l) = lk_local l"
  "lk_closed (close_conn c l) = lk_closed l @ [conn_link c]" "lk_events (close_conn c l) = lk_events l"
  "lk_conns (report e l) = lk_conns l" "lk_local (report e l) = lk_local l"
  "lk_closed (report e l) = lk_closed l" "lk_events (report e l) = lk_events l @ [e]"
  "conn_link (fst (new_conn link l)) = link" "lk_conns (snd (new_conn link l)) = lk_conns l"
  "lk_closed (snd (new_conn link l)) = lk_closed l" "lk_local (snd (new_conn link l)) = lk_local l"
  "lk_events (snd (new_conn link l)) = lk_events l" "conn_id (fst (new_conn link l)) = lk_next_conn l"
  by (simp_all add: put_conn_def close_conn_def report_def new_conn_def)

lemma crossing_end_keeps:
  assumes "lk_local l \<noteq> peer" "map_of (lk_conns l) peer = None"
    and "better = (if lk_local l \<le> peer then mine else theirs)" "\<not> seen_closed better"
    and "l' = crossing_end dials_first seen_closed peer generation mine theirs l"
  shows "kept_link l' peer = Some better \<and>
    set (lk_closed l') \<subseteq> set (lk_closed l) \<union> {if lk_local l \<le> peer then theirs else mine}"
proof (cases dials_first)
  case True
  define d where "d = snd (dialed seen_closed peer mine peer generation l)"
  have d: "\<exists>c. map_of (lk_conns d) peer =
      Some \<lparr>reg_conn = c, reg_generation = generation, reg_dialer = lk_local l\<rparr> \<and> conn_link c = mine"
    "lk_closed d = lk_closed l" "lk_local d = lk_local l"
    using assms(2) by (simp_all add: d_def dialed_def Let_def register_vacant)
  then obtain c where c: "map_of (lk_conns (snd (new_conn theirs d))) peer =
      Some \<lparr>reg_conn = c, reg_generation = generation, reg_dialer = lk_local l\<rparr>" "conn_link c = mine"
    by auto
  show ?thesis using assms True d(2,3) c
      register_other_dialer [OF c(1) _ _ refl, of generation peer seen_closed]
    by (cases "lk_local l \<le> peer"; cases "seen_closed mine")
      (auto simp: crossing_end_def d_def [symmetric] accept_def Let_def)
next
  case False
  define d where "d = snd (accept seen_closed theirs (Some (peer, generation)) l)"
  have d: "\<exists>c. map_of (lk_conns d) peer =
      Some \<lparr>reg_conn = c, reg_generation = generation, reg_dialer = peer\<rparr> \<and> conn_link c = theirs"
    "lk_closed d = lk_closed l" "lk_local d = lk_local l"
    using assms(2) by (simp_all add: d_def accept_def Let_def register_vacant)
  then obtain c where c: "map_of (lk_conns (snd (new_conn mine d))) peer =
      Some \<lparr>reg_conn = c, reg_generation = generation, reg_dialer = peer\<rparr>" "conn_link c = theirs"
    by auto
  show ?thesis using assms False d(2,3) c
      register_other_dialer [OF c(1) _ _ refl, of generation "lk_local l" seen_closed]
    by (cases "lk_local l \<le> peer"; cases "seen_closed theirs")
      (auto simp: crossing_end_def d_def [symmetric] dialed_def Let_def)
qed

section \<open>Properties\<close>

text \<open>C15: two nodes that dial each other at the same time end up with the same one connection, whichever
  of the two each of them registers first, and neither closes it: it is the one that the node with the
  smaller name dialed. Both know the other in its current generation.\<close>

theorem crossing_dials_keep_one_connection:
  assumes "lk_local A = a" "lk_local B = b" "a \<noteq> b" "ab \<noteq> ba"
    and "map_of (lk_conns A) b = None" "map_of (lk_conns B) a = None"
    and "kept = (if a \<le> b then ab else ba)" "\<not> seen_a kept" "\<not> seen_b kept"
    and "A' = crossing_end a_first seen_a b gen_b ab ba A"
    and "B' = crossing_end b_first seen_b a gen_a ba ab B"
  shows "kept_link A' b = Some kept \<and> kept_link B' a = Some kept \<and>
    (kept \<notin> set (lk_closed A) \<longrightarrow> kept \<notin> set (lk_closed A')) \<and>
    (kept \<notin> set (lk_closed B) \<longrightarrow> kept \<notin> set (lk_closed B'))"
proof -
  have "b \<le> a \<longleftrightarrow> \<not> a \<le> b" using assms(3) by auto
  then show ?thesis
    using crossing_end_keeps [OF _ _ _ _ assms(10), of kept]
      crossing_end_keeps [OF _ _ _ _ assms(11), of kept] assms(1-9)
    by (auto split: if_splits)
qed

theorem crossing_dials_keep_one_connection_witness:
  "kept_link (crossing_end True (\<lambda>_. False) ''b'' 5 10 20 (links_new ''a'' 3)) ''b'' = Some 10 \<and>
   kept_link (crossing_end True (\<lambda>_. False) ''a'' 3 20 10 (links_new ''b'' 5)) ''a'' = Some 10"
proof -
  have "(''a'' :: string) \<le> ''b''" by simp
  then show ?thesis
    using crossing_dials_keep_one_connection [of "links_new ''a'' 3" "''a''" "links_new ''b'' 5" "''b''"
        10 20 10 "\<lambda>_. False" "\<lambda>_. False" _ True 5 _ True 3]
    by (simp add: links_new_def)
qed

text \<open>A connection that closed and is replaced before the task that receives on it notices is never
  reported as lost: \<open>register\<close> reports only the replacement of a live one, and the task's
  \<open>unregister\<close> no longer finds its own. The calls that rode on it are not failed.\<close>

theorem replaced_closed_connection_is_not_reported:
  assumes "map_of (lk_conns l) peer = Some r" "seen_closed (conn_link (reg_conn r))"
    and "conn_id (reg_conn r) < lk_next_conn l"
  shows "lk_events (unregister peer (conn_id (reg_conn r))
      (snd (accept seen_closed link (Some (peer, generation)) l))) = lk_events l \<and>
    lk_events (unregister peer (conn_id (reg_conn r)) l) =
      lk_events l @ [PeerDisconnected peer (reg_generation r)]"
proof -
  have "register seen_closed peer generation c peer (snd (new_conn link l)) = (True, put_conn peer
      \<lparr>reg_conn = c, reg_generation = generation, reg_dialer = peer\<rparr> (snd (new_conn link l)))" for c
    using assms(1,2) by (simp add: register_def)
  then show ?thesis using assms(1,3)
    by (simp add: accept_def Let_def unregister_def drop_conn_def report_def)
qed

theorem replaced_closed_connection_is_not_reported_witness:
  "\<exists>l. lk_events (unregister ''b'' 0 (snd (accept (\<lambda>link. link = 10) 20 (Some (''b'', 5)) l))) = [] \<and>
    lk_events (unregister ''b'' 0 l) = [PeerDisconnected ''b'' 5]"
proof -
  define l where "l = snd (accept (\<lambda>_. False) 10 (Some (''b'', 5)) (links_new ''a'' 3))"
  have l: "map_of (lk_conns l) ''b'' =
      Some \<lparr>reg_conn = \<lparr>conn_id = 0, conn_link = 10\<rparr>, reg_generation = 5, reg_dialer = ''b''\<rparr>"
    "lk_next_conn l = 1" "lk_events l = []"
    by (simp_all add: l_def links_new_def accept_def new_conn_def register_def put_conn_def)
  from replaced_closed_connection_is_not_reported [OF l(1), of "\<lambda>link. link = 10" 20 5] l
  show ?thesis by auto
qed

end
