(* ===== verification/Membership.thy ===== *)
theory Membership
  imports Cluster_State Links
begin

text \<open>
  The membership task of a node (distr/src/cluster/membership): the messages nodes exchange about
  membership, and the driver that feeds what arrives to the failure detector and carries out what it
  asks for.

  The failure detector (the \<open>foca\<close> crate) is not part of the repository: its state is a type
  variable and its reaction to an input a parameter, \<open>foca_react\<close>, which gives everything that one
  input makes it ask for. So is the sender that a gossip packet names, \<open>packet_source\<close>.
\<close>

section \<open>Messages\<close>

datatype membership_message = Gossip bytes | Departure

fun message_delivery :: "membership_message \<Rightarrow> delivery" where
  "message_delivery (Gossip data) = Datagram"
| "message_delivery Departure = Ordered"

fun encode_message :: "membership_message \<Rightarrow> bytes" where
  "encode_message (Gossip data) = put_u8 1 @ data"
| "encode_message Departure = [2]"

definition decode_message :: "bytes \<Rightarrow> membership_message option" where
  "decode_message bs = (case bs of
       [] \<Rightarrow> None
     | kind # data \<Rightarrow>
         if kind = 1 then Some (Gossip data) else if kind = 2 then Some Departure else None)"

lemma decode_encode_message [simp]: "decode_message (encode_message m) = Some m"
  by (cases m) (simp_all add: decode_message_def put_u8_def)

section \<open>The driver\<close>

datatype foca_input = HandleData bytes | HandleTimer nat | AnnounceTo member | LeaveCluster

datatype notification =
    NotifyUp member | NotifyDown member | NotifyRename member member | NotifyRejoin member
  | NotifyActive | NotifyIdle | NotifyDefunct

record foca_output =
  to_send :: "(member \<times> bytes) list"
  to_schedule :: "(duration \<times> nat) list"
  to_notify :: "notification list"

datatype driver_effect =
    SendTo member membership_message delivery | ForgetLinks name u64

definition no_output :: foca_output where
  "no_output = \<lparr>to_send = [], to_schedule = [], to_notify = []\<rparr>"

definition add_output :: "foca_output \<Rightarrow> foca_output \<Rightarrow> foca_output" where
  "add_output a b = \<lparr>to_send = to_send a @ to_send b, to_schedule = to_schedule a @ to_schedule b,
     to_notify = to_notify a @ to_notify b\<rparr>"

record 's driver =
  drv_foca :: 's
  drv_runtime :: foca_output
  drv_cluster :: cluster
  drv_seeds :: "member list"
  drv_leaving :: bool
  drv_timers :: "nat list"
  drv_pending_down :: "(nat \<times> member) list" \<comment> \<open>by key, in no order that matters\<close>
  drv_pending_keys :: "(name \<times> nat) list"
  drv_next_key :: nat
  drv_effects :: "driver_effect list"

record 's foca =
  foca_react :: "foca_input \<Rightarrow> 's \<Rightarrow> 's \<times> foca_output"
  foca_knows_members :: "'s \<Rightarrow> bool"
  packet_source :: "bytes \<Rightarrow> member option"

definition driver_new :: "'s \<Rightarrow> cluster \<Rightarrow> member list \<Rightarrow> 's driver" where
  "driver_new s c seeds = \<lparr>drv_foca = s, drv_runtime = no_output, drv_cluster = c, drv_seeds = seeds, drv_leaving = False,
     drv_timers = [], drv_pending_down = [], drv_pending_keys = [], drv_next_key = 0,
     drv_effects = []\<rparr>"

abbreviation on_cluster :: "(cluster \<Rightarrow> cluster) \<Rightarrow> 's driver \<Rightarrow> 's driver" where
  "on_cluster f d \<equiv> d\<lparr>drv_cluster := f (drv_cluster d)\<rparr>"

definition sender_of :: "'s foca \<Rightarrow> bytes \<Rightarrow> name option" where
  "sender_of F packet = map_option member_name (packet_source F packet)"

definition drv_send :: "member \<Rightarrow> membership_message \<Rightarrow> 's driver \<Rightarrow> 's driver" where
  "drv_send m msg d = d\<lparr>drv_effects := drv_effects d @ [SendTo m msg (message_delivery msg)]\<rparr>"

definition forget_links :: "member \<Rightarrow> 's driver \<Rightarrow> 's driver" where
  "forget_links m d =
     d\<lparr>drv_effects := drv_effects d @ [ForgetLinks (member_name m) (member_generation m)]\<rparr>"

definition remove_entry :: "nat \<Rightarrow> 's driver \<Rightarrow> 's driver" where
  "remove_entry key d = d\<lparr>drv_pending_down := filter (\<lambda>(k, m). k \<noteq> key) (drv_pending_down d)\<rparr>"

definition cancel_pending :: "name \<Rightarrow> 's driver \<Rightarrow> 's driver" where
  "cancel_pending node d =
     (let removed = imap_shift_remove node (drv_pending_keys d);
          d = d\<lparr>drv_pending_keys := snd removed\<rparr> in
      case fst removed of Some key \<Rightarrow> remove_entry key d | None \<Rightarrow> d)"

definition add_pending :: "member \<Rightarrow> 's driver \<Rightarrow> 's driver" where
  "add_pending m d =
     (let key = drv_next_key d;
          old = map_of (drv_pending_keys d) (member_name m);
          d = d\<lparr>drv_pending_down := drv_pending_down d @ [(key, m)], drv_next_key := key + 1,
                drv_pending_keys := imap_insert (member_name m) key (drv_pending_keys d)\<rparr> in
      case old of Some old \<Rightarrow> remove_entry old d | None \<Rightarrow> d)"

text \<open>\<open>None\<close> is the panic of a rename of the local node.\<close>

fun notify :: "notification \<Rightarrow> 's driver \<Rightarrow> 's driver option" where
  "notify (NotifyUp m) d = Some (on_cluster (member_up m) (cancel_pending (member_name m) d))"
| "notify (NotifyDown m) d =
     (let d = forget_links m d in
      Some (if contains_member m (drv_cluster d) then add_pending m d else d))"
| "notify (NotifyRename before after) d =
     Some (on_cluster (member_renamed before after)
       (forget_links before (cancel_pending (member_name before) d)))"
| "notify (NotifyRejoin m) d =
     map_option (\<lambda>c. d\<lparr>drv_cluster := c\<rparr>) (set_local m (drv_cluster d))"
| "notify NotifyActive d = Some d"
| "notify NotifyIdle d = Some d"
| "notify NotifyDefunct d =
     Some (if drv_leaving d then d else on_cluster (snd \<circ> set_status NodeDefunct) d)"

fun notify_all :: "notification list \<Rightarrow> 's driver \<Rightarrow> 's driver option" where
  "notify_all [] d = Some d"
| "notify_all (n # ns) d = (case notify n d of None \<Rightarrow> None | Some d \<Rightarrow> notify_all ns d)"

text \<open>What the failure detector asked for while it handled the last input, carried out.\<close>

definition drain :: "'s driver \<Rightarrow> 's driver option" where
  "drain d =
     (let out = drv_runtime d;
          d = fold (\<lambda>(m, data). drv_send m (Gossip data)) (to_send out) (d\<lparr>drv_runtime := no_output\<rparr>);
          d = d\<lparr>drv_timers := drv_timers d @ map snd (to_schedule out)\<rparr> in
      notify_all (to_notify out) d)"

definition feed :: "'s foca \<Rightarrow> foca_input \<Rightarrow> 's driver \<Rightarrow> 's driver" where
  "feed F i d = (let reaction = foca_react F i (drv_foca d) in
     d\<lparr>drv_foca := fst reaction, drv_runtime := add_output (drv_runtime d) (snd reaction)\<rparr>)"

definition announce :: "'s foca \<Rightarrow> member \<Rightarrow> 's driver \<Rightarrow> 's driver" where
  "announce F seed d =
     (if member_name seed = member_name (cluster_local (drv_cluster d)) then d
      else feed F (AnnounceTo seed) d)"

definition announce_seeds :: "'s foca \<Rightarrow> 's driver \<Rightarrow> 's driver" where
  "announce_seeds F d = fold (announce F) (drv_seeds d) d"

definition on_peer_event :: "peer_event \<Rightarrow> 's driver \<Rightarrow> 's driver" where
  "on_peer_event e d = (case e of
       PeerUnreachable node \<Rightarrow> on_cluster (snd \<circ> member_unreachable node) d
     | PeerReachable node \<Rightarrow> on_cluster (snd \<circ> member_reachable node) d
     | PeerDisconnected node generation \<Rightarrow> d)"

definition on_incoming :: "'s foca \<Rightarrow> incoming \<Rightarrow> 's driver \<Rightarrow> 's driver" where
  "on_incoming F i d = (case decode_message (incoming_payload i) of
       None \<Rightarrow> d
     | Some (Gossip data) \<Rightarrow>
         if sender_of F data \<noteq> Some (incoming_from i) then d else feed F (HandleData data) d
     | Some Departure \<Rightarrow>
         (case member_left (incoming_from i) (incoming_generation i) (drv_cluster d) of
            (None, c) \<Rightarrow> d
          | (Some m, c) \<Rightarrow> cancel_pending (member_name m) (d\<lparr>drv_cluster := c\<rparr>)))"

definition grace_expired :: "nat \<Rightarrow> 's driver \<Rightarrow> 's driver" where
  "grace_expired key d = (case map_of (drv_pending_down d) key of
       None \<Rightarrow> d
     | Some m \<Rightarrow>
         (let d = remove_entry key d;
              d = d\<lparr>drv_pending_keys := snd (imap_shift_remove (member_name m) (drv_pending_keys d))\<rparr>
          in on_cluster (member_failed m) d))"

definition drv_leave :: "'s foca \<Rightarrow> 's driver \<Rightarrow> 's driver" where
  "drv_leave F d =
     (let d = on_cluster (snd \<circ> set_status NodeLeaving) (d\<lparr>drv_leaving := True\<rparr>);
          d = fold (\<lambda>m. drv_send m Departure) (members (drv_cluster d)) d in
      feed F LeaveCluster d)"

datatype driver_event =
    Arrived incoming | PeerChanged peer_event | TimerExpired nat | GraceExpired nat | RejoinTick
  | AnnounceCommand member | LeaveCommand | CommandsClosed

fun driver_handle :: "'s foca \<Rightarrow> driver_event \<Rightarrow> 's driver \<Rightarrow> 's driver" where
  "driver_handle F (Arrived i) d = on_incoming F i d"
| "driver_handle F (PeerChanged e) d = on_peer_event e d"
| "driver_handle F (TimerExpired t) d =
     (if t \<in> set (drv_timers d)
      then feed F (HandleTimer t) (d\<lparr>drv_timers := remove1 t (drv_timers d)\<rparr>) else d)"
| "driver_handle F (GraceExpired key) d = grace_expired key d"
| "driver_handle F RejoinTick d =
     (if foca_knows_members F (drv_foca d) then d else announce_seeds F d)"
| "driver_handle F (AnnounceCommand seed) d = announce F seed d"
| "driver_handle F LeaveCommand d = drv_leave F d"
| "driver_handle F CommandsClosed d = d"

text \<open>Each turn of the loop handles one event and drains; leaving, or losing the handle, ends it.\<close>

fun driver_run :: "'s foca \<Rightarrow> driver_event list \<Rightarrow> 's driver \<Rightarrow> 's driver option" where
  "driver_run F [] d = Some d"
| "driver_run F (e # es) d =
     (if e = CommandsClosed then Some d
      else case drain (driver_handle F e d) of
        None \<Rightarrow> None
      | Some d \<Rightarrow> if e = LeaveCommand then Some d else driver_run F es d)"

text \<open>What the task does before the loop: the node takes its place and announces to the seeds.\<close>

definition membership_start :: "'s \<Rightarrow> member \<Rightarrow> member list \<Rightarrow> cluster \<Rightarrow> 's driver option" where
  "membership_start s local seeds c = (case set_local local c of
       None \<Rightarrow> None
     | Some c \<Rightarrow> Some (driver_new s (snd (set_status NodeUp c))
         (map (\<lambda>seed. seed\<lparr>member_generation := 0\<rparr>) seeds)))"

section \<open>The pending failure reports\<close>

text \<open>
  At most one report is pending for a node, under the key that the node's name leads to.
\<close>

definition keyed :: "(name \<rightharpoonup> nat) \<Rightarrow> (nat \<rightharpoonup> member) \<Rightarrow> bool" where
  "keyed K P \<longleftrightarrow> (\<forall>node key. K node = Some key \<longleftrightarrow>
     (\<exists>m. P key = Some m \<and> member_name m = node))"

lemma keyed_iff:
  "keyed K P \<Longrightarrow> K node = Some key \<longleftrightarrow> (\<exists>m. P key = Some m \<and> member_name m = node)"
  by (simp add: keyed_def)

lemma keyedD: "keyed K P \<Longrightarrow> P key = Some m \<Longrightarrow> K (member_name m) = Some key"
  by (auto simp: keyed_def)

lemma keyedE:
  assumes "keyed K P" "K node = Some key"
  obtains m where "P key = Some m" "member_name m = node"
  using assms unfolding keyed_def by metis

lemma keyed_remove:
  assumes "keyed K P" "K node = Some key" shows "keyed (K(node := None)) (P(key := None))"
  unfolding keyed_def
proof (intro allI)
  fix n k
  obtain m where m: "P key = Some m" "member_name m = node" using assms by (rule keyedE)
  show "(K(node := None)) n = Some k \<longleftrightarrow> (\<exists>m. (P(key := None)) k = Some m \<and> member_name m = n)"
    using keyed_iff [OF assms(1), of n k] keyed_iff [OF assms(1), of node k] m assms(2)
    by (cases "k = key") auto
qed

lemma keyed_add:
  assumes "keyed K P" "K (member_name m) = None" "P key = None"
  shows "keyed (K(member_name m \<mapsto> key)) (P(key \<mapsto> m))"
  unfolding keyed_def
proof (intro allI)
  fix n k
  show "(K(member_name m \<mapsto> key)) n = Some k \<longleftrightarrow>
      (\<exists>x. (P(key \<mapsto> m)) k = Some x \<and> member_name x = n)"
    using keyed_iff [OF assms(1), of n k] keyed_iff [OF assms(1), of "member_name m" k] assms(2,3)
    by (cases "k = key") auto
qed

definition pending_ok :: "'s driver \<Rightarrow> bool" where
  "pending_ok d \<longleftrightarrow>
     keyed (map_of (drv_pending_keys d)) (map_of (drv_pending_down d)) \<and>
     (\<forall>(key, m) \<in> set (drv_pending_down d). key < drv_next_key d)"

definition pending :: "name \<Rightarrow> 's driver \<Rightarrow> member option" where
  "pending node d = (case map_of (drv_pending_keys d) node of
       None \<Rightarrow> None
     | Some key \<Rightarrow> map_of (drv_pending_down d) key)"

lemma map_of_remove_entry [simp]:
  "map_of (filter (\<lambda>(k, m). k \<noteq> key) ps) = (map_of ps)(key := None)"
  by (rule ext) (simp add: map_of_filter_key)

lemma cancel_pending_simps [simp]:
  "drv_cluster (cancel_pending node d) = drv_cluster d"
  "drv_runtime (cancel_pending node d) = drv_runtime d"
  by (auto simp: cancel_pending_def Let_def remove_entry_def split: option.split)

lemma pending_ok_cancel:
  assumes "pending_ok d" shows "pending_ok (cancel_pending node d)"
proof (cases "map_of (drv_pending_keys d) node")
  case None
  then show ?thesis using assms
    by (simp add: pending_ok_def cancel_pending_def imap_shift_remove_def fun_upd_idem)
next
  case (Some key)
  then show ?thesis using assms keyed_remove [of _ _ node key]
    by (auto simp: pending_ok_def cancel_pending_def imap_shift_remove_def remove_entry_def)
qed

lemma pending_cancelled [simp]: "pending node (cancel_pending node d) = None"
  by (auto simp: pending_def cancel_pending_def Let_def remove_entry_def imap_shift_remove_def
      split: option.split)

lemma pending_ok_add:
  assumes "pending_ok d" shows "pending_ok (add_pending m d)"
proof -
  let ?n = "member_name m" and ?k = "drv_next_key d"
  let ?K = "map_of (drv_pending_keys d)" and ?P = "map_of (drv_pending_down d)"
  have ok: "keyed ?K ?P" using assms by (simp add: pending_ok_def)
  have fresh: "?P ?k = None"
    using assms by (force simp: pending_ok_def map_of_eq_None_iff)
  have app: "map_of (drv_pending_down d @ [(?k, m)]) = ?P(?k \<mapsto> m)"
    by (rule ext) (simp add: fresh map_add_def split: option.split)
  show ?thesis
  proof (cases "?K ?n")
    case None
    from keyed_add [OF ok this fresh] show ?thesis using None assms
      by (auto simp: pending_ok_def add_pending_def Let_def app simp del: map_of_append
          intro: less_SucI)
  next
    case (Some key)
    then have key: "key \<noteq> ?k" using fresh keyedE [OF ok Some] by force
    have "keyed ((?K(?n := None))(?n \<mapsto> ?k)) ((?P(key := None))(?k \<mapsto> m))"
      using keyed_add [OF keyed_remove [OF ok Some], of m ?k] fresh by simp
    then have "keyed (?K(?n \<mapsto> ?k)) ((?P(?k \<mapsto> m))(key := None))"
      using key by (simp add: fun_upd_twist)
    then show ?thesis using Some assms
      by (auto simp: pending_ok_def add_pending_def Let_def remove_entry_def app
          simp del: map_of_append filter_append intro: less_SucI)
  qed
qed

lemma pending_ok_grace:
  assumes "pending_ok d" shows "pending_ok (grace_expired key d)"
proof (cases "map_of (drv_pending_down d) key")
  case (Some m)
  have "keyed (map_of (drv_pending_keys d)) (map_of (drv_pending_down d))"
    using assms by (simp add: pending_ok_def)
  from keyed_remove [OF this keyedD [OF this Some]] show ?thesis using Some assms
    by (auto simp: pending_ok_def grace_expired_def remove_entry_def Let_def)
qed (simp add: grace_expired_def assms)

section \<open>The driver's invariant\<close>

text \<open>
  What the program relies on of the failure detector: a node that changes its identity keeps its
  name, as does this one when it rejoins (\<open>Member::renew\<close> and \<open>Member::addr\<close>).
\<close>

fun notification_ok :: "name \<Rightarrow> notification \<Rightarrow> bool" where
  "notification_ok local (NotifyRename before after) \<longleftrightarrow> member_name after = member_name before"
| "notification_ok local (NotifyRejoin m) \<longleftrightarrow> member_name m = local"
| "notification_ok local _ \<longleftrightarrow> True"

definition foca_keeps_names :: "name \<Rightarrow> 's foca \<Rightarrow> bool" where
  "foca_keeps_names local F \<longleftrightarrow>
     (\<forall>i s. list_all (notification_ok local) (to_notify (snd (foca_react F i s))))"

definition driver_ok :: "'s driver \<Rightarrow> bool" where
  "driver_ok d \<longleftrightarrow> pending_ok d \<and> cluster_wf (drv_cluster d) \<and>
     list_all (notification_ok (cluster_local_name (drv_cluster d))) (to_notify (drv_runtime d))"

definition goes_to :: "'s driver \<Rightarrow> 's driver \<Rightarrow> bool" where
  "goes_to d d' \<longleftrightarrow> driver_ok d' \<and> follows (drv_cluster d) (drv_cluster d')"

lemma goes_to_refl: "driver_ok d \<Longrightarrow> goes_to d d"
  by (simp add: goes_to_def driver_ok_def follows_refl)

lemma goes_to_trans: "goes_to a b \<Longrightarrow> goes_to b c \<Longrightarrow> goes_to a c"
  by (auto simp: goes_to_def intro: follows_trans)

lemma local_name_follows: "follows c c' \<Longrightarrow> cluster_local_name c' = cluster_local_name c"
  by (simp add: follows_def)

lemma pending_ok_fields:
  "drv_pending_keys d' = drv_pending_keys d \<Longrightarrow> drv_pending_down d' = drv_pending_down d \<Longrightarrow>
    drv_next_key d' = drv_next_key d \<Longrightarrow> pending_ok d' = pending_ok d"
  by (simp add: pending_ok_def)

lemma pending_ok_cluster [simp]:
  "pending_ok (d\<lparr>drv_cluster := c\<rparr>) = pending_ok d"
  "pending_ok (d\<lparr>drv_foca := s\<rparr>) = pending_ok d"
  "pending_ok (d\<lparr>drv_runtime := out\<rparr>) = pending_ok d"
  "pending_ok (d\<lparr>drv_timers := ts\<rparr>) = pending_ok d"
  "pending_ok (d\<lparr>drv_leaving := b\<rparr>) = pending_ok d"
  "pending_ok (d\<lparr>drv_effects := fx\<rparr>) = pending_ok d"
  "pending_ok (drv_send m msg d) = pending_ok d"
  "pending_ok (forget_links m d) = pending_ok d"
  by (simp_all add: pending_ok_def drv_send_def forget_links_def)

lemma send_simps [simp]:
  "drv_cluster (drv_send m msg d) = drv_cluster d" "drv_runtime (drv_send m msg d) = drv_runtime d"
  "drv_cluster (forget_links m d) = drv_cluster d" "drv_runtime (forget_links m d) = drv_runtime d"
  by (simp_all add: drv_send_def forget_links_def)

lemma add_pending_simps [simp]:
  "drv_cluster (add_pending m d) = drv_cluster d" "drv_runtime (add_pending m d) = drv_runtime d"
  by (simp_all add: add_pending_def Let_def remove_entry_def split: option.split)

lemma fold_sends:
  "drv_cluster (fold (\<lambda>(m, data). drv_send m (Gossip data)) sends d) = drv_cluster d"
  "pending_ok (fold (\<lambda>(m, data). drv_send m (Gossip data)) sends d) = pending_ok d"
  "drv_runtime (fold (\<lambda>(m, data). drv_send m (Gossip data)) sends d) = drv_runtime d"
  by (induction sends arbitrary: d) auto

lemma fold_departures:
  "drv_cluster (fold (\<lambda>m. drv_send m Departure) ms d) = drv_cluster d"
  "pending_ok (fold (\<lambda>m. drv_send m Departure) ms d) = pending_ok d"
  "drv_runtime (fold (\<lambda>m. drv_send m Departure) ms d) = drv_runtime d"
  by (induction ms arbitrary: d) auto

text \<open>A driver that carries out one notification.\<close>

lemma notify_ok:
  assumes "driver_ok d" "notification_ok (cluster_local_name (drv_cluster d)) n"
  obtains d' where "notify n d = Some d'" "goes_to d d'"
proof (cases n)
  case (NotifyUp m)
  with that show ?thesis using assms member_up_follows [of "drv_cluster d" m]
    by (auto simp: goes_to_def driver_ok_def pending_ok_cancel follows_def)
next
  case (NotifyDown m)
  with that show ?thesis using assms
    by (auto simp: goes_to_def driver_ok_def pending_ok_add follows_refl Let_def)
next
  case (NotifyRename before after)
  with that show ?thesis using assms member_renamed_follows [of "drv_cluster d" after before]
    by (auto simp: goes_to_def driver_ok_def pending_ok_cancel follows_def)
next
  case (NotifyRejoin m)
  then obtain c where c: "set_local m (drv_cluster d) = Some c"
    using assms by (simp add: set_local_def)
  with that show ?thesis using assms NotifyRejoin set_local_follows [of "drv_cluster d" m c]
    by (auto simp: goes_to_def driver_ok_def follows_def)
next
  case NotifyDefunct
  with that show ?thesis using assms set_status_follows [of "drv_cluster d" NodeDefunct]
    by (auto simp: goes_to_def driver_ok_def follows_def)
qed (use that assms in \<open>auto intro: goes_to_refl\<close>)

lemma goes_to_ok: "goes_to d d' \<Longrightarrow> driver_ok d'"
  by (simp add: goes_to_def)

lemma goes_to_local: "goes_to d d' \<Longrightarrow> cluster_local_name (drv_cluster d') = cluster_local_name (drv_cluster d)"
  by (simp add: goes_to_def local_name_follows)

lemma notify_all_ok:
  assumes "driver_ok d" "list_all (notification_ok (cluster_local_name (drv_cluster d))) ns"
  shows "\<exists>d'. notify_all ns d = Some d' \<and> goes_to d d'"
  using assms
proof (induction ns arbitrary: d)
  case (Cons n ns)
  have n: "notification_ok (cluster_local_name (drv_cluster d)) n" using Cons.prems(2) by simp
  obtain e where e: "notify n d = Some e" "goes_to d e" by (rule notify_ok [OF Cons.prems(1) n])
  have "list_all (notification_ok (cluster_local_name (drv_cluster e))) ns"
    using Cons.prems(2) e(2) by (simp add: goes_to_local)
  from Cons.IH [OF goes_to_ok [OF e(2)] this] obtain d' where "notify_all ns e = Some d'" "goes_to e d'"
    by blast
  then show ?case using e goes_to_trans by auto
qed (simp add: goes_to_refl)

lemma drain_ok:
  assumes "driver_ok d" shows "\<exists>d'. drain d = Some d' \<and> goes_to d d'"
proof -
  define e where "e = (fold (\<lambda>(m, data). drv_send m (Gossip data)) (to_send (drv_runtime d))
    (d\<lparr>drv_runtime := no_output\<rparr>))"
  have e: "driver_ok (e\<lparr>drv_timers := ts\<rparr>)" "drv_cluster e = drv_cluster d" for ts
    using assms by (simp_all add: e_def driver_ok_def fold_sends no_output_def)
  from notify_all_ok [OF e(1)] assms e(2) show ?thesis
    by (auto simp: drain_def Let_def e_def [symmetric] driver_ok_def goes_to_def)
qed

lemma feed_simps [simp]:
  "drv_cluster (feed F i d) = drv_cluster d" "pending_ok (feed F i d) = pending_ok d"
  by (simp_all add: feed_def Let_def)

lemma feed_goes_to:
  assumes "foca_keeps_names (cluster_local_name (drv_cluster d)) F" "driver_ok d"
  shows "goes_to d (feed F i d)"
proof -
  have "list_all (notification_ok (cluster_local_name (drv_cluster d)))
      (to_notify (drv_runtime (feed F i d)))"
    using assms by (simp add: feed_def Let_def add_output_def foca_keeps_names_def driver_ok_def)
  then show ?thesis using assms by (simp add: goes_to_def driver_ok_def follows_refl)
qed

lemma announce_goes_to:
  assumes "foca_keeps_names (cluster_local_name (drv_cluster d)) F" "driver_ok d"
  shows "goes_to d (announce F seed d)"
  using feed_goes_to [OF assms] goes_to_refl [OF assms(2)] by (simp add: announce_def)

lemma announce_fold_goes_to:
  assumes "foca_keeps_names (cluster_local_name (drv_cluster d)) F" "driver_ok d"
  shows "goes_to d (fold (announce F) seeds d)"
  using assms
proof (induction seeds arbitrary: d)
  case (Cons seed seeds)
  have 1: "goes_to d (announce F seed d)" using Cons.prems by (rule announce_goes_to)
  have "goes_to (announce F seed d) (fold (announce F) seeds (announce F seed d))"
    using Cons.IH [OF _ goes_to_ok [OF 1]] Cons.prems(1) by (simp add: goes_to_local [OF 1])
  then show ?case using goes_to_trans [OF 1] by simp
qed (simp add: goes_to_refl)

lemma goes_to_cluster:
  assumes "driver_ok d" "follows (drv_cluster d) c"
  shows "goes_to d (d\<lparr>drv_cluster := c\<rparr>)"
  using assms by (simp add: goes_to_def driver_ok_def follows_def)

lemma on_incoming_goes_to:
  assumes "foca_keeps_names (cluster_local_name (drv_cluster d)) F" "driver_ok d"
  shows "goes_to d (on_incoming F i d)"
proof -
  have left: "follows (drv_cluster d) (snd (member_left n g (drv_cluster d)))" for n g
    using assms(2) by (intro member_left_follows) (simp add: driver_ok_def)
  then have "goes_to d (cancel_pending node (d\<lparr>drv_cluster := snd (member_left n g (drv_cluster d))\<rparr>))"
    for node n g
    using goes_to_cluster [OF assms(2) left [of n g]]
    by (simp add: goes_to_def driver_ok_def pending_ok_cancel)
  then show ?thesis using feed_goes_to [OF assms] goes_to_refl [OF assms(2)]
    by (auto simp: on_incoming_def split: option.split membership_message.split prod.splits)
      (metis snd_conv)+
qed

lemma grace_goes_to:
  assumes "driver_ok d" shows "goes_to d (grace_expired key d)"
proof (cases "map_of (drv_pending_down d) key")
  case (Some m)
  have p: "pending_ok (grace_expired key d)" using assms by (simp add: pending_ok_grace driver_ok_def)
  have "drv_cluster (grace_expired key d) = member_failed m (drv_cluster d)"
    "drv_runtime (grace_expired key d) = drv_runtime d"
    by (simp_all add: Some grace_expired_def Let_def remove_entry_def)
  then show ?thesis using member_failed_follows [of "drv_cluster d" m] assms p
    by (simp add: goes_to_def driver_ok_def follows_def)
qed (use assms in \<open>simp add: grace_expired_def goes_to_refl\<close>)

lemma leave_goes_to:
  assumes "foca_keeps_names (cluster_local_name (drv_cluster d)) F" "driver_ok d"
  shows "goes_to d (drv_leave F d)"
proof -
  define c where "c = snd (set_status NodeLeaving (drv_cluster d))"
  define e where "e = fold (\<lambda>m. drv_send m Departure) (members c)
    (d\<lparr>drv_leaving := True, drv_cluster := c\<rparr>)"
  have c: "follows (drv_cluster d) c"
    unfolding c_def using assms(2) by (intro set_status_follows) (simp add: driver_ok_def)
  have "drv_cluster e = c" by (simp add: e_def fold_departures)
  moreover have "driver_ok e"
    using assms(2) c by (simp add: e_def driver_ok_def fold_departures follows_def)
  ultimately have e: "goes_to d e" using c by (simp add: goes_to_def)
  have "drv_leave F d = feed F LeaveCluster e"
    by (simp add: drv_leave_def Let_def e_def c_def)
  moreover have "goes_to e (feed F LeaveCluster e)"
    using assms(1) by (intro feed_goes_to) (simp_all add: goes_to_local [OF e] goes_to_ok [OF e])
  ultimately show ?thesis using goes_to_trans [OF e] by simp
qed

lemma peer_event_goes_to:
  assumes "driver_ok d" shows "goes_to d (on_peer_event e d)"
proof -
  have wf: "cluster_wf (drv_cluster d)" using assms by (simp add: driver_ok_def)
  show ?thesis using goes_to_cluster [OF assms] goes_to_refl [OF assms]
      member_unreachable_follows [OF wf] member_reachable_follows [OF wf]
    by (auto simp: on_peer_event_def split: peer_event.split)
qed

lemma handle_goes_to:
  assumes "foca_keeps_names (cluster_local_name (drv_cluster d)) F" "driver_ok d"
  shows "goes_to d (driver_handle F e d)"
proof (cases e)
  case (TimerExpired t)
  have "driver_ok (d\<lparr>drv_timers := ts\<rparr>)" for ts using assms(2) by (simp add: driver_ok_def)
  then show ?thesis using TimerExpired assms feed_goes_to [of "d\<lparr>drv_timers := remove1 t (drv_timers d)\<rparr>" F]
    by (simp add: goes_to_refl) (simp add: goes_to_def)
qed (use assms in \<open>simp_all add: on_incoming_goes_to peer_event_goes_to grace_goes_to
    announce_goes_to announce_fold_goes_to announce_seeds_def leave_goes_to goes_to_refl\<close>)

lemma driver_run_ok:
  assumes "foca_keeps_names (cluster_local_name (drv_cluster d)) F" "driver_ok d"
  shows "\<exists>d'. driver_run F es d = Some d' \<and> goes_to d d'"
  using assms
proof (induction es arbitrary: d)
  case (Cons e es)
  have h: "goes_to d (driver_handle F e d)" using Cons.prems by (rule handle_goes_to)
  obtain x where x: "drain (driver_handle F e d) = Some x" "goes_to (driver_handle F e d) x"
    using drain_ok [OF goes_to_ok [OF h]] by blast
  have dx: "goes_to d x" by (rule goes_to_trans [OF h x(2)])
  have "\<exists>d'. driver_run F es x = Some d' \<and> goes_to x d'"
    using Cons.IH [OF _ goes_to_ok [OF dx]] Cons.prems(1) by (simp add: goes_to_local [OF dx])
  then show ?case using dx goes_to_trans [OF dx] x(1) Cons.prems(2) goes_to_refl by auto
qed (simp add: goes_to_refl)

section \<open>Properties\<close>

lemma membership_start_ok:
  assumes "membership_start s local seeds (cluster_new me) = Some d"
  shows "driver_ok d" "follows (cluster_new me) (drv_cluster d)"
    "cluster_local_name (drv_cluster d) = member_name me"
proof -
  have new: "cluster_wf (cluster_new me)" by (simp add: cluster_new_def cluster_wf_def)
  obtain c where c: "set_local local (cluster_new me) = Some c"
      "d = driver_new s (snd (set_status NodeUp c)) (map (\<lambda>seed. seed\<lparr>member_generation := 0\<rparr>) seeds)"
    using assms by (auto simp: membership_start_def split: option.splits)
  have 1: "follows (cluster_new me) c" by (rule set_local_follows [OF new c(1)])
  then have "follows c (snd (set_status NodeUp c))"
    by (intro set_status_follows) (simp add: follows_def)
  then show f: "follows (cluster_new me) (drv_cluster d)"
    using follows_trans [OF 1] by (simp add: c(2) driver_new_def)
  then show "driver_ok d"
    by (simp add: c(2) driver_new_def driver_ok_def pending_ok_def keyed_def no_output_def follows_def)
  show "cluster_local_name (drv_cluster d) = member_name me"
    using f by (simp add: follows_def cluster_new_def)
qed

text \<open>C14: whatever arrives, expires or is asked for, in any order, the membership task never panics,
  the events it published add up to the cluster view it keeps, each true when it was published, and no
  node has two failure reports pending. The failure detector is only trusted to keep names.\<close>

theorem membership_task_is_safe:
  assumes "foca_keeps_names (member_name me) F"
    and "membership_start s local seeds (cluster_new me) = Some d"
  shows "\<exists>d'. driver_run F es d = Some d' \<and>
    legal_events (Map.empty, {}) (cluster_events (drv_cluster d')) \<and>
    foldl replay (Map.empty, {}) (cluster_events (drv_cluster d')) =
      (map_of (cluster_members (drv_cluster d')), cluster_unreachable (drv_cluster d')) \<and>
    (\<forall>k1 k2 m1 m2. map_of (drv_pending_down d') k1 = Some m1 \<longrightarrow>
      map_of (drv_pending_down d') k2 = Some m2 \<longrightarrow> member_name m1 = member_name m2 \<longrightarrow> k1 = k2)"
proof -
  note d = membership_start_ok [OF assms(2)]
  obtain d' where run: "driver_run F es d = Some d'" "goes_to d d'"
    using driver_run_ok [of d F es] assms(1) d by auto
  have f: "follows (cluster_new me) (drv_cluster d')"
    using follows_trans [OF d(2)] run(2) by (simp add: goes_to_def)
  have "keyed (map_of (drv_pending_keys d')) (map_of (drv_pending_down d'))"
    using goes_to_ok [OF run(2)] by (simp add: driver_ok_def pending_ok_def)
  then have "k1 = k2" if "map_of (drv_pending_down d') k1 = Some m1"
    "map_of (drv_pending_down d') k2 = Some m2" "member_name m1 = member_name m2" for k1 k2 m1 m2
    using keyedD [of _ _ k1 m1] keyedD [of _ _ k2 m2] that by fastforce
  then show ?thesis using run(1) f
    by (auto simp: follows_def cluster_new_def view_of_def)
qed

definition example_foca :: "unit foca" where
  "example_foca = \<lparr>
     foca_react = (\<lambda>i s. ((), case i of
         HandleData [x] \<Rightarrow> no_output\<lparr>to_notify := [NotifyUp (example_member ''b'' (ucast x))]\<rparr>
       | HandleData [x, y] \<Rightarrow> no_output\<lparr>to_notify :=
           [NotifyRename (example_member ''b'' (ucast x)) (example_member ''b'' (ucast y))]\<rparr>
       | HandleTimer t \<Rightarrow> no_output\<lparr>to_notify := [NotifyDown (example_member ''b'' 1)]\<rparr>
       | AnnounceTo m \<Rightarrow> no_output\<lparr>to_schedule := [(5, 0)]\<rparr>
       | _ \<Rightarrow> no_output)),
     foca_knows_members = (\<lambda>s. False),
     packet_source = (\<lambda>bs. Some (example_member ''b'' 1))\<rparr>"

lemma example_foca_keeps_names: "foca_keeps_names local example_foca"
  by (auto simp: foca_keeps_names_def example_foca_def no_output_def example_member_def
      split: foca_input.split list.split)

definition gossip_from :: "name \<Rightarrow> bytes \<Rightarrow> incoming" where
  "gossip_from node data = \<lparr>incoming_from = node, incoming_generation = 1,
     incoming_payload = encode_message (Gossip data)\<rparr>"

definition departure_from :: "name \<Rightarrow> u64 \<Rightarrow> incoming" where
  "departure_from node generation = \<lparr>incoming_from = node, incoming_generation = generation,
     incoming_payload = encode_message Departure\<rparr>"

definition example_driver :: "unit driver" where
  "example_driver = driver_new () (snd (set_status NodeUp (cluster_new (example_member ''a'' 1))))
     [example_member ''s'' 0]"

lemma example_start:
  "membership_start () (example_member ''a'' 1) [example_member ''s'' 0]
    (cluster_new (example_member ''a'' 1)) = Some example_driver"
  by (simp add: membership_start_def set_local_def cluster_new_def example_driver_def example_member_def)

theorem membership_task_is_safe_witness:
  "\<exists>d'. driver_run example_foca [RejoinTick, Arrived (gossip_from ''b'' [1]), TimerExpired 0,
      GraceExpired 0] example_driver = Some d' \<and>
    legal_events (Map.empty, {}) (cluster_events (drv_cluster d'))"
  using membership_task_is_safe [OF example_foca_keeps_names example_start] by blast

text \<open>Gossip counts only from the node that it names as its sender: a packet that names another
  node, or none, leaves the task as it was, as does a message that cannot be decoded.\<close>

theorem gossip_from_another_is_dropped:
  assumes "\<forall>data. decode_message (incoming_payload i) = Some (Gossip data) \<longrightarrow>
      map_option member_name (packet_source F data) \<noteq> Some (incoming_from i)"
    and "decode_message (incoming_payload i) \<noteq> Some Departure" "drv_runtime d = no_output"
  shows "driver_run F [Arrived i] d = Some d"
proof -
  have "on_incoming F i d = d"
    using assms by (auto simp: on_incoming_def sender_of_def split: option.split membership_message.split)
  moreover have "drain d = Some d"
    by (simp add: drain_def assms(3)) (simp add: no_output_def assms(3) [unfolded no_output_def])
  ultimately show ?thesis by simp
qed

theorem gossip_from_another_is_dropped_witness:
  "driver_run example_foca [Arrived (gossip_from ''mallory'' [1])] example_driver = Some example_driver"
  by (rule gossip_from_another_is_dropped)
    (simp_all add: gossip_from_def example_foca_def example_member_def example_driver_def driver_new_def
      decode_message_def put_u8_def)

lemma drain_nothing: "drv_runtime d = no_output \<Longrightarrow> drain d = Some d"
  by (simp add: drain_def) (simp add: no_output_def)

lemma departure_turn:
  assumes "member node (drv_cluster d) = Some m" "drv_runtime d = no_output"
    "generation = member_generation m"
  shows "driver_run F (Arrived (departure_from node generation) # es) d = driver_run F es
    (cancel_pending (member_name m)
      (d\<lparr>drv_cluster := snd (member_left node generation (drv_cluster d))\<rparr>))"
  using assms
  by (simp add: on_incoming_def departure_from_def member_left_def drain_nothing
      del: encode_message.simps)

lemma remove_entry_add:
  assumes "pending_ok d"
  shows "map_of (drv_pending_down (add_pending m d)) (drv_next_key d) = Some m"
    "map_of (drv_pending_keys (add_pending m d)) (member_name m) = Some (drv_next_key d)"
proof -
  have fresh: "map_of (drv_pending_down d) (drv_next_key d) = None"
    using assms by (force simp: pending_ok_def map_of_eq_None_iff)
  have "old \<noteq> drv_next_key d" if "map_of (drv_pending_keys d) (member_name m) = Some old" for old
    using assms fresh that keyedE [of "map_of (drv_pending_keys d)" "map_of (drv_pending_down d)"]
    unfolding pending_ok_def by (metis option.distinct(1))
  then show "map_of (drv_pending_down (add_pending m d)) (drv_next_key d) = Some m"
    "map_of (drv_pending_keys (add_pending m d)) (member_name m) = Some (drv_next_key d)"
    using fresh by (auto simp: add_pending_def Let_def remove_entry_def map_add_def filter_append
        simp del: filter_append split: option.splits)
qed

lemma cancel_removes_entry:
  assumes "map_of (drv_pending_keys d) node = Some key"
  shows "map_of (drv_pending_down (cancel_pending node d)) key = None"
  using assms by (simp add: cancel_pending_def imap_shift_remove_def remove_entry_def)

text \<open>A member that the failure detector declares down is not reported at once. If its grace
  period ends it is reported failed; if its own departure arrives before that, it is reported to have
  left, and the end of the grace period reports nothing more.\<close>

theorem down_member_has_left_or_failed:
  assumes "driver_ok d" "drv_runtime d = no_output" "contains_member m (drv_cluster d)"
    and "notify (NotifyDown m) d = Some down"
  shows "\<exists>key. cluster_events (drv_cluster down) = cluster_events (drv_cluster d) \<and>
    (\<exists>e. driver_run F [GraceExpired key] down = Some e \<and>
      cluster_events (drv_cluster e) = cluster_events (drv_cluster d) @ [Failed m]) \<and>
    (\<exists>e. driver_run F [Arrived (departure_from (member_name m) (member_generation m)),
        GraceExpired key] down = Some e \<and>
      cluster_events (drv_cluster e) = cluster_events (drv_cluster d) @ [Left m])"
proof (intro exI [of _ "drv_next_key d"] conjI)
  let ?k = "drv_next_key d" and ?n = "member_name m"
  have down: "down = add_pending m (forget_links m d)"
    using assms(3,4) by simp
  have p: "pending_ok (forget_links m d)" using assms(1) by (simp add: driver_ok_def)
  have entry: "map_of (drv_pending_down down) ?k = Some m" "map_of (drv_pending_keys down) ?n = Some ?k"
    using remove_entry_add [OF p, of m] by (simp_all add: down forget_links_def)
  have same: "drv_cluster down = drv_cluster d" "drv_runtime down = no_output"
    by (simp_all add: down assms(2))
  show "cluster_events (drv_cluster down) = cluster_events (drv_cluster d)" by (simp add: same)
  have "drv_runtime (grace_expired ?k down) = no_output"
    by (simp add: grace_expired_def entry Let_def remove_entry_def same)
  then show "\<exists>e. driver_run F [GraceExpired ?k] down = Some e \<and>
      cluster_events (drv_cluster e) = cluster_events (drv_cluster d) @ [Failed m]"
    by (simp add: drain_nothing) (simp add: grace_expired_def entry Let_def remove_entry_def same
        member_failed_def assms(3) publish_def clear_unreachable_def remove_member_def)
  have mem: "member ?n (drv_cluster down) = Some m"
    using assms(3) by (simp add: same contains_member_def member_def)
  define e where "e = cancel_pending ?n
    (down\<lparr>drv_cluster := snd (member_left ?n (member_generation m) (drv_cluster down))\<rparr>)"
  have "map_of (drv_pending_down e) ?k = None"
    unfolding e_def by (rule cancel_removes_entry) (simp add: entry)
  then have "grace_expired ?k e = e" by (simp add: grace_expired_def)
  moreover have "drv_runtime e = no_output" by (simp add: e_def same)
  moreover have "cluster_events (drv_cluster e) = cluster_events (drv_cluster d) @ [Left m]"
    using mem by (simp add: e_def member_left_def publish_def clear_unreachable_def
        remove_member_def same)
  ultimately show "\<exists>e. driver_run F [Arrived (departure_from ?n (member_generation m)),
        GraceExpired ?k] down = Some e \<and>
      cluster_events (drv_cluster e) = cluster_events (drv_cluster d) @ [Left m]"
    using departure_turn [OF mem same(2) refl, of F "[GraceExpired ?k]"]
    by (auto simp: e_def [symmetric] drain_nothing)
qed

lemma example_driver_up:
  "\<exists>d. driver_run example_foca [Arrived (gossip_from ''b'' [1])] example_driver = Some d \<and>
    driver_ok d \<and> drv_runtime d = no_output \<and> contains_member (example_member ''b'' 1) (drv_cluster d)"
proof -
  have up: "driver_run example_foca [Arrived (gossip_from ''b'' [1])] example_driver =
      Some (example_driver\<lparr>drv_cluster := member_up (example_member ''b'' 1) (drv_cluster example_driver)\<rparr>)"
    by (simp add: gossip_from_def on_incoming_def sender_of_def example_foca_def feed_def
        add_output_def no_output_def drain_def example_driver_def driver_new_def cancel_pending_def
        imap_shift_remove_def example_member_def decode_message_def put_u8_def)
  have "driver_ok example_driver" using membership_start_ok(1) [OF example_start] .
  moreover have "foca_keeps_names local example_foca" for local by (rule example_foca_keeps_names)
  ultimately show ?thesis
    using driver_run_ok [of example_driver example_foca "[Arrived (gossip_from ''b'' [1])]"] up
    by (auto simp: goes_to_def example_driver_def driver_new_def contains_member_def member_up_def
        insert_member_def publish_def clear_unreachable_def Let_def)
qed

theorem down_member_has_left_or_failed_witness:
  "\<exists>d down key e. notify (NotifyDown (example_member ''b'' 1)) d = Some down \<and>
    driver_run example_foca [Arrived (departure_from ''b'' 1), GraceExpired key] (down :: unit driver) = Some e \<and>
    cluster_events (drv_cluster e) = cluster_events (drv_cluster d) @ [Left (example_member ''b'' 1)]"
proof -
  obtain d where d: "driver_ok (d :: unit driver)" "drv_runtime d = no_output"
      "contains_member (example_member ''b'' 1) (drv_cluster d)"
    using example_driver_up by blast
  obtain down where down: "notify (NotifyDown (example_member ''b'' 1)) d = Some down"
    by (simp add: Let_def)
  from down_member_has_left_or_failed [OF d down, of example_foca] down show ?thesis
    by (auto simp: example_member_def)
qed

text \<open>A node that says goodbye and restarts before the failure detector has noticed is not in the
  cluster view any more, although the detector takes its new incarnation for active: the change of
  identity is the only thing it reports, and \<open>member_renamed\<close> ignores one whose old identity is
  not a member.\<close>

theorem rename_after_departure_is_lost:
  assumes "member node (drv_cluster d) = Some m" "member_name m = node" "drv_runtime d = no_output"
    and "\<forall>s. to_notify (snd (foca_react F (HandleData data) s)) = [NotifyRename m m']"
    and "map_option member_name (packet_source F data) = Some node"
  shows "\<exists>e. driver_run F [Arrived (departure_from node (member_generation m)),
      Arrived (gossip_from node data)] d = Some e \<and> member node (drv_cluster e) = None \<and>
    cluster_events (drv_cluster e) = cluster_events (drv_cluster d) @ [Left m]"
proof -
  define c where "c = snd (member_left node (member_generation m) (drv_cluster d))"
  define e where "e = cancel_pending (member_name m) (d\<lparr>drv_cluster := c\<rparr>)"
  have gone: "member node c = None"
    using assms(1) by (simp add: c_def member_left_def member_def publish_def clear_unreachable_def
        remove_member_def)
  have "on_incoming F (gossip_from node data) e = feed F (HandleData data) e"
    using assms(5) by (simp add: on_incoming_def gossip_from_def sender_of_def
        del: encode_message.simps)
  moreover have "to_notify (drv_runtime (feed F (HandleData data) e)) = [NotifyRename m m']"
    using assms(3,4) by (simp add: feed_def Let_def add_output_def e_def) (simp add: no_output_def)
  moreover have "\<not> contains_member m c"
    using gone assms(2) by (simp add: contains_member_def member_def)
  ultimately have "\<exists>x. drain (on_incoming F (gossip_from node data) e) = Some x \<and> drv_cluster x = c"
    by (simp add: drain_def Let_def fold_sends member_renamed_def e_def)
  then obtain x where x: "drain (on_incoming F (gossip_from node data) e) = Some x"
      "drv_cluster x = c" by blast
  have "cluster_events c = cluster_events (drv_cluster d) @ [Left m]"
    using assms(1) by (simp add: c_def member_left_def publish_def clear_unreachable_def
        remove_member_def)
  then show ?thesis
    using departure_turn [OF assms(1,3) refl, of F "[Arrived (gossip_from node data)]"] x gone
    by (simp add: e_def [unfolded c_def, symmetric])
qed

theorem rename_after_departure_is_lost_witness:
  "\<exists>(d :: unit driver) e. contains_member (example_member ''b'' 1) (drv_cluster d) \<and>
    driver_run example_foca [Arrived (departure_from ''b'' 1), Arrived (gossip_from ''b'' [1, 2])] d = Some e \<and>
    member ''b'' (drv_cluster e) = None"
proof -
  obtain d where d: "driver_ok (d :: unit driver)" "drv_runtime d = no_output"
      "contains_member (example_member ''b'' 1) (drv_cluster d)"
    using example_driver_up by blast
  have "\<exists>e. driver_run example_foca [Arrived (departure_from ''b''
        (member_generation (example_member ''b'' 1))), Arrived (gossip_from ''b'' [1, 2])] d = Some e \<and>
      member ''b'' (drv_cluster e) = None \<and>
      cluster_events (drv_cluster e) = cluster_events (drv_cluster d) @ [Left (example_member ''b'' 1)]"
    by (rule rename_after_departure_is_lost [of _ _ _ _ _ "example_member ''b'' 2"])
      (use d in \<open>simp_all add: contains_member_def member_def example_foca_def example_member_def\<close>)
  then show ?thesis using d by (auto simp: example_member_def)
qed

end
