(* ===== verification/Lane.thy ===== *)
theory Lane
  imports Links
begin

text \<open>
  The task behind one lane to a peer (distr/src/link/lane.rs): it dials when there is a message,
  backs off while the peer cannot be reached, reports when that changes, and writes messages in order
  on one stream per connection. The health of a peer is shared by all lanes to it.

  The jitter of the backoff, a random factor, is a parameter \<open>jitter\<close> on durations; whether a
  dial or a write succeeds is part of the input. A turn of the loop is one step.
\<close>

section \<open>Health\<close>

definition unreachable_after :: nat where
  "unreachable_after = 3"

record link_timings =
  peer_idle :: duration
  reconnect_backoff_min :: duration
  reconnect_backoff_max :: duration

definition default_timings :: link_timings where
  "default_timings = \<lparr>peer_idle = 60000000000, reconnect_backoff_min = 250000000,
     reconnect_backoff_max = 10000000000\<rparr>"

record health =
  failures :: nat
  retry_at :: "instant option"
  reported_unreachable :: bool

definition health_default :: health where
  "health_default = \<lparr>failures = 0, retry_at = None, reported_unreachable = False\<rparr>"

definition duration_max :: duration where
  "duration_max = (2 ^ 64 - 1) * 1000000000 + 999999999"

definition saturating_mul :: "duration \<Rightarrow> nat \<Rightarrow> duration" where
  "saturating_mul d n = min (d * n) duration_max"

definition backoff_base :: "link_timings \<Rightarrow> nat \<Rightarrow> duration" where
  "backoff_base t n =
     min (saturating_mul (reconnect_backoff_min t) (2 ^ min (n - 1) 16)) (reconnect_backoff_max t)"

definition backoff :: "(duration \<Rightarrow> duration) \<Rightarrow> link_timings \<Rightarrow> nat \<Rightarrow> duration" where
  "backoff jitter t n = jitter (backoff_base t n)"

definition backing_off :: "instant \<Rightarrow> health \<Rightarrow> bool" where
  "backing_off now h = (case retry_at h of Some at \<Rightarrow> now < at | None \<Rightarrow> False)"

definition succeeded :: "health \<Rightarrow> bool \<times> health" where
  "succeeded h = (reported_unreachable h,
     h\<lparr>failures := 0, retry_at := None, reported_unreachable := False\<rparr>)"

definition u32_max :: nat where
  "u32_max = 4294967295"

definition failed ::
  "(duration \<Rightarrow> duration) \<Rightarrow> link_timings \<Rightarrow> instant \<Rightarrow> health \<Rightarrow> (duration \<times> bool) \<times> health" where
  "failed jitter t now h =
     (let n = min (failures h + 1) u32_max;
          pause = backoff jitter t n;
          newly = unreachable_after \<le> n \<and> \<not> reported_unreachable h in
      ((pause, newly), h\<lparr>failures := n, retry_at := Some (now + pause),
         reported_unreachable := reported_unreachable h \<or> newly\<rparr>))"

section \<open>One lane\<close>

text \<open>
  The lane's stream is the connection it is on. What is written is kept as (connection, whether a
  stream was opened for it, message).
\<close>

record lane =
  ln_node :: name
  ln_delivery :: delivery
  ln_health :: health
  ln_stream :: "nat option"
  ln_written :: "(nat \<times> bool \<times> bytes) list"
  ln_events :: "peer_event list"
  ln_unregistered :: "nat list" \<comment> \<open>the connections given up after a failed write\<close>

definition lane_new :: "name \<Rightarrow> delivery \<Rightarrow> health \<Rightarrow> lane" where
  "lane_new node how h = \<lparr>ln_node = node, ln_delivery = how, ln_health = h, ln_stream = None,
     ln_written = [], ln_events = [], ln_unregistered = []\<rparr>"

datatype lane_input =
    LaneMessage (msg_payload: bytes) (msg_now: instant) (msg_dialed: "nat option") (msg_written: bool)
  | LaneIdle
  | LaneClosed

definition lane_limit :: nat where
  "lane_limit = 4 * 1024 * 1024"

text \<open>Opening a stream is part of the write: when it fails the lane is left without one.\<close>

definition send_ordered :: "nat \<Rightarrow> bytes \<Rightarrow> bool \<Rightarrow> lane \<Rightarrow> bool \<times> lane" where
  "send_ordered c payload ok l =
     (let opens = ln_stream l \<noteq> Some c in
      (ok, if ok then l\<lparr>ln_stream := Some c, ln_written := ln_written l @ [(c, opens, payload)]\<rparr> else l))"

definition send_datagram :: "nat \<Rightarrow> bytes \<Rightarrow> bool \<Rightarrow> lane \<Rightarrow> bool \<times> lane" where
  "send_datagram c payload ok l =
     (ok, if ok then l\<lparr>ln_written := ln_written l @ [(c, False, payload)]\<rparr> else l)"

definition on_connected :: "lane \<Rightarrow> lane" where
  "on_connected l =
     (let s = succeeded (ln_health l); l = l\<lparr>ln_health := snd s\<rparr> in
      if fst s then l\<lparr>ln_events := ln_events l @ [PeerReachable (ln_node l)]\<rparr> else l)"

definition on_not_connected ::
  "(duration \<Rightarrow> duration) \<Rightarrow> link_timings \<Rightarrow> instant \<Rightarrow> lane \<Rightarrow> lane" where
  "on_not_connected jitter t now l =
     (let s = failed jitter t now (ln_health l); l = l\<lparr>ln_health := snd s\<rparr> in
      if snd (fst s) then l\<lparr>ln_events := ln_events l @ [PeerUnreachable (ln_node l)]\<rparr> else l)"

definition write_message :: "nat \<Rightarrow> bytes \<Rightarrow> bool \<Rightarrow> lane \<Rightarrow> lane" where
  "write_message c payload ok l =
     (let sent = (case ln_delivery l of
          Datagram \<Rightarrow> send_datagram c payload ok l
        | Ordered \<Rightarrow> send_ordered c payload ok l) in
      if fst sent then snd sent
      else (snd sent)\<lparr>ln_stream := None, ln_unregistered := ln_unregistered (snd sent) @ [c]\<rparr>)"

text \<open>The flag says whether the loop goes on.\<close>

fun lane_turn ::
  "(duration \<Rightarrow> duration) \<Rightarrow> link_timings \<Rightarrow> lane_input \<Rightarrow> lane \<Rightarrow> bool \<times> lane" where
  "lane_turn jitter t LaneClosed l = (False, l)"
| "lane_turn jitter t LaneIdle l = (reported_unreachable (ln_health l), l)"
| "lane_turn jitter t (LaneMessage payload now dial ok) l =
     (if lane_limit < length payload then (True, l)
      else if backing_off now (ln_health l) then (True, l)
      else case dial of
        None \<Rightarrow> (True, on_not_connected jitter t now l)
      | Some c \<Rightarrow> (True, write_message c payload ok (on_connected l)))"

fun lane_run ::
  "(duration \<Rightarrow> duration) \<Rightarrow> link_timings \<Rightarrow> lane_input list \<Rightarrow> lane \<Rightarrow> bool \<times> lane" where
  "lane_run jitter t [] l = (True, l)"
| "lane_run jitter t (i # is) l =
     (let turn = lane_turn jitter t i l in
      if fst turn then lane_run jitter t is (snd turn) else turn)"

section \<open>What a lane reports\<close>

text \<open>The reports of a peer alternate, beginning with unreachable when it has not been reported.\<close>

fun alternate :: "name \<Rightarrow> bool \<Rightarrow> peer_event list \<Rightarrow> bool \<Rightarrow> bool" where
  "alternate node reported [] final \<longleftrightarrow> final = reported"
| "alternate node reported (e # es) final \<longleftrightarrow>
     (if reported then e = PeerReachable node \<and> alternate node False es final
      else e = PeerUnreachable node \<and> alternate node True es final)"

lemma alternate_append:
  "alternate node r as m \<Longrightarrow> alternate node m bs f \<Longrightarrow> alternate node r (as @ bs) f"
  by (induction as arbitrary: r) (auto split: if_splits)

definition reports_ok :: "lane \<Rightarrow> lane \<Rightarrow> bool" where
  "reports_ok l l' \<longleftrightarrow> ln_node l' = ln_node l \<and> (\<exists>new. ln_events l' = ln_events l @ new \<and>
     alternate (ln_node l) (reported_unreachable (ln_health l)) new
       (reported_unreachable (ln_health l')))"

lemma reports_ok_refl: "reports_ok l l"
  by (simp add: reports_ok_def)

lemma reports_ok_trans: "reports_ok a b \<Longrightarrow> reports_ok b c \<Longrightarrow> reports_ok a c"
  unfolding reports_ok_def by (auto intro: alternate_append)

lemma on_connected_ok: "reports_ok l (on_connected l)"
  by (auto simp: reports_ok_def on_connected_def succeeded_def Let_def)

lemma on_not_connected_ok: "reports_ok l (on_not_connected jitter t now l)"
  by (auto simp: reports_ok_def on_not_connected_def failed_def Let_def)

lemma write_message_simps [simp]:
  "ln_node (write_message c payload ok l) = ln_node l"
  "ln_events (write_message c payload ok l) = ln_events l"
  "ln_health (write_message c payload ok l) = ln_health l"
  by (auto simp: write_message_def send_ordered_def send_datagram_def Let_def split: delivery.split)

lemma write_message_ok: "reports_ok l (write_message c payload ok l)"
  by (simp add: reports_ok_def)

lemma lane_turn_ok: "reports_ok l (snd (lane_turn jitter t i l))"
  by (cases i) (auto simp: reports_ok_refl on_not_connected_ok split: option.split
      intro: reports_ok_trans [OF on_connected_ok write_message_ok])

lemma lane_run_ok: "reports_ok l (snd (lane_run jitter t is l))"
  by (induction "is" arbitrary: l)
    (auto simp: reports_ok_refl Let_def lane_turn_ok intro: reports_ok_trans [OF lane_turn_ok])

definition report_due :: "health \<Rightarrow> bool" where
  "report_due h \<longleftrightarrow> (reported_unreachable h \<longleftrightarrow> unreachable_after \<le> failures h)"

lemma lane_turn_due: "report_due (ln_health l) \<Longrightarrow> report_due (ln_health (snd (lane_turn jitter t i l)))"
  by (cases i) (auto simp: report_due_def on_not_connected_def failed_def on_connected_def
      succeeded_def unreachable_after_def u32_max_def Let_def split: option.split)

lemma lane_run_due: "report_due (ln_health l) \<Longrightarrow> report_due (ln_health (snd (lane_run jitter t is l)))"
  by (induction "is" arbitrary: l) (auto simp: Let_def lane_turn_due)

lemma lane_run_idle:
  "lane_run jitter t is l = (False, l') \<Longrightarrow> LaneClosed \<notin> set is \<Longrightarrow> \<not> reported_unreachable (ln_health l')"
proof (induction "is" arbitrary: l)
  case (Cons i "is")
  then show ?case
    by (cases i) (auto simp: Let_def split: if_splits option.splits)
qed simp

lemma backoff_base_mono: "m \<le> n \<Longrightarrow> backoff_base t m \<le> backoff_base t n"
proof -
  assume "m \<le> n"
  then have "(2::nat) ^ min (m - 1) 16 \<le> 2 ^ min (n - 1) 16"
    by (intro power_increasing) auto
  then have "reconnect_backoff_min t * 2 ^ min (m - 1) 16 \<le>
      reconnect_backoff_min t * 2 ^ min (n - 1) 16" by (rule mult_le_mono2)
  then show ?thesis unfolding backoff_base_def saturating_mul_def by (simp add: min_le_iff_disj)
qed

lemma backoff_base_max: "backoff_base t n \<le> reconnect_backoff_max t"
  by (simp add: backoff_base_def)

lemma backoff_base_doubles:
  assumes "1 \<le> n" "n \<le> 16" "reconnect_backoff_max t \<le> duration_max"
  shows "backoff_base t (n + 1) = min (2 * backoff_base t n) (reconnect_backoff_max t)"
proof -
  obtain k where n: "n = Suc k" "k < 16" using assms by (cases n) auto
  then have "min k 16 = k" "min (Suc k) 16 = Suc k" by auto
  then show ?thesis using assms(3) unfolding backoff_base_def saturating_mul_def n
    by (simp add: min_def)
qed

section \<open>Properties\<close>


definition example_lane_run :: "bool \<times> lane" where
  "example_lane_run = lane_run id default_timings
     [LaneMessage [1] 0 None True, LaneMessage [2] 300000000 None True, LaneMessage [3] 900000000 None True,
      LaneMessage [4] 1000000000 (Some 7) True, LaneMessage [5] 2000000000 (Some 7) True, LaneIdle]
     (lane_new ''b'' Ordered health_default)"

lemmas lane_eval = lane_new_def health_default_def default_timings_def on_connected_def
  on_not_connected_def succeeded_def failed_def backoff_def backoff_base_def backing_off_def
  saturating_mul_def duration_max_def unreachable_after_def u32_max_def lane_limit_def
  write_message_def send_ordered_def send_datagram_def Let_def


text \<open>The pause after a failed dial doubles from the configured minimum up to the maximum, with at
  most a quarter more or less of jitter, and while it lasts no message makes the lane dial.\<close>

theorem backoff_doubles_up_to_its_maximum:
  assumes "\<forall>d. 3 * d \<le> 4 * jitter d \<and> 4 * jitter d \<le> 5 * d"
    and "reconnect_backoff_max t \<le> duration_max" "failures h < u32_max"
    and "failed jitter t now h = ((pause, newly), h')"
  shows "3 * backoff_base t (failures h + 1) \<le> 4 * pause \<and>
    4 * pause \<le> 5 * backoff_base t (failures h + 1) \<and>
    (1 \<le> failures h \<and> failures h \<le> 16 \<longrightarrow> backoff_base t (failures h + 1) =
       min (2 * backoff_base t (failures h)) (reconnect_backoff_max t)) \<and>
    4 * pause \<le> 5 * reconnect_backoff_max t \<and>
    (ln_health l = h' \<and> later < now + pause \<longrightarrow>
       lane_turn jitter t (LaneMessage payload later dial ok) l = (True, l))"
proof -
  have p: "pause = jitter (backoff_base t (failures h + 1))" "retry_at h' = Some (now + pause)"
    using assms(3,4) by (auto simp: failed_def backoff_def Let_def min_def)
  have j: "3 * backoff_base t (failures h + 1) \<le> 4 * pause"
    "4 * pause \<le> 5 * backoff_base t (failures h + 1)"
    using assms(1) by (simp_all add: p(1))
  moreover have "4 * pause \<le> 5 * reconnect_backoff_max t"
    using j(2) backoff_base_max [of t "failures h + 1"] by linarith
  ultimately show ?thesis using backoff_base_doubles [OF _ _ assms(2), of "failures h"] p(2)
    by (auto simp: backing_off_def)
qed

theorem backoff_doubles_up_to_its_maximum_witness:
  "failed id default_timings 5 (health_default\<lparr>failures := 1\<rparr>) =
     ((500000000, False), \<lparr>failures = 2, retry_at = Some 500000005, reported_unreachable = False\<rparr>) \<and>
   backoff_base default_timings 2 = min (2 * backoff_base default_timings 1) 10000000000"
proof -
  have f: "failed id default_timings 5 (health_default\<lparr>failures := 1\<rparr>) =
     ((500000000, False), \<lparr>failures = 2, retry_at = Some 500000005, reported_unreachable = False\<rparr>)"
    by (simp add: lane_eval)
  have "reconnect_backoff_max default_timings \<le> duration_max"
    by (simp add: default_timings_def duration_max_def)
  from backoff_doubles_up_to_its_maximum [OF _ this _ f]
  have "backoff_base default_timings (1 + 1) = min (2 * backoff_base default_timings 1) 10000000000"
    by (simp add: health_default_def u32_max_def) (simp add: default_timings_def)
  then show ?thesis using f by (simp add: numeral_2_eq_2)
qed

end
