(* ===== verification/Reachability.thy ===== *)
theory Reachability
  imports Membership Lane
begin

text \<open>
  How the reports of the lanes and the cluster view fit together: the membership task takes each
  report as it comes (\<open>on_peer_event\<close>), the lanes withdraw or repeat none of them.
\<close>

definition never_connects :: "lane_input \<Rightarrow> bool" where
  "never_connects i \<longleftrightarrow> (case i of LaneMessage payload now dial ok \<Rightarrow> dial = None | _ \<Rightarrow> True)"

text \<open>The reports of a lane since \<open>seen\<close> of them, taken by the membership task.\<close>

definition relay :: "nat \<Rightarrow> lane \<Rightarrow> 's driver \<Rightarrow> 's driver" where
  "relay seen l d = fold on_peer_event (drop seen (ln_events l)) d"

lemma silent_turn:
  assumes "reported_unreachable (ln_health l)" "never_connects i"
  shows "ln_events (snd (lane_turn jitter t i l)) = ln_events l \<and>
    reported_unreachable (ln_health (snd (lane_turn jitter t i l)))"
  using assms by (cases i) (auto simp: never_connects_def on_not_connected_def failed_def Let_def)

lemma silent_run:
  assumes "reported_unreachable (ln_health l)" "\<forall>i \<in> set is. never_connects i"
  shows "ln_events (snd (lane_run jitter t is l)) = ln_events l"
  using assms
proof (induction "is" arbitrary: l)
  case (Cons i "is")
  then show ?case using silent_turn [of l i jitter t] by (auto simp: Let_def)
qed simp

lemma is_reachable_up:
  assumes "member (member_name m) c = None" "cluster_wf c"
  shows "is_reachable (member_name m) (member_up m c)"
proof -
  have "member_name m \<notin> fst ` set (cluster_members c)"
    using assms(1) unfolding member_def map_of_eq_None_iff .
  then show ?thesis using assms(1)
    by (simp add: is_reachable_def member_up_def insert_member_def publish_def clear_unreachable_def
        Let_def)
qed

text \<open>A node that is reported unreachable before it becomes a member counts as reachable ever after,
  however often dialing it fails: the report is dropped because the node is not a member yet, and the
  lanes do not repeat it. \<open>is_reachable\<close> promises a member that can currently be connected to.\<close>

theorem unreachable_report_before_joining_is_lost:
  assumes "reported_unreachable (ln_health l)" "\<forall>i \<in> set inputs. never_connects i"
    and "member (ln_node l) (drv_cluster d) = None" "cluster_wf (drv_cluster d)"
    and "member_name m = ln_node l" "notify (NotifyUp m) (on_peer_event (PeerUnreachable (ln_node l)) d) = Some up"
    and "l' = snd (lane_run jitter t inputs l)"
  shows "is_reachable (ln_node l) (drv_cluster (relay (length (ln_events l)) l' up))"
proof -
  have "on_peer_event (PeerUnreachable (ln_node l)) d = d"
    using assms(3) by (simp add: on_peer_event_def member_unreachable_def)
  then have "drv_cluster up = member_up m (drv_cluster d)"
    using assms(6) by auto
  moreover have "relay (length (ln_events l)) l' up = up"
    using silent_run [OF assms(1,2)] by (simp add: relay_def assms(7))
  ultimately show ?thesis using is_reachable_up [of m "drv_cluster d"] assms(3,4,5) by simp
qed

theorem unreachable_report_before_joining_is_lost_witness:
  "\<exists>l up. ln_events l = [PeerUnreachable ''s''] \<and>
    notify (NotifyUp (example_member ''s'' 1))
      (on_peer_event (PeerUnreachable ''s'') example_driver) = Some up \<and>
    is_reachable ''s'' (drv_cluster (relay 1 (snd (lane_run id default_timings
      [LaneMessage [1] 90000000000 None True, LaneIdle, LaneMessage [2] 900000000000 None True] l)) up))"
proof -
  define l where "l = snd (lane_run id default_timings
    [LaneMessage [1] 0 None True, LaneMessage [2] 300000000 None True, LaneMessage [3] 900000000 None True]
    (lane_new ''s'' Datagram health_default))"
  have l: "reported_unreachable (ln_health l)" "ln_node l = ''s''" "ln_events l = [PeerUnreachable ''s'']"
    by (simp_all add: l_def lane_eval)
  have d: "member (ln_node l) (drv_cluster example_driver) = None" "cluster_wf (drv_cluster example_driver)"
    using membership_start_ok(1) [OF example_start]
    by (simp_all add: driver_ok_def l example_driver_def driver_new_def set_status_def cluster_new_def
        member_def)
  obtain up where up: "notify (NotifyUp (example_member ''s'' 1))
      (on_peer_event (PeerUnreachable (ln_node l)) example_driver) = Some up" by simp
  have "is_reachable (ln_node l) (drv_cluster (relay (length (ln_events l)) (snd (lane_run id default_timings
      [LaneMessage [1] 90000000000 None True, LaneIdle, LaneMessage [2] 900000000000 None True] l)) up))"
    by (rule unreachable_report_before_joining_is_lost [OF l(1) _ d _ up refl])
      (simp_all add: never_connects_def l example_member_def)
  then show ?thesis using up l(3) by (intro exI [of _ l] exI [of _ up]) (simp only: l, simp)
qed

end
