(* ===== verification/Utf8.thy ===== *)
theory Utf8
  imports Wire_Format
begin

text \<open>
  What the program uses of Rust's UTF-8 strings: validation (\<open>std::str::from_utf8\<close>) and lossy
  decoding (\<open>String::from_utf8_lossy\<close>), which replaces every maximal invalid sequence by U+FFFD.
  The table of well-formed sequences is that of the standard library.
\<close>

section \<open>One sequence\<close>

definition between :: "byte \<Rightarrow> byte \<Rightarrow> byte \<Rightarrow> bool" where
  "between lo hi b \<longleftrightarrow> lo \<le> b \<and> b \<le> hi"

definition cont :: "byte \<Rightarrow> bool" where
  "cont b \<longleftrightarrow> between 0x80 0xBF b"

text \<open>Reading past the end gives 0, which continues nothing.\<close>

definition byte_at :: "nat \<Rightarrow> bytes \<Rightarrow> byte" where
  "byte_at i bs = (if i < length bs then bs ! i else 0)"

definition second_of_three :: "byte \<Rightarrow> byte \<Rightarrow> bool" where
  "second_of_three b c \<longleftrightarrow>
     (if b = 0xE0 then between 0xA0 0xBF c
      else if b = 0xED then between 0x80 0x9F c else between 0x80 0xBF c)"

definition second_of_four :: "byte \<Rightarrow> byte \<Rightarrow> bool" where
  "second_of_four b c \<longleftrightarrow>
     (if b = 0xF0 then between 0x90 0xBF c
      else if b = 0xF4 then between 0x80 0x8F c else between 0x80 0xBF c)"

text \<open>How many bytes the sequence at the front takes, and whether it is a character.\<close>

definition utf8_head :: "bytes \<Rightarrow> nat \<times> bool" where
  "utf8_head bs = (let b = byte_at 0 bs in
     if b < 0x80 then (1, True)
     else if between 0xC2 0xDF b then (if cont (byte_at 1 bs) then (2, True) else (1, False))
     else if between 0xE0 0xEF b then
       (if \<not> second_of_three b (byte_at 1 bs) then (1, False)
        else if \<not> cont (byte_at 2 bs) then (2, False) else (3, True))
     else if between 0xF0 0xF4 b then
       (if \<not> second_of_four b (byte_at 1 bs) then (1, False)
        else if \<not> cont (byte_at 2 bs) then (2, False)
        else if \<not> cont (byte_at 3 bs) then (3, False) else (4, True))
     else (1, False))"

lemma utf8_head_pos: "0 < fst (utf8_head bs)"
  by (simp add: utf8_head_def Let_def)

lemma utf8_head_shorter: "length (drop (fst (utf8_head (b # bs))) (b # bs)) < length (b # bs)"
  using utf8_head_pos [of "b # bs"] by simp

lemma cont_in_range: "cont (byte_at i bs) \<Longrightarrow> i < length bs"
  by (auto simp: byte_at_def cont_def between_def split: if_splits)

lemma utf8_head_in_range:
  assumes "utf8_head bs = (n, True)" "bs \<noteq> []" shows "n \<le> length bs"
  using assms
  by (auto simp: utf8_head_def Let_def Suc_le_eq dest!: cont_in_range split: if_splits
      simp: numeral_2_eq_2 numeral_3_eq_3 eval_nat_numeral)

lemma byte_at_append: "i < length u \<Longrightarrow> byte_at i (u @ v) = byte_at i u"
  by (simp add: byte_at_def nth_append)

lemma byte_at_take: "i < n \<Longrightarrow> byte_at i (take n bs) = byte_at i bs"
  by (simp add: byte_at_def)

text \<open>A character stays one whatever follows it.\<close>

lemma utf8_head_take:
  assumes "utf8_head bs = (n, True)" "bs \<noteq> []"
  shows "utf8_head (take n bs @ more) = (n, True)"
proof -
  have len: "length (take n bs) = n" using utf8_head_in_range [OF assms] by simp
  have "byte_at i (take n bs @ more) = byte_at i bs" if "i < n" for i
    using that len by (simp add: byte_at_append byte_at_take)
  then show ?thesis using assms(1) by (auto simp: utf8_head_def Let_def split: if_splits)
qed

section \<open>Validation and lossy decoding\<close>

function utf8_valid :: "bytes \<Rightarrow> bool" where
  "utf8_valid [] = True"
| "utf8_valid (b # bs) =
     (snd (utf8_head (b # bs)) \<and> utf8_valid (drop (fst (utf8_head (b # bs))) (b # bs)))"
  by pat_completeness auto

termination utf8_valid
  by (relation "measure length") (use utf8_head_shorter in simp_all)

definition replacement :: bytes where
  "replacement = [0xEF, 0xBF, 0xBD]"

function from_utf8_lossy :: "bytes \<Rightarrow> bytes" where
  "from_utf8_lossy [] = []"
| "from_utf8_lossy (b # bs) =
     (if snd (utf8_head (b # bs)) then take (fst (utf8_head (b # bs))) (b # bs) else replacement) @
     from_utf8_lossy (drop (fst (utf8_head (b # bs))) (b # bs))"
  by pat_completeness auto

termination from_utf8_lossy
  by (relation "measure length") (use utf8_head_shorter in simp_all)

lemma utf8_valid_char:
  assumes "utf8_head bs = (n, True)" "bs \<noteq> []"
  shows "utf8_valid (take n bs @ more) = utf8_valid more"
proof -
  have "take n bs \<noteq> []" using assms utf8_head_pos [of bs] by simp
  then obtain c cs where c: "take n bs @ more = c # cs" by (cases "take n bs @ more") auto
  have h: "utf8_head (c # cs) = (n, True)" using utf8_head_take [OF assms, of more] by (simp add: c)
  have "drop n (c # cs) = more"
    unfolding c [symmetric] using utf8_head_in_range [OF assms] by simp
  then show ?thesis by (simp only: c utf8_valid.simps h fst_conv snd_conv simp_thms)
qed

lemma utf8_valid_replacement: "utf8_valid (replacement @ more) = utf8_valid more"
proof -
  have "utf8_head replacement = (3, True)" by code_simp
  from utf8_valid_char [OF this, of more] show ?thesis by (simp add: replacement_def)
qed

lemma utf8_valid_lossy: "utf8_valid (from_utf8_lossy bs)"
proof (induction bs rule: from_utf8_lossy.induct)
  case (2 b bs)
  obtain n ok where h: "utf8_head (b # bs) = (n, ok)" by fastforce
  then show ?case using 2 utf8_valid_char [of "b # bs" n]
    by (cases ok) (simp_all add: utf8_valid_replacement del: take_Suc_Cons)
qed simp

lemma from_utf8_lossy_valid: "utf8_valid bs \<Longrightarrow> from_utf8_lossy bs = bs"
proof (induction bs rule: from_utf8_lossy.induct)
  case (2 b bs)
  then show ?case by (simp del: drop_Cons take_Cons drop_Cons' take_Cons')
qed simp

lemma utf8_valid_ascii: "\<forall>b \<in> set bs. b < 0x80 \<Longrightarrow> utf8_valid bs"
  by (induction bs) (auto simp: utf8_head_def byte_at_def Let_def)

section \<open>Strings\<close>

definition as_bytes :: "string \<Rightarrow> bytes" where
  "as_bytes s = map (\<lambda>c. word_of_nat (of_char c)) s"

definition string_of :: "bytes \<Rightarrow> string" where
  "string_of bs = map (\<lambda>b. char_of (unat b)) bs"

definition from_utf8 :: "bytes \<Rightarrow> string option" where
  "from_utf8 bs = (if utf8_valid bs then Some (string_of bs) else None)"

lemma length_as_bytes [simp]: "length (as_bytes s) = length s"
  by (simp add: as_bytes_def)

lemma string_of_as_bytes [simp]: "string_of (as_bytes s) = s"
proof -
  have "(of_char c :: nat) < 256" for c
    using horner_sum_bound [of "[digit0 c, digit1 c, digit2 c, digit3 c, digit4 c, digit5 c,
      digit6 c, digit7 c]", where ?'a = nat] by (simp add: of_char_def)
  then show ?thesis
    by (simp add: as_bytes_def string_of_def unat_of_nat comp_def map_idI)
qed

lemma as_bytes_string_of [simp]: "as_bytes (string_of bs) = bs"
  by (simp add: as_bytes_def string_of_def comp_def map_idI byte_less)

lemma from_utf8_as_bytes: "utf8_valid (as_bytes s) \<Longrightarrow> from_utf8 (as_bytes s) = Some s"
  by (simp add: from_utf8_def)

end
