(* ===== verification/Frame.thy ===== *)
theory Frame
  imports Utf8
begin

text \<open>
  How messages between actors are laid out on the wire (distr/src/messaging/frame.rs): a kind
  byte, then the fields of that kind. A name is its length and its UTF-8 bytes, the ids of the
  requests in a message are counted, and the payload is whatever is left.
\<close>

section \<open>Frames\<close>

datatype remote_error =
    UnknownMessage | NoSuchActor | MessageNotAccepted | ActorClosed | Overloaded | NoReply
  | DecodeFailed string | EncodeFailed string | TooLarge | UnknownError

datatype frame =
    MessageFrame (frame_call_id: "u64 option") (frame_target: name) (frame_msg: u128)
      (frame_requests: "u64 list") (frame_payload: bytes)
  | ReplyFrame u64 "remote_error + bytes"

section \<open>Encoding\<close>

definition put_target :: "name \<Rightarrow> u128 \<Rightarrow> u64 list \<Rightarrow> bytes" where
  "put_target target msg requests =
     put_u16 (word_of_nat (length (as_bytes target))) @ as_bytes target @
     put_u128 msg @
     put_u16 (word_of_nat (length requests)) @ concat (map put_u64 requests)"

fun put_error :: "remote_error \<Rightarrow> bytes" where
  "put_error UnknownMessage = put_u8 1"
| "put_error NoSuchActor = put_u8 2"
| "put_error MessageNotAccepted = put_u8 3"
| "put_error ActorClosed = put_u8 4"
| "put_error Overloaded = put_u8 5"
| "put_error NoReply = put_u8 6"
| "put_error (DecodeFailed reason) = put_u8 7 @ as_bytes reason"
| "put_error (EncodeFailed reason) = put_u8 8 @ as_bytes reason"
| "put_error TooLarge = put_u8 9"
| "put_error UnknownError = put_u8 0"

definition put_call_id :: "u64 option \<Rightarrow> bytes" where
  "put_call_id call_id = (case call_id of
       Some cid \<Rightarrow> put_u8 1 @ put_u64 cid
     | None \<Rightarrow> put_u8 0)"

fun encode :: "frame \<Rightarrow> bytes" where
  "encode (MessageFrame call_id target msg requests payload) =
     put_u8 1 @ put_call_id call_id @ put_target target msg requests @ payload"
| "encode (ReplyFrame call_id result) =
     put_u8 2 @ put_u64 call_id @ (case result of
       Inr payload \<Rightarrow> put_u8 0 @ payload
     | Inl error \<Rightarrow> put_u8 1 @ put_error error)"

section \<open>Decoding\<close>

definition get_name :: "name decoder" where
  "get_name = and_then get_u16 (\<lambda>len.
     and_then (guarded (unat len) (split_to (unat len))) (\<lambda>raw.
       case from_utf8 raw of None \<Rightarrow> refuse | Some name \<Rightarrow> yield name))"

definition get_requests :: "u64 list decoder" where
  "get_requests = and_then get_u16 (\<lambda>count. guarded (unat count * 8) (read_u64s (unat count)))"

definition get_target :: "(name \<times> u128 \<times> u64 list) decoder" where
  "get_target = and_then get_name (\<lambda>name.
     and_then (guarded 16 get_u128) (\<lambda>msg.
     and_then get_requests (\<lambda>requests. yield (name, msg, requests))))"

definition get_error :: "remote_error decoder" where
  "get_error = and_then get_u8 (\<lambda>tag.
     if tag = 1 then yield UnknownMessage
     else if tag = 2 then yield NoSuchActor
     else if tag = 3 then yield MessageNotAccepted
     else if tag = 4 then yield ActorClosed
     else if tag = 5 then yield Overloaded
     else if tag = 6 then yield NoReply
     else if tag = 7 then and_then the_rest (\<lambda>b. yield (DecodeFailed (string_of (from_utf8_lossy b))))
     else if tag = 8 then and_then the_rest (\<lambda>b. yield (EncodeFailed (string_of (from_utf8_lossy b))))
     else if tag = 9 then yield TooLarge
     else yield UnknownError)"

definition get_call_id :: "u64 option decoder" where
  "get_call_id = and_then get_u8 (\<lambda>kind.
     if kind = 0 then yield None
     else if kind = 1 then and_then get_u64 (\<lambda>cid. yield (Some cid))
     else refuse)"

definition get_message :: "frame decoder" where
  "get_message = and_then get_call_id (\<lambda>call_id.
     and_then get_target (\<lambda>(target, msg, requests).
     and_then the_rest (\<lambda>payload. yield (MessageFrame call_id target msg requests payload))))"

definition get_reply :: "frame decoder" where
  "get_reply = and_then get_u64 (\<lambda>call_id.
     and_then get_u8 (\<lambda>ok.
       if ok = 0 then and_then the_rest (\<lambda>payload. yield (ReplyFrame call_id (Inr payload)))
       else if ok = 1 then and_then get_error (\<lambda>error. yield (ReplyFrame call_id (Inl error)))
       else refuse))"

definition get_frame :: "frame decoder" where
  "get_frame = and_then get_u8 (\<lambda>kind.
     if kind = 1 then get_message else if kind = 2 then get_reply else refuse)"

definition decode :: "bytes \<Rightarrow> frame option option" where
  "decode bs = map_option (map_option fst) (get_frame bs)"

section \<open>The parts as canonical formats\<close>

definition name_fits :: "name \<Rightarrow> bool" where
  "name_fits name \<longleftrightarrow> utf8_valid (as_bytes name) \<and> length name < 65536"

definition put_name :: "name \<Rightarrow> bytes" where
  "put_name name = put_u16 (word_of_nat (length (as_bytes name))) @ as_bytes name"

definition put_requests :: "u64 list \<Rightarrow> bytes" where
  "put_requests requests = put_u16 (word_of_nat (length requests)) @ concat (map put_u64 requests)"

lemma unat_u16: "n < 65536 \<Longrightarrow> unat (word_of_nat n :: u16) = n"
  by (simp add: unat_of_nat)

lemma u16_bound: "unat (w :: u16) < 65536"
  using unsigned_less [of w, where ?'a = nat] by simp

lemma as_bytes_eq_iff: "as_bytes s = bs \<longleftrightarrow> s = string_of bs"
  by (metis string_of_as_bytes as_bytes_string_of)

interpretation name_format: canonical_format put_name get_name name_fits
proof
  show "no_panic get_name"
    unfolding get_name_def by (intro total_intros u16.get_total) (auto intro!: total_intros split: option.split)
  show "get_name (put_name x @ rest) = Some (Some (x, rest))" if "name_fits x" for x rest
    using that by (simp add: put_name_def get_name_def name_fits_def u16.get_put unat_u16
        guarded_split_to from_utf8_as_bytes yield_def)
  show "name_fits x \<and> bs = put_name x @ rest" if got: "get_name bs = Some (Some (x, rest))" for bs x rest
  proof -
    obtain len raw mid where 1: "bs = put_u16 len @ mid"
      "guarded (unat len) (split_to (unat len)) mid = Some (Some (raw, rest))"
      "from_utf8 raw = Some x"
      using got unfolding get_name_def
      by (auto simp: u16.get_iff yield_def refuse_def dest!: and_then_SomeD split: option.splits)
    then have "length raw = unat len" "mid = raw @ rest" "utf8_valid raw" "as_bytes x = raw"
      by (auto simp: guarded_split_to from_utf8_def split: if_splits)
    then show ?thesis using 1 u16_bound [of len]
      by (auto simp: name_fits_def put_name_def simp flip: length_as_bytes)
  qed
qed

interpretation requests_format:
  canonical_format put_requests get_requests "\<lambda>requests. length requests < 65536"
proof
  show "no_panic get_requests"
    unfolding get_requests_def by (intro total_intros u16.get_total)
  show "get_requests (put_requests x @ rest) = Some (Some (x, rest))"
    if "length x < 65536" for x rest
    using that by (simp add: put_requests_def get_requests_def u16.get_put unat_u16 u64s_format)
  show "length x < 65536 \<and> bs = put_requests x @ rest"
    if got: "get_requests bs = Some (Some (x, rest))" for bs x rest
  proof -
    obtain w mid where "bs = put_u16 w @ mid" "length x = unat w"
        "mid = concat (map put_u64 x) @ rest"
      using got unfolding get_requests_def
      by (auto simp: u16.get_iff u64s_format dest!: and_then_SomeD)
    then show ?thesis using u16_bound [of w] by (auto simp: put_requests_def)
  qed
qed

interpretation call_id_format: canonical_format put_call_id get_call_id "\<lambda>_. True"
proof
  show "no_panic get_call_id"
    unfolding get_call_id_def
    by (intro total_intros u8.get_total) (auto intro!: total_intros u64.get_total)
  show "get_call_id (put_call_id x @ rest) = Some (Some (x, rest))" for x rest
    by (simp add: put_call_id_def get_call_id_def u8.get_put u64.get_put yield_def
        split: option.split)
  show "True \<and> bs = put_call_id x @ rest" if "get_call_id bs = Some (Some (x, rest))" for bs x rest
    using that unfolding get_call_id_def
    by (auto simp: u8.get_iff u64.get_iff put_call_id_def yield_def refuse_def
        dest!: and_then_SomeD split: if_splits)
qed

fun target_fits :: "name \<times> u128 \<times> u64 list \<Rightarrow> bool" where
  "target_fits (target, msg, requests) \<longleftrightarrow> name_fits target \<and> length requests < 65536"

interpretation target_format:
  canonical_format "\<lambda>(target, msg, requests). put_target target msg requests" get_target target_fits
proof
  have put: "(case x of (target, msg, requests) \<Rightarrow> put_target target msg requests) =
      put_name (fst x) @ put_u128 (fst (snd x)) @ put_requests (snd (snd x))" for x
    by (cases x) (simp add: put_target_def put_name_def put_requests_def)
  show "no_panic get_target" unfolding get_target_def
    by (intro total_intros name_format.get_total u128.get_total requests_format.get_total)
  show "get_target ((case x of (target, msg, requests) \<Rightarrow> put_target target msg requests) @ rest) =
      Some (Some (x, rest))" if "target_fits x" for x rest
    using that unfolding put
    by (cases x) (simp add: get_target_def name_format.get_put u128.get_put
        requests_format.get_put yield_def)
  show "target_fits x \<and> bs = (case x of (target, msg, requests) \<Rightarrow> put_target target msg requests) @ rest"
    if "get_target bs = Some (Some (x, rest))" for bs x rest
    using that unfolding get_target_def put
    by (cases x) (auto simp: name_format.get_iff u128.get_iff requests_format.get_iff yield_def
        dest!: and_then_SomeD)
qed

section \<open>Whole frames\<close>

text \<open>What the Rust types guarantee of a frame, and what fits its 16-bit counts.\<close>

fun error_typed :: "remote_error \<Rightarrow> bool" where
  "error_typed (DecodeFailed reason) \<longleftrightarrow> utf8_valid (as_bytes reason)"
| "error_typed (EncodeFailed reason) \<longleftrightarrow> utf8_valid (as_bytes reason)"
| "error_typed _ \<longleftrightarrow> True"

fun frame_typed :: "frame \<Rightarrow> bool" where
  "frame_typed (MessageFrame call_id target msg requests payload) \<longleftrightarrow> utf8_valid (as_bytes target)"
| "frame_typed (ReplyFrame call_id (Inl error)) \<longleftrightarrow> error_typed error"
| "frame_typed (ReplyFrame call_id (Inr payload)) \<longleftrightarrow> True"

fun frame_fits :: "frame \<Rightarrow> bool" where
  "frame_fits (MessageFrame call_id target msg requests payload) \<longleftrightarrow>
     length target < 65536 \<and> length requests < 65536"
| "frame_fits (ReplyFrame call_id result) \<longleftrightarrow> True"

lemma no_panic_get_error: "no_panic get_error"
  unfolding get_error_def by (intro total_intros u8.get_total) (auto intro!: total_intros)

lemma no_panic_get_frame: "no_panic get_frame"
  unfolding get_frame_def get_message_def get_reply_def
  by (intro total_intros u8.get_total)
    (auto intro!: total_intros u8.get_total u64.get_total call_id_format.get_total
      target_format.get_total no_panic_get_error)

lemma decode_Some: "decode bs \<noteq> None"
  using no_panicD [OF no_panic_get_frame, of bs] by (simp add: decode_def)

lemma decode_iff: "decode bs = Some (Some f) \<longleftrightarrow> (\<exists>rest. get_frame bs = Some (Some (f, rest)))"
  by (auto simp: decode_def)

lemma put_head_append [simp]: "put_u8 b @ bs = b # bs"
  by (simp add: put_u8_def)

lemma u8_cons [simp]: "get_u8 (b # bs) = Some (Some (b, bs))"
  using u8.get_put [of b bs] by simp

lemma get_error_put_error:
  "error_typed e \<Longrightarrow> \<exists>rest. get_error (put_error e) = Some (Some (e, rest))"
  by (cases e) (simp_all add: get_error_def put_u8_def yield_def the_rest_def from_utf8_lossy_valid)

lemma get_error_typed: "get_error bs = Some (Some (e, rest)) \<Longrightarrow> error_typed e"
  unfolding get_error_def
  by (auto simp: yield_def the_rest_def utf8_valid_lossy dest!: and_then_SomeD split: if_splits)

lemma get_message_iff:
  "get_message bs = Some (Some (f, rest)) \<longleftrightarrow> rest = [] \<and> (\<exists>call_id target msg requests payload.
     f = MessageFrame call_id target msg requests payload \<and> name_fits target \<and>
     length requests < 65536 \<and>
     bs = put_call_id call_id @ put_target target msg requests @ payload)" (is "_ \<longleftrightarrow> ?R")
proof
  assume "get_message bs = Some (Some (f, rest))"
  then show ?R unfolding get_message_def
    by (auto simp: call_id_format.get_iff target_format.get_iff yield_def the_rest_def
        dest!: and_then_SomeD split: prod.splits)
next
  assume ?R
  then obtain call_id target msg requests payload where f: "rest = []"
      "f = MessageFrame call_id target msg requests payload" "name_fits target"
      "length requests < 65536" "bs = put_call_id call_id @ put_target target msg requests @ payload"
    by blast
  then have "get_target (put_target target msg requests @ payload) =
      Some (Some ((target, msg, requests), payload))"
    using target_format.get_put [of "(target, msg, requests)" payload] by simp
  then show "get_message bs = Some (Some (f, rest))" using f
    by (simp add: get_message_def call_id_format.get_put the_rest_def yield_def)
qed

lemma get_frame_Cons:
  "get_frame (k # bs) =
     (if k = 1 then get_message bs else if k = 2 then get_reply bs else Some None)"
  by (simp add: get_frame_def refuse_def)

lemma get_frame_Nil: "get_frame [] = Some None"
  by (simp add: get_frame_def get_u8_def decoder_defs)

lemma decode_message_iff:
  "decode bs = Some (Some (MessageFrame call_id target msg requests payload)) \<longleftrightarrow>
     name_fits target \<and> length requests < 65536 \<and>
     bs = encode (MessageFrame call_id target msg requests payload)"
proof -
  have "get_reply cs \<noteq> Some (Some (MessageFrame call_id target msg requests payload, rest))"
    for cs rest unfolding get_reply_def
    by (auto simp: yield_def refuse_def dest!: and_then_SomeD split: if_splits)
  then show ?thesis
    by (cases bs) (auto simp: decode_iff get_frame_Cons get_frame_Nil get_message_iff)
qed

lemma decode_reply:
  "decode (2 # put_u64 call_id @ status # bs) =
     (if status = 0 then Some (Some (ReplyFrame call_id (Inr bs)))
      else if status = 1
      then map_option (map_option (\<lambda>p. ReplyFrame call_id (Inl (fst p)))) (get_error bs)
      else Some None)"
  by (simp add: decode_def get_frame_Cons get_reply_def u64.get_put the_rest_def yield_def
      refuse_def)
    (simp add: and_then_def yield_def option.map_comp comp_def split: option.split)

lemma decode_encode_reply:
  "frame_typed (ReplyFrame call_id result) \<Longrightarrow>
    decode (encode (ReplyFrame call_id result)) = Some (Some (ReplyFrame call_id result))"
  by (cases result) (auto simp: decode_reply dest!: get_error_put_error)

text \<open>What is cut before the payload would leave two readings of the same bytes.\<close>

lemma decode_cut_message:
  assumes "frame_typed (MessageFrame call_id target msg requests payload)"
    and "frame_fits (MessageFrame call_id target msg requests payload)"
    and "n < length (encode (MessageFrame call_id target msg requests payload)) - length payload"
  shows "decode (take n (encode (MessageFrame call_id target msg requests payload))) = Some None"
proof (rule ccontr)
  let ?head = "put_call_id call_id @ put_target target msg requests"
  have cut: "take n (encode (MessageFrame call_id target msg requests payload)) = take n (1 # ?head)"
    using assms(3) by (simp add: take_Cons split: nat.split)
  assume "decode (take n (encode (MessageFrame call_id target msg requests payload))) \<noteq> Some None"
  then obtain f rest where f: "get_frame (take n (1 # ?head)) = Some (Some (f, rest))"
    unfolding cut using decode_Some by (metis decode_iff not_Some_eq)
  then have n: "0 < n" and m: "get_message (take (n - 1) ?head) = Some (Some (f, rest))"
    by (auto simp: take_Cons get_frame_Nil get_frame_Cons split: nat.splits)
  obtain c t i r p where t: "name_fits t" "length r < 65536"
      "take (n - 1) ?head = put_call_id c @ put_target t i r @ p"
    using m unfolding get_message_iff by blast
  define cut where "cut = drop (n - 1) ?head"
  have eq: "put_call_id call_id @ (put_target target msg requests @ []) =
      put_call_id c @ (put_target t i r @ (p @ cut))"
    unfolding cut_def using t(3) by (metis append.assoc append_Nil2 append_take_drop_id)
  have "put_target target msg requests @ [] = put_target t i r @ (p @ cut)"
    using call_id_format.fmt.unambiguous [OF TrueI TrueI eq] by simp
  moreover have "target_fits (target, msg, requests)" "target_fits (t, i, r)"
    using assms(1,2) t by (simp_all add: name_fits_def)
  ultimately have "[] = p @ cut"
    using target_format.fmt.unambiguous [of "(target, msg, requests)" "(t, i, r)" "[]" "p @ cut"]
    by (simp only: prod.case simp_thms)
  then show False using assms(3) n by (auto simp: cut_def)
qed

section \<open>Properties\<close>

text \<open>C10: a frame that its Rust types allow decodes from its own encoding if and only if its target's
  name and its request ids are fewer than 65536: both counts are cut to 16 bits when written, and
  nothing refuses a longer one, so a message to an actor with a longer name reaches the peer as
  something else.\<close>

theorem frame_round_trips_iff_counts_fit:
  assumes "frame_typed f"
  shows "decode (encode f) = Some (Some f) \<longleftrightarrow> frame_fits f"
proof (cases f)
  case (MessageFrame call_id target msg requests payload)
  then show ?thesis using assms
    by (auto simp only: decode_message_iff name_fits_def frame_typed.simps frame_fits.simps)
next
  case (ReplyFrame call_id result)
  then show ?thesis using assms decode_encode_reply by simp
qed

theorem frame_round_trips_iff_counts_fit_witness:
  "decode (encode (MessageFrame (Some 7) ''counter'' 5 [3, 4] [1, 2])) =
     Some (Some (MessageFrame (Some 7) ''counter'' 5 [3, 4] [1, 2])) \<and>
   decode (encode (MessageFrame None (replicate 65536 CHR ''a'') 5 [] [])) \<noteq>
     Some (Some (MessageFrame None (replicate 65536 CHR ''a'') 5 [] []))"
proof
  have "frame_typed (MessageFrame (Some 7) ''counter'' 5 [3, 4] [1, 2])"
    by (simp add: as_bytes_def utf8_valid_ascii del: utf8_valid.simps)
  from frame_round_trips_iff_counts_fit [OF this]
  show "decode (encode (MessageFrame (Some 7) ''counter'' 5 [3, 4] [1, 2])) =
     Some (Some (MessageFrame (Some 7) ''counter'' 5 [3, 4] [1, 2]))" by simp
  have "frame_typed (MessageFrame None (replicate 65536 CHR ''a'') 5 [] [])"
    by (simp add: as_bytes_def utf8_valid_ascii del:)
  from frame_round_trips_iff_counts_fit [OF this]
  show "decode (encode (MessageFrame None (replicate 65536 CHR ''a'') 5 [] [])) \<noteq>
     Some (Some (MessageFrame None (replicate 65536 CHR ''a'') 5 [] []))"
    by (simp del: encode.simps)
qed

text \<open>C11: decoding never panics, whatever bytes a peer sends; a frame that it gives is well-formed
  (its strings are UTF-8 and its counts fit), and a message frame is decoded from its own encoding
  only, so nothing of the input is lost.\<close>

theorem decode_gives_well_formed_frames:
  "decode bs \<noteq> None \<and>
   (decode bs = Some (Some f) \<longrightarrow>
      frame_typed f \<and> frame_fits f \<and> (is_MessageFrame f \<longrightarrow> encode f = bs))"
proof (cases f)
  case (MessageFrame call_id target msg requests payload)
  then show ?thesis using decode_Some by (auto simp: decode_message_iff name_fits_def)
next
  case (ReplyFrame call_id result)
  have "frame_typed f" if "decode bs = Some (Some f)"
    using that get_error_typed ReplyFrame unfolding decode_iff get_frame_def get_reply_def
    by (auto simp: get_message_iff yield_def refuse_def the_rest_def
        dest!: and_then_SomeD split: if_splits)
  then show ?thesis using decode_Some ReplyFrame by simp
qed

theorem decode_gives_well_formed_frames_witness:
  "decode (2 # put_u64 7 @ [1, 7, 0xC3, 0x28]) =
     Some (Some (ReplyFrame 7 (Inl (DecodeFailed (string_of [0xEF, 0xBF, 0xBD, 0x28]))))) \<and>
   utf8_valid [0xEF, 0xBF, 0xBD, 0x28]"
proof -
  have l: "from_utf8_lossy [0xC3, 0x28] = [0xEF, 0xBF, 0xBD, 0x28]" by code_simp
  have d: "decode (2 # put_u64 7 @ [1, 7, 0xC3, 0x28]) =
     Some (Some (ReplyFrame 7 (Inl (DecodeFailed (string_of [0xEF, 0xBF, 0xBD, 0x28])))))"
    by (simp add: decode_reply get_error_def the_rest_def yield_def l
        del: from_utf8_lossy.simps)
  with decode_gives_well_formed_frames [of "2 # put_u64 7 @ [1, 7, 0xC3, 0x28]"
      "ReplyFrame 7 (Inl (DecodeFailed (string_of [0xEF, 0xBF, 0xBD, 0x28])))"]
  show ?thesis by simp
qed

text \<open>A message frame cut anywhere before its payload decodes to nothing.\<close>

theorem cut_message_is_refused:
  assumes "frame_typed (MessageFrame call_id target msg requests payload)"
    and "frame_fits (MessageFrame call_id target msg requests payload)"
    and "n < length (encode (MessageFrame call_id target msg requests payload)) - length payload"
  shows "decode (take n (encode (MessageFrame call_id target msg requests payload))) = Some None"
  using assms by (rule decode_cut_message)

theorem cut_message_is_refused_witness:
  "decode (take 20 (encode (MessageFrame (Some 7) ''counter'' 1 [3] [1, 2]))) = Some None"
proof (rule cut_message_is_refused)
  show "frame_typed (MessageFrame (Some 7) ''counter'' 1 [3] [1, 2])"
    by (simp add: as_bytes_def utf8_valid_ascii del: utf8_valid.simps)
qed (simp_all add: put_call_id_def put_target_def put_u16_def put_u64_def put_u128_def)

text \<open>A reply that carries an error is decoded to a reply to the same call whatever the error is,
  one that a later version invented included: the caller gets its answer.\<close>

theorem error_reply_always_answers:
  "\<exists>error. decode (2 # put_u64 call_id @ 1 # tag # more) =
     Some (Some (ReplyFrame call_id (Inl error))) \<and> (9 < tag \<longrightarrow> error = UnknownError)"
proof -
  have "\<exists>e rest. get_error (tag # more) = Some (Some (e, rest)) \<and> (9 < tag \<longrightarrow> e = UnknownError)"
    by (auto simp: get_error_def yield_def the_rest_def)
  then show ?thesis by (auto simp: decode_reply)
qed

end
