(* ===== verification/Remote_Calls.thy ===== *)
theory Remote_Calls
  imports Frame Cluster_State
begin

text \<open>
  The sending side of messages to actors on other nodes (distr/src/messaging): the table of what is
  waiting for an answer (pending.rs), the requests that go along in a message (wire.rs), how a message
  is prepared and sent (send.rs), and the monitors held for other nodes (monitors.rs).

  An answer is what goes into the waiter's one-shot channel. A waiter whose channel is dropped gets
  \<open>Disconnected\<close>, as \<open>ClusterReply::wait\<close> makes of it. Encoding the payload is a parameter:
  the number of requests that it hands over, and what it gives.
\<close>

section \<open>What is waiting for an answer\<close>

datatype reply_error =
    RemoteReply remote_error | ReplyDisconnected | ReplyTimeout | ReplyUndecodable string

type_synonym answer = "reply_error + bytes"

record calls =
  next_call :: u64
  pending_calls :: "(u64 \<times> name) list" \<comment> \<open>in no order that matters\<close>
  answers :: "(u64 \<times> answer) list"

definition calls_new :: calls where
  "calls_new = \<lparr>next_call = 0, pending_calls = [], answers = []\<rparr>"

definition answer :: "u64 \<Rightarrow> answer \<Rightarrow> calls \<Rightarrow> calls" where
  "answer i a s = s\<lparr>pending_calls := snd (imap_shift_remove i (pending_calls s)),
     answers := answers s @ [(i, a)]\<rparr>"

definition pending_insert :: "u64 \<Rightarrow> name \<Rightarrow> calls \<Rightarrow> calls" where
  "pending_insert i node s =
     (let s = (if map_of (pending_calls s) i = None then s else answer i (Inl ReplyDisconnected) s) in
      s\<lparr>pending_calls := imap_insert i node (pending_calls s)\<rparr>)"

definition pending_remove :: "u64 \<Rightarrow> calls \<Rightarrow> calls" where
  "pending_remove i s = s\<lparr>pending_calls := snd (imap_shift_remove i (pending_calls s))\<rparr>"

definition complete :: "name \<Rightarrow> u64 \<Rightarrow> remote_error + bytes \<Rightarrow> calls \<Rightarrow> calls" where
  "complete node i result s =
     (if map_of (pending_calls s) i = Some node
      then answer i (case result of Inl e \<Rightarrow> Inl (RemoteReply e) | Inr bytes \<Rightarrow> Inr bytes) s
      else s)"

definition fail_one :: "name \<Rightarrow> u64 \<Rightarrow> calls \<Rightarrow> calls" where
  "fail_one node i s =
     (if map_of (pending_calls s) i = Some node then answer i (Inl ReplyDisconnected) s else s)"

definition fail_node :: "name \<Rightarrow> calls \<Rightarrow> calls" where
  "fail_node node s =
     fold (fail_one node) (map fst (filter (\<lambda>(i, n). n = node) (pending_calls s))) s"

definition fail_all :: "calls \<Rightarrow> calls" where
  "fail_all s = fold (\<lambda>i s. if map_of (pending_calls s) i = None then s
     else answer i (Inl ReplyDisconnected) s) (map fst (pending_calls s)) s"

section \<open>Sending a message\<close>

definition mint :: "calls \<Rightarrow> u64 \<times> calls" where
  "mint s = (next_call s, s\<lparr>next_call := next_call s + 1\<rparr>)"

text \<open>Each request in the message is numbered and waits for the peer's answer while it is encoded.\<close>

fun export_requests :: "nat \<Rightarrow> name \<Rightarrow> calls \<Rightarrow> u64 list \<times> calls" where
  "export_requests 0 peer s = ([], s)"
| "export_requests (Suc n) peer s =
     (let minted = mint s;
          others = export_requests n peer (pending_insert (fst minted) peer (snd minted)) in
      (fst minted # fst others, snd others))"

definition drop_exports :: "u64 list \<Rightarrow> calls \<Rightarrow> calls" where
  "drop_exports ids s = fold pending_remove ids s"

datatype cast_failure =
    NotRunning | NotAMember | NodeUnreachable | MessageTooLarge nat nat | NotEncodable string
  | LaneFull | LocalActorClosed | LocalNotAccepted

record outgoing =
  out_target :: name
  out_msg :: u128
  out_requests :: nat \<comment> \<open>how many requests encoding hands over\<close>
  out_payload :: "string + bytes" \<comment> \<open>what encoding gives\<close>
  out_replies :: bool

record prepared =
  prep_frame :: bytes
  prep_exports :: "u64 list"
  prep_call :: "u64 option"

definition max_frame_size :: nat where
  "max_frame_size = 4 * 1024 * 1024"

definition prepare ::
  "bool \<Rightarrow> cluster \<Rightarrow> name \<Rightarrow> outgoing \<Rightarrow> calls \<Rightarrow> (cast_failure + prepared) \<times> calls" where
  "prepare running c node out s =
     (if \<not> running then (Inl NotRunning, s)
      else if member node c = None then (Inl NotAMember, s)
      else if \<not> is_reachable node c then (Inl NodeUnreachable, s)
      else (let exported = export_requests (out_requests out) node s; ids = fst exported in
        case out_payload out of
          Inl e \<Rightarrow> (Inl (NotEncodable e), drop_exports ids (snd exported))
        | Inr payload \<Rightarrow>
            (let minted = (if out_replies out
                 then map_prod Some id (mint (snd exported)) else (None, snd exported));
                 frame = encode (MessageFrame (fst minted) (out_target out) (out_msg out) ids payload) in
             if max_frame_size < length frame
             then (Inl (MessageTooLarge (length frame) max_frame_size), drop_exports ids (snd minted))
             else (Inr \<lparr>prep_frame = frame, prep_exports = ids, prep_call = fst minted\<rparr>,
               case fst minted of
                 Some call \<Rightarrow> pending_insert call node (snd minted)
               | None \<Rightarrow> snd minted))))"

text \<open>
  Whether the frame got into the lane is an input: \<open>cast\<close> waits for room and fails only when the
  lane is closed. A message that was not sent is forgotten: its requests, and the call.
\<close>

datatype lane_result = LaneTook | LaneWasFull | LaneWasClosed

definition cast_remote ::
  "bool \<Rightarrow> cluster \<Rightarrow> name \<Rightarrow> outgoing \<Rightarrow> lane_result \<Rightarrow> calls \<Rightarrow> (cast_failure + prepared) \<times> calls" where
  "cast_remote running c node out lane s =
     (case prepare running c node out s of
        (Inl e, s) \<Rightarrow> (Inl e, s)
      | (Inr p, s) \<Rightarrow> (case lane of
            LaneTook \<Rightarrow> (Inr p, s)
          | _ \<Rightarrow> (Inl (if lane = LaneWasFull then LaneFull else NodeUnreachable),
              (case prep_call p of Some call \<Rightarrow> pending_remove call | None \<Rightarrow> id)
                (drop_exports (prep_exports p) s))))"

section \<open>Each wait ends once\<close>

datatype call_op =
    OpInsert u64 name | OpComplete name u64 "remote_error + bytes" | OpFailNode name | OpFailAll
  | OpRemove u64

fun call_step :: "call_op \<Rightarrow> calls \<Rightarrow> calls" where
  "call_step (OpInsert i node) s = pending_insert i node s"
| "call_step (OpComplete node i result) s = complete node i result s"
| "call_step (OpFailNode node) s = fail_node node s"
| "call_step OpFailAll s = fail_all s"
| "call_step (OpRemove i) s = pending_remove i s"

fun inserted :: "call_op list \<Rightarrow> u64 list" where
  "inserted [] = []"
| "inserted (OpInsert i node # ops) = i # inserted ops"
| "inserted (_ # ops) = inserted ops"

text \<open>
  What a step that begins no wait does: every wait it ends is answered, by its node's own answer or
  with \<open>Disconnected\<close>, or was given up.
\<close>

definition ends_waits :: "(u64 \<Rightarrow> name \<Rightarrow> answer \<Rightarrow> bool) \<Rightarrow> u64 set \<Rightarrow> calls \<Rightarrow> calls \<Rightarrow> bool" where
  "ends_waits ok given s s' \<longleftrightarrow> next_call s' = next_call s \<and>
     (\<exists>new. answers s' = answers s @ new \<and> distinct (map fst new) \<and>
       (\<forall>(i, a) \<in> set new. \<exists>node. map_of (pending_calls s) i = Some node \<and> ok i node a) \<and>
       map_of (pending_calls s') = (map_of (pending_calls s)) |` (- (fst ` set new \<union> given)))"

lemma ends_waits_refl: "ends_waits ok {} s s"
  by (auto simp: ends_waits_def restrict_map_def)

lemma ends_waits_trans:
  assumes "ends_waits ok g s t" "ends_waits ok h t u" shows "ends_waits ok (g \<union> h) s u"
proof -
  obtain new where new: "answers t = answers s @ new" "distinct (map fst new)"
      "\<forall>(i, a) \<in> set new. \<exists>node. map_of (pending_calls s) i = Some node \<and> ok i node a"
      "map_of (pending_calls t) = (map_of (pending_calls s)) |` (- (fst ` set new \<union> g))"
      "next_call t = next_call s"
    using assms(1) by (auto simp: ends_waits_def)
  obtain more where more: "answers u = answers t @ more" "distinct (map fst more)"
      "\<forall>(i, a) \<in> set more. \<exists>node. map_of (pending_calls t) i = Some node \<and> ok i node a"
      "map_of (pending_calls u) = (map_of (pending_calls t)) |` (- (fst ` set more \<union> h))"
      "next_call u = next_call t"
    using assms(2) by (auto simp: ends_waits_def)
  have old: "map_of (pending_calls s) i = Some node \<and> i \<notin> fst ` set new"
    if "map_of (pending_calls t) i = Some node" for i node
    using that by (simp add: new(4) restrict_map_def split: if_splits)
  have disj: "fst ` set more \<inter> fst ` set new = {}"
  proof (rule ccontr)
    assume "fst ` set more \<inter> fst ` set new \<noteq> {}"
    then obtain i where "i \<in> fst ` set more" and i: "i \<in> fst ` set new" by blast
    then obtain a where "(i, a) \<in> set more" by force
    then obtain node where "map_of (pending_calls t) i = Some node" using more(3) by blast
    then show False using old i by simp
  qed
  have "\<exists>node. map_of (pending_calls s) i = Some node \<and> ok i node a"
    if "(i, a) \<in> set (new @ more)" for i a
  proof (cases "(i, a) \<in> set new")
    case True
    then show ?thesis using new(3) by blast
  next
    case False
    then have "(i, a) \<in> set more" using that by simp
    then obtain node where "map_of (pending_calls t) i = Some node" "ok i node a"
      using more(3) by blast
    then show ?thesis using old by blast
  qed
  then have "\<forall>(i, a) \<in> set (new @ more). \<exists>node. map_of (pending_calls s) i = Some node \<and> ok i node a"
    by blast
  moreover have "map_of (pending_calls u) =
      (map_of (pending_calls s)) |` (- (fst ` set (new @ more) \<union> (g \<union> h)))"
    by (simp only: more(4) new(4) restrict_restrict set_append image_Un)
      (rule arg_cong, blast)
  moreover have "distinct (map fst (new @ more))" using new(2) more(2) disj by auto
  moreover have "answers u = answers s @ (new @ more)" "next_call u = next_call s"
    using new(1,5) more(1,5) by simp_all
  ultimately show ?thesis unfolding ends_waits_def by blast
qed

lemma ends_waits_mono:
  assumes "ends_waits ok g s t" "\<And>i node a. ok i node a \<Longrightarrow> ok' i node a"
  shows "ends_waits ok' g s t"
proof -
  obtain new where new: "answers t = answers s @ new" "distinct (map fst new)"
      "\<forall>(i, a) \<in> set new. \<exists>node. map_of (pending_calls s) i = Some node \<and> ok i node a"
      "map_of (pending_calls t) = (map_of (pending_calls s)) |` (- (fst ` set new \<union> g))"
      "next_call t = next_call s"
    using assms(1) by (auto simp: ends_waits_def)
  have "\<forall>(i, a) \<in> set new. \<exists>node. map_of (pending_calls s) i = Some node \<and> ok' i node a"
    using new(3) assms(2) by blast
  then show ?thesis unfolding ends_waits_def using new by blast
qed

lemma ends_waits_sub:
  "ends_waits ok g s t \<Longrightarrow> map_of (pending_calls t) i = Some node \<Longrightarrow>
    map_of (pending_calls s) i = Some node"
  by (elim ends_waits_def [THEN iffD1, THEN conjE] exE conjE)
    (simp add: restrict_map_def split: if_splits)

lemma ends_waits_remove: "ends_waits ok {i} s (pending_remove i s)"
  by (auto simp: ends_waits_def pending_remove_def restrict_map_def fun_eq_iff)

lemma ends_waits_answer:
  assumes "map_of (pending_calls s) i = Some node" "ok i node a"
  shows "ends_waits ok {} s (answer i a s)"
  unfolding ends_waits_def
  by (intro conjI exI [of _ "[(i, a)]"]) (use assms in \<open>auto simp: answer_def restrict_map_def fun_eq_iff\<close>)

definition disconnects :: "u64 \<Rightarrow> name \<Rightarrow> answer \<Rightarrow> bool" where
  "disconnects i node a \<longleftrightarrow> a = Inl ReplyDisconnected"

lemma fail_one_ends:
  "ends_waits (\<lambda>i n a. n = node \<and> disconnects i n a) {} s (fail_one node i s)"
  by (auto simp: fail_one_def disconnects_def ends_waits_refl intro: ends_waits_answer)

lemma fail_fold_ends:
  "ends_waits (\<lambda>i n a. n = node \<and> disconnects i n a) {} s (fold (fail_one node) is s)"
proof (induction "is" arbitrary: s)
  case (Cons i "is")
  from ends_waits_trans [OF fail_one_ends [of node s i] Cons.IH [of "fail_one node i s"]]
  show ?case by simp
qed (simp add: ends_waits_refl)

lemma fail_fold_gone:
  assumes "i \<in> set is" shows "map_of (pending_calls (fold (fail_one node) is s)) i \<noteq> Some node"
  using assms
proof (induction "is" arbitrary: s)
  case (Cons j "is")
  have "map_of (pending_calls (fail_one node i s)) i \<noteq> Some node" for s
    by (simp add: fail_one_def answer_def)
  moreover have "map_of (pending_calls (fold (fail_one node) is t)) i \<noteq> Some node"
    if "map_of (pending_calls t) i \<noteq> Some node" for t
    using ends_waits_sub [OF fail_fold_ends, of node "is" t i node] that by blast
  ultimately show ?case using Cons by (cases "i = j") auto
qed simp

lemma fail_node_ends: "ends_waits (\<lambda>i n a. n = node \<and> disconnects i n a) {} s (fail_node node s)"
  unfolding fail_node_def by (rule fail_fold_ends)

lemma fail_node_gone: "map_of (pending_calls (fail_node node s)) i \<noteq> Some node"
proof
  assume a: "map_of (pending_calls (fail_node node s)) i = Some node"
  then have "map_of (pending_calls s) i = Some node"
    by (rule ends_waits_sub [OF fail_node_ends])
  then have "i \<in> set (map fst (filter (\<lambda>(i, n). n = node) (pending_calls s)))"
    by (force dest: map_of_SomeD)
  from fail_fold_gone [OF this] a show False by (simp add: fail_node_def)
qed

lemma fail_all_step_ends:
  "ends_waits disconnects {} s
    (if map_of (pending_calls s) i = None then s else answer i (Inl ReplyDisconnected) s)"
  by (auto simp: disconnects_def ends_waits_refl intro: ends_waits_answer)

lemma fail_all_ends: "ends_waits disconnects {} s (fail_all s)"
proof -
  have "ends_waits disconnects {} s (fold (\<lambda>i s. if map_of (pending_calls s) i = None then s
     else answer i (Inl ReplyDisconnected) s) is s)" for "is"
  proof (induction "is" arbitrary: s)
    case (Cons i "is")
    from ends_waits_trans [OF fail_all_step_ends Cons.IH] show ?case by simp
  qed (simp add: ends_waits_refl)
  then show ?thesis by (simp add: fail_all_def)
qed

text \<open>What a step may answer a wait with.\<close>

fun reply_answer :: "remote_error + bytes \<Rightarrow> answer" where
  "reply_answer (Inl e) = Inl (RemoteReply e)"
| "reply_answer (Inr bytes) = Inr bytes"

definition may_answer :: "call_op list \<Rightarrow> u64 \<Rightarrow> name \<Rightarrow> answer \<Rightarrow> bool" where
  "may_answer ops i node a \<longleftrightarrow> a = Inl ReplyDisconnected \<or>
     (\<exists>result. OpComplete node i result \<in> set ops \<and> a = reply_answer result)"

lemma complete_ends:
  "ends_waits (may_answer [OpComplete node i result]) {} s (complete node i result s)"
proof (cases "map_of (pending_calls s) i = Some node")
  case True
  then have "complete node i result s = answer i (reply_answer result) s"
    by (cases result) (simp_all add: complete_def)
  moreover have "ends_waits (may_answer [OpComplete node i result]) {} s (answer i (reply_answer result) s)"
    using True by (rule ends_waits_answer) (simp add: may_answer_def)
  ultimately show ?thesis by simp
qed (simp add: complete_def ends_waits_refl)

lemma call_step_ends:
  assumes "\<nexists>i node. op = OpInsert i node"
  shows "ends_waits (may_answer [op]) {i. op = OpRemove i} s (call_step op s)"
proof (cases op)
  case (OpFailNode node)
  have "ends_waits (may_answer [op]) {} s (fail_node node s)"
    by (rule ends_waits_mono [OF fail_node_ends]) (simp add: may_answer_def disconnects_def)
  then show ?thesis by (simp add: OpFailNode)
next
  case OpFailAll
  have "ends_waits (may_answer [op]) {} s (fail_all s)"
    by (rule ends_waits_mono [OF fail_all_ends]) (simp add: may_answer_def disconnects_def)
  then show ?thesis by (simp add: OpFailAll)
qed (use assms in \<open>simp_all add: complete_ends ends_waits_remove\<close>)

lemma set_inserted: "set (inserted ops) = {i. \<exists>node. OpInsert i node \<in> set ops}"
proof (induction ops)
  case (Cons op ops)
  then show ?case by (cases op) auto
qed simp

lemma inserted_snoc:
  "inserted (ops @ [op]) = inserted ops @ (case op of OpInsert i node \<Rightarrow> [i] | _ \<Rightarrow> [])"
proof (induction ops)
  case Nil
  then show ?case by (cases op) auto
next
  case (Cons a ops)
  then show ?case by (cases a) auto
qed

definition waits_ok :: "call_op list \<Rightarrow> calls \<Rightarrow> bool" where
  "waits_ok ops s \<longleftrightarrow> distinct (map fst (answers s)) \<and>
     (\<forall>(i, a) \<in> set (answers s). \<exists>node. OpInsert i node \<in> set ops \<and> may_answer ops i node a) \<and>
     (\<forall>i node. map_of (pending_calls s) i = Some node \<longrightarrow>
        OpInsert i node \<in> set ops \<and> i \<notin> fst ` set (answers s)) \<and>
     (\<forall>i. (\<exists>node. OpInsert i node \<in> set ops) \<longrightarrow> map_of (pending_calls s) i \<noteq> None \<or>
        i \<in> fst ` set (answers s) \<or> OpRemove i \<in> set ops)"

lemma may_answer_mono: "may_answer ops i node a \<Longrightarrow> set ops \<subseteq> set ops' \<Longrightarrow> may_answer ops' i node a"
  by (auto simp: may_answer_def)

lemma waits_ok_ends:
  assumes "waits_ok ops s" "ends_waits (may_answer [op]) {i. op = OpRemove i} s t"
    "\<nexists>i node. op = OpInsert i node"
  shows "waits_ok (ops @ [op]) t"
proof -
  obtain new where new: "answers t = answers s @ new" "distinct (map fst new)"
      "\<forall>(i, a) \<in> set new. \<exists>node. map_of (pending_calls s) i = Some node \<and> may_answer [op] i node a"
      "map_of (pending_calls t) = (map_of (pending_calls s)) |` (- (fst ` set new \<union> {i. op = OpRemove i}))"
    using assms(2) by (auto simp: ends_waits_def)
  have p: "OpInsert i node \<in> set ops \<and> i \<notin> fst ` set (answers s)"
    if "map_of (pending_calls s) i = Some node" for i node
    using assms(1) that by (simp add: waits_ok_def)
  have fresh: "\<exists>node. OpInsert i node \<in> set ops \<and> may_answer (ops @ [op]) i node a \<and>
      i \<notin> fst ` set (answers s)" if i: "(i, a) \<in> set new" for i a
  proof -
    obtain node where n: "map_of (pending_calls s) i = Some node" "may_answer [op] i node a"
      using new(3) i by blast
    have "may_answer (ops @ [op]) i node a" by (rule may_answer_mono [OF n(2)]) auto
    then show ?thesis using p [OF n(1)] by blast
  qed
  have old: "\<exists>node. OpInsert i node \<in> set ops \<and> may_answer (ops @ [op]) i node a"
    if i: "(i, a) \<in> set (answers s)" for i a
  proof -
    obtain node where n: "OpInsert i node \<in> set ops" "may_answer ops i node a"
      using assms(1) i unfolding waits_ok_def by blast
    have "may_answer (ops @ [op]) i node a" by (rule may_answer_mono [OF n(2)]) auto
    then show ?thesis using n(1) by blast
  qed
  have "fst ` set new \<inter> fst ` set (answers s) = {}"
  proof (rule ccontr)
    assume "fst ` set new \<inter> fst ` set (answers s) \<noteq> {}"
    then obtain i where "i \<in> fst ` set new" "i \<in> fst ` set (answers s)" by blast
    moreover from this obtain a where "(i, a) \<in> set new" by force
    ultimately show False using fresh by blast
  qed
  then have "distinct (map fst (answers t))"
    using assms(1) new(1,2) by (auto simp: waits_ok_def)
  moreover have "\<forall>(i, a) \<in> set (answers t). \<exists>node. OpInsert i node \<in> set (ops @ [op]) \<and>
      may_answer (ops @ [op]) i node a"
  proof (intro ballI, clarify)
    fix i a assume "(i, a) \<in> set (answers t)"
    then consider "(i, a) \<in> set (answers s)" | "(i, a) \<in> set new" using new(1) by auto
    then show "\<exists>node. OpInsert i node \<in> set (ops @ [op]) \<and> may_answer (ops @ [op]) i node a"
      using fresh old by cases (metis UnI1 set_append)+
  qed
  moreover have "OpInsert i node \<in> set (ops @ [op]) \<and> i \<notin> fst ` set (answers t)"
    if "map_of (pending_calls t) i = Some node" for i node
    using that p [of i node] new(1,4) by (auto simp: restrict_map_def split: if_splits)
  moreover have "map_of (pending_calls t) i \<noteq> None \<or> i \<in> fst ` set (answers t) \<or>
      OpRemove i \<in> set (ops @ [op])" if "\<exists>node. OpInsert i node \<in> set (ops @ [op])" for i
  proof -
    have "map_of (pending_calls s) i \<noteq> None \<or> i \<in> fst ` set (answers s) \<or> OpRemove i \<in> set ops"
      using that assms(1,3) by (auto simp: waits_ok_def)
    then show ?thesis using new(1,4) by (auto simp: restrict_map_def)
  qed
  ultimately show ?thesis unfolding waits_ok_def by blast
qed

lemma waits_ok_insert:
  assumes "waits_ok ops s" "i \<notin> set (inserted ops)"
  shows "waits_ok (ops @ [OpInsert i node]) (pending_insert i node s)"
proof -
  have "map_of (pending_calls s) i = None"
  proof (cases "map_of (pending_calls s) i")
    case (Some n)
    then have "OpInsert i n \<in> set ops" using assms(1) by (simp add: waits_ok_def)
    then show ?thesis using assms(2) by (auto simp: set_inserted)
  qed
  moreover have "i \<notin> fst ` set (answers s)"
  proof
    assume "i \<in> fst ` set (answers s)"
    then obtain a where "(i, a) \<in> set (answers s)" by force
    then obtain n where "OpInsert i n \<in> set ops" using assms(1) unfolding waits_ok_def by blast
    then show False using assms(2) by (auto simp: set_inserted)
  qed
  moreover have "\<forall>(j, a) \<in> set (answers s). \<exists>n. OpInsert j n \<in> set (ops @ [OpInsert i node]) \<and>
      may_answer (ops @ [OpInsert i node]) j n a"
  proof (intro ballI, clarify)
    fix j a assume "(j, a) \<in> set (answers s)"
    then obtain n where "OpInsert j n \<in> set ops" "may_answer ops j n a"
      using assms(1) unfolding waits_ok_def by blast
    then show "\<exists>n. OpInsert j n \<in> set (ops @ [OpInsert i node]) \<and>
        may_answer (ops @ [OpInsert i node]) j n a"
      using may_answer_mono [of ops j n a "ops @ [OpInsert i node]"] by auto
  qed
  ultimately show ?thesis using assms(1) unfolding waits_ok_def pending_insert_def by auto
qed

lemma waits_ok_run: "distinct (inserted ops) \<Longrightarrow> waits_ok ops (fold call_step ops calls_new)"
proof (induction ops rule: rev_induct)
  case Nil
  then show ?case by (simp add: waits_ok_def calls_new_def)
next
  case (snoc op ops)
  then have IH: "waits_ok ops (fold call_step ops calls_new)" by (simp add: inserted_snoc)
  show ?case
  proof (cases "\<exists>i node. op = OpInsert i node")
    case True
    then show ?thesis using waits_ok_insert [OF IH] snoc.prems by (auto simp: inserted_snoc)
  next
    case False
    then show ?thesis using waits_ok_ends [OF IH call_step_ends] by simp
  qed
qed

section \<open>What sending leaves behind\<close>

lemma map_of_pending_insert [simp]:
  "map_of (pending_calls (pending_insert i node s)) = (map_of (pending_calls s))(i \<mapsto> node)"
  by (simp add: pending_insert_def answer_def Let_def)

lemma map_of_pending_remove [simp]:
  "map_of (pending_calls (pending_remove i s)) = (map_of (pending_calls s))(i := None)"
  by (simp add: pending_remove_def)

lemma next_call_simps [simp]:
  "next_call (pending_insert i node s) = next_call s" "next_call (pending_remove i s) = next_call s"
  by (simp_all add: pending_insert_def answer_def Let_def pending_remove_def)

lemma drop_exports_pending:
  "map_of (pending_calls (drop_exports ids s)) = (map_of (pending_calls s)) |` (- set ids)"
proof (induction ids arbitrary: s)
  case (Cons i ids)
  then show ?case by (auto simp: drop_exports_def restrict_map_def fun_eq_iff)
qed (simp add: drop_exports_def restrict_map_def fun_eq_iff)

lemma export_requests_spec:
  assumes "export_requests n peer s = (ids, t)"
  shows "length ids = n \<and> set ids = (\<lambda>k. next_call s + of_nat k) ` {..<n} \<and>
    next_call t = next_call s + of_nat n \<and>
    map_of (pending_calls t) = (\<lambda>i. if i \<in> set ids then Some peer else map_of (pending_calls s) i)"
  using assms
proof (induction n arbitrary: s ids t)
  case (Suc n)
  define u where "u = pending_insert (next_call s) peer (s\<lparr>next_call := next_call s + 1\<rparr>)"
  obtain js where e: "export_requests n peer u = (js, t)" "ids = next_call s # js"
    using Suc.prems by (auto simp: mint_def Let_def u_def prod_eq_iff)
  have u: "next_call u = next_call s + 1"
    "map_of (pending_calls u) = (map_of (pending_calls s))(next_call s \<mapsto> peer)"
    by (simp_all add: u_def pending_insert_def answer_def Let_def)
  have "(\<lambda>k. next_call s + of_nat k) ` {..<Suc n} =
      insert (next_call s) ((\<lambda>k. next_call s + 1 + of_nat k) ` {..<n})"
    by (simp add: lessThan_Suc_eq_insert_0 image_image ac_simps)
  then show ?case using Suc.IH [OF e(1)] by (auto simp: e(2) u fun_eq_iff add.assoc)
qed simp

text \<open>The numbers that a message with \<open>n\<close> requests takes are not in use.\<close>

definition unused :: "nat \<Rightarrow> calls \<Rightarrow> bool" where
  "unused n s \<longleftrightarrow> (\<forall>k \<le> n. map_of (pending_calls s) (next_call s + of_nat k) = None)"

lemma unused_exports:
  assumes "export_requests n peer s = (ids, t)" "unused n s"
  shows "\<forall>i \<in> set ids. map_of (pending_calls s) i = None"
    "map_of (pending_calls s) (next_call t) = None"
  using export_requests_spec [OF assms(1)] assms(2) by (auto simp: unused_def)

lemma restrict_unused: "\<forall>i \<in> A. m i = None \<Longrightarrow> (\<lambda>i. if i \<in> A then x else m i) |` (- A) = m"
  by (auto simp: restrict_map_def fun_eq_iff)

section \<open>Properties\<close>

text \<open>C17: a call, or a request that went along in a message, is answered at most once, and only by the node
  it went to or with \<open>Disconnected\<close>; and none is forgotten: each is answered, given up by its
  waiter, or still waiting. The numbers they go by are distinct until the counter wraps.\<close>

theorem every_wait_ends_once:
  assumes "distinct (inserted ops)" "s = fold call_step ops calls_new"
  shows "distinct (map fst (answers s)) \<and>
    (\<forall>i a. (i, a) \<in> set (answers s) \<longrightarrow> map_of (pending_calls s) i = None \<and>
       (\<exists>node. OpInsert i node \<in> set ops \<and> (a = Inl ReplyDisconnected \<or>
          (\<exists>result. OpComplete node i result \<in> set ops \<and> a = reply_answer result)))) \<and>
    (\<forall>i node. OpInsert i node \<in> set ops \<longrightarrow> map_of (pending_calls s) i \<noteq> None \<or>
       i \<in> fst ` set (answers s) \<or> OpRemove i \<in> set ops)"
proof -
  have ok: "waits_ok ops s" using waits_ok_run [OF assms(1)] assms(2) by simp
  have 1: "map_of (pending_calls s) i = None" if "(i, a) \<in> set (answers s)" for i a
  proof (cases "map_of (pending_calls s) i")
    case (Some node)
    then have "i \<notin> fst ` set (answers s)" using ok by (simp add: waits_ok_def)
    then show ?thesis using that by force
  qed
  have 2: "\<exists>node. OpInsert i node \<in> set ops \<and> (a = Inl ReplyDisconnected \<or>
      (\<exists>result. OpComplete node i result \<in> set ops \<and> a = reply_answer result))"
    if "(i, a) \<in> set (answers s)" for i a
    using ok that unfolding waits_ok_def may_answer_def by blast
  have 3: "map_of (pending_calls s) i \<noteq> None \<or> i \<in> fst ` set (answers s) \<or>
      OpRemove i \<in> set ops" if "OpInsert i node \<in> set ops" for i node
    using ok that unfolding waits_ok_def by blast
  show ?thesis
    by (intro conjI allI impI 1 2 3) (use ok in \<open>simp_all add: waits_ok_def\<close>)
qed

theorem every_wait_ends_once_witness:
  "answers (fold call_step [OpInsert 1 ''b'', OpInsert 2 ''b'', OpInsert 3 ''c'', OpComplete ''c'' 1 (Inr [9]),
      OpComplete ''b'' 1 (Inr [7]), OpFailNode ''b'', OpComplete ''b'' 2 (Inr [8])] calls_new) =
     [(1, Inr [7]), (2, Inl ReplyDisconnected)] \<and> distinct (map fst [(1::u64, ()), (2, ())])"
proof -
  have e: "answers (fold call_step [OpInsert 1 ''b'', OpInsert 2 ''b'', OpInsert 3 ''c'',
      OpComplete ''c'' 1 (Inr [9]), OpComplete ''b'' 1 (Inr [7]), OpFailNode ''b'',
      OpComplete ''b'' 2 (Inr [8])] calls_new) = [(1, Inr [7]), (2, Inl ReplyDisconnected)]"
    by code_simp
  have "distinct (inserted [OpInsert 1 ''b'', OpInsert 2 ''b'', OpInsert 3 ''c'',
      OpComplete ''c'' 1 (Inr [9]), OpComplete ''b'' 1 (Inr [7]), OpFailNode ''b'',
      OpComplete ''b'' 2 (Inr [8])])" by simp
  from every_wait_ends_once [OF this refl] e show ?thesis by simp
qed

text \<open>A message that could not be sent, for whatever reason, leaves nothing behind that waits for an
  answer: neither the call nor any request that encoding it handed over. The counter has not come back
  to a number still in use.\<close>

theorem unsent_message_leaves_nothing_waiting:
  assumes "cast_remote running c node out lane s = (Inl e, s')" "unused (out_requests out) s"
  shows "map_of (pending_calls s') = map_of (pending_calls s)"
proof -
  obtain ids t where x: "export_requests (out_requests out) node s = (ids, t)" by fastforce
  note none = unused_exports [OF x assms(2)]
  have t: "map_of (pending_calls t) = (\<lambda>i. if i \<in> set ids then Some node else map_of (pending_calls s) i)"
    using export_requests_spec [OF x] by simp
  have forgets: "map_of (pending_calls (drop_exports ids u)) = map_of (pending_calls s)"
    if "map_of (pending_calls u) = map_of (pending_calls t)" for u
    using none(1) by (simp add: drop_exports_pending that t restrict_unused)
  have call: "map_of (pending_calls (drop_exports ids (pending_insert (next_call t) node u))) =
      (map_of (pending_calls s))(next_call t := (if next_call t \<in> set ids then None else Some node))"
    if "map_of (pending_calls u) = map_of (pending_calls t)" for u
    using none by (auto simp: drop_exports_pending that t restrict_map_def fun_eq_iff)
  show ?thesis using assms(1) none(2)
    by (auto simp: cast_remote_def prepare_def x mint_def Let_def forgets call fun_upd_idem
        split: if_splits sum.splits lane_result.splits)
qed

definition example_cluster :: cluster where
  "example_cluster = member_up (example_member ''b'' 1) (cluster_new (example_member ''a'' 1))"

definition example_out :: outgoing where
  "example_out = \<lparr>out_target = ''counter'', out_msg = 5, out_requests = Suc (Suc 0), out_payload = Inr [1, 2],
     out_replies = True\<rparr>"

lemma example_cluster_member:
  "member ''b'' example_cluster = Some (example_member ''b'' 1)" "is_reachable ''b'' example_cluster"
  by (simp_all add: example_cluster_def cluster_defs cluster_new_def example_member_def is_reachable_def)

lemma length_encode_example:
  "length (encode (MessageFrame call ''counter'' 5 [3, 4] [1, 2])) = (if call = None then 47 else 55)"
  by (simp add: put_call_id_def put_target_def put_u16_def put_u128_def put_u64_def put_u8_def
      split: option.split)

theorem unsent_message_leaves_nothing_waiting_witness:
  "\<exists>s'. cast_remote True example_cluster ''b'' example_out LaneWasFull (calls_new\<lparr>next_call := 3\<rparr>) =
      (Inl LaneFull, s') \<and> map_of (pending_calls s') = Map.empty \<and> next_call s' = 6"
proof -
  obtain r s' where c: "cast_remote True example_cluster ''b'' example_out LaneWasFull
      (calls_new\<lparr>next_call := 3\<rparr>) = (r, s')" by fastforce
  then have "r = Inl LaneFull \<and> next_call s' = 6"
    by (simp add: cast_remote_def prepare_def example_cluster_member example_out_def mint_def Let_def
        pending_insert_def calls_new_def length_encode_example
        max_frame_size_def drop_exports_def pending_remove_def answer_def imap_shift_remove_def
        del: encode.simps) auto
  with c unsent_message_leaves_nothing_waiting [of True example_cluster "''b''" example_out LaneWasFull
      "calls_new\<lparr>next_call := 3\<rparr>" LaneFull s']
  show ?thesis by (simp add: unused_def calls_new_def)
qed

text \<open>A message that was sent fits the limit, its receiver decodes the frame to that very message, and
  everything in it that expects an answer, the call and each request, waits for the node it went to.\<close>

theorem sent_message_waits_for_its_answers:
  assumes "cast_remote running c node out lane s = (Inr p, s')" "name_fits (out_target out)"
    and "out_requests out < 65536" "unused (out_requests out) s"
  shows "length (prep_frame p) \<le> max_frame_size \<and>
    (\<exists>payload. out_payload out = Inr payload \<and> decode (prep_frame p) = Some (Some
       (MessageFrame (prep_call p) (out_target out) (out_msg out) (prep_exports p) payload))) \<and>
    (\<forall>i \<in> set (prep_exports p) \<union> set_option (prep_call p).
       map_of (pending_calls s') i = Some node) \<and>
    length (prep_exports p) = out_requests out \<and> (prep_call p \<noteq> None \<longleftrightarrow> out_replies out)"
proof -
  obtain ids t where x: "export_requests (out_requests out) node s = (ids, t)" by fastforce
  note spec = export_requests_spec [OF x]
  have ids: "length ids = out_requests out" "length ids < 65536" using spec assms(3) by simp_all
  show ?thesis using assms(1,2) spec ids
    by (auto simp: cast_remote_def prepare_def x mint_def Let_def decode_message_iff
        simp del: encode.simps split: if_splits sum.splits lane_result.splits)
qed

theorem sent_message_waits_for_its_answers_witness:
  "\<exists>p s'. cast_remote True example_cluster ''b'' example_out LaneTook (calls_new\<lparr>next_call := 3\<rparr>) =
      (Inr p, s') \<and> map_of (pending_calls s') 4 = Some ''b'' \<and>
    decode (prep_frame p) = Some (Some (MessageFrame (Some 5) ''counter'' 5 [3, 4] [1, 2]))"
proof -
  obtain r s' where c: "cast_remote True example_cluster ''b'' example_out LaneTook
      (calls_new\<lparr>next_call := 3\<rparr>) = (r, s')" by fastforce
  then have "\<exists>p. r = Inr p \<and> prep_exports p = [3, 4] \<and> prep_call p = Some 5"
    by (simp add: cast_remote_def prepare_def example_cluster_member example_out_def mint_def Let_def
        pending_insert_def calls_new_def length_encode_example
        max_frame_size_def del: encode.simps) auto
  then obtain p where p: "r = Inr p" "prep_exports p = [3, 4]" "prep_call p = Some 5" by blast
  have "name_fits (out_target example_out)"
    by (simp add: example_out_def name_fits_def as_bytes_def utf8_valid_ascii del: utf8_valid.simps)
  with c p sent_message_waits_for_its_answers [of True example_cluster "''b''" example_out LaneTook
      "calls_new\<lparr>next_call := 3\<rparr>" p s']
  show ?thesis by (simp add: unused_def calls_new_def example_out_def)
qed

end
