(* ===== verification/Remote_Delivery.thy ===== *)
theory Remote_Delivery
  imports Remote_Calls
begin

text \<open>
  The receiving side of messages between actors (distr/src/messaging): the messages a node accepts
  (dispatch.rs), and how those that arrive are put in order for the local actors, refused, delivered
  and answered (receive.rs).

  The tasks of the router are interleaved step by step; what handing a message to its actor results in
  is an input of the step that does it.
\<close>

section \<open>Handlers\<close>

record registered_handler =
  rh_type :: type_id
  rh_bypasses :: bool

record handlers =
  by_id :: "(u128 \<times> registered_handler) list"
  by_type :: "(type_id \<times> u128) list"

text \<open>\<open>None\<close> is the panic of two types that claim one id.\<close>

definition claim :: "u128 \<Rightarrow> type_id \<Rightarrow> bool \<Rightarrow> handlers \<Rightarrow> handlers option" where
  "claim i ty bypasses h =
     (let registered = Some (h\<lparr>by_id := imap_insert i
        \<lparr>rh_type = ty, rh_bypasses = bypasses\<rparr> (by_id h)\<rparr>) in
      case map_of (by_id h) i of
        Some taken \<Rightarrow> if rh_type taken = ty then registered else None
      | None \<Rightarrow> registered)"

definition insert_handler :: "u128 \<Rightarrow> type_id \<Rightarrow> handlers \<Rightarrow> handlers option" where
  "insert_handler i ty h = map_option (\<lambda>h. h\<lparr>by_type := imap_insert ty i (by_type h)\<rparr>) (claim i ty False h)"

definition insert_op :: "u128 \<Rightarrow> type_id \<Rightarrow> handlers \<Rightarrow> handlers option" where
  "insert_op i ty h = claim i ty True h"

fun register_all :: "(u128 \<times> type_id \<times> bool) list \<Rightarrow> handlers \<Rightarrow> handlers option" where
  "register_all [] h = Some h"
| "register_all ((i, ty, is_op) # others) h =
     (case (if is_op then insert_op i ty h else insert_handler i ty h) of
        None \<Rightarrow> None
      | Some h \<Rightarrow> register_all others h)"

definition op_id :: "nat \<Rightarrow> u128" where
  "op_id n = 0xb5c3f7a05f0e4b0f9f7e2f6c1f0a0000 + word_of_nat n"

text \<open>The built-in operations: signal, ping, info, monitor, demonitor, state and accepts.\<close>

definition builtin_ops :: "(u128 \<times> type_id \<times> bool) list" where
  "builtin_ops = map (\<lambda>n. (op_id n, n, True)) [1, 2, 3, 6, 7, 4, 5]"

definition handlers_new :: "handlers option" where
  "handlers_new = register_all builtin_ops \<lparr>by_id = [], by_type = []\<rparr>"

definition get_handler :: "u128 \<Rightarrow> handlers \<Rightarrow> registered_handler option" where
  "get_handler i h = map_of (by_id h) i"

definition registered_ids :: "type_id list \<Rightarrow> handlers \<Rightarrow> u128 list" where
  "registered_ids tys h = sort (List.map_filter (map_of (by_type h)) tys)"

definition accepts_ids :: "type_id list \<Rightarrow> u128 list \<Rightarrow> handlers \<Rightarrow> bool" where
  "accepts_ids tys ids h = (let accepted = registered_ids tys h in
     list_all (\<lambda>i. i \<in> set accepted) ids)"

section \<open>What waits for one actor\<close>

definition actor_queue_messages :: nat where
  "actor_queue_messages = 100000"

definition actor_queue_bytes :: nat where
  "actor_queue_bytes = 16 * 1024 * 1024"

record queued =
  q_messages :: nat
  q_bytes :: nat

definition admit :: "nat \<Rightarrow> queued \<Rightarrow> bool \<times> queued" where
  "admit len q =
     (if 0 < q_messages q \<and>
         (actor_queue_messages \<le> q_messages q \<or> actor_queue_bytes < q_bytes q + len)
      then (False, q)
      else (True, \<lparr>q_messages = q_messages q + 1, q_bytes = q_bytes q + len\<rparr>))"

definition release :: "nat \<Rightarrow> queued \<Rightarrow> queued" where
  "release len q = \<lparr>q_messages = q_messages q - 1, q_bytes = q_bytes q - len\<rparr>"

record work =
  wk_from :: name
  wk_msg :: u128
  wk_requests :: "u64 list"
  wk_payload :: bytes
  wk_call :: "u64 option"

definition awaited :: "work \<Rightarrow> u64 list" where
  "awaited w = (case wk_call w of Some call \<Rightarrow> [call] | None \<Rightarrow> []) @ wk_requests w"

section \<open>Replies\<close>

text \<open>A reply goes to a member, and one that is too large goes out as an error instead.\<close>

definition reply_frame :: "u64 \<Rightarrow> remote_error + bytes \<Rightarrow> bytes" where
  "reply_frame call result =
     (let frame = encode (ReplyFrame call result) in
      if max_frame_size < length frame then encode (ReplyFrame call (Inl TooLarge)) else frame)"

definition reply :: "cluster \<Rightarrow> name \<Rightarrow> u64 \<Rightarrow> remote_error + bytes \<Rightarrow> (name \<times> bytes) list" where
  "reply c node call result =
     (if member node c = None then [] else [(node, reply_frame call result)])"

definition refuse_work :: "cluster \<Rightarrow> work \<Rightarrow> remote_error \<Rightarrow> (name \<times> bytes) list" where
  "refuse_work c w e = concat (map (\<lambda>call.
     if member (wk_from w) c = None then []
     else [(wk_from w, encode (ReplyFrame call (Inl e)))]) (awaited w))"

text \<open>What handing the message over gives: an error, nothing to wait for, or the actor's result.\<close>

datatype handed = HandedError remote_error | HandedOver | HandedAnswer "remote_error + bytes"

definition process :: "cluster \<Rightarrow> work \<Rightarrow> handed \<Rightarrow> (name \<times> bytes) list" where
  "process c w outcome = (case outcome of
       HandedAnswer result \<Rightarrow>
         (case wk_call w of Some call \<Rightarrow> reply c (wk_from w) call result | None \<Rightarrow> [])
     | HandedOver \<Rightarrow> []
     | HandedError e \<Rightarrow> concat (map (\<lambda>call. reply c (wk_from w) call (Inl e)) (awaited w)))"

text \<open>The handler's part of it: whether there is one, and an actor of that name.\<close>

definition deliver_work :: "handlers \<Rightarrow> bool \<Rightarrow> work \<Rightarrow> handed \<Rightarrow> handed" where
  "deliver_work h actor_exists w outcome =
     (if get_handler (wk_msg w) h = None then HandedError UnknownMessage
      else if \<not> actor_exists then HandedError NoSuchActor
      else outcome)"

section \<open>The router and the tasks of the actors\<close>

record actor_task =
  at_name :: name
  at_queue :: "work list"
  at_queued :: queued
  at_closing :: bool \<comment> \<open>its wait timed out, the queue is not closed yet\<close>
  at_closed :: bool
  at_held :: "work option" \<comment> \<open>taken, being handed over\<close>

record router =
  rt_routes :: "(name \<times> nat) list"
  rt_tasks :: "actor_task list"
  rt_spawned :: "(name \<times> work) list" \<comment> \<open>tasks of their own, for operations\<close>
  rt_accepted :: "(name \<times> work) list"
  rt_delivered :: "(name \<times> work) list"
  rt_sent :: "(name \<times> bytes) list"

definition router_new :: router where
  "router_new = \<lparr>rt_routes = [], rt_tasks = [], rt_spawned = [], rt_accepted = [], rt_delivered = [],
     rt_sent = []\<rparr>"

definition new_task :: "name \<Rightarrow> work \<Rightarrow> actor_task" where
  "new_task target w = \<lparr>at_name = target, at_queue = [w],
     at_queued = snd (admit (length (wk_payload w)) \<lparr>q_messages = 0, q_bytes = 0\<rparr>),
     at_closing = False, at_closed = False, at_held = None\<rparr>"

definition retain_open :: "router \<Rightarrow> router" where
  "retain_open r =
     (if 1024 \<le> length (rt_routes r)
      then r\<lparr>rt_routes := filter (\<lambda>(n, k). \<not> at_closed (rt_tasks r ! k)) (rt_routes r)\<rparr> else r)"

definition start_task :: "name \<Rightarrow> work \<Rightarrow> router \<Rightarrow> router" where
  "start_task target w r =
     (let r = retain_open r in
      r\<lparr>rt_tasks := rt_tasks r @ [new_task target w],
        rt_routes := imap_insert target (length (rt_tasks r)) (rt_routes r),
        rt_accepted := rt_accepted r @ [(target, w)]\<rparr>)"

definition route :: "cluster \<Rightarrow> handlers \<Rightarrow> name \<Rightarrow> work \<Rightarrow> router \<Rightarrow> router" where
  "route c h target w r =
     (if (case get_handler (wk_msg w) h of Some rh \<Rightarrow> rh_bypasses rh | None \<Rightarrow> False)
      then r\<lparr>rt_spawned := rt_spawned r @ [(target, w)]\<rparr>
      else case map_of (rt_routes r) target of
        None \<Rightarrow> start_task target w r
      | Some k \<Rightarrow>
          (let t = rt_tasks r ! k; admitted = admit (length (wk_payload w)) (at_queued t) in
           if \<not> fst admitted then r\<lparr>rt_sent := rt_sent r @ refuse_work c w Overloaded\<rparr>
           else if at_closed t
           then start_task target w (r\<lparr>rt_tasks := (rt_tasks r)[k := t\<lparr>at_queued :=
             release (length (wk_payload w)) (snd admitted)\<rparr>]\<rparr>)
           else r\<lparr>rt_tasks := (rt_tasks r)[k := t\<lparr>at_queue := at_queue t @ [w],
                    at_queued := snd admitted\<rparr>],
                  rt_accepted := rt_accepted r @ [(target, w)]\<rparr>))"

definition on_task :: "nat \<Rightarrow> (actor_task \<Rightarrow> actor_task) \<Rightarrow> router \<Rightarrow> router" where
  "on_task k f r = r\<lparr>rt_tasks := (rt_tasks r)[k := f (rt_tasks r ! k)]\<rparr>"

text \<open>
  A task waits for a message, takes one and hands it over; when its wait times out it closes its queue,
  which the router may still have used in between.
\<close>

definition task_times_out :: "nat \<Rightarrow> router \<Rightarrow> router" where
  "task_times_out k r =
     (let t = rt_tasks r ! k in
      if k < length (rt_tasks r) \<and> at_queue t = [] \<and> at_held t = None \<and> \<not> at_closed t
      then on_task k (\<lambda>t. t\<lparr>at_closing := True\<rparr>) r else r)"

definition task_closes :: "nat \<Rightarrow> router \<Rightarrow> router" where
  "task_closes k r =
     (if k < length (rt_tasks r) \<and> at_closing (rt_tasks r ! k)
      then on_task k (\<lambda>t. t\<lparr>at_closing := False, at_closed := True\<rparr>) r else r)"

definition task_takes :: "nat \<Rightarrow> router \<Rightarrow> router" where
  "task_takes k r =
     (let t = rt_tasks r ! k in
      if k < length (rt_tasks r) \<and> at_held t = None \<and> \<not> at_closing t
      then (case at_queue t of
          [] \<Rightarrow> r
        | w # ws \<Rightarrow> on_task k (\<lambda>t. t\<lparr>at_queue := ws, at_held := Some w,
            at_queued := release (length (wk_payload w)) (at_queued t)\<rparr>) r)
      else r)"

definition task_hands_over :: "cluster \<Rightarrow> nat \<Rightarrow> handed \<Rightarrow> router \<Rightarrow> router" where
  "task_hands_over c k outcome r =
     (let t = rt_tasks r ! k in
      if k < length (rt_tasks r)
      then (case at_held t of
          None \<Rightarrow> r
        | Some w \<Rightarrow> (on_task k (\<lambda>t. t\<lparr>at_held := None\<rparr>) r)
            \<lparr>rt_delivered := rt_delivered r @ [(at_name t, w)],
             rt_sent := rt_sent r @ process c w outcome\<rparr>)
      else r)"

definition spawned_runs :: "cluster \<Rightarrow> nat \<Rightarrow> handed \<Rightarrow> router \<Rightarrow> router" where
  "spawned_runs c i outcome r =
     (if i < length (rt_spawned r)
      then r\<lparr>rt_spawned := take i (rt_spawned r) @ drop (Suc i) (rt_spawned r),
             rt_sent := rt_sent r @ process c (snd (rt_spawned r ! i)) outcome\<rparr>
      else r)"

datatype router_event =
    Route name work | TimesOut nat | Closes nat | Takes nat | HandsOver nat handed
  | SpawnedRuns nat handed

fun router_step :: "cluster \<Rightarrow> handlers \<Rightarrow> router_event \<Rightarrow> router \<Rightarrow> router" where
  "router_step c h (Route target w) r = route c h target w r"
| "router_step c h (TimesOut k) r = task_times_out k r"
| "router_step c h (Closes k) r = task_closes k r"
| "router_step c h (Takes k) r = task_takes k r"
| "router_step c h (HandsOver k outcome) r = task_hands_over c k outcome r"
| "router_step c h (SpawnedRuns i outcome) r = spawned_runs c i outcome r"

section \<open>Order and bounds\<close>

text \<open>The messages that an actor's task still has to hand over, in order.\<close>

definition waiting_at :: "nat \<Rightarrow> router \<Rightarrow> work list" where
  "waiting_at k r = (case at_held (rt_tasks r ! k) of Some w \<Rightarrow> [w] | None \<Rightarrow> []) @
     at_queue (rt_tasks r ! k)"

definition waiting_for :: "name \<Rightarrow> router \<Rightarrow> work list" where
  "waiting_for target r =
     (case map_of (rt_routes r) target of Some k \<Rightarrow> waiting_at k r | None \<Rightarrow> [])"

definition only :: "name \<Rightarrow> (name \<times> work) list \<Rightarrow> work list" where
  "only target ws = map snd (filter (\<lambda>(n, w). n = target) ws)"

text \<open>Nothing arrives for the actor while its task is between giving up waiting and closing its queue.\<close>

definition calm :: "name \<Rightarrow> router_event \<Rightarrow> router \<Rightarrow> bool" where
  "calm target e r \<longleftrightarrow> (case e of
       Route n w \<Rightarrow> n \<noteq> target \<or> (case map_of (rt_routes r) target of
           Some k \<Rightarrow> \<not> at_closing (rt_tasks r ! k)
         | None \<Rightarrow> True)
     | _ \<Rightarrow> True)"

fun router_run :: "cluster \<Rightarrow> handlers \<Rightarrow> router_event list \<Rightarrow> router \<Rightarrow> router" where
  "router_run c h [] r = r"
| "router_run c h (e # es) r = router_run c h es (router_step c h e r)"

fun calm_run :: "name \<Rightarrow> cluster \<Rightarrow> handlers \<Rightarrow> router_event list \<Rightarrow> router \<Rightarrow> bool" where
  "calm_run target c h [] r \<longleftrightarrow> True"
| "calm_run target c h (e # es) r \<longleftrightarrow> calm target e r \<and> calm_run target c h es (router_step c h e r)"

definition task_ok :: "actor_task \<Rightarrow> bool" where
  "task_ok t \<longleftrightarrow>
     q_messages (at_queued t) = length (at_queue t) \<and>
     q_bytes (at_queued t) = sum_list (map (length \<circ> wk_payload) (at_queue t)) \<and>
     length (at_queue t) \<le> actor_queue_messages \<and>
     (q_bytes (at_queued t) \<le> actor_queue_bytes \<or> length (at_queue t) \<le> 1)"

definition idle :: "actor_task \<Rightarrow> bool" where
  "idle t \<longleftrightarrow> at_queue t = [] \<and> at_held t = None"

definition routes_ok :: "router \<Rightarrow> bool" where
  "routes_ok r \<longleftrightarrow> distinct (map fst (rt_routes r)) \<and>
     (\<forall>n k. map_of (rt_routes r) n = Some k \<longrightarrow> k < length (rt_tasks r) \<and> at_name (rt_tasks r ! k) = n) \<and>
     list_all task_ok (rt_tasks r)"

text \<open>A task of the actor that is closing has nothing left to do, and only one task has anything.\<close>

definition order_ok :: "name \<Rightarrow> router \<Rightarrow> bool" where
  "order_ok target r \<longleftrightarrow>
     (\<forall>k < length (rt_tasks r). at_name (rt_tasks r ! k) = target \<longrightarrow>
        (at_closing (rt_tasks r ! k) \<or> at_closed (rt_tasks r ! k) \<longrightarrow> idle (rt_tasks r ! k)) \<and>
        (map_of (rt_routes r) target = Some k \<or> idle (rt_tasks r ! k))) \<and>
     only target (rt_delivered r) @ waiting_for target r = only target (rt_accepted r)"

lemma only_append [simp]: "only target (xs @ ys) = only target xs @ only target ys"
  by (simp add: only_def)

lemma only_Cons [simp]:
  "only target ((n, w) # ws) = (if n = target then w # only target ws else only target ws)"
  by (simp add: only_def)

lemma only_Nil [simp]: "only target [] = []"
  by (simp add: only_def)

lemma admit_ok:
  assumes "task_ok t" "admit (length (wk_payload w)) (at_queued t) = (True, q)"
  shows "task_ok (t\<lparr>at_queue := at_queue t @ [w], at_queued := q\<rparr>)"
  using assms by (auto simp: task_ok_def admit_def actor_queue_messages_def split: if_splits)

lemma release_ok:
  assumes "task_ok t" "at_queue t = w # ws"
  shows "task_ok (t\<lparr>at_queue := ws, at_held := h, at_queued := release (length (wk_payload w)) (at_queued t)\<rparr>)"
  using assms by (auto simp: task_ok_def release_def)

lemma admit_release: "admit len q = (True, q') \<Longrightarrow> release len q' = q"
  by (auto simp: admit_def release_def split: if_splits)

lemma new_task_ok: "task_ok (new_task target w)"
  by (simp add: new_task_def task_ok_def admit_def actor_queue_messages_def)

text \<open>A change of one task.\<close>

lemma on_task_fields [simp]:
  "rt_routes (on_task k f r) = rt_routes r" "rt_spawned (on_task k f r) = rt_spawned r"
  "rt_accepted (on_task k f r) = rt_accepted r" "rt_delivered (on_task k f r) = rt_delivered r"
  "rt_tasks (on_task k f r) = (rt_tasks r)[k := f (rt_tasks r ! k)]"
  by (simp_all add: on_task_def)

lemma routes_ok_task:
  assumes "routes_ok r" "k < length (rt_tasks r)" "task_ok t" "at_name t = at_name (rt_tasks r ! k)"
    and "rt_routes s = rt_routes r" "rt_tasks s = (rt_tasks r)[k := t]"
  shows "routes_ok s"
proof -
  have "list_all task_ok ((rt_tasks r)[k := t])"
    using assms(1,3) by (auto simp: routes_ok_def list_all_iff dest!: set_update_subset_insert [THEN subsetD])
  moreover have "map_of (rt_routes r) n = Some i \<longrightarrow>
      i < length ((rt_tasks r)[k := t]) \<and> at_name ((rt_tasks r)[k := t] ! i) = n" for n i
    using assms(1,2,4) by (auto simp: routes_ok_def nth_list_update)
  ultimately show ?thesis using assms(1,5,6) by (simp add: routes_ok_def)
qed

lemma order_ok_same:
  assumes "order_ok target r" "rt_routes s = rt_routes r" "rt_tasks s = rt_tasks r"
    "rt_delivered s = rt_delivered r" "rt_accepted s = rt_accepted r"
  shows "order_ok target s"
proof -
  have "waiting_at k s = waiting_at k r" for k by (simp add: waiting_at_def assms(3))
  then have "waiting_for target s = waiting_for target r"
    by (simp add: waiting_for_def assms(2) split: option.split)
  then show ?thesis using assms by (simp add: order_ok_def)
qed

lemma order_ok_task:
  assumes ok: "routes_ok r" "order_ok target r" and k: "k < length (rt_tasks r)"
    and name: "at_name t = at_name (rt_tasks r ! k)"
    and closing: "at_name t = target \<Longrightarrow> at_closing t \<or> at_closed t \<Longrightarrow> idle t"
    and idle: "at_name t = target \<Longrightarrow> idle (rt_tasks r ! k) \<Longrightarrow>
      map_of (rt_routes r) target \<noteq> Some k \<Longrightarrow> idle t"
    and s: "rt_routes s = rt_routes r" "rt_tasks s = (rt_tasks r)[k := t]"
      "rt_delivered s = rt_delivered r @ map (Pair (at_name t)) gone"
      "rt_accepted s = rt_accepted r @ map (Pair (at_name t)) new"
    and moved: "gone @ (case at_held t of Some w \<Rightarrow> [w] | None \<Rightarrow> []) @ at_queue t =
      waiting_at k r @ new"
    and routed: "at_name t = target \<Longrightarrow> map_of (rt_routes r) target \<noteq> Some k \<Longrightarrow> new = [] \<and> gone = []"
  shows "order_ok target s"
proof -
  have only_map: "only target (map (Pair n) ws) = (if n = target then ws else [])" for n ws
    by (induction ws) auto
  have sk: "rt_tasks s ! k = t" using k s(2) by simp
  have wk: "gone @ waiting_at k s = waiting_at k r @ new"
    using moved by (simp add: waiting_at_def sk)
  have other: "waiting_at i s = waiting_at i r" if "i \<noteq> k" for i
    using that by (simp add: waiting_at_def s(2))
  have bound: "at_name (rt_tasks r ! i) = n" if "map_of (rt_routes r) n = Some i" for n i
    using ok(1) that by (auto simp: routes_ok_def)
  have "only target (rt_delivered s) @ waiting_for target s = only target (rt_accepted s)"
  proof (cases "map_of (rt_routes r) target = Some k")
    case True
    then have "at_name t = target" using bound name by simp
    then show ?thesis using ok(2) True wk by (simp add: order_ok_def waiting_for_def s only_map)
  next
    case False
    then have "waiting_for target s = waiting_for target r"
      using other by (auto simp: waiting_for_def s(1) split: option.split)
    moreover have "at_name t = target \<Longrightarrow> new = [] \<and> gone = []" using routed False by blast
    ultimately show ?thesis using ok(2) by (auto simp: order_ok_def s(3,4) only_map)
  qed
  moreover have "(at_closing (rt_tasks s ! i) \<or> at_closed (rt_tasks s ! i) \<longrightarrow> idle (rt_tasks s ! i)) \<and>
      (map_of (rt_routes s) target = Some i \<or> idle (rt_tasks s ! i))"
    if i: "i < length (rt_tasks s)" and n: "at_name (rt_tasks s ! i) = target" for i
  proof (cases "i = k")
    case True
    then have "at_name t = target" using n sk by simp
    moreover from this have "map_of (rt_routes r) target = Some k \<or> idle (rt_tasks r ! k)"
      using ok(2) k name by (auto simp: order_ok_def)
    ultimately show ?thesis using True sk closing idle s(1) by auto
  next
    case False
    then show ?thesis using ok(2) i n by (simp add: order_ok_def s(1,2))
  qed
  ultimately show ?thesis by (simp add: order_ok_def)
qed

text \<open>Starting a task: the old one for the actor, if any, is done.\<close>

lemma retain_open_fields [simp]:
  "rt_tasks (retain_open r) = rt_tasks r" "rt_spawned (retain_open r) = rt_spawned r"
  "rt_accepted (retain_open r) = rt_accepted r" "rt_delivered (retain_open r) = rt_delivered r"
  by (simp_all add: retain_open_def)

lemma retain_open_routes:
  assumes "routes_ok r"
  shows "map_of (rt_routes (retain_open r)) n = map_of (rt_routes r) n \<or>
    map_of (rt_routes (retain_open r)) n = None \<and>
      (\<exists>k. map_of (rt_routes r) n = Some k \<and> at_closed (rt_tasks r ! k))"
proof (cases "1024 \<le> length (rt_routes r)")
  case True
  have "map_of (filter (\<lambda>(n, k). P k) xs) n = map_of xs n \<or>
      map_of (filter (\<lambda>(n, k). P k) xs) n = None \<and> (\<exists>k. map_of xs n = Some k \<and> \<not> P k)"
    if "distinct (map fst xs)" for P and xs :: "(name \<times> nat) list"
    using that by (induction xs) (auto simp: map_of_eq_None_iff)
  from this [of "rt_routes r" "\<lambda>k. \<not> at_closed (rt_tasks r ! k)"] show ?thesis
    using assms True by (auto simp: retain_open_def routes_ok_def)
qed (simp add: retain_open_def)

lemma retain_open_ok:
  assumes "routes_ok r" shows "routes_ok (retain_open r)"
proof -
  have "distinct (map fst (rt_routes (retain_open r)))"
    using assms by (auto simp: retain_open_def routes_ok_def intro: distinct_map_filter)
  moreover have "k < length (rt_tasks r) \<and> at_name (rt_tasks r ! k) = n"
    if "map_of (rt_routes (retain_open r)) n = Some k" for n k
    using retain_open_routes [OF assms, of n] that assms by (auto simp: routes_ok_def)
  ultimately show ?thesis using assms by (simp add: routes_ok_def)
qed

lemma retain_open_order:
  assumes "routes_ok r" "order_ok target r" shows "order_ok target (retain_open r)"
proof -
  consider "map_of (rt_routes (retain_open r)) target = map_of (rt_routes r) target"
    | k where "map_of (rt_routes (retain_open r)) target = None"
        "map_of (rt_routes r) target = Some k" "at_closed (rt_tasks r ! k)"
    using retain_open_routes [OF assms(1), of target] by blast
  then show ?thesis
  proof cases
    case 1
    then show ?thesis using assms(2)
      by (auto simp: order_ok_def waiting_for_def waiting_at_def split: option.splits)
  next
    case (2 k)
    then have "k < length (rt_tasks r)" "at_name (rt_tasks r ! k) = target"
      using assms(1) by (auto simp: routes_ok_def)
    then have "idle (rt_tasks r ! k)" using assms(2) 2(3) by (auto simp: order_ok_def)
    then show ?thesis using assms(2) 2
      by (auto simp: order_ok_def waiting_for_def waiting_at_def idle_def)
  qed
qed

lemma start_task_ok:
  assumes "routes_ok r" shows "routes_ok (start_task target w r)"
proof -
  note ok = retain_open_ok [OF assms]
  have "at_name (new_task target w) = target" by (simp add: new_task_def)
  then show ?thesis using ok
    by (auto simp: start_task_def Let_def routes_ok_def nth_append new_task_ok less_SucI
      split: if_splits)
qed

lemma start_task_order:
  assumes "routes_ok r" "order_ok target r"
    and "n = target \<Longrightarrow> (case map_of (rt_routes r) target of Some k \<Rightarrow> idle (rt_tasks r ! k) | None \<Rightarrow> True)"
  shows "order_ok target (start_task n w r)"
proof -
  note routes = retain_open_ok [OF assms(1)] and order = retain_open_order [OF assms(1,2)]
  have idle: "idle (rt_tasks r ! k)"
    if "n = target" "k < length (rt_tasks r)" "at_name (rt_tasks r ! k) = target" for k
    using assms(2,3) that by (auto simp: order_ok_def split: option.splits)
  have bound: "k < length (rt_tasks r) \<and> at_name (rt_tasks r ! k) = target"
    if "map_of (rt_routes (retain_open r)) target = Some k" for k
    using routes that by (auto simp: routes_ok_def)
  show ?thesis
  proof (cases "n = target")
    case True
    have "waiting_for target (retain_open r) = []"
      using bound idle True by (auto simp: waiting_for_def waiting_at_def idle_def split: option.split)
    then have "only target (rt_delivered r) = only target (rt_accepted r)"
      using order by (simp add: order_ok_def)
    then show ?thesis using True idle
      by (auto simp: start_task_def Let_def order_ok_def waiting_for_def waiting_at_def nth_append
        new_task_def)
  next
    case False
    then show ?thesis using order bound
      by (auto simp: start_task_def Let_def order_ok_def waiting_for_def waiting_at_def nth_append
        new_task_def split: option.splits)
  qed
qed

lemma route_split:
  assumes "routes_ok r"
    and "rt_spawned (route c h n w r) = rt_spawned r @ [(n, w)] \<Longrightarrow>
      rt_tasks (route c h n w r) = rt_tasks r \<Longrightarrow> rt_routes (route c h n w r) = rt_routes r \<Longrightarrow>
      rt_accepted (route c h n w r) = rt_accepted r \<Longrightarrow>
      rt_delivered (route c h n w r) = rt_delivered r \<Longrightarrow> P (route c h n w r)"
    and "map_of (rt_routes r) n = None \<Longrightarrow> P (start_task n w r)"
    and "\<And>sent. P (r\<lparr>rt_sent := sent\<rparr>)"
    and "\<And>k. map_of (rt_routes r) n = Some k \<Longrightarrow> at_closed (rt_tasks r ! k) \<Longrightarrow> P (start_task n w r)"
    and "\<And>k q. map_of (rt_routes r) n = Some k \<Longrightarrow> \<not> at_closed (rt_tasks r ! k) \<Longrightarrow>
      k < length (rt_tasks r) \<Longrightarrow> at_name (rt_tasks r ! k) = n \<Longrightarrow>
      admit (length (wk_payload w)) (at_queued (rt_tasks r ! k)) = (True, q) \<Longrightarrow>
      P (r\<lparr>rt_tasks := (rt_tasks r)[k := (rt_tasks r ! k)\<lparr>at_queue := at_queue (rt_tasks r ! k) @ [w],
        at_queued := q\<rparr>], rt_accepted := rt_accepted r @ [(n, w)]\<rparr>)"
  shows "P (route c h n w r)"
proof (cases "case get_handler (wk_msg w) h of Some rh \<Rightarrow> rh_bypasses rh | None \<Rightarrow> False")
  case True
  then have "route c h n w r = r\<lparr>rt_spawned := rt_spawned r @ [(n, w)]\<rparr>" by (simp add: route_def)
  then show ?thesis using assms(2) by simp
next
  case bypass: False
  show ?thesis
  proof (cases "map_of (rt_routes r) n")
    case None
    then have "route c h n w r = start_task n w r" using bypass by (simp add: route_def)
    then show ?thesis using assms(3) None by simp
  next
    case (Some k)
    then have k: "k < length (rt_tasks r)" "at_name (rt_tasks r ! k) = n"
      using assms(1) by (auto simp: routes_ok_def)
    obtain fits q where q: "admit (length (wk_payload w)) (at_queued (rt_tasks r ! k)) = (fits, q)"
      by fastforce
    have undone: "r\<lparr>rt_tasks := (rt_tasks r)[k := (rt_tasks r ! k)\<lparr>at_queued :=
        release (length (wk_payload w)) q\<rparr>]\<rparr> = r" if "fits"
      using admit_release [of "length (wk_payload w)" "at_queued (rt_tasks r ! k)" q] q that by simp
    consider "\<not> fits" | "fits" "at_closed (rt_tasks r ! k)" | "fits" "\<not> at_closed (rt_tasks r ! k)"
      by blast
    then show ?thesis
    proof cases
      case 1
      then show ?thesis using assms(4) bypass Some q by (simp add: route_def Let_def)
    next
      case 2
      then have "route c h n w r = start_task n w r"
        using bypass Some q undone by (simp add: route_def Let_def)
      then show ?thesis using assms(5) [OF Some 2(2)] by simp
    next
      case 3
      then show ?thesis using assms(6) [OF Some _ k] bypass Some q by (simp add: route_def Let_def)
    qed
  qed
qed

lemma route_ok:
  assumes ok: "routes_ok r" shows "routes_ok (route c h n w r)"
proof (rule route_split [OF ok])
  show "routes_ok (start_task n w r)" by (rule start_task_ok [OF ok])
  then show "routes_ok (start_task n w r)" .
next
  fix k q assume "admit (length (wk_payload w)) (at_queued (rt_tasks r ! k)) = (True, q)"
    and k: "k < length (rt_tasks r)"
  then have "task_ok ((rt_tasks r ! k)\<lparr>at_queue := at_queue (rt_tasks r ! k) @ [w], at_queued := q\<rparr>)"
    using ok by (intro admit_ok) (auto simp: routes_ok_def list_all_length)
  then show "routes_ok (r\<lparr>rt_tasks := (rt_tasks r)[k := (rt_tasks r ! k)
      \<lparr>at_queue := at_queue (rt_tasks r ! k) @ [w], at_queued := q\<rparr>],
      rt_accepted := rt_accepted r @ [(n, w)]\<rparr>)"
    by (rule routes_ok_task [OF ok k]) simp_all
qed (use ok in \<open>simp_all add: routes_ok_def\<close>)

lemma route_order:
  assumes ok: "routes_ok r" "order_ok target r" and calm: "calm target (Route n w) r"
  shows "order_ok target (route c h n w r)"
proof (rule route_split [OF ok(1)])
  assume "map_of (rt_routes r) n = None"
  then show "order_ok target (start_task n w r)" by (intro start_task_order ok) simp
next
  fix k assume k: "map_of (rt_routes r) n = Some k" and "at_closed (rt_tasks r ! k)"
  moreover have "k < length (rt_tasks r)" "at_name (rt_tasks r ! k) = n"
    using k ok(1) by (auto simp: routes_ok_def)
  ultimately have "n = target \<Longrightarrow> idle (rt_tasks r ! k)" using ok(2) by (auto simp: order_ok_def)
  then show "order_ok target (start_task n w r)"
    using k by (intro start_task_order ok) simp
next
  fix k q assume k: "map_of (rt_routes r) n = Some k" "\<not> at_closed (rt_tasks r ! k)"
    "k < length (rt_tasks r)" "at_name (rt_tasks r ! k) = n"
  have "n = target \<Longrightarrow> \<not> at_closing (rt_tasks r ! k)" using calm k(1) by (simp add: calm_def)
  then show "order_ok target (r\<lparr>rt_tasks := (rt_tasks r)[k := (rt_tasks r ! k)
      \<lparr>at_queue := at_queue (rt_tasks r ! k) @ [w], at_queued := q\<rparr>],
      rt_accepted := rt_accepted r @ [(n, w)]\<rparr>)"
    using k by (intro order_ok_task [OF ok k(3), where gone = "[]" and new = "[w]"])
      (auto simp: waiting_at_def)
qed (rule order_ok_same [OF ok(2)]; simp)+

lemma takes_split:
  obtains "task_takes k r = r"
    | w ws where "k < length (rt_tasks r)"
      "at_queue (rt_tasks r ! k) = w # ws" "at_held (rt_tasks r ! k) = None"
      "task_takes k r = on_task k (\<lambda>t. t\<lparr>at_queue := ws, at_held := Some w,
        at_queued := release (length (wk_payload w)) (at_queued t)\<rparr>) r"
proof (cases "k < length (rt_tasks r) \<and> at_held (rt_tasks r ! k) = None \<and> \<not> at_closing (rt_tasks r ! k)")
  case True
  then show ?thesis using that
    by (cases "at_queue (rt_tasks r ! k)") (simp_all add: task_takes_def Let_def)
next
  case False
  then show ?thesis using that by (auto simp: task_takes_def Let_def)
qed

lemma takes_ok:
  assumes ok: "routes_ok r" shows "routes_ok (task_takes k r)"
proof (cases rule: takes_split [of k r])
  case (2 w ws)
  then have "task_ok ((rt_tasks r ! k)\<lparr>at_queue := ws, at_held := Some w,
      at_queued := release (length (wk_payload w)) (at_queued (rt_tasks r ! k))\<rparr>)"
    using ok by (intro release_ok) (auto simp: routes_ok_def list_all_length)
  then show ?thesis unfolding 2(4) by (rule routes_ok_task [OF ok 2(1)]) simp_all
qed (use ok in simp)

lemma takes_order:
  assumes ok: "routes_ok r" "order_ok target r" shows "order_ok target (task_takes k r)"
proof (cases rule: takes_split [of k r])
  case (2 w ws)
  have busy: "\<not> idle (rt_tasks r ! k)" using 2(2) by (simp add: idle_def)
  then have "at_name (rt_tasks r ! k) = target \<Longrightarrow>
      \<not> at_closing (rt_tasks r ! k) \<and> \<not> at_closed (rt_tasks r ! k)"
    using ok(2) 2(1) by (auto simp: order_ok_def)
  then show ?thesis unfolding 2(4) using busy 2
    by (intro order_ok_task [OF ok 2(1), where gone = "[]" and new = "[]"])
      (auto simp: waiting_at_def)
qed (use ok in simp)

lemma hands_over_split:
  obtains "task_hands_over c k outcome r = r"
    | w where "k < length (rt_tasks r)" "at_held (rt_tasks r ! k) = Some w"
      "task_hands_over c k outcome r = (on_task k (\<lambda>t. t\<lparr>at_held := None\<rparr>) r)
         \<lparr>rt_delivered := rt_delivered r @ [(at_name (rt_tasks r ! k), w)],
          rt_sent := rt_sent r @ process c w outcome\<rparr>"
proof (cases "k < length (rt_tasks r)")
  case True
  then show ?thesis using that
    by (cases "at_held (rt_tasks r ! k)") (simp_all add: task_hands_over_def Let_def)
next
  case False
  then show ?thesis using that by (simp add: task_hands_over_def Let_def)
qed

lemma hands_over_ok:
  assumes ok: "routes_ok r" shows "routes_ok (task_hands_over c k outcome r)"
proof (cases rule: hands_over_split [of c k outcome r])
  case (2 w)
  have "task_ok ((rt_tasks r ! k)\<lparr>at_held := None\<rparr>)"
    using ok 2(1) by (auto simp: routes_ok_def list_all_length task_ok_def)
  then show ?thesis unfolding 2(3) by (rule routes_ok_task [OF ok 2(1)]) simp_all
qed (use ok in simp)

lemma hands_over_order:
  assumes ok: "routes_ok r" "order_ok target r"
  shows "order_ok target (task_hands_over c k outcome r)"
proof (cases rule: hands_over_split [of c k outcome r])
  case (2 w)
  have busy: "\<not> idle (rt_tasks r ! k)" using 2(2) by (simp add: idle_def)
  then have "at_name (rt_tasks r ! k) = target \<Longrightarrow>
      \<not> at_closing (rt_tasks r ! k) \<and> \<not> at_closed (rt_tasks r ! k) \<and>
      map_of (rt_routes r) target = Some k"
    using ok(2) 2(1) by (auto simp: order_ok_def)
  then show ?thesis unfolding 2(3) using busy 2
    by (intro order_ok_task [OF ok 2(1), where t = "(rt_tasks r ! k)\<lparr>at_held := None\<rparr>" and gone = "[w]" and new = "[]"])
      (auto simp: waiting_at_def)
qed (use ok in simp)

lemma closing_ok:
  assumes ok: "routes_ok r" shows "routes_ok (task_times_out k r)" "routes_ok (task_closes k r)"
proof -
  have *: "task_ok ((rt_tasks r ! k)\<lparr>at_closing := a, at_closed := b\<rparr>)"
    "task_ok ((rt_tasks r ! k)\<lparr>at_closing := a\<rparr>)" if "k < length (rt_tasks r)" for a b
    using ok that by (auto simp: routes_ok_def list_all_length task_ok_def)
  show "routes_ok (task_times_out k r)"
  proof (cases "task_times_out k r = r")
    case False
    then have k: "k < length (rt_tasks r)"
      "task_times_out k r = on_task k (\<lambda>t. t\<lparr>at_closing := True\<rparr>) r"
      by (auto simp: task_times_out_def Let_def split: if_splits)
    show ?thesis unfolding k(2) by (rule routes_ok_task [OF ok k(1) *(2) [OF k(1)]]) simp_all
  qed (use ok in simp)
  show "routes_ok (task_closes k r)"
  proof (cases "task_closes k r = r")
    case False
    then have k: "k < length (rt_tasks r)"
      "task_closes k r = on_task k (\<lambda>t. t\<lparr>at_closing := False, at_closed := True\<rparr>) r"
      by (auto simp: task_closes_def split: if_splits)
    show ?thesis unfolding k(2) by (rule routes_ok_task [OF ok k(1) *(1) [OF k(1)]]) simp_all
  qed (use ok in simp)
qed

lemma closing_order:
  assumes ok: "routes_ok r" "order_ok target r"
  shows "order_ok target (task_times_out k r)" "order_ok target (task_closes k r)"
proof -
  show "order_ok target (task_times_out k r)"
  proof (cases "task_times_out k r = r")
    case False
    then have k: "k < length (rt_tasks r)" "idle (rt_tasks r ! k)"
      "task_times_out k r = on_task k (\<lambda>t. t\<lparr>at_closing := True\<rparr>) r"
      by (auto simp: task_times_out_def Let_def idle_def split: if_splits)
    show ?thesis unfolding k(3) using k(2)
      by (intro order_ok_task [OF ok k(1), where t = "(rt_tasks r ! k)\<lparr>at_closing := True\<rparr>" and gone = "[]" and new = "[]"])
        (auto simp: waiting_at_def idle_def)
  qed (use ok in simp)
  show "order_ok target (task_closes k r)"
  proof (cases "task_closes k r = r")
    case False
    then have k: "k < length (rt_tasks r)" "at_closing (rt_tasks r ! k)"
      "task_closes k r = on_task k (\<lambda>t. t\<lparr>at_closing := False, at_closed := True\<rparr>) r"
      by (auto simp: task_closes_def split: if_splits)
    then have "at_name (rt_tasks r ! k) = target \<Longrightarrow> idle (rt_tasks r ! k)"
      using ok(2) by (auto simp: order_ok_def)
    then show ?thesis unfolding k(3)
      by (intro order_ok_task [OF ok k(1), where
          t = "(rt_tasks r ! k)\<lparr>at_closing := False, at_closed := True\<rparr>" and gone = "[]" and new = "[]"])
        (auto simp: waiting_at_def idle_def)
  qed (use ok in simp)
qed

lemma spawned_runs_fields [simp]:
  "rt_routes (spawned_runs c i outcome r) = rt_routes r"
  "rt_tasks (spawned_runs c i outcome r) = rt_tasks r"
  "rt_accepted (spawned_runs c i outcome r) = rt_accepted r"
  "rt_delivered (spawned_runs c i outcome r) = rt_delivered r"
  by (simp_all add: spawned_runs_def)

lemma router_step_ok:
  assumes "routes_ok r" shows "routes_ok (router_step c h e r)"
  using assms
  by (cases e) (simp_all add: route_ok closing_ok takes_ok hands_over_ok, simp add: routes_ok_def)

lemma router_step_order:
  assumes "routes_ok r" "order_ok target r" "calm target e r"
  shows "order_ok target (router_step c h e r)"
  using assms
  by (cases e) (simp_all add: route_order closing_order takes_order hands_over_order
    order_ok_same [of target r])

lemma router_new_ok: "routes_ok router_new" "order_ok target router_new"
  by (simp_all add: routes_ok_def order_ok_def router_new_def waiting_for_def)

lemma router_run_ok: "routes_ok r \<Longrightarrow> routes_ok (router_run c h es r)"
  by (induction es arbitrary: r) (simp_all add: router_step_ok)

lemma router_run_order:
  "routes_ok r \<Longrightarrow> order_ok target r \<Longrightarrow> calm_run target c h es r \<Longrightarrow>
    order_ok target (router_run c h es r)"
  by (induction es arbitrary: r) (simp_all add: router_step_ok router_step_order)

text \<open>C18: Messages accepted for an actor from other nodes are handed over in the order they were
accepted, none lost, repeated or overtaken, for every interleaving of the router with the actors'
tasks in which nothing arrives for the actor in the moment between its task giving up waiting and
closing its queue. What was handed over, and then what its task still holds, is what was accepted.\<close>

theorem actor_messages_keep_their_order:
  assumes "calm_run target c h es router_new"
  shows "only target (rt_delivered (router_run c h es router_new)) @
      waiting_for target (router_run c h es router_new) =
    only target (rt_accepted (router_run c h es router_new))"
  using router_run_order [OF router_new_ok assms] by (simp add: order_ok_def)

definition example_work :: "nat \<Rightarrow> work" where
  "example_work n = \<lparr>wk_from = ''b'', wk_msg = word_of_nat n, wk_requests = [], wk_payload = [],
     wk_call = None\<rparr>"

definition receiving_cluster :: cluster where
  "receiving_cluster = cluster_new (example_member ''a'' 1)"

definition no_handlers :: handlers where
  "no_handlers = \<lparr>by_id = [], by_type = []\<rparr>"

theorem actor_messages_keep_their_order_witness:
  "only ''a'' (rt_delivered (router_run receiving_cluster no_handlers
      [Route ''a'' (example_work 1), Takes 0, HandsOver 0 HandedOver, Route ''a'' (example_work 2)] router_new)) @
    waiting_for ''a'' (router_run receiving_cluster no_handlers
      [Route ''a'' (example_work 1), Takes 0, HandsOver 0 HandedOver, Route ''a'' (example_work 2)] router_new) =
    [example_work 1, example_work 2]"
proof -
  let ?es = "[Route ''a'' (example_work 1), Takes 0, HandsOver 0 HandedOver, Route ''a'' (example_work 2)]"
  have "calm_run ''a'' receiving_cluster no_handlers ?es router_new" by code_simp
  moreover have "only ''a'' (rt_accepted (router_run receiving_cluster no_handlers ?es router_new)) =
      [example_work 1, example_work 2]"
    by code_simp
  ultimately show ?thesis using actor_messages_keep_their_order [of "''a''" receiving_cluster no_handlers ?es]
    by simp
qed

definition late_messages :: "router_event list" where
  "late_messages = [Route ''a'' (example_work 0), Takes 0, HandsOver 0 HandedOver, TimesOut 0] @
     [Route ''a'' (example_work 1), Closes 0, Route ''a'' (example_work 2)] @
     [Takes 1, HandsOver 1 HandedOver, Takes 0, HandsOver 0 HandedOver]"

lemma router_run_append: "router_run c h (es @ fs) r = router_run c h fs (router_run c h es r)"
  by (induction es arbitrary: r) simp_all

definition idle_state :: router where
  "idle_state = \<lparr>rt_routes = [(''a'', 0)], rt_tasks = [\<lparr>at_name = ''a'', at_queue = [], at_queued = \<lparr>q_messages = 0, q_bytes = 0\<rparr>,
      at_closing = True, at_closed = False, at_held = None\<rparr>],
    rt_spawned = [], rt_accepted = [(''a'', example_work 0)],
    rt_delivered = [(''a'', example_work 0)], rt_sent = []\<rparr>"

definition overtaken_state :: router where
  "overtaken_state = \<lparr>rt_routes = [(''a'', 1)], rt_tasks = [\<lparr>at_name = ''a'', at_queue = [example_work 1], at_queued = \<lparr>q_messages = 1, q_bytes = 0\<rparr>,
      at_closing = False, at_closed = True, at_held = None\<rparr>,
    \<lparr>at_name = ''a'', at_queue = [example_work 2], at_queued = \<lparr>q_messages = 1, q_bytes = 0\<rparr>,
      at_closing = False, at_closed = False, at_held = None\<rparr>],
    rt_spawned = [], rt_accepted = [(''a'', example_work 0), (''a'', example_work 1), (''a'', example_work 2)],
    rt_delivered = [(''a'', example_work 0)], rt_sent = []\<rparr>"

lemmas run_defs = route_def get_handler_def no_handlers_def start_task_def retain_open_def
  new_task_def admit_def release_def task_takes_def task_hands_over_def task_times_out_def
  task_closes_def on_task_def process_def

lemma late_messages_run:
  "router_run c no_handlers [Route ''a'' (example_work 0), Takes 0, HandsOver 0 HandedOver, TimesOut 0]
     router_new = idle_state"
  "router_run c no_handlers [Route ''a'' (example_work 1), Closes 0, Route ''a'' (example_work 2)]
     idle_state = overtaken_state"
  by (simp_all add: run_defs router_new_def idle_state_def overtaken_state_def example_work_def
    actor_queue_messages_def actor_queue_bytes_def)

text \<open>In that moment the order is lost: a message sent to the actor then stays in the old task's
queue, the next one finds the queue closed and starts a new task, and the new task can hand it over
first.\<close>

theorem closing_task_reorders_messages:
  "rt_accepted (router_run c no_handlers late_messages router_new) =
     [(''a'', example_work 0), (''a'', example_work 1), (''a'', example_work 2)] \<and>
   rt_delivered (router_run c no_handlers late_messages router_new) =
     [(''a'', example_work 0), (''a'', example_work 2), (''a'', example_work 1)]"
  unfolding late_messages_def router_run_append late_messages_run
  by (simp add: run_defs overtaken_state_def example_work_def)

text \<open>What waits for an actor is bounded, and counted exactly: in every run, for every task, the
counters are the number and the size of the messages in its queue, which are at most the limits,
unless a single message is larger.\<close>

theorem waiting_messages_are_bounded:
  "list_all (\<lambda>t. q_messages (at_queued t) = length (at_queue t) \<and>
      q_bytes (at_queued t) = sum_list (map (length \<circ> wk_payload) (at_queue t)) \<and>
      length (at_queue t) \<le> 100000 \<and>
      (q_bytes (at_queued t) \<le> 16777216 \<or> length (at_queue t) \<le> 1))
    (rt_tasks (router_run c h es router_new))"
  using router_run_ok [OF router_new_ok(1), of c h es]
  by (simp add: routes_ok_def task_ok_def [abs_def] actor_queue_messages_def actor_queue_bytes_def)

section \<open>Taking in a message\<close>

definition router_on_incoming ::
  "cluster \<Rightarrow> handlers \<Rightarrow> name \<Rightarrow> bytes \<Rightarrow> router \<times> calls \<Rightarrow> (router \<times> calls) option" where
  "router_on_incoming c h from payload rs = map_option (\<lambda>decoded. case decoded of
       None \<Rightarrow> rs
     | Some (ReplyFrame call result) \<Rightarrow> (fst rs, complete from call result (snd rs))
     | Some (MessageFrame call target msg requests payload) \<Rightarrow>
         (route c h target \<lparr>wk_from = from, wk_msg = msg, wk_requests = requests, wk_payload = payload,
            wk_call = call\<rparr> (fst rs), snd rs)) (decode payload)"

fun take_in :: "cluster \<Rightarrow> handlers \<Rightarrow> name \<Rightarrow> bytes list \<Rightarrow> router \<times> calls \<Rightarrow> (router \<times> calls) option" where
  "take_in c h from [] rs = Some rs"
| "take_in c h from (frame # frames) rs =
     (case router_on_incoming c h from frame rs of None \<Rightarrow> None | Some rs \<Rightarrow> take_in c h from frames rs)"

text \<open>What a caller gets when its message is answered with an error.\<close>

definition error_answer :: "remote_error \<Rightarrow> u64 \<Rightarrow> answer" where
  "error_answer e call = Inl (RemoteReply
     (if max_frame_size < length (encode (ReplyFrame call (Inl e))) then TooLarge else e))"

lemma decode_reply_frame:
  assumes "error_typed e"
  shows "decode (reply_frame call (Inl e)) = Some (Some (ReplyFrame call (Inl
    (if max_frame_size < length (encode (ReplyFrame call (Inl e))) then TooLarge else e))))"
proof -
  have "decode (encode (ReplyFrame call (Inl e))) = Some (Some (ReplyFrame call (Inl e)))"
    "decode (encode (ReplyFrame call (Inl TooLarge))) = Some (Some (ReplyFrame call (Inl TooLarge)))"
    by (rule decode_encode_reply, use assms in simp)+
  then show ?thesis by (simp add: reply_frame_def Let_def del: encode.simps)
qed

lemma on_incoming_error:
  assumes "error_typed e" "map_of (pending_calls s) call = Some from"
  shows "router_on_incoming c h from (reply_frame call (Inl e)) (r, s) = Some (r, answer call (error_answer e call) s)"
  using assms by (simp add: router_on_incoming_def decode_reply_frame complete_def error_answer_def
    del: encode.simps)

lemma take_in_errors:
  assumes "error_typed e" "distinct ids" "list_all (\<lambda>i. map_of (pending_calls s) i = Some from) ids"
  shows "take_in c h from (map (\<lambda>i. reply_frame i (Inl e)) ids) (r, s) =
    Some (r, fold (\<lambda>i. answer i (error_answer e i)) ids s)"
  using assms(2,3)
proof (induction ids arbitrary: s)
  case (Cons i ids)
  then have "list_all (\<lambda>j. map_of (pending_calls (answer i (error_answer e i) s)) j = Some from) ids"
    by (auto simp: list_all_iff answer_def)
  then show ?case using Cons on_incoming_error [OF assms(1), of s i "from"] by simp
qed simp

lemma answer_fold:
  "answers (fold (\<lambda>i. answer i (f i)) ids s) = answers s @ map (\<lambda>i. (i, f i)) ids"
  "map_of (pending_calls (fold (\<lambda>i. answer i (f i)) ids s)) =
     (map_of (pending_calls s)) |` (- set ids)"
proof (induction ids arbitrary: s)
  case (Cons i ids)
  {
    case 1
    show ?case using Cons(1) [of "answer i (f i) s"] by (simp add: answer_def)
  next
    case 2
    show ?case using Cons(2) [of "answer i (f i) s"]
      by (auto simp: answer_def restrict_map_def fun_eq_iff)
  }
qed (simp_all add: restrict_map_def)

lemma process_error:
  assumes "member (wk_from w) c \<noteq> None"
  shows "map snd (process c w (HandedError e)) = map (\<lambda>i. reply_frame i (Inl e)) (awaited w)"
proof -
  have "map snd (concat (map (\<lambda>call. reply c (wk_from w) call (Inl e)) ids)) =
      map (\<lambda>i. reply_frame i (Inl e)) ids" for ids
    using assms by (induction ids) (auto simp: reply_def)
  then show ?thesis by (simp add: process_def)
qed

text \<open>C19: A message that cannot be delivered ends every wait that it began: the replies that are sent,
taken in by the node it came from, answer the call and each request in it with the error (or with
\<open>TooLarge\<close> if not even that fits a message), each once and in order, leave none of them waiting, and
change nothing else.\<close>

theorem undeliverable_message_ends_every_wait:
  assumes "member (wk_from w) c \<noteq> None" "error_typed e" "distinct (awaited w)"
    and "list_all (\<lambda>i. map_of (pending_calls s) i = Some here) (awaited w)"
  shows "\<exists>s'. take_in c' h here (map snd (process c w (HandedError e))) (r, s) = Some (r, s') \<and>
    answers s' = answers s @ map (\<lambda>i. (i, error_answer e i)) (awaited w) \<and>
    map_of (pending_calls s') = (map_of (pending_calls s)) |` (- set (awaited w))"
  by (simp add: process_error [OF assms(1)] take_in_errors [OF assms(2-4)] answer_fold)

definition example_caller :: calls where
  "example_caller = \<lparr>next_call = 2, pending_calls = [(0, ''here''), (1, ''here'')], answers = []\<rparr>"

theorem undeliverable_message_ends_every_wait_witness:
  "\<exists>s'. take_in receiving_cluster no_handlers ''here''
      (map snd (process (receiving_cluster\<lparr>cluster_members := [(''b'', example_member ''b'' 1)]\<rparr>)
        \<lparr>wk_from = ''b'', wk_msg = 5, wk_requests = [0], wk_payload = [], wk_call = Some 1\<rparr>
        (HandedError NoSuchActor))) (router_new, example_caller) = Some (router_new, s') \<and>
    answers s' = [(1, Inl (RemoteReply NoSuchActor)), (0, Inl (RemoteReply NoSuchActor))] \<and>
    map_of (pending_calls s') = Map.empty"
proof -
  let ?w = "\<lparr>wk_from = ''b'', wk_msg = 5, wk_requests = [0], wk_payload = [], wk_call = Some 1\<rparr>"
  have "length (encode (ReplyFrame i (Inl NoSuchActor))) \<le> max_frame_size" for i
    by (simp add: max_frame_size_def put_u64_def put_u8_def)
  then have small: "error_answer NoSuchActor i = Inl (RemoteReply NoSuchActor)" for i
    by (simp add: error_answer_def leD del: encode.simps)
  have gone: "(map_of (pending_calls example_caller)) |` (- set (awaited ?w)) = Map.empty"
    by (auto simp: example_caller_def awaited_def restrict_map_def fun_eq_iff)
  show ?thesis
    using undeliverable_message_ends_every_wait [of ?w
      "receiving_cluster\<lparr>cluster_members := [(''b'', example_member ''b'' 1)]\<rparr>" NoSuchActor
      example_caller "''here''" receiving_cluster no_handlers router_new] gone
    by (simp add: small member_def awaited_def example_caller_def)
qed

section \<open>Registering messages\<close>

definition claimed :: "handlers \<Rightarrow> (u128 \<times> type_id) set" where
  "claimed h = {(i, t). map_option rh_type (map_of (by_id h) i) = Some t}"

definition clash :: "(u128 \<times> type_id) set \<Rightarrow> bool" where
  "clash S \<longleftrightarrow> (\<exists>i t t'. (i, t) \<in> S \<and> (i, t') \<in> S \<and> t \<noteq> t')"

lemma claim_Some: "claim i ty b h = Some h' \<Longrightarrow> claimed h' = insert (i, ty) (claimed h)"
  by (auto simp: claim_def Let_def claimed_def split: option.splits if_splits)

lemma claim_None: "claim i ty b h = None \<Longrightarrow> \<exists>t. (i, t) \<in> claimed h \<and> t \<noteq> ty"
  by (auto simp: claim_def Let_def claimed_def split: option.splits if_splits)

lemma claimed_by_type [simp]: "claimed (h\<lparr>by_type := m\<rparr>) = claimed h"
  by (simp add: claimed_def)

lemma register_one:
  "(if b then insert_op i ty h else insert_handler i ty h) = None \<Longrightarrow> clash (insert (i, ty) (claimed h))"
  "(if b then insert_op i ty h else insert_handler i ty h) = Some h' \<Longrightarrow>
    claimed h' = insert (i, ty) (claimed h)"
  by (auto simp: insert_op_def insert_handler_def clash_def claim_Some dest!: claim_None split: if_splits)

lemma clash_claimed: "\<not> clash (claimed h)"
  by (auto simp: clash_def claimed_def)

lemma clash_image:
  "clash ((\<lambda>(i, t, b). (i, t)) ` S) \<longleftrightarrow>
    (\<exists>(i, t, b) \<in> S. \<exists>(i', t', b') \<in> S. i = i' \<and> t \<noteq> t')" (is "?l \<longleftrightarrow> ?r")
proof
  assume ?l
  then obtain i t t' where "(i, t) \<in> (\<lambda>(i, t, b). (i, t)) ` S" "(i, t') \<in> (\<lambda>(i, t, b). (i, t)) ` S" "t \<noteq> t'"
    unfolding clash_def by blast
  moreover from this obtain b b' where "(i, t, b) \<in> S" "(i, t', b') \<in> S" by auto
  ultimately show ?r by blast
next
  assume ?r
  then obtain i t b t' b' where "(i, t, b) \<in> S" "(i, t', b') \<in> S" "t \<noteq> t'" by blast
  then have "(i, t) \<in> (\<lambda>(i, t, b). (i, t)) ` S" "(i, t') \<in> (\<lambda>(i, t, b). (i, t)) ` S"
    by (auto simp: image_iff intro: bexI [rotated])
  then show ?l using \<open>t \<noteq> t'\<close> unfolding clash_def by blast
qed

lemma clash_mono: "clash S \<Longrightarrow> S \<subseteq> T \<Longrightarrow> clash T"
  by (auto simp: clash_def)

lemma register_all_None_iff:
  "register_all rs h = None \<longleftrightarrow> clash (claimed h \<union> (\<lambda>(i, t, b). (i, t)) ` set rs)"
proof (induction rs arbitrary: h)
  case (Cons r rs)
  obtain i ty b where r: "r = (i, ty, b)" by (cases r) auto
  show ?case
  proof (cases "if b then insert_op i ty h else insert_handler i ty h")
    case None
    then have "clash (insert (i, ty) (claimed h))" using register_one(1) by metis
    then have "clash (claimed h \<union> (\<lambda>(i, t, b). (i, t)) ` set (r # rs))"
      by (rule clash_mono) (auto simp: r)
    then show ?thesis using None by (simp add: r)
  next
    case (Some h')
    then have "claimed h' = insert (i, ty) (claimed h)" using register_one(2) by metis
    moreover have "register_all (r # rs) h = register_all rs h'" using Some by (simp add: r)
    ultimately show ?thesis using Cons.IH [of h'] by (simp add: r)
  qed
qed (simp add: clash_claimed)

lemma register_all_append:
  "register_all (rs @ rs') h = Option.bind (register_all rs h) (register_all rs')"
  by (induction rs h rule: register_all.induct) (auto split: option.split)

text \<open>Building a node panics if and only if two of the messages it registers, built-in operations
among them, claim one id for different types; registering one message again changes nothing of that.\<close>

theorem building_panics_iff_an_id_is_claimed_twice:
  "Option.bind handlers_new (register_all rs) = None \<longleftrightarrow>
    (\<exists>(i, t, b) \<in> set (builtin_ops @ rs). \<exists>(i', t', b') \<in> set (builtin_ops @ rs). i = i' \<and> t \<noteq> t')"
proof -
  have "Option.bind handlers_new (register_all rs) = None \<longleftrightarrow>
      clash ((\<lambda>(i, t, b). (i, t)) ` set (builtin_ops @ rs))"
    by (simp add: handlers_new_def register_all_None_iff claimed_def flip: register_all_append)
  then show ?thesis unfolding clash_image .
qed

end
