(* ===== verification/Monitors.thy ===== *)
theory Monitors
  imports Remote_Delivery Links Actor_Status
begin

text \<open>
  The monitors that a node holds for others (distr/src/messaging/monitors.rs), the operations that
  start one and call it off (ops.rs), and what losing a node ends (\<open>serve\<close> in receive.rs).

  A token is a number, which is on a list once it has been cancelled.
\<close>

type_synonym token = nat

record monitors =
  live_monitors :: "((name \<times> u64) \<times> token) list"
  next_token :: token
  cancelled_tokens :: "token list"
  waiting_monitors :: "((name \<times> u64) \<times> token) list" \<comment> \<open>operations that wait for a status\<close>

definition monitors_new :: monitors where
  "monitors_new = \<lparr>live_monitors = [], next_token = 0, cancelled_tokens = [], waiting_monitors = []\<rparr>"

definition monitor_begin :: "name \<times> u64 \<Rightarrow> monitors \<Rightarrow> token \<times> monitors" where
  "monitor_begin k m = (next_token m,
     m\<lparr>live_monitors := imap_insert k (next_token m) (live_monitors m), next_token := next_token m + 1\<rparr>)"

definition monitor_end :: "name \<times> u64 \<Rightarrow> monitors \<Rightarrow> monitors" where
  "monitor_end k m = m\<lparr>live_monitors := snd (imap_shift_remove k (live_monitors m))\<rparr>"

definition monitor_cancel :: "name \<times> u64 \<Rightarrow> monitors \<Rightarrow> monitors" where
  "monitor_cancel k m = (case map_of (live_monitors m) k of
       None \<Rightarrow> m
     | Some t \<Rightarrow> m\<lparr>live_monitors := snd (imap_shift_remove k (live_monitors m)),
         cancelled_tokens := cancelled_tokens m @ [t]\<rparr>)"

definition drop_node :: "name \<Rightarrow> monitors \<Rightarrow> monitors" where
  "drop_node node m = m\<lparr>live_monitors := filter (\<lambda>((n, i), t). n \<noteq> node) (live_monitors m),
     cancelled_tokens := cancelled_tokens m @
       map snd (filter (\<lambda>((n, i), t). n = node) (live_monitors m))\<rparr>"

text \<open>The two halves of \<open>MonitorOp\<close>, around its wait for the status or the token.\<close>

definition monitor_op_starts :: "name \<times> u64 \<Rightarrow> monitors \<Rightarrow> monitors" where
  "monitor_op_starts k m = (let begun = monitor_begin k m in
     (snd begun)\<lparr>waiting_monitors := waiting_monitors m @ [(k, fst begun)]\<rparr>)"

definition monitor_op_ends ::
  "(name \<times> u64) \<times> token \<Rightarrow> actor_status option \<Rightarrow> monitors \<Rightarrow> (remote_error + actor_status) option \<times> monitors" where
  "monitor_op_ends w reached m =
     (let ended = monitor_end (fst w) (m\<lparr>waiting_monitors := remove1 w (waiting_monitors m)\<rparr>) in
      if w \<notin> set (waiting_monitors m) then (None, m)
      else case reached of
        Some status \<Rightarrow> (Some (Inr status), ended)
      | None \<Rightarrow> if snd w \<in> set (cancelled_tokens m) then (Some (Inl NoReply), ended) else (None, m))"

definition demonitor_op :: "name \<times> u64 \<Rightarrow> monitors \<Rightarrow> monitors" where
  "demonitor_op k m = monitor_cancel k m"

text \<open>Losing a node ends the calls to it, and the monitors held for it.\<close>

definition lost :: "name \<Rightarrow> calls \<times> monitors \<Rightarrow> calls \<times> monitors" where
  "lost node s = (fail_node node (fst s), drop_node node (snd s))"

definition serve_peer_event :: "peer_event \<Rightarrow> calls \<times> monitors \<Rightarrow> calls \<times> monitors" where
  "serve_peer_event e s = (case e of PeerDisconnected node generation \<Rightarrow> lost node s | _ \<Rightarrow> s)"

definition serve_cluster_event :: "cluster_event \<Rightarrow> calls \<times> monitors \<Rightarrow> calls \<times> monitors" where
  "serve_cluster_event e s = (case e of
       Left m \<Rightarrow> lost (member_name m) s | Failed m \<Rightarrow> lost (member_name m) s | _ \<Rightarrow> s)"

section \<open>What is held\<close>

datatype monitor_event =
    MonitorStarts "name \<times> u64" | MonitorEnds "(name \<times> u64) \<times> token" "actor_status option"
  | Demonitors "name \<times> u64" | NodeLost name

fun monitor_step :: "monitor_event \<Rightarrow> monitors \<Rightarrow> monitors" where
  "monitor_step (MonitorStarts k) m = monitor_op_starts k m"
| "monitor_step (MonitorEnds w reached) m = snd (monitor_op_ends w reached m)"
| "monitor_step (Demonitors k) m = demonitor_op k m"
| "monitor_step (NodeLost node) m = drop_node node m"

fun monitor_run :: "monitor_event list \<Rightarrow> monitors \<Rightarrow> monitors" where
  "monitor_run [] m = m"
| "monitor_run (e # es) m = monitor_run es (monitor_step e m)"

text \<open>The monitoring node numbers its monitors, so that no two have one number.\<close>

fun started :: "monitor_event list \<Rightarrow> (name \<times> u64) list" where
  "started [] = []"
| "started (MonitorStarts k # es) = k # started es"
| "started (e # es) = started es"

definition monitors_ok :: "monitors \<Rightarrow> bool" where
  "monitors_ok m \<longleftrightarrow>
     distinct (map fst (waiting_monitors m)) \<and> distinct (map fst (live_monitors m)) \<and>
     distinct (map snd (waiting_monitors m)) \<and>
     (\<forall>t \<in> snd ` set (waiting_monitors m) \<union> set (cancelled_tokens m). t < next_token m) \<and>
     (\<forall>k t. map_of (live_monitors m) k = Some t \<longleftrightarrow>
        (k, t) \<in> set (waiting_monitors m) \<and> t \<notin> set (cancelled_tokens m))"

lemma monitors_new_ok: "monitors_ok monitors_new"
  by (simp add: monitors_ok_def monitors_new_def)

lemma monitor_starts_ok:
  assumes "monitors_ok m" "k \<notin> fst ` set (waiting_monitors m)"
  shows "monitors_ok (monitor_op_starts k m)"
  using assms unfolding monitors_ok_def monitor_op_starts_def monitor_begin_def Let_def
  by (auto simp: image_iff less_Suc_eq)

lemma token_unique:
  "monitors_ok m \<Longrightarrow> (k, t) \<in> set (waiting_monitors m) \<Longrightarrow> (k', t) \<in> set (waiting_monitors m) \<Longrightarrow> k = k'"
  using inj_onD [of snd "set (waiting_monitors m)" "(k, t)" "(k', t)"]
  by (auto simp: monitors_ok_def distinct_map)

lemma waiting_unique:
  "monitors_ok m \<Longrightarrow> (k, t) \<in> set (waiting_monitors m) \<Longrightarrow> (k, t') \<in> set (waiting_monitors m) \<Longrightarrow> t = t'"
  unfolding monitors_ok_def by (metis eq_key_imp_eq_value)

lemma distinct_map_remove1: "distinct (map f xs) \<Longrightarrow> distinct (map f (remove1 x xs))"
  by (induction xs) (auto dest: notin_set_remove1 set_remove1_subset [THEN subsetD])

lemma live_waiting:
  "monitors_ok m \<Longrightarrow> map_of (live_monitors m) k = Some t \<longleftrightarrow>
    (k, t) \<in> set (waiting_monitors m) \<and> t \<notin> set (cancelled_tokens m)"
  unfolding monitors_ok_def by blast

lemma monitor_ends_ok:
  assumes ok: "monitors_ok m" shows "monitors_ok (snd (monitor_op_ends w reached m))"
proof (cases "w \<in> set (waiting_monitors m) \<and> snd (monitor_op_ends w reached m) \<noteq> m")
  case True
  obtain k t where w: "w = (k, t)" by fastforce
  have m': "snd (monitor_op_ends w reached m) = m\<lparr>waiting_monitors := remove1 w (waiting_monitors m),
      live_monitors := snd (imap_shift_remove k (live_monitors m))\<rparr>"
    using True by (auto simp: monitor_op_ends_def monitor_end_def Let_def w split: option.splits if_splits)
  have "distinct (waiting_monitors m)" using ok by (auto simp: monitors_ok_def distinct_map)
  then have rest: "set (remove1 w (waiting_monitors m)) = set (waiting_monitors m) - {w}" by simp
  have "map_of (snd (imap_shift_remove k (live_monitors m))) j = Some u \<longleftrightarrow>
      (j, u) \<in> set (remove1 w (waiting_monitors m)) \<and> u \<notin> set (cancelled_tokens m)" for j u
  proof -
    note live_waiting [OF ok, of j u]
    moreover have "(k, u) \<in> set (waiting_monitors m) \<Longrightarrow> u = t"
      using waiting_unique [OF ok, of k t u] True by (simp add: w)
    ultimately show ?thesis unfolding rest by (auto simp: imap_shift_remove_def map_of_filter_key w)
  qed
  moreover have "\<forall>t \<in> snd ` set (remove1 w (waiting_monitors m)) \<union> set (cancelled_tokens m). t < next_token m"
    using ok unfolding rest by (auto simp: monitors_ok_def)
  ultimately show ?thesis using ok unfolding m' by (simp add: monitors_ok_def distinct_map_remove1)
next
  case False
  then have "snd (monitor_op_ends w reached m) = m" by (auto simp: monitor_op_ends_def Let_def)
  then show ?thesis using ok by simp
qed

text \<open>Cancelling some of the live monitors, and forgetting them.\<close>

lemma cancel_some_ok:
  assumes ok: "monitors_ok m"
    and kept: "\<And>k t. map_of held k = Some t \<longleftrightarrow> map_of (live_monitors m) k = Some t \<and> \<not> C k"
    and gone: "\<And>t. t \<in> set ts \<longleftrightarrow> (\<exists>k. map_of (live_monitors m) k = Some t \<and> C k)"
    and "distinct (map fst held)"
  shows "monitors_ok (m\<lparr>live_monitors := held, cancelled_tokens := cancelled_tokens m @ ts\<rparr>)"
proof -
  have "map_of held k = Some t \<longleftrightarrow> (k, t) \<in> set (waiting_monitors m) \<and>
      t \<notin> set (cancelled_tokens m) \<union> set ts" for k t
    unfolding kept gone Un_iff live_waiting [OF ok] using token_unique [OF ok] by blast
  moreover have "t < next_token m" if "t \<in> set ts" for t
    using that ok unfolding gone live_waiting [OF ok] by (force simp: monitors_ok_def)
  ultimately show ?thesis using ok assms(4) by (auto simp: monitors_ok_def)
qed

lemma demonitor_ok:
  assumes ok: "monitors_ok m" shows "monitors_ok (demonitor_op k m)"
proof (cases "map_of (live_monitors m) k")
  case (Some t)
  have "monitors_ok (m\<lparr>live_monitors := snd (imap_shift_remove k (live_monitors m)),
      cancelled_tokens := cancelled_tokens m @ [t]\<rparr>)"
  proof (rule cancel_some_ok [OF ok, where C = "\<lambda>j. j = k"])
    show "distinct (map fst (snd (imap_shift_remove k (live_monitors m))))"
      using ok by (simp add: monitors_ok_def)
    show "u \<in> set [t] \<longleftrightarrow> (\<exists>j. map_of (live_monitors m) j = Some u \<and> j = k)" for u
      using Some by (auto simp del: split_paired_Ex)
  qed (auto simp: imap_shift_remove_def map_of_filter_key)
  then show ?thesis using Some by (simp add: demonitor_op_def monitor_cancel_def)
qed (use ok in \<open>simp add: demonitor_op_def monitor_cancel_def\<close>)

lemma map_of_filter_node:
  "map_of (filter (\<lambda>((n, i), t). P n) xs) k = (if P (fst k) then map_of xs k else None)"
  by (induction xs) auto

lemma drop_node_ok:
  assumes ok: "monitors_ok m" shows "monitors_ok (drop_node node m)"
  unfolding drop_node_def
proof (rule cancel_some_ok [OF ok, where C = "\<lambda>k. fst k = node"])
  have d: "distinct (map fst (live_monitors m))" using ok by (simp add: monitors_ok_def)
  then show "distinct (map fst (filter (\<lambda>((n, i), t). n \<noteq> node) (live_monitors m)))"
    by (rule distinct_map_filter)
  show "t \<in> set (map snd (filter (\<lambda>((n, i), t). n = node) (live_monitors m))) \<longleftrightarrow>
      (\<exists>k. map_of (live_monitors m) k = Some t \<and> fst k = node)" for t
    using d by (force simp: image_iff)
qed (simp add: map_of_filter_node)

lemma monitor_step_ok:
  assumes "monitors_ok m" "\<And>k. e = MonitorStarts k \<Longrightarrow> k \<notin> fst ` set (waiting_monitors m)"
  shows "monitors_ok (monitor_step e m)"
  using assms by (cases e) (simp_all add: monitor_starts_ok monitor_ends_ok demonitor_ok drop_node_ok)

lemma monitor_step_waiting:
  "fst ` set (waiting_monitors (monitor_step e m)) \<subseteq>
    fst ` set (waiting_monitors m) \<union> set (started [e])"
proof (cases e)
  case (MonitorEnds w reached)
  then show ?thesis
    by (auto simp: monitor_op_ends_def monitor_end_def Let_def split: option.splits if_splits
      dest: notin_set_remove1 set_remove1_subset [THEN subsetD])
qed (auto simp: monitor_op_starts_def monitor_begin_def demonitor_op_def monitor_cancel_def
  drop_node_def Let_def split: option.splits)

lemma monitor_run_ok:
  assumes "monitors_ok m" "distinct (started es)"
    "fst ` set (waiting_monitors m) \<inter> set (started es) = {}"
  shows "monitors_ok (monitor_run es m)"
  using assms
proof (induction es arbitrary: m)
  case (Cons e es)
  have split: "started (e # es) = started [e] @ started es" by (cases e) simp_all
  have "\<And>k. e = MonitorStarts k \<Longrightarrow> k \<notin> fst ` set (waiting_monitors m)" using Cons.prems(3) by auto
  then have "monitors_ok (monitor_step e m)" by (rule monitor_step_ok [OF Cons.prems(1)])
  moreover have "fst ` set (waiting_monitors (monitor_step e m)) \<inter> set (started es) = {}"
    using monitor_step_waiting [of e m] Cons.prems(2,3) unfolding split by auto
  ultimately show ?case using Cons.IH Cons.prems(2) unfolding split by simp
qed simp

section \<open>Properties\<close>



lemma monitor_ops_bypass:
  assumes "handlers_new = Some h" "n = 6 \<or> n = 7"
  shows "map_option rh_bypasses (get_handler (op_id n) h) = Some True"
proof -
  have "map_option (\<lambda>h. map_option rh_bypasses (get_handler (op_id 6) h)) handlers_new = Some (Some True)"
    "map_option (\<lambda>h. map_option rh_bypasses (get_handler (op_id 7) h)) handlers_new = Some (Some True)"
    by code_simp+
  then show ?thesis unfolding assms(1) option.map(2) option.inject using assms(2) by blast
qed

text \<open>A monitor that is called off at once may be held nevertheless: both operations bypass the
actor's queue and run as tasks of their own, so that although they arrived in order, the second may run
first; it finds nothing to cancel, and the monitor that then starts stays.\<close>

theorem demonitor_can_overtake_its_monitor:
  assumes "handlers_new = Some h" "wk_msg w1 = op_id 6" "wk_msg w2 = op_id 7"
  shows "rt_spawned (router_run c h [Route a w1, Route a w2] router_new) = [(a, w1), (a, w2)] \<and>
    rt_spawned (router_run c h [Route a w1, Route a w2, SpawnedRuns 1 outcome] router_new) = [(a, w1)] \<and>
    live_monitors (monitor_run [Demonitors k, MonitorStarts k] monitors_new) = [(k, 0)] \<and>
    live_monitors (monitor_run [MonitorStarts k, Demonitors k] monitors_new) = []"
  using monitor_ops_bypass [OF assms(1), of 6] monitor_ops_bypass [OF assms(1), of 7] assms(2,3)
  by (auto simp: route_def router_new_def spawned_runs_def demonitor_op_def monitor_cancel_def
      monitor_op_starts_def monitor_begin_def monitors_new_def imap_shift_remove_def)

theorem demonitor_can_overtake_its_monitor_witness:
  "\<exists>h. handlers_new = Some h \<and>
    rt_spawned (router_run receiving_cluster h [Route ''a'' ((example_work 0)\<lparr>wk_msg := op_id 6\<rparr>),
      Route ''a'' ((example_work 0)\<lparr>wk_msg := op_id 7\<rparr>), SpawnedRuns 1 HandedOver] router_new) =
      [(''a'', (example_work 0)\<lparr>wk_msg := op_id 6\<rparr>)]"
proof -
  have "handlers_new \<noteq> None" by code_simp
  then obtain h where h: "handlers_new = Some h" by blast
  have "rt_spawned (router_run receiving_cluster h
      [Route ''a'' ((example_work 0)\<lparr>wk_msg := op_id 6\<rparr>),
       Route ''a'' ((example_work 0)\<lparr>wk_msg := op_id 7\<rparr>), SpawnedRuns 1 HandedOver] router_new) =
      [(''a'', (example_work 0)\<lparr>wk_msg := op_id 6\<rparr>)]"
    using demonitor_can_overtake_its_monitor [OF h, of "(example_work 0)\<lparr>wk_msg := op_id 6\<rparr>"
      "(example_work 0)\<lparr>wk_msg := op_id 7\<rparr>" receiving_cluster "''a''" HandedOver undefined]
    by (simp del: router_run.simps)
  with h show ?thesis by blast
qed

end
