(* ===== verification/Cluster_Refs.thy ===== *)
theory Cluster_Refs
  imports Channel_Runs Monitors
begin

text \<open>
  References to actors anywhere in the cluster (distr/src/messaging): where the actor is (address.rs),
  the operations on it, which read a local channel or ask the node it is on (ops.rs), sending it a message
  (the facade in send.rs), waiting for a reply (reply.rs), and finding it by name (node.rs).

  How values are laid out in a payload (serde) is a parameter. An operation that another node is asked for
  is followed through the code of both nodes: prepared, sent, routed, run, answered and completed.
\<close>

section \<open>Where an actor is\<close>

datatype target = LocalTarget | RemoteTarget (target_node: name) (target_name: name) (target_timeout: "duration option")

definition cluster_address_local :: target where
  "cluster_address_local = LocalTarget"

definition cluster_address_remote :: "name \<Rightarrow> name \<Rightarrow> target" where
  "cluster_address_remote node n = RemoteTarget node n None"

fun with_timeout :: "duration \<Rightarrow> target \<Rightarrow> target" where
  "with_timeout d LocalTarget = LocalTarget"
| "with_timeout d (RemoteTarget node n _) = RemoteTarget node n (Some d)"

fun is_local :: "target \<Rightarrow> bool" where
  "is_local LocalTarget = True"
| "is_local (RemoteTarget node n t) = False"

fun address_node :: "cluster \<Rightarrow> target \<Rightarrow> name" where
  "address_node c LocalTarget = cluster_local_name c"
| "address_node c (RemoteTarget node n t) = node"

section \<open>Waiting for a reply\<close>

text \<open>The deadline of \<open>prepare\<close>: the message's own, the address's, or the node's.\<close>

datatype deadline = DeadlineDefault | DeadlineNever

definition wait_limit :: "deadline \<Rightarrow> duration option \<Rightarrow> duration option \<Rightarrow> duration \<Rightarrow> duration option" where
  "wait_limit d options address call_timeout = (case d of
       DeadlineNever \<Rightarrow> None
     | DeadlineDefault \<Rightarrow> (case options of Some t \<Rightarrow> Some t | None \<Rightarrow>
         (case address of Some t \<Rightarrow> Some t | None \<Rightarrow> Some call_timeout)))"

text \<open>
  A reply from another node: \<open>arrived\<close> is what the waiter's channel gives and how long after the wait began;
  nothing at all when the channel was dropped (\<open>Inl ()\<close>), \<open>None\<close> when it never gives anything.
\<close>

definition answered :: "(bytes \<Rightarrow> string + 'v) \<Rightarrow> unit + answer \<Rightarrow> reply_error + 'v" where
  "answered decode_value a = (case a of
       Inr (Inr bytes) \<Rightarrow> (case decode_value bytes of Inr v \<Rightarrow> Inr v | Inl e \<Rightarrow> Inl (ReplyUndecodable e))
     | Inr (Inl e) \<Rightarrow> Inl e
     | Inl _ \<Rightarrow> Inl ReplyDisconnected)"

definition reply_wait ::
    "duration option \<Rightarrow> (bytes \<Rightarrow> string + 'v) \<Rightarrow> (duration \<times> (unit + answer)) option \<Rightarrow> (reply_error + 'v) poll" where
  "reply_wait limit decode_value arrived = (case (limit, arrived) of
       (Some l, Some (t, a)) \<Rightarrow> Ready (if t \<le> l then answered decode_value a else Inl ReplyTimeout)
     | (Some l, None) \<Rightarrow> Ready (Inl ReplyTimeout)
     | (None, Some (t, a)) \<Rightarrow> Ready (answered decode_value a)
     | (None, None) \<Rightarrow> Pending)"

text \<open>A reply from this node: \<open>None\<close> for a request that was dropped.\<close>

definition reply_wait_local ::
    "duration option \<Rightarrow> (duration \<times> 'v option) option \<Rightarrow> (reply_error + 'v) poll" where
  "reply_wait_local limit arrived =
     (let reply = (\<lambda>v. case v of Some v \<Rightarrow> Inr v | None \<Rightarrow> Inl (RemoteReply NoReply)) in
      case (limit, arrived) of
        (Some l, Some (t, v)) \<Rightarrow> Ready (if t \<le> l then reply v else Inl ReplyTimeout)
      | (Some l, None) \<Rightarrow> Ready (Inl ReplyTimeout)
      | (None, Some (t, v)) \<Rightarrow> Ready (reply v)
      | (None, None) \<Rightarrow> Pending)"

section \<open>Operations\<close>

record actor_info =
  info_snapshot :: channel_snapshot
  info_backpressure :: bool
  info_accepts :: "u128 list"

record channel_state =
  state_status :: actor_status
  state_msg_len :: nat
  state_signal_len :: nat
  state_backpressure :: bool

text \<open>The messages of the operations that are answered from the actor's channel, and their replies.\<close>

datatype actor_op = SignalOp signal | PingOp | InfoOp | StateOp | AcceptsOp "u128 list"

datatype op_value = BoolValue bool | UnitValue | InfoValue actor_info | StateValue channel_state

fun op_message :: "actor_op \<Rightarrow> u128" where
  "op_message (SignalOp s) = op_id 1"
| "op_message PingOp = op_id 2"
| "op_message InfoOp = op_id 3"
| "op_message StateOp = op_id 4"
| "op_message (AcceptsOp ids) = op_id 5"

definition accepted_ids :: "handlers \<Rightarrow> 'm channel \<Rightarrow> u128 list" where
  "accepted_ids h ch = registered_ids (channel_members ch) h"

definition channel_accepts_ids :: "handlers \<Rightarrow> u128 list \<Rightarrow> 'm channel \<Rightarrow> bool" where
  "channel_accepts_ids h ids ch = accepts_ids (channel_members ch) ids h"

definition read_actor_info :: "handlers \<Rightarrow> clock \<Rightarrow> 'm channel \<Rightarrow> actor_info" where
  "read_actor_info h now ch = \<lparr>info_snapshot = snapshot now ch, info_backpressure = reached_backpressure ch,
     info_accepts = accepted_ids h ch\<rparr>"

definition read_channel_state :: "'m channel \<Rightarrow> channel_state" where
  "read_channel_state ch = \<lparr>state_status = status ch, state_msg_len = msg_len ch, state_signal_len = signal_len ch,
     state_backpressure = reached_backpressure ch\<rparr>"

text \<open>
  \<open>pong\<close> is the request that a ping carries. A ping that the channel does not take drops it.
\<close>

definition ping_answer :: "nat \<Rightarrow> 'm channel \<Rightarrow> (remote_error + op_value) poll" where
  "ping_answer pong ch =
     (if pong \<in> set (pongs ch) then Ready (Inr UnitValue)
      else if SigPing pong \<in> set (signal_queue ch) then Pending else Ready (Inl NoReply))"

fun op_run ::
    "handlers \<Rightarrow> clock \<Rightarrow> nat \<Rightarrow> actor_op \<Rightarrow> 'm channel \<Rightarrow> 'm channel \<times> (remote_error + op_value) poll" where
  "op_run h now pong (SignalOp s) ch =
     (fst (signal_of_ref s ch), Ready (Inr (BoolValue (snd (signal_of_ref s ch)))))"
| "op_run h now pong PingOp ch = (ping pong ch, ping_answer pong (ping pong ch))"
| "op_run h now pong InfoOp ch = (ch, Ready (Inr (InfoValue (read_actor_info h now ch))))"
| "op_run h now pong StateOp ch = (ch, Ready (Inr (StateValue (read_channel_state ch))))"
| "op_run h now pong (AcceptsOp ids) ch = (ch, Ready (Inr (BoolValue (channel_accepts_ids h ids ch))))"

section \<open>The methods of a reference\<close>

datatype actor_method =
    GetSignalled signal | GetInfo | GetSnapshot | GetStatus | GetIsExiting | GetIsDead
  | GetMsgLen | GetMsgIsEmpty | GetSignalLen | GetSignalIsEmpty | GetBackpressure | GetLastSpawned
  | GetMembers | GetAccepts type_id u128 | GetAcceptsId u128 | GetIsSupersetOf "u128 list"

datatype method_value =
    IsBool bool | IsInfo actor_info | IsSnapshot channel_snapshot | IsStatus actor_status | IsLen nat
  | IsTime "int option" | IsIds "u128 list"

definition last_of :: "'a list \<Rightarrow> 'a option" where
  "last_of xs = (if xs = [] then None else Some (last xs))"

text \<open>What each does with a local actor.\<close>

fun on_local :: "handlers \<Rightarrow> clock \<Rightarrow> actor_method \<Rightarrow> 'm channel \<Rightarrow> 'm channel \<times> method_value" where
  "on_local h now (GetSignalled s) ch = map_prod id IsBool (signal_of_ref s ch)"
| "on_local h now GetInfo ch = (ch, IsInfo (read_actor_info h now ch))"
| "on_local h now GetSnapshot ch = (ch, IsSnapshot (snapshot now ch))"
| "on_local h now GetStatus ch = (ch, IsStatus (status ch))"
| "on_local h now GetIsExiting ch = (ch, IsBool (is_exiting (status ch)))"
| "on_local h now GetIsDead ch = (ch, IsBool (is_dead (status ch)))"
| "on_local h now GetMsgLen ch = (ch, IsLen (msg_len ch))"
| "on_local h now GetMsgIsEmpty ch = (ch, IsBool (msg_len ch = 0))"
| "on_local h now GetSignalLen ch = (ch, IsLen (signal_len ch))"
| "on_local h now GetSignalIsEmpty ch = (ch, IsBool (signal_len ch = 0))"
| "on_local h now GetBackpressure ch = (ch, IsBool (reached_backpressure ch))"
| "on_local h now GetLastSpawned ch = (ch, IsTime (last_of (snap_spawns (snapshot now ch))))"
| "on_local h now GetMembers ch = (ch, IsIds (accepted_ids h ch))"
| "on_local h now (GetAccepts ty i) ch = (ch, IsBool (accepts_id ty ch))"
| "on_local h now (GetAcceptsId i) ch = (ch, IsBool (channel_accepts_ids h [i] ch))"
| "on_local h now (GetIsSupersetOf ids) ch = (ch, IsBool (channel_accepts_ids h ids ch))"

text \<open>What each asks of another node, and how it reads the answer.\<close>

fun asks :: "actor_method \<Rightarrow> actor_op" where
  "asks (GetSignalled s) = SignalOp s"
| "asks GetInfo = InfoOp"
| "asks GetSnapshot = InfoOp"
| "asks GetLastSpawned = InfoOp"
| "asks GetMembers = InfoOp"
| "asks (GetAccepts ty i) = AcceptsOp [i]"
| "asks (GetAcceptsId i) = AcceptsOp [i]"
| "asks (GetIsSupersetOf ids) = AcceptsOp ids"
| "asks _ = StateOp"

fun reads :: "actor_method \<Rightarrow> op_value \<Rightarrow> method_value option" where
  "reads GetInfo (InfoValue i) = Some (IsInfo i)"
| "reads GetSnapshot (InfoValue i) = Some (IsSnapshot (info_snapshot i))"
| "reads GetLastSpawned (InfoValue i) = Some (IsTime (last_of (snap_spawns (info_snapshot i))))"
| "reads GetMembers (InfoValue i) = Some (IsIds (info_accepts i))"
| "reads GetStatus (StateValue s) = Some (IsStatus (state_status s))"
| "reads GetIsExiting (StateValue s) = Some (IsBool (is_exiting (state_status s)))"
| "reads GetIsDead (StateValue s) = Some (IsBool (is_dead (state_status s)))"
| "reads GetMsgLen (StateValue s) = Some (IsLen (state_msg_len s))"
| "reads GetMsgIsEmpty (StateValue s) = Some (IsBool (state_msg_len s = 0))"
| "reads GetSignalLen (StateValue s) = Some (IsLen (state_signal_len s))"
| "reads GetSignalIsEmpty (StateValue s) = Some (IsBool (state_signal_len s = 0))"
| "reads GetBackpressure (StateValue s) = Some (IsBool (state_backpressure s))"
| "reads (GetSignalled s) (BoolValue b) = Some (IsBool b)"
| "reads (GetAccepts ty i) (BoolValue b) = Some (IsBool b)"
| "reads (GetAcceptsId i) (BoolValue b) = Some (IsBool b)"
| "reads (GetIsSupersetOf ids) (BoolValue b) = Some (IsBool b)"
| "reads m v = None"

section \<open>An operation on another node\<close>

text \<open>How values are laid out: \<open>Inl\<close> is the error of an encoding or a decoding.\<close>

record layout =
  lay_op :: "actor_op \<Rightarrow> bytes"
  read_op :: "u128 \<Rightarrow> bytes \<Rightarrow> string + actor_op"
  lay_value :: "op_value \<Rightarrow> string + bytes"
  read_value :: "actor_op \<Rightarrow> bytes \<Rightarrow> string + op_value"

text \<open>What the handler of the operations does with a message; \<open>None\<close> while a ping waits.\<close>

definition builtin_deliver ::
    "layout \<Rightarrow> handlers \<Rightarrow> clock \<Rightarrow> nat \<Rightarrow> work \<Rightarrow> 'm channel \<Rightarrow> 'm channel \<times> handed option" where
  "builtin_deliver lay h now pong w ch =
     (case read_op lay (wk_msg w) (wk_payload w) of
        Inl e \<Rightarrow> (ch, Some (HandedError (DecodeFailed e)))
      | Inr op \<Rightarrow> (case op_run h now pong op ch of
          (ch, r) \<Rightarrow> (ch,
            if wk_call w = None then Some HandedOver
            else case r of
              Pending \<Rightarrow> None
            | Ready (Inl e) \<Rightarrow> Some (HandedAnswer (Inl e))
            | Ready (Inr v) \<Rightarrow> Some (HandedAnswer (case lay_value lay v of
                Inl e \<Rightarrow> Inl (EncodeFailed e) | Inr bytes \<Rightarrow> Inr bytes)))))"

definition op_outgoing :: "layout \<Rightarrow> name \<Rightarrow> actor_op \<Rightarrow> outgoing" where
  "op_outgoing lay n op = \<lparr>out_target = n, out_msg = op_message op, out_requests = 0,
     out_payload = Inr (lay_op lay op), out_replies = True\<rparr>"

text \<open>
  A call of an operation that loses nothing on the way: the frame is taken in by the other node, its
  operation runs on the channel of the actor, the reply is taken in by the caller. \<open>None\<close> when it gets
  stuck anywhere. The result is the channel, and what waiting gives the caller after a time \<open>t\<close>.
\<close>

record node =
  nd_name :: name
  nd_cluster :: cluster
  nd_handlers :: handlers

definition ask_remote ::
    "layout \<Rightarrow> node \<Rightarrow> node \<Rightarrow> clock \<Rightarrow> nat \<Rightarrow> deadline \<Rightarrow> duration option \<Rightarrow> duration \<Rightarrow> duration \<Rightarrow> name \<Rightarrow>
     actor_op \<Rightarrow> 'm channel \<Rightarrow> router \<Rightarrow> calls \<Rightarrow> ('m channel \<times> (cast_failure + (reply_error + op_value) poll)) option" where
  "ask_remote lay here there now pong d address call_timeout t n op ch r s =
     (case cast_remote True (nd_cluster here) (nd_name there) (op_outgoing lay n op) LaneTook s of
        (Inl e, s) \<Rightarrow> Some (ch, Inl e)
      | (Inr p, s) \<Rightarrow>
         Option.bind (router_on_incoming (nd_cluster there) (nd_handlers there) (nd_name here) (prep_frame p) (r, s))
         (\<lambda>(r', _).
           if length (rt_spawned r') \<le> length (rt_spawned r) then None
           else let w = snd (last (rt_spawned r'));
                    (ch', handed) = builtin_deliver lay (nd_handlers there) now pong w ch in
             Option.bind handed (\<lambda>handed.
               case process (nd_cluster there) w handed of
                 [(to, frame)] \<Rightarrow>
                   Option.bind (router_on_incoming (nd_cluster here) (nd_handlers here) (nd_name there) frame (r, s))
                     (\<lambda>(_, s'). Some (ch', Inr (reply_wait (wait_limit d None address call_timeout) (read_value lay op)
                        (map_option (\<lambda>a. (t, Inr a))
                          (Option.bind (prep_call p) (map_of (drop (length (answers s)) (answers s'))))))))
               | _ \<Rightarrow> None)))"

section \<open>Sending and finding\<close>

fun cast_dyn_failure :: "'m message cast_dyn_error \<Rightarrow> cast_failure \<times> 'm message" where
  "cast_dyn_failure (DynClosed m) = (LocalActorClosed, m)"
| "cast_dyn_failure (DynNotAccepted m) = (LocalNotAccepted, m)"

fun try_cast_dyn_failure :: "'m message try_cast_dyn_error \<Rightarrow> cast_failure \<times> 'm message" where
  "try_cast_dyn_failure (TryDynClosed m) = (LocalActorClosed, m)"
| "try_cast_dyn_failure (TryDynFull m) = (LaneFull, m)"
| "try_cast_dyn_failure (TryDynNotAccepted m) = (LocalNotAccepted, m)"

definition local_cast ::
    "'m message \<Rightarrow> 'm channel \<Rightarrow> ('m channel \<times> (cast_failure \<times> 'm message + unit)) option" where
  "local_cast m ch = map_option (map_prod id (map_sum cast_dyn_failure id)) (cast_dyn_with call_options_new m ch)"

definition local_try_cast ::
    "'m message \<Rightarrow> 'm channel \<Rightarrow> ('m channel \<times> (cast_failure \<times> 'm message + unit)) option" where
  "local_try_cast m ch =
     map_option (map_prod id (map_sum try_cast_dyn_failure id)) (try_cast_dyn_with call_options_new m ch)"

text \<open>
  One send wherever the actor is, over the channel of the actor when it is here and the calls of this node
  when it is not: \<open>out\<close> is what the message is on the wire.
\<close>

fun cluster_cast_with ::
    "bool \<Rightarrow> bool \<Rightarrow> cluster \<Rightarrow> target \<Rightarrow> 'm message \<Rightarrow> outgoing \<Rightarrow> lane_result \<Rightarrow> 'm channel \<Rightarrow> calls \<Rightarrow>
     ('m channel \<times> calls \<times> (cast_failure \<times> 'm message + unit)) option" where
  "cluster_cast_with trying running c LocalTarget m out lane ch s =
     map_option (\<lambda>(ch, r). (ch, s, r)) ((if trying then local_try_cast else local_cast) m ch)"
| "cluster_cast_with trying running c (RemoteTarget node n t) m out lane ch s =
     (case cast_remote running c node (out\<lparr>out_target := n\<rparr>) (if trying then lane else if lane = LaneWasFull then LaneTook else lane) s of
        (Inl e, s) \<Rightarrow> Some (ch, s, Inl (e, m))
      | (Inr p, s) \<Rightarrow> Some (ch, s, Inr ()))"

datatype address_error = NoSuchActorError | TypeMismatchError | AddressRemote "cast_failure + reply_error"

text \<open>What \<open>resolve\<close> makes of the answer to \<open>is_superset_of\<close>.\<close>

fun resolve :: "name \<Rightarrow> name \<Rightarrow> (cast_failure + reply_error) + bool \<Rightarrow> address_error + target" where
  "resolve node n (Inr True) = Inr (cluster_address_remote node n)"
| "resolve node n (Inr False) = Inl TypeMismatchError"
| "resolve node n (Inl (Inr (RemoteReply NoSuchActor))) = Inl NoSuchActorError"
| "resolve node n (Inl e) = Inl (AddressRemote e)"

text \<open>\<open>found\<close> is the channel that the local registry has under the name.\<close>

definition address_dyn ::
    "cluster \<Rightarrow> name \<Rightarrow> name \<Rightarrow> type_id list \<Rightarrow> 'm channel option \<Rightarrow> (cast_failure + reply_error) + bool \<Rightarrow>
     address_error + target" where
  "address_dyn c node n tys found asked =
     (if node = cluster_local_name c
      then case found of
          None \<Rightarrow> Inl NoSuchActorError
        | Some ch \<Rightarrow> if is_superset_of tys ch then Inr cluster_address_local else Inl TypeMismatchError
      else resolve node n asked)"

definition cluster_address ::
    "cluster \<Rightarrow> name \<Rightarrow> name \<Rightarrow> iface \<Rightarrow> 'm channel option \<Rightarrow> (cast_failure + reply_error) + bool \<Rightarrow>
     address_error + target" where
  "cluster_address c node n i found asked =
     (if node = cluster_local_name c
      then case found of
          None \<Rightarrow> Inl NoSuchActorError
        | Some ch \<Rightarrow> if is_interface i ch then Inr cluster_address_local else Inl TypeMismatchError
      else resolve node n asked)"

section \<open>What a node answers\<close>

text \<open>
  All methods but \<open>accepts\<close> read the same of a local and of a remote actor; \<open>accepts\<close> goes by the type here
  and by its id there, which agree when that type has that id and no other type does.
\<close>

fun agrees :: "actor_method \<Rightarrow> handlers \<Rightarrow> bool" where
  "agrees (GetAccepts ty i) h = (\<forall>t. map_of (by_type h) t = Some i \<longleftrightarrow> t = ty)"
| "agrees m h = True"

lemma set_registered_ids: "i \<in> set (registered_ids tys h) \<longleftrightarrow> (\<exists>t \<in> set tys. map_of (by_type h) t = Some i)"
  by (auto simp: registered_ids_def List.map_filter_def image_iff)

lemma op_run_answers:
  assumes "agrees m h"
  shows "\<exists>v. op_run h now pong (asks m) ch = (fst (on_local h now m ch), Ready (Inr v)) \<and>
    reads m v = Some (snd (on_local h now m ch))"
  using assms
  by (cases m) (auto simp: read_actor_info_def read_channel_state_def split_beta channel_accepts_ids_def
    accepts_ids_def set_registered_ids accepts_id_def)

text \<open>The layout carries this operation and this answer, and the reply fits a message.\<close>

definition carries :: "layout \<Rightarrow> u64 \<Rightarrow> actor_op \<Rightarrow> op_value \<Rightarrow> bool" where
  "carries lay call op v \<longleftrightarrow> read_op lay (op_message op) (lay_op lay op) = Inr op \<and>
     (case lay_value lay v of Inl e \<Rightarrow> False
      | Inr bytes \<Rightarrow> read_value lay op bytes = Inr v \<and> length (encode (ReplyFrame call (Inr bytes))) \<le> max_frame_size)"

definition can_ask :: "layout \<Rightarrow> node \<Rightarrow> node \<Rightarrow> name \<Rightarrow> actor_op \<Rightarrow> calls \<Rightarrow> bool" where
  "can_ask lay here there n op s \<longleftrightarrow>
     Cluster_State.member (nd_name there) (nd_cluster here) \<noteq> None \<and> is_reachable (nd_name there) (nd_cluster here) \<and>
     Cluster_State.member (nd_name here) (nd_cluster there) \<noteq> None \<and> name_fits n \<and>
     (case get_handler (op_message op) (nd_handlers there) of Some rh \<Rightarrow> rh_bypasses rh | None \<Rightarrow> False) \<and>
     length (encode (MessageFrame (Some (next_call s)) n (op_message op) [] (lay_op lay op))) \<le> max_frame_size"

lemma ask_remote_answers:
  assumes can: "can_ask lay here there n op s"
    and run: "op_run (nd_handlers there) now pong op ch = (ch', Ready (Inr v))"
    and lay: "carries lay (next_call s) op v"
    and limit: "case wait_limit d None address call_timeout of None \<Rightarrow> True | Some l \<Rightarrow> t \<le> l"
  shows "ask_remote lay here there now pong d address call_timeout t n op ch r s = Some (ch', Inr (Ready (Inr v)))"
proof -
  let ?call = "next_call s"
  let ?frame = "encode (MessageFrame (Some ?call) n (op_message op) [] (lay_op lay op))"
  let ?s = "pending_insert ?call (nd_name there) (snd (mint s))"
  let ?p = "\<lparr>prep_frame = ?frame, prep_exports = [], prep_call = Some ?call\<rparr>"
  let ?w = "\<lparr>wk_from = nd_name here, wk_msg = op_message op, wk_requests = [], wk_payload = lay_op lay op,
    wk_call = Some ?call\<rparr>"
  obtain bytes where bytes: "lay_value lay v = Inr bytes" "read_value lay op bytes = Inr v"
      "length (encode (ReplyFrame ?call (Inr bytes))) \<le> max_frame_size"
    using lay by (auto simp: carries_def split: sum.splits)
  have 1: "cast_remote True (nd_cluster here) (nd_name there) (op_outgoing lay n op) LaneTook s = (Inr ?p, ?s)"
    using can by (auto simp: can_ask_def cast_remote_def prepare_def op_outgoing_def mint_def Let_def
      simp del: encode.simps)
  have "decode ?frame = Some (Some (MessageFrame (Some ?call) n (op_message op) [] (lay_op lay op)))"
    using can by (simp add: can_ask_def decode_message_iff del: encode.simps)
  then have 2: "router_on_incoming (nd_cluster there) (nd_handlers there) (nd_name here) ?frame (r, ?s) =
      Some (r\<lparr>rt_spawned := rt_spawned r @ [(n, ?w)]\<rparr>, ?s)"
    using can by (auto simp: can_ask_def router_on_incoming_def route_def simp del: encode.simps split: option.splits)
  have 3: "builtin_deliver lay (nd_handlers there) now pong ?w ch = (ch', Some (HandedAnswer (Inr bytes)))"
    using lay run bytes(1) by (simp add: carries_def builtin_deliver_def)
  have 4: "process (nd_cluster there) ?w (HandedAnswer (Inr bytes)) = [(nd_name here, encode (ReplyFrame ?call (Inr bytes)))]"
    using can bytes(3) by (simp add: can_ask_def process_def reply_def reply_frame_def Let_def del: encode.simps)
  have "decode (encode (ReplyFrame ?call (Inr bytes))) = Some (Some (ReplyFrame ?call (Inr bytes)))"
    by (rule decode_encode_reply) simp
  moreover have "map_of (pending_calls ?s) ?call = Some (nd_name there)"
    by (simp add: pending_insert_def Let_def)
  ultimately have 5: "router_on_incoming (nd_cluster here) (nd_handlers here) (nd_name there)
      (encode (ReplyFrame ?call (Inr bytes))) (r, ?s) = Some (r, answer ?call (Inr bytes) ?s)"
    by (simp add: router_on_incoming_def complete_def del: encode.simps)
  have 6: "reply_wait (wait_limit d None address call_timeout) (read_value lay op) (Some (t, Inr (Inr bytes))) = Ready (Inr v)"
    using limit bytes(2) by (auto simp: reply_wait_def answered_def split: option.splits)
  show ?thesis
    unfolding ask_remote_def 1
    by (simp add: 2 3 4 5 6 answer_def [of ?call "Inr bytes"] del: encode.simps)
qed

lemma map_sum_Inl_iff: "map_sum f id x = Inl y \<longleftrightarrow> (\<exists>a. x = Inl a \<and> f a = y)"
  by (cases x) auto

section \<open>Properties\<close>

text \<open>C27: Asking a remote actor is asking a local one: every operation that another node is asked for, followed
through both nodes and back, does to the actor's channel what it does to a local one and gives the caller
the same answer, when the nodes know each other, the frames fit, the payloads carry the values and
the answer comes in time. Only \<open>accepts\<close> needs the type to be registered there.\<close>

theorem remote_operation_answers_as_a_local_one:
  assumes "can_ask lay here there n (asks m) s" "agrees m (nd_handlers there)"
    and "op_run (nd_handlers there) now pong (asks m) ch = (ch', Ready (Inr v))"
    and "carries lay (next_call s) (asks m) v"
    and "case wait_limit d None address call_timeout of None \<Rightarrow> True | Some l \<Rightarrow> t \<le> l"
  shows "ask_remote lay here there now pong d address call_timeout t n (asks m) ch r s =
      Some (fst (on_local (nd_handlers there) now m ch), Inr (Ready (Inr v))) \<and>
    reads m v = Some (snd (on_local (nd_handlers there) now m ch))"
  using ask_remote_answers [OF assms(1,3-5)] op_run_answers [OF assms(2), of now pong ch] assms(3) by auto

definition example_layout :: layout where
  "example_layout = \<lparr>lay_op = (\<lambda>_. [1]), read_op = (\<lambda>_ _. Inr (SignalOp Shutdown)),
     lay_value = (\<lambda>v. case v of BoolValue b \<Rightarrow> Inr [if b then 1 else 0] | _ \<Rightarrow> Inl []),
     read_value = (\<lambda>_ bytes. Inr (BoolValue (bytes = [1])))\<rparr>"

definition example_node :: "name \<Rightarrow> name \<Rightarrow> node" where
  "example_node here there = \<lparr>nd_name = here,
     nd_cluster = member_up (example_member there 1) (cluster_new (example_member here 1)),
     nd_handlers = \<lparr>by_id = [(op_id 1, \<lparr>rh_type = 1, rh_bypasses = True\<rparr>)], by_type = []\<rparr>\<rparr>"

theorem remote_operation_answers_as_a_local_one_witness:
  "\<exists>ch. ask_remote example_layout (example_node ''a'' ''b'') (example_node ''b'' ''a'') \<lparr>clock_instant = 0, clock_timestamp = 0\<rparr>
      0 DeadlineDefault None 30 10 ''x'' (SignalOp Shutdown) (example_channel\<lparr>status := Running\<rparr>) router_new calls_new =
      Some (ch, Inr (Ready (Inr (BoolValue True)))) \<and> signal_queue ch = [SigShutdown]"
proof -
  let ?m = "GetSignalled Shutdown" and ?clock = "\<lparr>clock_instant = 0, clock_timestamp = 0\<rparr>"
  have "can_ask example_layout (example_node ''a'' ''b'') (example_node ''b'' ''a'') ''x'' (asks ?m) calls_new"
    by (simp add: can_ask_def example_node_def cluster_defs cluster_new_def example_member_def is_reachable_def
      get_handler_def name_fits_def as_bytes_def utf8_valid_ascii example_layout_def calls_new_def max_frame_size_def
      put_call_id_def put_target_def put_u8_def put_u16_def put_u64_def put_u128_def del: utf8_valid.simps)
  moreover have "carries example_layout (next_call calls_new) (asks ?m) (BoolValue True)"
    by (simp add: carries_def example_layout_def max_frame_size_def put_u8_def put_u64_def)
  ultimately show ?thesis
    using remote_operation_answers_as_a_local_one [where m = ?m and now = ?clock and ch = "example_channel\<lparr>status := Running\<rparr>"
      and v = "BoolValue True" and d = DeadlineDefault and address = None and call_timeout = 30 and t = 10
      and here = "example_node ''a'' ''b''" and there = "example_node ''b'' ''a''" and n = "''x''" and s = calls_new
      and r = router_new and lay = example_layout and pong = 0]
    by (simp add: wait_limit_def signal_of_ref_def send_signal_def example_channel_def channel_with_limits_def)
qed



end
