(* ===== verification/Lifecycle.thy ===== *)
theory Lifecycle
  imports Channel_Runs "HOL-Library.Multiset"
begin

text \<open>
  What keeps an actor's channel alive and under its name: strong references (references/strong.rs),
  the registry (registry/mod.rs), the tasks spawned on a channel (spawn.rs) and the handles that own
  them (references/child.rs).

  Each step is atomic in the code: one access of the registry, one change of a counter, one change of a
  status. So dropping the last strong reference is two steps, upgrading a weak one is two, and spawning
  is two; what has begun and not ended is part of the state.
\<close>

section \<open>The world\<close>

datatype task_result = TaskOk | TaskErr | TaskPanicked | TaskAborted

record task =
  tk_chan :: nat
  tk_result :: "task_result option" \<comment> \<open>of its future, which owns the inbox\<close>
  tk_done :: bool \<comment> \<open>the exit is registered\<close>
  tk_abort :: bool

record 'm world =
  wd_registry :: "(name \<times> nat) list"
  wd_channels :: "'m channel list"
  wd_held :: "nat list" \<comment> \<open>the strong references of handles, by channel\<close>
  wd_spawning :: "nat list" \<comment> \<open>calls of spawn that have made an inbox\<close>
  wd_tasks :: "task list"
  wd_upgrading :: "nat list" \<comment> \<open>weak references found not permanently dead\<close>
  wd_removing :: "nat list" \<comment> \<open>whose count has reached zero\<close>
  wd_not_found :: "name list" \<comment> \<open>entries missing when they were to be removed: a panic in debug builds\<close>
  wd_broken :: "nat list" \<comment> \<open>where registering a spawn failed: a panic\<close>

definition world_new :: "'m world" where
  "world_new = \<lparr>wd_registry = [], wd_channels = [], wd_held = [], wd_spawning = [], wd_tasks = [],
     wd_upgrading = [], wd_removing = [], wd_not_found = [], wd_broken = []\<rparr>"

text \<open>Who holds strong references: handles, calls of spawn, and the inbox in each future.\<close>

definition refs :: "'m world \<Rightarrow> nat multiset" where
  "refs w = mset (wd_held w) + mset (wd_spawning w) +
     image_mset tk_chan (filter_mset (\<lambda>t. tk_result t = None) (mset (wd_tasks w)))"

definition set_channel :: "nat \<Rightarrow> 'm channel \<Rightarrow> 'm world \<Rightarrow> 'm world" where
  "set_channel k ch w = w\<lparr>wd_channels := (wd_channels w)[k := ch]\<rparr>"

section \<open>The registry\<close>

definition registry_add :: "name \<Rightarrow> nat \<Rightarrow> (name \<times> nat) list \<Rightarrow> ((name \<times> nat) list) option" where
  "registry_add n k reg = (if map_of reg n = None then Some (imap_insert n k reg) else None)"

definition registry_get :: "name \<Rightarrow> 'm world \<Rightarrow> nat option" where
  "registry_get n w = map_of (wd_registry w) n"

section \<open>Strong references\<close>

text \<open>A rejected name leaves nothing: the new channel has no strong address.\<close>

definition create :: "name \<Rightarrow> iface \<Rightarrow> instant \<Rightarrow> 'm world \<Rightarrow> nat option \<times> 'm world" where
  "create n i now w =
     (let k = length (wd_channels w) in
      case registry_add n k (wd_registry w) of
        None \<Rightarrow> (None, w)
      | Some reg \<Rightarrow> (Some k, w\<lparr>wd_registry := reg, wd_channels := wd_channels w @ [channel_new n 1 i now],
          wd_held := k # wd_held w\<rparr>))"

text \<open>Overflowing the count aborts the process.\<close>

definition count_up :: "nat \<Rightarrow> 'm world \<Rightarrow> 'm world option" where
  "count_up k w = map_option (\<lambda>ch. set_channel k ch w) (incr_strong_count (wd_channels w ! k))"

definition count_down :: "nat \<Rightarrow> 'm world \<Rightarrow> 'm world" where
  "count_down k w =
     (let d = decr_strong_count (wd_channels w ! k); w = set_channel k (fst d) w in
      if snd d then w\<lparr>wd_removing := k # wd_removing w\<rparr> else w)"

text \<open>An inbox that is dropped drains its channel first.\<close>

definition drop_inbox :: "nat \<Rightarrow> 'm world \<Rightarrow> 'm world" where
  "drop_inbox k w = count_down k (set_channel k (drain_signals ((wd_channels w ! k)\<lparr>msg_queue := []\<rparr>)) w)"

definition clone_strong :: "nat \<Rightarrow> 'm world \<Rightarrow> 'm world option" where
  "clone_strong k w =
     (if k \<in> set (wd_held w) then map_option (\<lambda>w. w\<lparr>wd_held := k # wd_held w\<rparr>) (count_up k w) else Some w)"

definition drop_strong :: "nat \<Rightarrow> 'm world \<Rightarrow> 'm world" where
  "drop_strong k w =
     (if k \<in> set (wd_held w) then count_down k (w\<lparr>wd_held := remove1 k (wd_held w)\<rparr>) else w)"

definition deregister :: "nat \<Rightarrow> 'm world \<Rightarrow> 'm world" where
  "deregister k w =
     (let n = ch_name (wd_channels w ! k); removed = imap_shift_remove n (wd_registry w) in
      if k \<in> set (wd_removing w)
      then w\<lparr>wd_registry := snd removed, wd_removing := remove1 k (wd_removing w),
             wd_not_found := (if fst removed = None then n # wd_not_found w else wd_not_found w)\<rparr>
      else w)"

definition upgrade_checks :: "nat \<Rightarrow> 'm world \<Rightarrow> 'm world" where
  "upgrade_checks k w =
     (if k < length (wd_channels w) \<and> \<not> is_permanently_dead (wd_channels w ! k)
      then w\<lparr>wd_upgrading := k # wd_upgrading w\<rparr> else w)"

definition upgrade_counts :: "nat \<Rightarrow> 'm world \<Rightarrow> 'm world option" where
  "upgrade_counts k w =
     (if k \<in> set (wd_upgrading w)
      then map_option (\<lambda>w. w\<lparr>wd_upgrading := remove1 k (wd_upgrading w), wd_held := k # wd_held w\<rparr>) (count_up k w)
      else Some w)"

section \<open>Spawning\<close>

text \<open>
  \<open>spawn\<close> consumes a strong reference and clones it for the inbox; where a process is already running
  both are dropped.
\<close>

definition spawn_checks :: "nat \<Rightarrow> 'm world \<Rightarrow> (bool \<times> 'm world) option" where
  "spawn_checks k w =
     (if k \<notin> set (wd_held w) then Some (False, w)
      else case count_up k w of
        None \<Rightarrow> None
      | Some w' \<Rightarrow>
          if is_dead (status (wd_channels w ! k)) then Some (True, w'\<lparr>wd_spawning := k # wd_spawning w\<rparr>)
          else Some (False, drop_strong k (count_down k w')))"

definition task_exit :: "task_result \<Rightarrow> exit_error + unit" where
  "task_exit r = (case r of
       TaskOk \<Rightarrow> Inr () | TaskErr \<Rightarrow> Inl ErrUnhandledError | TaskPanicked \<Rightarrow> Inl ErrPanicked
     | TaskAborted \<Rightarrow> Inl ErrAborted)"

text \<open>When registering the spawn fails, the guard registers an abort and both references are dropped.\<close>

definition spawn_registers :: "nat \<Rightarrow> instant \<Rightarrow> 'm world \<Rightarrow> 'm world" where
  "spawn_registers k now w =
     (let r = register_spawned now (wd_channels w ! k);
          w' = w\<lparr>wd_spawning := remove1 k (wd_spawning w)\<rparr> in
      if k \<notin> set (wd_spawning w) then w
      else case snd r of
        Inr _ \<Rightarrow> (set_channel k (fst r) w')\<lparr>wd_tasks := wd_tasks w @
          [\<lparr>tk_chan = k, tk_result = None, tk_done = False, tk_abort = False\<rparr>]\<rparr>
      | Inl _ \<Rightarrow> drop_strong k (drop_inbox k
          ((set_channel k (fst (register_exited now (Inl ErrAborted) (fst r))) w')
            \<lparr>wd_broken := k # wd_broken w\<rparr>)))"

text \<open>A future that is aborted is dropped where it waits; either way the inbox goes with it.\<close>

definition future_ends :: "nat \<Rightarrow> task_result \<Rightarrow> 'm world \<Rightarrow> 'm world" where
  "future_ends i r w =
     (let t = wd_tasks w ! i in
      if i < length (wd_tasks w) \<and> tk_result t = None \<and> (r = TaskAborted \<longrightarrow> tk_abort t)
      then drop_inbox (tk_chan t) (w\<lparr>wd_tasks := (wd_tasks w)[i := t\<lparr>tk_result := Some r\<rparr>]\<rparr>) else w)"

definition task_registers :: "nat \<Rightarrow> instant \<Rightarrow> 'm world \<Rightarrow> 'm world" where
  "task_registers i now w =
     (let t = wd_tasks w ! i; k = tk_chan t in
      if i < length (wd_tasks w) \<and> \<not> tk_done t
      then (case tk_result t of
          None \<Rightarrow> w
        | Some r \<Rightarrow> set_channel k (fst (register_exited now (task_exit r) (wd_channels w ! k)))
            (w\<lparr>wd_tasks := (wd_tasks w)[i := t\<lparr>tk_done := True\<rparr>]\<rparr>))
      else w)"

definition abort_task :: "nat \<Rightarrow> 'm world \<Rightarrow> 'm world" where
  "abort_task i w = w\<lparr>wd_tasks := (wd_tasks w)[i := (wd_tasks w ! i)\<lparr>tk_abort := True\<rparr>]\<rparr>"

section \<open>Child handles\<close>

record child =
  cd_task :: "nat option" \<comment> \<open>its join handle\<close>
  cd_chan :: nat
  cd_attached :: bool

definition child_new :: "nat \<Rightarrow> nat \<Rightarrow> child" where
  "child_new i k = \<lparr>cd_task = Some i, cd_chan = k, cd_attached = True\<rparr>"

definition attach :: "child \<Rightarrow> child" where "attach c = c\<lparr>cd_attached := True\<rparr>"
definition detach :: "child \<Rightarrow> child" where "detach c = c\<lparr>cd_attached := False\<rparr>"

definition drop_child :: "child \<Rightarrow> 'm world \<Rightarrow> 'm world" where
  "drop_child c w = drop_strong (cd_chan c)
     (case cd_task c of Some i \<Rightarrow> if cd_attached c then abort_task i w else w | None \<Rightarrow> w)"

text \<open>\<open>None\<close> in the results is the panic of a child that was polled to its end.\<close>

definition into_handle :: "child \<Rightarrow> 'm world \<Rightarrow> (nat \<times> 'm world) option" where
  "into_handle c w = map_option (\<lambda>i. (i, drop_child (c\<lparr>cd_task := None\<rparr>) w)) (cd_task c)"

definition into_parts :: "child \<Rightarrow> 'm world \<Rightarrow> (nat \<times> nat \<times> 'm world) option" where
  "into_parts c w = (case cd_task c of
       None \<Rightarrow> None
     | Some i \<Rightarrow> map_option (\<lambda>w. (i, cd_chan c, drop_child (c\<lparr>cd_task := None\<rparr>) w)) (clone_strong (cd_chan c) w))"

definition into_context :: "child \<Rightarrow> 'm world \<Rightarrow> (child \<times> 'm world) option" where
  "into_context c w = map_option (\<lambda>(i, k, w). (child_new i k, w)) (into_parts c w)"

section \<open>Runs\<close>

datatype lifecycle_event =
    Creates name iface instant | Clones nat | Drops nat | RemovesEntry nat
  | UpgradeChecks nat | UpgradeCounts nat | SpawnChecks nat | SpawnRegisters nat instant
  | FutureEnds nat task_result | TaskRegisters nat instant | Aborts nat
  | Initializes nat | Suspends nat | Resumes nat | ExitBegins nat

fun lifecycle_step :: "lifecycle_event \<Rightarrow> 'm world \<Rightarrow> 'm world option" where
  "lifecycle_step (Creates n i now) w = Some (snd (create n i now w))"
| "lifecycle_step (Clones k) w = clone_strong k w"
| "lifecycle_step (Drops k) w = Some (drop_strong k w)"
| "lifecycle_step (RemovesEntry k) w = Some (deregister k w)"
| "lifecycle_step (UpgradeChecks k) w = Some (upgrade_checks k w)"
| "lifecycle_step (UpgradeCounts k) w = upgrade_counts k w"
| "lifecycle_step (SpawnChecks k) w = map_option snd (spawn_checks k w)"
| "lifecycle_step (SpawnRegisters k now) w = Some (spawn_registers k now w)"
| "lifecycle_step (FutureEnds i r) w = Some (future_ends i r w)"
| "lifecycle_step (TaskRegisters i now) w = Some (task_registers i now w)"
| "lifecycle_step (Aborts i) w = Some (abort_task i w)"
| "lifecycle_step (Initializes k) w = Some (set_channel k (fst (register_initialized (wd_channels w ! k))) w)"
| "lifecycle_step (Suspends k) w = Some (set_channel k (fst (register_suspended (wd_channels w ! k))) w)"
| "lifecycle_step (Resumes k) w = Some (set_channel k (fst (register_resumed (wd_channels w ! k))) w)"
| "lifecycle_step (ExitBegins k) w = Some (set_channel k (fst (register_exiting (wd_channels w ! k))) w)"

fun lifecycle_run :: "lifecycle_event list \<Rightarrow> 'm world \<Rightarrow> 'm world option" where
  "lifecycle_run [] w = Some w"
| "lifecycle_run (e # es) w = Option.bind (lifecycle_step e w) (lifecycle_run es)"

text \<open>
  What \<open>incr_strong_count\<close> asks of its callers, that a strong reference exists, and that nobody
  else has spawned on the channel since it was found dead.
\<close>

fun sound_event :: "lifecycle_event \<Rightarrow> 'm world \<Rightarrow> bool" where
  "sound_event (UpgradeCounts k) w = (k \<in># refs w)"
| "sound_event (SpawnRegisters k now) w = is_dead (status (wd_channels w ! k))"
| "sound_event e w = True"

fun sound_run :: "lifecycle_event list \<Rightarrow> 'm world \<Rightarrow> bool" where
  "sound_run [] w = True"
| "sound_run (e # es) w = (sound_event e w \<and>
     (case lifecycle_step e w of None \<Rightarrow> True | Some w \<Rightarrow> sound_run es w))"

section \<open>What holds in sound runs\<close>

text \<open>The counters are right, and the registry has the channels that are held or about to be removed.\<close>

definition world_ok :: "nat multiset \<Rightarrow> 'm world \<Rightarrow> bool" where
  "world_ok M w \<longleftrightarrow> (\<forall>k \<in># M. k < length (wd_channels w)) \<and>
     (\<forall>k < length (wd_channels w).
        count M k \<le> 2 ^ 63 \<and> strong_count (wd_channels w ! k) = of_nat (count M k)) \<and>
     distinct (map fst (wd_registry w)) \<and> distinct (wd_removing w) \<and> wd_not_found w = [] \<and>
     (\<forall>k \<in> set (wd_removing w). k < length (wd_channels w) \<and> k \<notin># M) \<and>
     (\<forall>n k. map_of (wd_registry w) n = Some k \<longleftrightarrow>
        k < length (wd_channels w) \<and> ch_name (wd_channels w ! k) = n \<and>
        (k \<in># M \<or> k \<in> set (wd_removing w)))"

text \<open>A channel is alive exactly when a task runs on it, and then one task does.\<close>

definition running :: "nat \<Rightarrow> 'm world \<Rightarrow> nat" where
  "running k w = size (filter_mset (\<lambda>t. tk_chan t = k \<and> \<not> tk_done t) (mset (wd_tasks w)))"

definition tasks_ok :: "'m world \<Rightarrow> bool" where
  "tasks_ok w \<longleftrightarrow> wd_broken w = [] \<and>
     (\<forall>k < length (wd_channels w). running k w = (if is_dead (status (wd_channels w ! k)) then 0 else 1)) \<and>
     (\<forall>t \<in> set (wd_tasks w). tk_chan t < length (wd_channels w) \<and> (tk_done t \<longrightarrow> tk_result t \<noteq> None)) \<and>
     (\<forall>k \<in> set (wd_spawning w). k < length (wd_channels w))"

lemma unat_small: "n \<le> 2 ^ 63 \<Longrightarrow> unat (of_nat n :: u64) = n"
  by (simp add: unsigned_of_nat take_bit_nat_eq_self_iff)

lemma world_ok_cong:
  "wd_registry w' = wd_registry w \<Longrightarrow> wd_channels w' = wd_channels w \<Longrightarrow>
    wd_removing w' = wd_removing w \<Longrightarrow> wd_not_found w' = wd_not_found w \<Longrightarrow> world_ok M w \<Longrightarrow> world_ok M w'"
  by (simp add: world_ok_def)

lemma set_channel_ok:
  assumes "world_ok M w" "ch_name ch = ch_name (wd_channels w ! k)"
    "strong_count ch = strong_count (wd_channels w ! k)"
  shows "world_ok M (set_channel k ch w)"
proof -
  have "ch_name ((wd_channels w)[k := ch] ! j) = ch_name (wd_channels w ! j)"
    "strong_count ((wd_channels w)[k := ch] ! j) = strong_count (wd_channels w ! j)" for j
    using assms(2,3) by (cases "j = k"; cases "k < length (wd_channels w)"; simp add: list_update_beyond)+
  then show ?thesis using assms(1) by (simp add: world_ok_def set_channel_def)
qed

lemma count_up_ok:
  assumes ok: "world_ok M w" and k: "k \<in># M" and up: "count_up k w = Some w'"
  shows "world_ok (add_mset k M) w'"
proof -
  let ?c = "strong_count (wd_channels w ! k)"
  have len: "k < length (wd_channels w)" using ok k by (auto simp: world_ok_def)
  then have c: "?c = of_nat (count M k)" "count M k \<le> 2 ^ 63" using ok by (auto simp: world_ok_def)
  have "\<not> ?c > 9223372036854775807" and w': "w' = set_channel k ((wd_channels w ! k)\<lparr>strong_count := ?c + 1\<rparr>) w"
    using up by (auto simp: count_up_def incr_strong_count_def split: if_splits)
  then have "unat ?c \<le> 9223372036854775807" by (simp add: word_less_nat_alt not_less)
  moreover have "unat ?c = count M k" using c by (simp add: unat_small)
  ultimately have "count M k < 2 ^ 63" by simp
  then show ?thesis using ok k len c(1)
    by (auto simp: world_ok_def w' set_channel_def nth_list_update)
qed

lemma count_down_ok:
  assumes ok: "world_ok M w" and k: "k \<in># M"
  shows "world_ok (M - {#k#}) (count_down k w)"
proof -
  let ?c = "strong_count (wd_channels w ! k)"
  have len: "k < length (wd_channels w)" using ok k by (auto simp: world_ok_def)
  then have c: "?c = of_nat (count M k)" "count M k \<le> 2 ^ 63" using ok by (auto simp: world_ok_def)
  have pos: "0 < count M k" using k by simp
  have one: "?c = 1 \<longleftrightarrow> count M k = 1"
  proof
    assume "?c = 1"
    then have "unat (of_nat (count M k) :: u64) = 1" using c(1) by simp
    then show "count M k = 1" using unat_small [OF c(2)] by simp
  qed (simp add: c(1))
  have minus: "?c - 1 = of_nat (count M k - 1)" using c(1) pos by (simp add: of_nat_diff)
  have notin: "k \<notin> set (wd_removing w)" using ok k by (auto simp: world_ok_def)
  have in_diff: "j \<in># M - {#k#} \<longleftrightarrow> j \<in># M \<and> (j \<noteq> k \<or> 1 < count M k)" for j
    by (auto simp: count_diff simp flip: count_greater_zero_iff)
  show ?thesis
  proof (cases "?c = 1")
    case True
    then have "j \<in># M - {#k#} \<longleftrightarrow> j \<in># M \<and> j \<noteq> k" for j using one in_diff by auto
    then show ?thesis using ok k len True minus one notin c
      unfolding world_ok_def count_down_def decr_strong_count_def set_channel_def Let_def
      by (auto simp: nth_list_update count_diff)
  next
    case False
    then have "1 < count M k" using one pos by linarith
    then have "j \<in># M - {#k#} \<longleftrightarrow> j \<in># M" for j using in_diff k by auto
    then show ?thesis using ok k len False minus c
      unfolding world_ok_def count_down_def decr_strong_count_def set_channel_def Let_def
      by (auto simp: nth_list_update count_diff)
  qed
qed

text \<open>Changes of status keep the name and the count.\<close>

lemma register_keeps [simp]:
  "ch_name (fst (register_spawned now ch)) = ch_name ch"
  "strong_count (fst (register_spawned now ch)) = strong_count ch"
  "ch_name (fst (register_exited now r ch)) = ch_name ch"
  "strong_count (fst (register_exited now r ch)) = strong_count ch"
  "ch_name (fst (register_initialized ch)) = ch_name ch"
  "strong_count (fst (register_initialized ch)) = strong_count ch"
  "ch_name (fst (register_suspended ch)) = ch_name ch"
  "strong_count (fst (register_suspended ch)) = strong_count ch"
  "ch_name (fst (register_resumed ch)) = ch_name ch"
  "strong_count (fst (register_resumed ch)) = strong_count ch"
  "ch_name (fst (register_exiting ch)) = ch_name ch"
  "strong_count (fst (register_exiting ch)) = strong_count ch"
  by (cases "status ch"; simp add: register_defs)+

lemma counting_keeps [simp]:
  "wd_held (count_down k w) = wd_held w" "wd_spawning (count_down k w) = wd_spawning w"
  "wd_tasks (count_down k w) = wd_tasks w" "wd_upgrading (count_down k w) = wd_upgrading w"
  "wd_broken (count_down k w) = wd_broken w" "wd_registry (count_down k w) = wd_registry w"
  "wd_held (set_channel k ch w) = wd_held w" "wd_spawning (set_channel k ch w) = wd_spawning w"
  "wd_tasks (set_channel k ch w) = wd_tasks w" "wd_upgrading (set_channel k ch w) = wd_upgrading w"
  "wd_broken (set_channel k ch w) = wd_broken w" "wd_registry (set_channel k ch w) = wd_registry w"
  by (simp_all add: count_down_def set_channel_def Let_def)

lemma count_up_keeps:
  "count_up k w = Some w' \<Longrightarrow> wd_held w' = wd_held w \<and> wd_spawning w' = wd_spawning w \<and>
    wd_tasks w' = wd_tasks w \<and> wd_upgrading w' = wd_upgrading w \<and> wd_broken w' = wd_broken w"
  by (auto simp: count_up_def)

lemma drain_keeps [simp]:
  "ch_name (drain_signals ch) = ch_name ch" "strong_count (drain_signals ch) = strong_count ch"
  using signal_frame_drain_signals [of ch] by (simp_all add: signal_frame_def)

lemma drop_inbox_ok:
  assumes "world_ok M w" "k \<in># M" shows "world_ok (M - {#k#}) (drop_inbox k w)"
  unfolding drop_inbox_def
  by (rule count_down_ok [OF set_channel_ok [OF assms(1)] assms(2)]) simp_all

lemma create_ok:
  assumes ok: "world_ok (refs w) w"
  shows "world_ok (refs (snd (create n i now w))) (snd (create n i now w))"
proof (cases "map_of (wd_registry w) n")
  case None
  let ?k = "length (wd_channels w)"
  let ?w = "snd (create n i now w)"
  have w': "?w = w\<lparr>wd_registry := imap_insert n ?k (wd_registry w),
      wd_channels := wd_channels w @ [channel_new n 1 i now], wd_held := ?k # wd_held w\<rparr>"
    using None by (simp add: create_def registry_add_def Let_def)
  have refs: "refs ?w = add_mset ?k (refs w)" by (simp add: w' refs_def)
  have fresh: "?k \<notin># refs w" "?k \<notin> set (wd_removing w)" using ok by (auto simp: world_ok_def)
  then have "count (refs w) ?k = 0" by (simp add: count_eq_zero_iff)
  moreover have "map_of (wd_registry ?w) m = Some k \<longleftrightarrow>
      k < length (wd_channels ?w) \<and> ch_name (wd_channels ?w ! k) = m \<and>
      (k \<in># add_mset ?k (refs w) \<or> k \<in> set (wd_removing ?w))" for m k
  proof (cases "k = ?k")
    case True
    then show ?thesis using ok fresh None
      by (auto simp: w' world_ok_def channel_new_def channel_with_limits_def)
  next
    case False
    have "map_of (wd_registry w) m = Some k \<longleftrightarrow> k < ?k \<and> ch_name (wd_channels w ! k) = m \<and>
        (k \<in># refs w \<or> k \<in> set (wd_removing w))" for m
      using ok by (simp add: world_ok_def)
    note this [of m] this [of n]
    then show ?thesis using False None by (auto simp: w' nth_append less_Suc_eq)
  qed
  moreover have "count (add_mset ?k (refs w)) k \<le> 2 ^ 63 \<and> strong_count (wd_channels ?w ! k) =
      of_nat (count (add_mset ?k (refs w)) k)" if "k < length (wd_channels ?w)" for k
    using ok that calculation(1)
    by (cases "k = ?k") (auto simp: w' world_ok_def nth_append less_Suc_eq channel_new_def channel_with_limits_def)
  ultimately show ?thesis using ok fresh
    unfolding refs world_ok_def by (auto simp: w' less_SucI)
next
  case (Some k)
  then show ?thesis using ok by (simp add: create_def registry_add_def)
qed

lemma clone_ok:
  assumes ok: "world_ok (refs w) w" and "clone_strong k w = Some w'"
  shows "world_ok (refs w') w'"
proof (cases "k \<in> set (wd_held w)")
  case True
  then obtain u where u: "count_up k w = Some u" "w' = u\<lparr>wd_held := k # wd_held w\<rparr>"
    using assms(2) count_up_keeps by (fastforce simp: clone_strong_def)
  have "k \<in># refs w" using True by (simp add: refs_def)
  then have "world_ok (add_mset k (refs w)) u" by (rule count_up_ok [OF ok _ u(1)])
  moreover have "refs w' = add_mset k (refs w)" using u count_up_keeps [OF u(1)] by (simp add: refs_def)
  ultimately show ?thesis by (simp add: u(2) world_ok_cong [of _ u])
qed (use assms in \<open>simp add: clone_strong_def\<close>)

lemma drop_ok:
  assumes ok: "world_ok (refs w) w" shows "world_ok (refs (drop_strong k w)) (drop_strong k w)"
proof (cases "k \<in> set (wd_held w)")
  case True
  have "world_ok (refs w) (w\<lparr>wd_held := remove1 k (wd_held w)\<rparr>)"
    by (rule world_ok_cong [OF _ _ _ _ ok]) simp_all
  moreover have "k \<in># refs w" using True by (simp add: refs_def)
  ultimately have "world_ok (refs w - {#k#}) (drop_strong k w)"
    using count_down_ok True by (simp add: drop_strong_def)
  moreover have "refs (drop_strong k w) = refs w - {#k#}"
    using True by (simp add: drop_strong_def refs_def)
  ultimately show ?thesis by simp
qed (use ok in \<open>simp add: drop_strong_def\<close>)

lemma deregister_ok:
  assumes ok: "world_ok (refs w) w" shows "world_ok (refs (deregister k w)) (deregister k w)"
proof (cases "k \<in> set (wd_removing w)")
  case True
  let ?n = "ch_name (wd_channels w ! k)"
  have k: "k < length (wd_channels w)" "k \<notin># refs w" using ok True by (auto simp: world_ok_def)
  have iff: "map_of (wd_registry w) n = Some j \<longleftrightarrow> j < length (wd_channels w) \<and>
      ch_name (wd_channels w ! j) = n \<and> (j \<in># refs w \<or> j \<in> set (wd_removing w))" for n j
    using ok by (simp add: world_ok_def)
  have entry: "map_of (wd_registry w) ?n = Some k" using iff True k by simp
  then have w': "deregister k w = w\<lparr>wd_registry := snd (imap_shift_remove ?n (wd_registry w)),
      wd_removing := remove1 k (wd_removing w)\<rparr>"
    using True by (simp add: deregister_def imap_shift_remove_def Let_def)
  have dist: "distinct (wd_removing w)" using ok by (simp add: world_ok_def)
  have "map_of (wd_registry (deregister k w)) n = Some j \<longleftrightarrow>
      j < length (wd_channels w) \<and> ch_name (wd_channels w ! j) = n \<and>
      (j \<in># refs w \<or> j \<in> set (wd_removing w) \<and> j \<noteq> k)" for n j
  proof (cases "n = ?n")
    case True
    then show ?thesis using entry iff [of ?n j] k(2)
      by (auto simp: w' imap_shift_remove_def map_of_filter_key)
  next
    case False
    then show ?thesis using iff [of n j] by (auto simp: w' imap_shift_remove_def map_of_filter_key)
  qed
  moreover have "refs (deregister k w) = refs w" by (simp add: w' refs_def)
  ultimately show ?thesis using ok dist by (auto simp: w' world_ok_def)
qed (use ok in \<open>simp add: deregister_def Let_def\<close>)

lemma upgrade_checks_ok: "world_ok (refs w) w \<Longrightarrow> world_ok (refs (upgrade_checks k w)) (upgrade_checks k w)"
  by (auto simp: upgrade_checks_def refs_def world_ok_cong [of _ w])

lemma upgrade_counts_ok:
  assumes ok: "world_ok (refs w) w" and k: "k \<in># refs w" and "upgrade_counts k w = Some w'"
  shows "world_ok (refs w') w'"
proof (cases "k \<in> set (wd_upgrading w)")
  case True
  then obtain u where u: "count_up k w = Some u"
      "w' = u\<lparr>wd_upgrading := remove1 k (wd_upgrading u), wd_held := k # wd_held u\<rparr>"
    using assms(3) count_up_keeps by (fastforce simp: upgrade_counts_def)
  have "world_ok (add_mset k (refs w)) u" by (rule count_up_ok [OF ok k u(1)])
  moreover have "refs w' = add_mset k (refs w)" using u count_up_keeps [OF u(1)] by (simp add: refs_def)
  ultimately show ?thesis by (simp add: u(2) world_ok_cong [of _ u])
qed (use assms in \<open>simp add: upgrade_counts_def\<close>)

lemma spawn_checks_ok:
  assumes ok: "world_ok (refs w) w" and w': "spawn_checks k w = Some (b, w')"
  shows "world_ok (refs w') w'"
proof (cases "k \<in> set (wd_held w)")
  case True
  then obtain u where u: "count_up k w = Some u"
    using w' by (auto simp: spawn_checks_def split: option.splits)
  have k: "k \<in># refs w" using True by (simp add: refs_def)
  note up = count_up_ok [OF ok k u] and keeps = count_up_keeps [OF u]
  show ?thesis
  proof (cases "is_dead (status (wd_channels w ! k))")
    case dead: True
    then have "w' = u\<lparr>wd_spawning := k # wd_spawning w\<rparr>" using w' u True by (simp add: spawn_checks_def)
    moreover from this have "refs w' = add_mset k (refs w)" using keeps by (simp add: refs_def)
    ultimately show ?thesis using up by (simp add: world_ok_cong [of _ u])
  next
    case False
    then have w'': "w' = drop_strong k (count_down k u)" using w' u True by (simp add: spawn_checks_def)
    have "world_ok (refs w) (count_down k u)" using count_down_ok [OF up, of k] by simp
    moreover have "refs (count_down k u) = refs w" using keeps by (simp add: refs_def)
    ultimately show ?thesis unfolding w'' by (intro drop_ok) simp
  qed
qed (use assms in \<open>simp add: spawn_checks_def\<close>)

lemma spawn_registers_ok:
  assumes ok: "world_ok (refs w) w" and "is_dead (status (wd_channels w ! k))"
  shows "world_ok (refs (spawn_registers k now w)) (spawn_registers k now w)"
proof (cases "k \<in> set (wd_spawning w)")
  case True
  obtain e where "status (wd_channels w ! k) = Exited e" using assms(2) by (cases "status (wd_channels w ! k)") auto
  then have "snd (register_spawned now (wd_channels w ! k)) = Inr ()" by (simp add: register_defs)
  then have w': "spawn_registers k now w = (set_channel k (fst (register_spawned now (wd_channels w ! k)))
      (w\<lparr>wd_spawning := remove1 k (wd_spawning w)\<rparr>))\<lparr>wd_tasks := wd_tasks w @
        [\<lparr>tk_chan = k, tk_result = None, tk_done = False, tk_abort = False\<rparr>]\<rparr>"
    using True by (simp add: spawn_registers_def Let_def)
  have "refs (spawn_registers k now w) = refs w" using True by (simp add: w' refs_def)
  moreover have "world_ok (refs w) (spawn_registers k now w)"
    unfolding w' by (rule world_ok_cong [OF _ _ _ _ set_channel_ok [OF ok, of "fst (register_spawned now (wd_channels w ! k))" k]])
      (simp_all add: set_channel_def)
  ultimately show ?thesis by simp
qed (use ok in \<open>simp add: spawn_registers_def Let_def\<close>)

lemma mset_task_update:
  "i < length ts \<Longrightarrow> mset (ts[i := t]) = add_mset t (mset ts - {#ts ! i#})"
  by (rule mset_update)

lemma filter_task_update:
  assumes "i < length ts"
  shows "filter_mset P (mset (ts[i := t])) =
    (if P t then {#t#} else {#}) + (filter_mset P (mset ts) - (if P (ts ! i) then {#ts ! i#} else {#}))"
  using assms by (simp add: mset_task_update)

lemma future_ends_ok:
  assumes ok: "world_ok (refs w) w"
  shows "world_ok (refs (future_ends i r w)) (future_ends i r w)"
proof (cases "i < length (wd_tasks w) \<and> tk_result (wd_tasks w ! i) = None \<and>
    (r = TaskAborted \<longrightarrow> tk_abort (wd_tasks w ! i))")
  case True
  let ?t = "wd_tasks w ! i"
  let ?u = "w\<lparr>wd_tasks := (wd_tasks w)[i := ?t\<lparr>tk_result := Some r\<rparr>]\<rparr>"
  have w': "future_ends i r w = drop_inbox (tk_chan ?t) ?u" using True by (simp add: future_ends_def Let_def)
  have mem: "?t \<in># filter_mset (\<lambda>t. tk_result t = None) (mset (wd_tasks w))" using True by simp
  then have k: "tk_chan ?t \<in># refs w" unfolding refs_def by (metis image_eqI set_image_mset union_iff)
  have "filter_mset (\<lambda>t. tk_result t = None) (mset ((wd_tasks w)[i := ?t\<lparr>tk_result := Some r\<rparr>])) =
      filter_mset (\<lambda>t. tk_result t = None) (mset (wd_tasks w)) - {#?t#}"
    using True by (simp add: filter_task_update)
  then have "refs (future_ends i r w) = mset (wd_held w) + mset (wd_spawning w) +
      (image_mset tk_chan (filter_mset (\<lambda>t. tk_result t = None) (mset (wd_tasks w))) - {#tk_chan ?t#})"
    using mem by (simp add: w' refs_def drop_inbox_def image_mset_Diff)
  moreover have "tk_chan ?t \<in># image_mset tk_chan (filter_mset (\<lambda>t. tk_result t = None) (mset (wd_tasks w)))"
    using mem by (metis image_eqI set_image_mset)
  ultimately have "refs (future_ends i r w) = refs w - {#tk_chan ?t#}"
    unfolding refs_def by (simp only: diff_union_single_conv)
  moreover have "world_ok (refs w) ?u" by (rule world_ok_cong [OF _ _ _ _ ok]) simp_all
  ultimately show ?thesis using drop_inbox_ok k by (simp add: w')
next
  case False
  then have "future_ends i r w = w" by (auto simp: future_ends_def Let_def)
  then show ?thesis using ok by simp
qed

lemma task_registers_ok:
  assumes ok: "world_ok (refs w) w"
  shows "world_ok (refs (task_registers i now w)) (task_registers i now w)"
proof (cases "i < length (wd_tasks w) \<and> \<not> tk_done (wd_tasks w ! i) \<and> tk_result (wd_tasks w ! i) \<noteq> None")
  case True
  then obtain r where r: "tk_result (wd_tasks w ! i) = Some r" by blast
  let ?t = "wd_tasks w ! i"
  let ?ch = "fst (register_exited now (task_exit r) (wd_channels w ! tk_chan ?t))"
  have w': "task_registers i now w = set_channel (tk_chan ?t) ?ch
      (w\<lparr>wd_tasks := (wd_tasks w)[i := ?t\<lparr>tk_done := True\<rparr>]\<rparr>)"
    using True r by (simp add: task_registers_def Let_def)
  have "refs (task_registers i now w) = refs w"
    using True r by (simp add: w' refs_def filter_task_update)
  moreover have "world_ok (refs w) (task_registers i now w)"
    unfolding w' by (rule world_ok_cong [OF _ _ _ _ set_channel_ok [OF ok, of ?ch "tk_chan ?t"]])
      (simp_all add: set_channel_def)
  ultimately show ?thesis by simp
next
  case False
  then have "task_registers i now w = w" by (auto simp: task_registers_def Let_def)
  then show ?thesis using ok by simp
qed

lemma abort_task_ok:
  assumes ok: "world_ok (refs w) w" shows "world_ok (refs (abort_task i w)) (abort_task i w)"
proof -
  have "refs (abort_task i w) = refs w"
  proof (cases "i < length (wd_tasks w)")
    case True
    then show ?thesis by (simp add: abort_task_def refs_def filter_task_update image_mset_Diff)
  qed (simp add: abort_task_def refs_def list_update_beyond)
  moreover have "world_ok (refs w) (abort_task i w)"
    by (rule world_ok_cong [OF _ _ _ _ ok]) (simp_all add: abort_task_def)
  ultimately show ?thesis by simp
qed

lemma move_ok:
  assumes "world_ok (refs w) w" "ch_name ch = ch_name (wd_channels w ! k)"
    "strong_count ch = strong_count (wd_channels w ! k)"
  shows "world_ok (refs (set_channel k ch w)) (set_channel k ch w)"
  using set_channel_ok [OF assms] by (simp add: refs_def)

lemma lifecycle_step_ok:
  assumes "world_ok (refs w) w" "sound_event e w" "lifecycle_step e w = Some w'"
  shows "world_ok (refs w') w'"
proof (cases e)
  case (Clones k)
  then show ?thesis using assms(3) clone_ok [OF assms(1)] by simp
next
  case (UpgradeCounts k)
  then show ?thesis using assms(2,3) upgrade_counts_ok [OF assms(1)] by simp
next
  case (SpawnChecks k)
  then obtain b where "spawn_checks k w = Some (b, w')" using assms(3) by auto
  then show ?thesis by (rule spawn_checks_ok [OF assms(1)])
next
  case (SpawnRegisters k now)
  then have "world_ok (refs (spawn_registers k now w)) (spawn_registers k now w)"
    using assms(2) by (intro spawn_registers_ok assms(1)) simp
  then show ?thesis using assms(3) SpawnRegisters by simp
qed (use assms(3) create_ok [OF assms(1)] drop_ok [OF assms(1)] deregister_ok [OF assms(1)]
  upgrade_checks_ok [OF assms(1)] future_ends_ok [OF assms(1)] task_registers_ok [OF assms(1)]
  abort_task_ok [OF assms(1)] move_ok [OF assms(1)] in \<open>auto\<close>)

section \<open>One task per channel\<close>

abbreviation dead :: "nat \<Rightarrow> 'm world \<Rightarrow> bool" where
  "dead k w \<equiv> is_dead (status (wd_channels w ! k))"

lemma tasks_ok_cong:
  assumes "tasks_ok w" "wd_tasks w' = wd_tasks w" "wd_broken w' = wd_broken w"
    "length (wd_channels w') = length (wd_channels w)"
    "\<And>k. k < length (wd_channels w) \<Longrightarrow> dead k w' \<longleftrightarrow> dead k w"
    "\<forall>k \<in> set (wd_spawning w'). k < length (wd_channels w)"
  shows "tasks_ok w'"
  using assms by (simp add: tasks_ok_def running_def)

lemma set_channel_dead:
  "is_dead (status ch) = dead k w \<Longrightarrow> dead j (set_channel k ch w) \<longleftrightarrow> dead j w"
  by (cases "j = k"; cases "k < length (wd_channels w)"; simp add: set_channel_def list_update_beyond)

lemma count_status:
  "count_up k w = Some w' \<Longrightarrow> length (wd_channels w') = length (wd_channels w) \<and> (dead j w' \<longleftrightarrow> dead j w)"
  "length (wd_channels (count_down k w)) = length (wd_channels w) \<and> (dead j (count_down k w) \<longleftrightarrow> dead j w)"
proof -
  show "length (wd_channels w') = length (wd_channels w) \<and> (dead j w' \<longleftrightarrow> dead j w)"
    if up: "count_up k w = Some w'"
  proof -
    obtain ch where "incr_strong_count (wd_channels w ! k) = Some ch" "w' = set_channel k ch w"
      using up by (auto simp: count_up_def)
    moreover from this have "is_dead (status ch) = dead k w"
      by (auto simp: incr_strong_count_def split: if_splits)
    ultimately show ?thesis by (simp add: set_channel_dead) (simp add: set_channel_def)
  qed
  have "is_dead (status (fst (decr_strong_count (wd_channels w ! k)))) = dead k w"
    by (simp add: decr_strong_count_def)
  from set_channel_dead [OF this]
  show "length (wd_channels (count_down k w)) = length (wd_channels w) \<and> (dead j (count_down k w) \<longleftrightarrow> dead j w)"
    by (simp add: count_down_def Let_def) (simp add: set_channel_def)
qed

lemma drop_status:
  "length (wd_channels (drop_strong k w)) = length (wd_channels w) \<and> (dead j (drop_strong k w) \<longleftrightarrow> dead j w)"
  "wd_tasks (drop_strong k w) = wd_tasks w" "wd_broken (drop_strong k w) = wd_broken w"
  "wd_spawning (drop_strong k w) = wd_spawning w"
  using count_status(2) [of k "w\<lparr>wd_held := remove1 k (wd_held w)\<rparr>" j]
  by (simp_all add: drop_strong_def)

lemma move_dead:
  "is_dead (status (fst (register_initialized ch))) = is_dead (status ch)"
  "is_dead (status (fst (register_suspended ch))) = is_dead (status ch)"
  "is_dead (status (fst (register_resumed ch))) = is_dead (status ch)"
  "is_dead (status (fst (register_exiting ch))) = is_dead (status ch)"
  by (cases "status ch"; simp add: register_defs)+

lemma pop_signal_dead: "is_dead (status (fst (pop_signal ch))) = is_dead (status ch)"
proof (induction ch rule: pop_signal.induct)
  case (1 ch)
  show ?case
  proof (cases "signal_queue ch")
    case (Cons t rest)
    obtain ch1 r where h: "handle_signal t (ch\<lparr>signal_queue := rest\<rparr>) = (ch1, r)" by fastforce
    moreover have "is_dead (status (fst (handle_signal t (ch\<lparr>signal_queue := rest\<rparr>)))) = is_dead (status ch)"
      by (cases t) (simp_all add: move_dead)
    ultimately show ?thesis using "1.IH" [OF Cons h [symmetric]] Cons
      by (cases r) (simp_all add: pop_signal_Cons)
  qed simp
qed

lemma drain_dead: "is_dead (status (drain_signals ch)) = is_dead (status ch)"
proof (induction ch rule: drain_signals.induct)
  case (1 ch)
  obtain ch1 r where "pop_signal ch = (ch1, r)" by fastforce
  then show ?case using "1.IH" [of ch1] pop_signal_dead [of ch]
    by (cases r) (auto simp: drain_signals.simps [of ch])
qed

lemma move_tasks_ok:
  assumes "tasks_ok w" "is_dead (status ch) = dead k w" shows "tasks_ok (set_channel k ch w)"
proof (rule tasks_ok_cong [OF assms(1)])
  show "dead j (set_channel k ch w) \<longleftrightarrow> dead j w" for j by (rule set_channel_dead [OF assms(2)])
qed (use assms(1) in \<open>simp_all add: set_channel_def tasks_ok_def\<close>)

lemma create_tasks_ok:
  assumes "tasks_ok w" shows "tasks_ok (snd (create n i now w))"
proof (cases "map_of (wd_registry w) n")
  case None
  let ?w = "snd (create n i now w)"
  have w': "?w = w\<lparr>wd_registry := imap_insert n (length (wd_channels w)) (wd_registry w),
      wd_channels := wd_channels w @ [channel_new n 1 i now], wd_held := length (wd_channels w) # wd_held w\<rparr>"
    using None by (simp add: create_def registry_add_def Let_def)
  have none: "running (length (wd_channels w)) w = 0"
    using assms by (auto simp: tasks_ok_def running_def)
  have "running k ?w = (if dead k ?w then 0 else 1)" if "k < length (wd_channels ?w)" for k
  proof (cases "k = length (wd_channels w)")
    case True
    then show ?thesis using none
      by (simp add: w' running_def channel_new_def channel_with_limits_def)
  next
    case False
    then show ?thesis using that assms by (simp add: w' tasks_ok_def running_def nth_append)
  qed
  then show ?thesis using assms by (auto simp: tasks_ok_def w' less_SucI)
qed (use assms in \<open>simp add: create_def registry_add_def\<close>)

lemma running_update:
  assumes "i < length (wd_tasks w)" "wd_tasks w' = (wd_tasks w)[i := t]"
    "tk_chan t = tk_chan (wd_tasks w ! i)" "\<not> tk_done (wd_tasks w ! i)"
  shows "running k w' = (if tk_done t \<and> tk_chan t = k then running k w - 1 else running k w)"
proof -
  let ?P = "\<lambda>t. tk_chan t = k \<and> \<not> tk_done t"
  let ?F = "filter_mset ?P (mset (wd_tasks w))"
  have eq: "running k w' = (if ?P t then 1 else 0) +
      size (?F - (if ?P (wd_tasks w ! i) then {#wd_tasks w ! i#} else {#}))"
    using assms(1,2) by (simp add: running_def filter_task_update)
  show ?thesis
  proof (cases "tk_chan t = k")
    case True
    then have "wd_tasks w ! i \<in># ?F" using assms(1,3,4) by simp
    then obtain M where "?F = add_mset (wd_tasks w ! i) M" by (metis multi_member_split)
    then have "size (?F - {#wd_tasks w ! i#}) = size ?F - 1" "0 < size ?F" by simp_all
    then show ?thesis using eq True assms(3,4) by (simp add: running_def)
  next
    case False
    then show ?thesis using eq assms(3) by (simp add: running_def)
  qed
qed

lemma spawning_tasks_ok:
  assumes ok: "world_ok (refs w) w" "tasks_ok w"
  shows "spawn_checks k w = Some (b, w') \<Longrightarrow> tasks_ok w'"
    and "dead k w \<Longrightarrow> tasks_ok (spawn_registers k now w)"
proof -
  show "tasks_ok w'" if checks: "spawn_checks k w = Some (b, w')"
  proof (cases "k \<in> set (wd_held w)")
    case True
    then obtain u where u: "count_up k w = Some u" and
        w': "w' = u\<lparr>wd_spawning := k # wd_spawning w\<rparr> \<or> w' = drop_strong k (count_down k u)"
      using checks by (auto simp: spawn_checks_def split: option.splits if_splits)
    have "k \<in># refs w" using True by (simp add: refs_def)
    then have k: "k < length (wd_channels w)" using ok(1) by (auto simp: world_ok_def)
    note keeps = count_up_keeps [OF u] count_status(1) [OF u]
    have u_ok: "tasks_ok u" by (rule tasks_ok_cong [OF ok(2)]) (use keeps ok(2) in \<open>simp_all add: tasks_ok_def\<close>)
    have "tasks_ok (u\<lparr>wd_spawning := k # wd_spawning w\<rparr>)"
      by (rule tasks_ok_cong [OF u_ok]) (use keeps k ok(2) in \<open>simp_all add: tasks_ok_def\<close>)
    moreover have "tasks_ok (drop_strong k (count_down k u))"
      by (rule tasks_ok_cong [OF u_ok]) (use u_ok in \<open>simp_all add: drop_status count_status(2) tasks_ok_def\<close>)
    ultimately show ?thesis using w' by blast
  qed (use checks ok in \<open>simp add: spawn_checks_def\<close>)
next
  assume dead: "dead k w"
  show "tasks_ok (spawn_registers k now w)"
  proof (cases "k \<in> set (wd_spawning w)")
    case True
    then have k: "k < length (wd_channels w)" using ok(2) by (simp add: tasks_ok_def)
    obtain e where e: "status (wd_channels w ! k) = Exited e" using dead by (cases "status (wd_channels w ! k)") auto
    let ?ch = "fst (register_spawned now (wd_channels w ! k))"
    have ch: "snd (register_spawned now (wd_channels w ! k)) = Inr ()" "\<not> is_dead (status ?ch)"
      using e by (simp_all add: register_defs)
    have w': "spawn_registers k now w = (set_channel k ?ch (w\<lparr>wd_spawning := remove1 k (wd_spawning w)\<rparr>))
      \<lparr>wd_tasks := wd_tasks w @ [\<lparr>tk_chan = k, tk_result = None, tk_done = False, tk_abort = False\<rparr>]\<rparr>"
      using True ch(1) by (simp add: spawn_registers_def Let_def)
    have "running j (spawn_registers k now w) = (if j = k then running j w + 1 else running j w)" for j
      by (simp add: w' running_def)
    moreover have "running k w = 0" using ok(2) k dead by (simp add: tasks_ok_def)
    moreover have "dead j (spawn_registers k now w) \<longleftrightarrow> (if j = k then False else dead j w)" for j
      using k ch(2) by (simp add: w' set_channel_def nth_list_update)
    moreover have "length (wd_channels (spawn_registers k now w)) = length (wd_channels w)"
      by (simp add: w' set_channel_def)
    ultimately show ?thesis using ok(2) k
      by (auto simp: tasks_ok_def w' set_channel_def dest: notin_set_remove1 set_remove1_subset [THEN subsetD])
  qed (use ok in \<open>simp add: spawn_registers_def Let_def\<close>)
qed

lemma future_ends_tasks_ok:
  assumes ok: "tasks_ok w" shows "tasks_ok (future_ends i r w)"
proof (cases "i < length (wd_tasks w) \<and> tk_result (wd_tasks w ! i) = None \<and>
    (r = TaskAborted \<longrightarrow> tk_abort (wd_tasks w ! i))")
  case True
  let ?t = "(wd_tasks w ! i)\<lparr>tk_result := Some r\<rparr>"
  let ?u = "w\<lparr>wd_tasks := (wd_tasks w)[i := ?t]\<rparr>"
  have mem: "wd_tasks w ! i \<in> set (wd_tasks w)" using True by simp
  then have "\<not> tk_done (wd_tasks w ! i)" using ok True by (auto simp: tasks_ok_def)
  then have "running k ?u = running k w" for k using running_update [of i w ?u ?t k] True by simp
  then have u_ok: "tasks_ok ?u" using ok mem
    by (auto simp: tasks_ok_def dest!: set_update_subset_insert [THEN subsetD])
  have "future_ends i r w = drop_inbox (tk_chan (wd_tasks w ! i)) ?u"
    using True by (simp add: future_ends_def Let_def)
  moreover have "tasks_ok (drop_inbox k ?u)" for k
  proof -
    let ?v = "set_channel k (drain_signals ((wd_channels ?u ! k)\<lparr>msg_queue := []\<rparr>)) ?u"
    have v: "tasks_ok ?v" by (rule move_tasks_ok [OF u_ok]) (simp add: drain_dead)
    show ?thesis unfolding drop_inbox_def
      by (rule tasks_ok_cong [OF v]) (use v count_status(2) [of k ?v] in \<open>simp_all add: tasks_ok_def\<close>)
  qed
  ultimately show ?thesis by simp
next
  case False
  then have "future_ends i r w = w" by (auto simp: future_ends_def Let_def)
  then show ?thesis using ok by simp
qed

lemma task_registers_tasks_ok:
  assumes ok: "tasks_ok w" shows "tasks_ok (task_registers i now w)"
proof (cases "i < length (wd_tasks w) \<and> \<not> tk_done (wd_tasks w ! i) \<and> tk_result (wd_tasks w ! i) \<noteq> None")
  case True
  then obtain r where r: "tk_result (wd_tasks w ! i) = Some r" by blast
  let ?k = "tk_chan (wd_tasks w ! i)" and ?t = "(wd_tasks w ! i)\<lparr>tk_done := True\<rparr>"
  let ?ch = "fst (register_exited now (task_exit r) (wd_channels w ! ?k))"
  have w': "task_registers i now w = set_channel ?k ?ch (w\<lparr>wd_tasks := (wd_tasks w)[i := ?t]\<rparr>)"
    using True r by (simp add: task_registers_def Let_def)
  have mem: "wd_tasks w ! i \<in> set (wd_tasks w)" using True by simp
  then have k: "?k < length (wd_channels w)" using ok by (auto simp: tasks_ok_def)
  have dead: "is_dead (status ?ch)" by (cases "status (wd_channels w ! ?k)") (simp_all add: register_defs)
  have run: "running j (task_registers i now w) = (if ?k = j then running j w - 1 else running j w)" for j
    using running_update [of i w "task_registers i now w" ?t j] True by (simp add: w')
  have "dead j (task_registers i now w) \<longleftrightarrow> j = ?k \<or> dead j w" if "j < length (wd_channels w)" for j
    using that dead k by (auto simp: w' set_channel_def nth_list_update)
  moreover have "running ?k w \<le> 1" using ok k by (simp add: tasks_ok_def)
  ultimately show ?thesis using ok k run r mem
    by (auto simp: tasks_ok_def w' set_channel_def dest!: set_update_subset_insert [THEN subsetD])
next
  case False
  then have "task_registers i now w = w" by (auto simp: task_registers_def Let_def)
  then show ?thesis using ok by simp
qed

lemma abort_task_tasks_ok:
  assumes ok: "tasks_ok w" shows "tasks_ok (abort_task i w)"
proof (cases "i < length (wd_tasks w)")
  case True
  have "filter_mset (\<lambda>t. tk_chan t = k \<and> \<not> tk_done t) (mset (wd_tasks (abort_task i w))) = 
      (if tk_chan (wd_tasks w ! i) = k \<and> \<not> tk_done (wd_tasks w ! i) then {#(wd_tasks w ! i)\<lparr>tk_abort := True\<rparr>#} else {#}) +
      (filter_mset (\<lambda>t. tk_chan t = k \<and> \<not> tk_done t) (mset (wd_tasks w)) -
        (if tk_chan (wd_tasks w ! i) = k \<and> \<not> tk_done (wd_tasks w ! i) then {#wd_tasks w ! i#} else {#}))" for k
    using True by (simp add: abort_task_def filter_task_update)
  moreover have "wd_tasks w ! i \<in> set (wd_tasks w)" using True by simp
  ultimately have "running k (abort_task i w) = running k w" for k
    using multi_member_split [of "wd_tasks w ! i" "filter_mset (\<lambda>t. tk_chan t = k \<and> \<not> tk_done t) (mset (wd_tasks w))"]
    by (auto simp: running_def)
  then show ?thesis using ok True
    by (auto simp: tasks_ok_def abort_task_def dest!: set_update_subset_insert [THEN subsetD])
qed (use ok in \<open>simp add: abort_task_def list_update_beyond\<close>)

lemma lifecycle_step_tasks_ok:
  assumes "world_ok (refs w) w" "tasks_ok w" "sound_event e w" "lifecycle_step e w = Some w'"
  shows "tasks_ok w'"
proof (cases e)
  case (Clones k)
  show ?thesis
  proof (cases "w' = w")
    case False
    then obtain u where u: "count_up k w = Some u" "w' = u\<lparr>wd_held := k # wd_held u\<rparr>"
      using assms(4) Clones by (fastforce simp: clone_strong_def dest: count_up_keeps split: if_splits)
    show ?thesis
      by (rule tasks_ok_cong [OF assms(2)])
        (use u count_up_keeps [OF u(1)] count_status(1) [OF u(1)] assms(2) in \<open>simp_all add: tasks_ok_def\<close>)
  qed (use assms(2) in simp)
next
  case (UpgradeCounts k)
  show ?thesis
  proof (cases "w' = w")
    case False
    then obtain u where u: "count_up k w = Some u"
        "w' = u\<lparr>wd_upgrading := remove1 k (wd_upgrading u), wd_held := k # wd_held u\<rparr>"
      using assms(4) UpgradeCounts by (auto simp: upgrade_counts_def split: if_splits)
    show ?thesis
      by (rule tasks_ok_cong [OF assms(2)])
        (use u count_up_keeps [OF u(1)] count_status(1) [OF u(1)] assms(2) in \<open>simp_all add: tasks_ok_def\<close>)
  qed (use assms(2) in simp)
next
  case (SpawnChecks k)
  then obtain b where "spawn_checks k w = Some (b, w')" using assms(4) by auto
  then show ?thesis by (rule spawning_tasks_ok(1) [OF assms(1,2)])
next
  case (SpawnRegisters k now)
  then show ?thesis using assms(3,4) spawning_tasks_ok(2) [OF assms(1,2)] by auto
next
  case (Drops k)
  then have w': "w' = drop_strong k w" using assms(4) by simp
  show ?thesis unfolding w'
    by (rule tasks_ok_cong [OF assms(2)]) (use assms(2) in \<open>simp_all add: drop_status tasks_ok_def\<close>)
next
  case (RemovesEntry k)
  then have w': "w' = deregister k w" using assms(4) by simp
  show ?thesis unfolding w'
    by (rule tasks_ok_cong [OF assms(2)])
      (use assms(2) in \<open>simp_all add: deregister_def Let_def tasks_ok_def\<close>)
next
  case (UpgradeChecks k)
  then have w': "w' = upgrade_checks k w" using assms(4) by simp
  show ?thesis unfolding w'
    by (rule tasks_ok_cong [OF assms(2)]) (use assms(2) in \<open>simp_all add: upgrade_checks_def tasks_ok_def\<close>)
qed (use assms(2,4) in \<open>auto simp: create_tasks_ok future_ends_tasks_ok task_registers_tasks_ok
  abort_task_tasks_ok move_tasks_ok move_dead\<close>)

lemma sound_run_ok:
  assumes "sound_run es w" "lifecycle_run es w = Some w'" "world_ok (refs w) w" "tasks_ok w"
  shows "world_ok (refs w') w' \<and> tasks_ok w'"
  using assms
proof (induction es arbitrary: w)
  case (Cons e es)
  then obtain u where u: "lifecycle_step e w = Some u" "lifecycle_run es u = Some w'"
    by (cases "lifecycle_step e w") auto
  moreover have "sound_event e w" "sound_run es u" using Cons.prems(1) u(1) by simp_all
  ultimately show ?case
    using Cons.IH [of u] lifecycle_step_ok lifecycle_step_tasks_ok Cons.prems(3,4) by blast
qed simp

lemma world_new_ok: "world_ok (refs world_new) world_new" "tasks_ok world_new"
  by (simp_all add: world_ok_def tasks_ok_def refs_def world_new_def)

section \<open>Properties\<close>

text \<open>C21: In every interleaving in which strong references are only made from strong references and no
two spawns overlap, looking up a name gives exactly the channel of that name that is held, or whose last
reference is just being dropped; no entry is missing when it is to be removed, no spawn panics, and the
counter of each channel is the number of its strong references.\<close>

theorem registry_has_exactly_what_is_held:
  assumes "sound_run es (world_new :: 'm world)" "lifecycle_run es (world_new :: 'm world) = Some w"
  shows "wd_not_found w = [] \<and> wd_broken w = [] \<and>
    (registry_get n w = Some k \<longleftrightarrow> k < length (wd_channels w) \<and> ch_name (wd_channels w ! k) = n \<and>
       (k \<in># refs w \<or> k \<in> set (wd_removing w))) \<and>
    (j < length (wd_channels w) \<longrightarrow> strong_count (wd_channels w ! j) = of_nat (count (refs w) j) \<and>
       count (refs w) j \<le> 2 ^ 63)"
  using sound_run_ok [OF assms world_new_ok]
  by (simp add: registry_get_def world_ok_def tasks_ok_def)

text \<open>C22: In such a run at most one task is not done on each channel, the channel is dead exactly when
there is none, and as long as the future of a task runs its actor is found under its name.\<close>

theorem one_task_runs_a_living_actor:
  assumes "sound_run es (world_new :: 'm world)" "lifecycle_run es (world_new :: 'm world) = Some w"
  shows "(k < length (wd_channels w) \<longrightarrow> running k w = (if is_dead (status (wd_channels w ! k)) then 0 else 1)) \<and>
    (i < length (wd_tasks w) \<and> tk_result (wd_tasks w ! i) = None \<longrightarrow>
       registry_get (ch_name (wd_channels w ! tk_chan (wd_tasks w ! i))) w = Some (tk_chan (wd_tasks w ! i)))"
proof -
  have ok: "world_ok (refs w) w" "tasks_ok w" using sound_run_ok [OF assms world_new_ok] by simp_all
  have "tk_chan t \<in># refs w" if "t \<in> set (wd_tasks w)" "tk_result t = None" for t
    using that by (auto simp: refs_def)
  moreover have "map_of (wd_registry w) (ch_name (wd_channels w ! k)) = Some k" if "k \<in># refs w" for k
    using ok(1) that unfolding world_ok_def by blast
  ultimately show ?thesis using ok(2) by (simp add: registry_get_def tasks_ok_def)
qed

definition no_messages :: iface where
  "no_messages = \<lparr>if_type = 0, if_members = []\<rparr>"

text \<open>An actor that is spawned, upgraded, and ends with the error its future returned.\<close>

definition an_actor :: "lifecycle_event list" where
  "an_actor = [Creates ''a'' no_messages 0, SpawnChecks 0, SpawnRegisters 0 1, UpgradeChecks 0,
     UpgradeCounts 0, Initializes 0]"

lemma drain_no_signals [simp]: "signal_queue ch = [] \<Longrightarrow> drain_signals ch = ch"
  by (subst drain_signals.simps) simp

lemmas lifecycle_defs = drop_inbox_def create_def registry_add_def channel_new_def channel_with_limits_def
  spawn_checks_def count_up_def count_down_def incr_strong_count_def decr_strong_count_def set_channel_def
  spawn_registers_def register_defs upgrade_checks_def upgrade_counts_def is_permanently_dead_def refs_def
  drop_strong_def clone_strong_def deregister_def future_ends_def task_registers_def task_exit_def
  abort_task_def imap_shift_remove_def world_new_def registry_get_def running_def no_messages_def

lemma an_actor_run:
  "sound_run an_actor (world_new :: 'm world) \<and> (\<exists>w. lifecycle_run an_actor (world_new :: 'm world) = Some w \<and>
    ch_name (wd_channels w ! 0) = ''a'' \<and> length (wd_channels w) = 1 \<and> 0 \<in># refs w \<and>
    length (wd_tasks w) = 1 \<and> tk_result (wd_tasks w ! 0) = None \<and> tk_chan (wd_tasks w ! 0) = 0)"
  by (simp add: an_actor_def lifecycle_defs)

theorem registry_has_exactly_what_is_held_witness:
  "\<exists>w. lifecycle_run an_actor (world_new :: nat world) = Some w \<and> registry_get ''a'' w = Some 0"
proof -
  obtain w where w: "lifecycle_run an_actor (world_new :: nat world) = Some w"
      "ch_name (wd_channels w ! 0) = ''a''" "length (wd_channels w) = 1" "0 \<in># refs w"
    using an_actor_run by blast
  have "sound_run an_actor (world_new :: nat world)" using an_actor_run by blast
  from registry_has_exactly_what_is_held [OF this w(1), of "''a''" 0] w show ?thesis by auto
qed

theorem one_task_runs_a_living_actor_witness:
  "\<exists>w. lifecycle_run an_actor (world_new :: nat world) = Some w \<and> registry_get ''a'' w = Some 0 \<and>
    running 0 w \<le> 1"
proof -
  obtain w where w: "lifecycle_run an_actor (world_new :: nat world) = Some w"
      "ch_name (wd_channels w ! 0) = ''a''" "length (wd_channels w) = 1" "length (wd_tasks w) = 1"
      "tk_result (wd_tasks w ! 0) = None" "tk_chan (wd_tasks w ! 0) = 0"
    using an_actor_run by blast
  have "sound_run an_actor (world_new :: nat world)" using an_actor_run by blast
  from one_task_runs_a_living_actor [OF this w(1), of 0 0] w show ?thesis by auto
qed

text \<open>The last reference is dropped between the two halves of an upgrade; then the name is used again.\<close>

definition late_upgrade :: "lifecycle_event list" where
  "late_upgrade = [Creates ''a'' no_messages 0, UpgradeChecks 0, Drops 0, RemovesEntry 0, UpgradeCounts 0,
     Creates ''a'' no_messages 1, Drops 0, RemovesEntry 0]"

text \<open>An upgrade that finds a channel not permanently dead may count it up after its last reference
was dropped, and then holds a channel that is in no registry. When that is dropped in turn it removes
whatever actor has its name by then, which is held but cannot be found any more, and whose own last
drop finds no entry (a panic in debug builds).\<close>

theorem late_upgrade_deregisters_another_actor:
  "map_option (\<lambda>w. (registry_get ''a'' w, 1 \<in># refs w)) (lifecycle_run late_upgrade (world_new :: 'm world)) =
     Some (None, True) \<and>
   map_option wd_not_found (lifecycle_run (late_upgrade @ [Drops 1, RemovesEntry 1]) (world_new :: 'm world)) =
     Some [''a'']"
  by (simp add: late_upgrade_def lifecycle_defs Let_def)

text \<open>No overlap is needed while an actor ends: its inbox is dropped before its exit is registered,
so that for a moment its channel has no strong reference and is not permanently dead, and an upgrade
then revives a channel whose name is already free for another.\<close>

theorem ended_actor_can_be_upgraded:
  "map_option (\<lambda>w. (count (refs w) 0, registry_get ''a'' w, is_dead (status (wd_channels w ! 0))))
     (lifecycle_run [Creates ''a'' no_messages 0, SpawnChecks 0, SpawnRegisters 0 1, Drops 0, FutureEnds 0 TaskOk,
       RemovesEntry 0, UpgradeChecks 0, UpgradeCounts 0, TaskRegisters 0 2] (world_new :: 'm world)) =
   Some (1, None, True)"
  by (simp add: lifecycle_defs Let_def)

text \<open>Two spawns on one channel may both find it dead. The second does not get the error that says
so: registering it panics, and the guard that unwinding drops registers the first, which is still
running, as aborted.\<close>

theorem overlapping_spawns_abort_the_running_actor:
  "map_option (\<lambda>w. (wd_broken w, status (wd_channels w ! 0), running 0 w, map tk_result (wd_tasks w)))
     (lifecycle_run [Creates ''a'' no_messages 0, Clones 0, SpawnChecks 0, SpawnChecks 0, SpawnRegisters 0 1,
       Initializes 0, SpawnRegisters 0 2] (world_new :: 'm world)) =
   Some ([0], Exited Aborted, 1, [None])"
  by (simp add: lifecycle_defs Let_def)

text \<open>Dropping a detached child leaves its task alone; but converting it to another context, which
only changes the type, attaches it again, so that dropping it aborts the task.\<close>

theorem conversion_attaches_a_detached_child:
  assumes "cd_task c = Some i" "i < length (wd_tasks w)" "into_context (detach c) w = Some (c', w')"
  shows "wd_tasks (drop_child (detach c) w) = wd_tasks w \<and> \<not> cd_attached (detach c) \<and>
    cd_attached c' \<and> tk_abort (wd_tasks (drop_child c' w') ! i)"
proof -
  obtain u where u: "clone_strong (cd_chan c) w = Some u" "c' = child_new i (cd_chan c)"
      "w' = drop_strong (cd_chan c) u"
    using assms(1,3) by (auto simp: into_context_def into_parts_def detach_def drop_child_def)
  have "wd_tasks u = wd_tasks w"
    using u(1) count_up_keeps by (fastforce simp: clone_strong_def split: if_splits)
  then have "wd_tasks w' = wd_tasks w" by (simp add: u(3) drop_status)
  then show ?thesis using assms(1,2)
    by (simp add: drop_child_def detach_def drop_status u(2) child_new_def abort_task_def)
qed

theorem conversion_attaches_a_detached_child_witness:
  "\<exists>w c' w'. lifecycle_run an_actor (world_new :: nat world) = Some w \<and>
    into_context (detach (child_new 0 0)) w = Some (c', w') \<and> tk_abort (wd_tasks (drop_child c' w') ! 0)"
proof -
  obtain w where w: "lifecycle_run an_actor (world_new :: nat world) = Some w" "0 < length (wd_tasks w)"
    using an_actor_run by (metis zero_less_one)
  have "\<exists>c' w'. map_option (\<lambda>w. into_context (detach (child_new 0 0)) w)
      (lifecycle_run an_actor (world_new :: nat world)) = Some (Some (c', w'))"
    by (simp add: an_actor_def lifecycle_defs into_context_def into_parts_def detach_def child_new_def)
  then obtain c' w' where c: "into_context (detach (child_new 0 0)) w = Some (c', w')"
    using w(1) by auto
  from conversion_attaches_a_detached_child [of "child_new 0 0" 0 w c' w'] c w
  show ?thesis by (auto simp: child_new_def)
qed

end
