(* ===== verification/Handler_Loop.thy ===== *)
theory Handler_Loop
  imports Inbox
begin

text \<open>
  The task of an actor that is written as a handler (\<open>actor/src/state.rs\<close>, \<open>handler.rs\<close>): it
  initializes the handler, gives it one signal, message or event of its own after another, and calls its
  \<open>exit\<close> when that ends; and the scheduler such events can come from (\<open>actor/src/scheduler.rs\<close>).

  The handler is the user's code: what its methods return, and when, is an input of the steps, and the
  calls are kept in the order in which they are made. A step goes from one await of the loop to the next.
\<close>

section \<open>How a handler ends\<close>

datatype 'r hreport = Report 'r | Described string | Attached "'r hreport" string

datatype 'r handler_exit =
  HandlerNormal | HandlerInitError "'r hreport" | HandlerInitCancelled | HandlerError "'r hreport"

fun handler_exit_into_result :: "'r handler_exit \<Rightarrow> 'r hreport + unit" where
  "handler_exit_into_result HandlerNormal = Inr ()"
| "handler_exit_into_result (HandlerInitError e) = Inl (Attached e ''handler initialization failed'')"
| "handler_exit_into_result HandlerInitCancelled =
     Inl (Described ''handler initialization cancelled due to shutdown signal'')"
| "handler_exit_into_result (HandlerError e) = Inl (Attached e ''handler encountered an error'')"

datatype 'r init_error = InitFailed "'r hreport" | InitCancelled

fun handler_exit_from :: "'r init_error \<Rightarrow> 'r handler_exit" where
  "handler_exit_from (InitFailed e) = HandlerInitError e"
| "handler_exit_from InitCancelled = HandlerInitCancelled"

lemma handler_exit_from_init [simp]: "handler_exit_from e \<noteq> HandlerNormal"
  by (cases e) simp_all

section \<open>Initializing\<close>

text \<open>The future beside \<open>init\<close> takes signals until a shutdown, which is the result.\<close>

function init_signals :: "'m inbox \<Rightarrow> 'm inbox \<times> bool" where
  "init_signals ib =
     (case recv_signal ib of
        (ib', Ready Shutdown) \<Rightarrow> (ib', True)
      | (ib', Ready _) \<Rightarrow> init_signals ib'
      | (ib', Pending) \<Rightarrow> (ib', False))"
  by pat_completeness auto
termination
  by (relation "measure (\<lambda>ib. length (signal_queue (channel ib)))") (auto dest: recv_signal_shorter sym)

declare init_signals.simps [simp del]

text \<open>
  One poll of the \<open>select!\<close>: \<open>res\<close> is what polling the handler's \<open>init\<close> gives, and \<open>pick\<close> whether it is
  polled before the signals.
\<close>

definition init_result :: "'r hreport + unit \<Rightarrow> 'r init_error + unit" where
  "init_result r = map_sum InitFailed id r"

definition init_poll ::
    "bool \<Rightarrow> ('r hreport + unit) poll \<Rightarrow> 'm inbox \<Rightarrow> 'm inbox \<times> ('r init_error + unit) poll" where
  "init_poll pick res ib =
     (case branch_first pick res of
        Some r \<Rightarrow> (ib, Ready (init_result r))
      | None \<Rightarrow>
          (case init_signals ib of
             (ib', True) \<Rightarrow> (ib', Ready (Inl InitCancelled))
           | (ib', False) \<Rightarrow> (ib', case res of Ready r \<Rightarrow> Ready (init_result r) | Pending \<Rightarrow> Pending)))"

section \<open>One turn of the loop\<close>

text \<open>
  \<open>ev\<close> is what polling the handler's \<open>next_event\<close> gives. When it gives \<open>None\<close> its branch is disabled for the
  rest of the turn.
\<close>

datatype ('m, 'e, 'r) selected = FromInbox "'m inbox_event option" | FromEvents "'r hreport + 'e"

definition poll_events :: "bool \<Rightarrow> ('r hreport + 'e) option poll \<Rightarrow> ('r hreport + 'e) poll \<times> bool" where
  "poll_events disabled ev =
     (if disabled then (Pending, True)
      else case ev of
        Ready (Some r) \<Rightarrow> (Ready r, False)
      | Ready None \<Rightarrow> (Pending, True)
      | Pending \<Rightarrow> (Pending, False))"

definition select_poll ::
    "iface \<Rightarrow> bool \<Rightarrow> bool \<Rightarrow> ('r hreport + 'e) option poll \<Rightarrow> 'm inbox \<Rightarrow>
     ('m inbox \<times> bool \<times> ('m, 'e, 'r) selected poll) option" where
  "select_poll i pick disabled ev ib =
     (let (r, disabled') = poll_events disabled ev in
      case branch_first pick r of
        Some r \<Rightarrow> Some (ib, disabled', Ready (FromEvents r))
      | None \<Rightarrow>
          (case recv_event i ib of
             None \<Rightarrow> None
           | Some (ib', Ready e) \<Rightarrow> Some (ib', disabled', Ready (FromInbox e))
           | Some (ib', Pending) \<Rightarrow>
               Some (ib', disabled', case r of Ready r \<Rightarrow> Ready (FromEvents r) | Pending \<Rightarrow> Pending)))"

section \<open>The task\<close>

datatype ('m, 'e, 'r) hook =
  OnInit | OnSignal signal | OnMessage "'m message" | OnEvent 'e | OnExit "'r handler_exit"

text \<open>Where the task awaits; while it selects, whether the branch of the events is disabled.\<close>

datatype 'r phase = AwaitInit | AwaitEvent bool | AwaitHook | AwaitExit | Returned "'r hreport + unit"

record ('m, 'e, 'r) handler_task =
  ht_inbox :: "'m inbox"
  ht_phase :: "'r phase"
  ht_calls :: "('m, 'e, 'r) hook list"
  ht_accepted :: "'m message list" \<comment> \<open>the messages sent to it since it started\<close>

definition handler_start :: "'m inbox \<Rightarrow> ('m, 'e, 'r) handler_task" where
  "handler_start ib = \<lparr>ht_inbox = ib, ht_phase = AwaitInit, ht_calls = [OnInit], ht_accepted = []\<rparr>"

definition call_hook :: "('m, 'e, 'r) hook \<Rightarrow> 'r phase \<Rightarrow> ('m, 'e, 'r) handler_task \<Rightarrow> ('m, 'e, 'r) handler_task" where
  "call_hook h p t = t\<lparr>ht_calls := ht_calls t @ [h], ht_phase := p\<rparr>"

definition exit_with :: "'r handler_exit \<Rightarrow> ('m, 'e, 'r) handler_task \<Rightarrow> ('m, 'e, 'r) handler_task" where
  "exit_with r = call_hook (OnExit r) AwaitExit"

fun run_once ::
    "('m, 'e, 'r) selected \<Rightarrow> ('m, 'e, 'r) handler_task \<Rightarrow> ('m, 'e, 'r) handler_task" where
  "run_once (FromInbox None) t = exit_with HandlerNormal t"
| "run_once (FromInbox (Some (SignalEvent s))) t = call_hook (OnSignal s) AwaitHook t"
| "run_once (FromInbox (Some (MessageEvent m))) t = call_hook (OnMessage m) AwaitHook t"
| "run_once (FromEvents (Inr e)) t = call_hook (OnEvent e) AwaitHook t"
| "run_once (FromEvents (Inl e)) t = exit_with (HandlerError e) t"

datatype ('m, 'e, 'r) handler_event =
    Outside "'m channel_op" \<comment> \<open>somebody sends to the actor\<close>
  | PollInit bool "('r hreport + unit) poll"
  | PollSelect bool "('r hreport + 'e) option poll"
  | HookReturns "'r hreport + unit"
  | ExitReturns "'r hreport + unit"

fun sends :: "'m channel_op \<Rightarrow> bool" where
  "sends (OpCast i opts m) = True"
| "sends (OpTryCast i opts m) = True"
| "sends (OpCastDyn opts m) = True"
| "sends (OpTryCastDyn opts m) = True"
| "sends (OpSignal s) = True"
| "sends (OpPing r) = True"
| "sends _ = False"

text \<open>A panic of a sender (\<open>None\<close> of the channel's step) is its own and leaves the channel alone.\<close>

definition outside :: "'m channel_op \<Rightarrow> ('m, 'e, 'r) handler_task \<Rightarrow> ('m, 'e, 'r) handler_task" where
  "outside op t =
     (if sends op then
        case channel_step op (channel (ht_inbox t)) of
          None \<Rightarrow> t
        | Some (ch, acc, _) \<Rightarrow>
            t\<lparr>ht_inbox := (ht_inbox t)\<lparr>channel := ch\<rparr>, ht_accepted := ht_accepted t @ acc\<rparr>
      else t)"

definition after_init ::
    "'m inbox \<times> ('r init_error + unit) poll \<Rightarrow> ('m, 'e, 'r) handler_task \<Rightarrow> ('m, 'e, 'r) handler_task" where
  "after_init p t =
     (case p of
        (ib, Pending) \<Rightarrow> t\<lparr>ht_inbox := ib\<rparr>
      | (ib, Ready (Inl e)) \<Rightarrow> exit_with (handler_exit_from e) (t\<lparr>ht_inbox := ib\<rparr>)
      | (ib, Ready (Inr _)) \<Rightarrow> t\<lparr>ht_inbox := ib, ht_phase := AwaitEvent False\<rparr>)"

definition after_select ::
    "'m inbox \<times> bool \<times> ('m, 'e, 'r) selected poll \<Rightarrow> ('m, 'e, 'r) handler_task \<Rightarrow> ('m, 'e, 'r) handler_task" where
  "after_select p t =
     (case p of
        (ib, d, Pending) \<Rightarrow> t\<lparr>ht_inbox := ib, ht_phase := AwaitEvent d\<rparr>
      | (ib, d, Ready x) \<Rightarrow> run_once x (t\<lparr>ht_inbox := ib\<rparr>))"

fun handler_step ::
    "iface \<Rightarrow> ('m, 'e, 'r) handler_event \<Rightarrow> ('m, 'e, 'r) handler_task \<Rightarrow> ('m, 'e, 'r) handler_task option" where
  "handler_step i (Outside op) t = Some (outside op t)"
| "handler_step i (PollInit pick res) t =
     Some (if ht_phase t = AwaitInit then after_init (init_poll pick res (ht_inbox t)) t else t)"
| "handler_step i (PollSelect pick ev) t =
     (case ht_phase t of
        AwaitEvent d \<Rightarrow> map_option (\<lambda>p. after_select p t) (select_poll i pick d ev (ht_inbox t))
      | _ \<Rightarrow> Some t)"
| "handler_step i (HookReturns r) t =
     Some (if ht_phase t = AwaitHook
           then (case r of Inr _ \<Rightarrow> t\<lparr>ht_phase := AwaitEvent False\<rparr> | Inl e \<Rightarrow> exit_with (HandlerError e) t)
           else t)"
| "handler_step i (ExitReturns r) t =
     Some (if ht_phase t = AwaitExit then t\<lparr>ht_phase := Returned r\<rparr> else t)"

fun handler_run ::
    "iface \<Rightarrow> ('m, 'e, 'r) handler_event list \<Rightarrow> ('m, 'e, 'r) handler_task \<Rightarrow> ('m, 'e, 'r) handler_task option" where
  "handler_run i [] t = Some t"
| "handler_run i (e # es) t = Option.bind (handler_step i e t) (handler_run i es)"

section \<open>The scheduler\<close>

text \<open>
  \<open>FuturesUnordered\<close> gives the results of its futures in the order in which they complete: those that have
  completed, and how many have not. \<open>next\<close> passes over futures that only had something to do.
\<close>

record ('e, 'r) scheduler =
  sc_completed :: "('r hreport + 'e option) list"
  sc_running :: nat

definition scheduler_new :: "('e, 'r) scheduler" where
  "scheduler_new = \<lparr>sc_completed = [], sc_running = 0\<rparr>"

definition schedule :: "('e, 'r) scheduler \<Rightarrow> ('e, 'r) scheduler" where
  "schedule s = s\<lparr>sc_running := sc_running s + 1\<rparr>"

definition future_completes :: "'r hreport + 'e option \<Rightarrow> ('e, 'r) scheduler \<Rightarrow> ('e, 'r) scheduler" where
  "future_completes r s =
     (if sc_running s = 0 then s
      else s\<lparr>sc_completed := sc_completed s @ [r], sc_running := sc_running s - 1\<rparr>)"

fun scheduler_loop ::
    "('r hreport + 'e option) list \<Rightarrow> nat \<Rightarrow> ('r hreport + 'e option) list \<times> ('r hreport + 'e) option poll" where
  "scheduler_loop (Inr (Some m) # rs) k = (rs, Ready (Some (Inr m)))"
| "scheduler_loop (Inr None # rs) k = scheduler_loop rs k"
| "scheduler_loop (Inl e # rs) k = (rs, Ready (Some (Inl e)))"
| "scheduler_loop [] k = ([], if k = 0 then Ready None else Pending)"

definition scheduler_next :: "('e, 'r) scheduler \<Rightarrow> ('e, 'r) scheduler \<times> ('r hreport + 'e) option poll" where
  "scheduler_next s =
     (case scheduler_loop (sc_completed s) (sc_running s) of (rs, p) \<Rightarrow> (s\<lparr>sc_completed := rs\<rparr>, p))"

text \<open>What the handler is given of what has completed.\<close>

definition results :: "('r hreport + 'e option) list \<Rightarrow> ('r hreport + 'e) list" where
  "results rs = concat (map (\<lambda>r. case r of Inl e \<Rightarrow> [Inl e] | Inr (Some m) \<Rightarrow> [Inr m] | Inr None \<Rightarrow> []) rs)"

lemma scheduler_loop_results:
  "scheduler_loop rs k = (rs', p) \<Longrightarrow>
    results rs = (case p of Ready (Some r) \<Rightarrow> [r] | _ \<Rightarrow> []) @ results rs' \<and>
    (p = Pending \<longrightarrow> rs' = [] \<and> k > 0) \<and> (p = Ready None \<longrightarrow> rs' = [] \<and> k = 0)"
  by (induction rs k rule: scheduler_loop.induct) (auto simp: results_def split: if_splits)

datatype ('e, 'r) scheduler_event = Schedules | Completes "'r hreport + 'e option" | Nexts

text \<open>The scheduler, what completed, and what \<open>next\<close> gave.\<close>

fun scheduler_run ::
    "('e, 'r) scheduler_event list \<Rightarrow> ('e, 'r) scheduler \<Rightarrow>
     ('e, 'r) scheduler \<times> ('r hreport + 'e option) list \<times> ('r hreport + 'e) list" where
  "scheduler_run [] s = (s, [], [])"
| "scheduler_run (Schedules # es) s = scheduler_run es (schedule s)"
| "scheduler_run (Completes r # es) s =
     (case scheduler_run es (future_completes r s) of
        (s', done', given) \<Rightarrow> (s', (if sc_running s = 0 then done' else r # done'), given))"
| "scheduler_run (Nexts # es) s =
     (case scheduler_next s of (s, p) \<Rightarrow>
      case scheduler_run es s of (s', done', given) \<Rightarrow>
        (s', done', (case p of Ready (Some r) \<Rightarrow> r # given | _ \<Rightarrow> given)))"

lemma results_append: "results (rs @ qs) = results rs @ results qs"
  by (simp add: results_def)

lemma scheduler_run_results:
  "scheduler_run es s = (s', rs, given) \<Longrightarrow>
    results (sc_completed s) @ results rs = given @ results (sc_completed s')"
proof (induction es s arbitrary: s' rs given rule: scheduler_run.induct)
  case (3 r es s)
  then show ?case
    by (cases "scheduler_run es (future_completes r s)")
      (fastforce simp: future_completes_def results_append results_def split: if_splits)
next
  case (4 es s)
  obtain rs1 p where l: "scheduler_loop (sc_completed s) (sc_running s) = (rs1, p)" by fastforce
  then have n: "scheduler_next s = (s\<lparr>sc_completed := rs1\<rparr>, p)" by (simp add: scheduler_next_def)
  obtain given' where r: "scheduler_run es (s\<lparr>sc_completed := rs1\<rparr>) = (s', rs, given')"
      "given = (case p of Ready (Some r) \<Rightarrow> [r] | _ \<Rightarrow> []) @ given'"
    using 4(2) n by (cases "scheduler_run es (s\<lparr>sc_completed := rs1\<rparr>)") (auto split: poll.splits option.splits)
  then show ?case using 4(1) [OF n [symmetric] r(1)] scheduler_loop_results [OF l] by simp
qed (simp_all add: results_def schedule_def)

section \<open>What signals do to an actor on its way out\<close>

lemma pop_signal_keeps_exiting:
  "pop_signal ch = (ch', r) \<Longrightarrow> r \<noteq> Some Shutdown \<Longrightarrow> should_exit (status ch') = should_exit (status ch)"
proof (induction ch rule: pop_signal.induct)
  case (1 ch)
  show ?case
  proof (cases "signal_queue ch")
    case (Cons s rest)
    obtain ch1 e where h: "handle_signal s (ch\<lparr>signal_queue := rest\<rparr>) = (ch1, e)" by fastforce
    have "e \<noteq> Some Shutdown \<Longrightarrow> should_exit (status ch1) = should_exit (status ch)"
      using h by (cases s; cases "status ch") (auto simp: register_defs)
    then show ?thesis
      using "1.IH" [OF Cons h [symmetric]] "1.prems" h Cons by (cases e) (auto simp: pop_signal_Cons)
  qed (use 1 in auto)
qed

lemma pop_signal_reaches_shutdown:
  "pop_signal ch = (ch', r) \<Longrightarrow> SigShutdown \<in> set (signal_queue ch) \<Longrightarrow>
    \<exists>s. r = Some s \<and> (should_exit (status ch') \<or> SigShutdown \<in> set (signal_queue ch'))"
proof (induction ch rule: pop_signal.induct)
  case (1 ch)
  then obtain s rest where q: "signal_queue ch = s # rest" by (cases "signal_queue ch") auto
  obtain ch1 e where h: "handle_signal s (ch\<lparr>signal_queue := rest\<rparr>) = (ch1, e)" by fastforce
  have ch1: "signal_queue ch1 = rest" using handle_signal_queueD [OF h [symmetric]] by simp
  have "should_exit (status ch1)" if "s = SigShutdown"
    using h that by (cases "status ch") (auto simp: register_defs)
  moreover have "e \<noteq> None" if "s = SigShutdown" using h that by auto
  ultimately show ?case
    using "1.IH" [OF q h [symmetric]] "1.prems" h q ch1 by (cases e) (auto simp: pop_signal_Cons)
qed

lemma maybe_auto_init_keeps [simp]:
  "msg_queue (channel (maybe_auto_init ib)) = msg_queue (channel ib)"
  "queue_iface (channel (maybe_auto_init ib)) = queue_iface (channel ib)"
  "should_exit (inbox_status (maybe_auto_init ib)) = should_exit (inbox_status ib)"
  by (cases "inbox_status ib"; simp add: maybe_auto_init_def inbox_register_initialized_def register_defs)+

lemma recv_signal_keeps:
  assumes "recv_signal ib = (ib', r)"
  shows "msg_queue (channel ib') = msg_queue (channel ib)"
    and "r \<noteq> Ready Shutdown \<Longrightarrow> should_exit (inbox_status ib') = should_exit (inbox_status ib)"
proof -
  obtain ch e where p: "pop_signal (channel (maybe_auto_init ib)) = (ch, e)" by fastforce
  then show "msg_queue (channel ib') = msg_queue (channel ib)"
    using assms signal_frame_pop_signalD [OF p]
    by (auto simp: recv_signal_def next_signal_def signal_frame_def Let_def split: option.splits)
  show "r \<noteq> Ready Shutdown \<Longrightarrow> should_exit (inbox_status ib') = should_exit (inbox_status ib)"
    using assms p pop_signal_keeps_exiting [OF p]
    by (auto simp: recv_signal_def next_signal_def Let_def split: option.splits)
qed

lemma init_signals_keeps:
  "init_signals ib = (ib', b) \<Longrightarrow> msg_queue (channel ib') = msg_queue (channel ib) \<and>
    (\<not> b \<longrightarrow> should_exit (inbox_status ib') = should_exit (inbox_status ib))"
proof (induction ib rule: init_signals.induct)
  case (1 ib)
  obtain ib1 e where e: "recv_signal ib = (ib1, e)" by fastforce
  show ?case
    using "1.prems" e recv_signal_keeps [OF e] "1.IH" [OF e [symmetric]]
    by (auto simp: init_signals.simps [of ib] split: poll.splits signal.splits)
qed

section \<open>What holds of every run\<close>

fun in_loop :: "('m, 'e, 'r) hook \<Rightarrow> bool" where
  "in_loop OnInit = False"
| "in_loop (OnExit r) = False"
| "in_loop h = True"

fun before_loop :: "'r handler_exit \<Rightarrow> bool" where
  "before_loop (HandlerInitError e) = True"
| "before_loop HandlerInitCancelled = True"
| "before_loop r = False"

lemma before_loop_init [simp]: "before_loop (handler_exit_from e)"
  by (cases e) simp_all

text \<open>
  First \<open>init\<close>, then signals, messages and events, then one \<open>exit\<close>: with a failed or cancelled
  initialization as its reason when nothing came between.
\<close>

fun calls_ok :: "'r phase \<Rightarrow> ('m, 'e, 'r) hook list \<Rightarrow> bool" where
  "calls_ok AwaitInit cs = (cs = [OnInit])"
| "calls_ok (AwaitEvent d) cs = (\<exists>hs. cs = OnInit # hs \<and> list_all in_loop hs)"
| "calls_ok AwaitHook cs = (\<exists>hs. cs = OnInit # hs \<and> hs \<noteq> [] \<and> list_all in_loop hs)"
| "calls_ok p cs = (\<exists>hs r. cs = OnInit # hs @ [OnExit r] \<and> list_all in_loop hs \<and> (before_loop r \<longrightarrow> hs = []))"

fun message_of :: "('m, 'e, 'r) hook \<Rightarrow> 'm message list" where
  "message_of (OnMessage m) = [m]"
| "message_of h = []"

definition handled :: "('m, 'e, 'r) hook list \<Rightarrow> 'm message list" where
  "handled cs = concat (map message_of cs)"

lemma handled_simps [simp]:
  "handled [] = []" "handled (h # cs) = message_of h @ handled cs" "handled (cs @ ds) = handled cs @ handled ds"
  by (simp_all add: handled_def)

fun exiting_phase :: "'r phase \<Rightarrow> bool" where
  "exiting_phase AwaitExit = True"
| "exiting_phase (Returned r) = True"
| "exiting_phase p = False"

definition handler_ok :: "'m message list \<Rightarrow> ('m, 'e, 'r) handler_task \<Rightarrow> bool" where
  "handler_ok q t \<longleftrightarrow> calls_ok (ht_phase t) (ht_calls t) \<and>
     handled (ht_calls t) @ msg_queue (channel (ht_inbox t)) = q @ ht_accepted t"

definition told :: "('m, 'e, 'r) handler_task \<Rightarrow> bool" where
  "told t \<longleftrightarrow> (\<not> exiting_phase (ht_phase t) \<and> should_exit (inbox_status (ht_inbox t)) \<longrightarrow>
     OnSignal Shutdown \<in> set (ht_calls t))"

lemma sends_step:
  assumes "sends op" "channel_step op ch = Some (ch', acc, out)"
  shows "msg_queue ch' = msg_queue ch @ acc \<and> status ch' = status ch"
  using assms
  by (cases op) (auto simp: accepted_def cast_outcome_def signal_of_ref_def ping_def send_signal_def
    dest!: cast_with_outcome try_cast_with_outcome cast_dyn_with_outcome try_cast_dyn_with_outcome)

lemma outside_ok: "handler_ok q t \<Longrightarrow> handler_ok q (outside op t)" "told t \<Longrightarrow> told (outside op t)"
  by (auto simp: outside_def handler_ok_def told_def dest: sends_step split: option.splits)

lemma init_poll_keeps:
  assumes "init_poll pick res ib = (ib', r)"
  shows "msg_queue (channel ib') = msg_queue (channel ib)"
    and "r \<noteq> Ready (Inl InitCancelled) \<Longrightarrow> should_exit (inbox_status ib') = should_exit (inbox_status ib)"
  using assms init_signals_keeps [of ib]
  by (auto simp: init_poll_def init_result_def split: option.splits prod.splits bool.splits)

lemma after_init_ok:
  assumes "ht_phase t = AwaitInit" "init_poll pick res (ht_inbox t) = (ib, r)"
  shows "handler_ok q t \<Longrightarrow> handler_ok q (after_init (ib, r) t)" "told t \<Longrightarrow> told (after_init (ib, r) t)"
proof -
  show "handler_ok q t \<Longrightarrow> handler_ok q (after_init (ib, r) t)"
    using assms(1) init_poll_keeps(1) [OF assms(2)]
    by (auto simp: after_init_def handler_ok_def exit_with_def call_hook_def split: poll.splits sum.splits)
  show "told t \<Longrightarrow> told (after_init (ib, r) t)"
    using assms(1) init_poll_keeps(2) [OF assms(2)]
    by (auto simp: after_init_def told_def exit_with_def call_hook_def split: poll.splits sum.splits)
qed

lemma pop_msg_status: "pop_msg i ch = Some (ch', m) \<Longrightarrow> status ch' = status ch"
  by (auto simp: pop_msg_def split: if_splits list.splits)

lemma select_event_keeps_exiting:
  assumes "select_event i ch = Some (ch', e)"
  shows "e \<noteq> Ready None" "e \<noteq> Ready (Some (SignalEvent Shutdown)) \<Longrightarrow> should_exit (status ch') = should_exit (status ch)"
proof -
  obtain ch1 r where p: "pop_signal ch = (ch1, r)" by fastforce
  show "e \<noteq> Ready None"
    using assms by (auto simp: select_event_def next_signal_def next_msg_def split: prod.splits option.splits poll.splits)
  show "e \<noteq> Ready (Some (SignalEvent Shutdown)) \<Longrightarrow> should_exit (status ch') = should_exit (status ch)"
    using assms p pop_signal_keeps_exiting [OF p] pop_msg_status [of i ch1]
    by (auto simp: select_event_def next_signal_def next_msg_def split: option.splits poll.splits)
qed

lemma next_event_keeps_exiting:
  assumes "next_event w i ch = Some (ch', e)"
  shows "e \<noteq> Ready (Some (SignalEvent Shutdown)) \<Longrightarrow> should_exit (status ch') = should_exit (status ch)"
    and "e = Ready None \<Longrightarrow> ch' = ch \<and> should_exit (status ch) \<and> msg_queue ch = []"
proof -
  show "e \<noteq> Ready (Some (SignalEvent Shutdown)) \<Longrightarrow> should_exit (status ch') = should_exit (status ch)"
  proof (cases "status ch = Suspended")
    case True
    moreover assume "e \<noteq> Ready (Some (SignalEvent Shutdown))"
    ultimately show ?thesis using assms
      by (auto simp: next_event_def next_signal_def split: prod.splits option.splits
        dest: pop_signal_keeps_exiting)
  next
    case False
    assume e: "e \<noteq> Ready (Some (SignalEvent Shutdown))"
    have "select_event i ch = Some (ch', e) \<or> ch' = ch"
      using assms False by (auto simp: next_event_def split: actor_status.splits if_splits)
    then show ?thesis using e select_event_keeps_exiting(2) by blast
  qed
  show "e = Ready None \<Longrightarrow> ch' = ch \<and> should_exit (status ch) \<and> msg_queue ch = []"
    using assms
    by (auto simp: next_event_def next_signal_def msg_is_empty_def msg_len_def
      split: actor_status.splits if_splits prod.splits option.splits poll.splits
      dest: select_event_keeps_exiting(1))
qed

lemma recv_event_keeps:
  assumes "recv_event i ib = Some (ib', e)"
  shows "msg_queue (channel ib) = poll_messages e @ msg_queue (channel ib')"
    and "e \<noteq> Ready (Some (SignalEvent Shutdown)) \<Longrightarrow> should_exit (inbox_status ib') = should_exit (inbox_status ib)"
    and "e = Ready None \<Longrightarrow> should_exit (inbox_status ib') \<and> msg_queue (channel ib') = []"
proof -
  obtain ch where ch: "next_event False i (channel (maybe_auto_init ib)) = Some (ch, e)"
      "ib' = (maybe_auto_init ib)\<lparr>channel := ch\<rparr>"
    using assms by (auto simp: recv_event_def Let_def)
  show "msg_queue (channel ib) = poll_messages e @ msg_queue (channel ib')"
    using next_event_outcome [OF ch(1)] ch(2) by (simp add: recv_outcome_def)
  show "e \<noteq> Ready (Some (SignalEvent Shutdown)) \<Longrightarrow> should_exit (inbox_status ib') = should_exit (inbox_status ib)"
    using next_event_keeps_exiting(1) [OF ch(1)] ch(2) by simp
  show "e = Ready None \<Longrightarrow> should_exit (inbox_status ib') \<and> msg_queue (channel ib') = []"
    using next_event_keeps_exiting(2) [OF ch(1)] ch(2) by auto
qed

fun selected_messages :: "('m, 'e, 'r) selected poll \<Rightarrow> 'm message list" where
  "selected_messages (Ready (FromInbox e)) = event_messages e"
| "selected_messages p = []"

lemma select_poll_cases:
  assumes "select_poll i pick d ev ib = Some (ib', d', r)"
  obtains "ib' = ib" "\<exists>x. r = Ready (FromEvents x)"
  | e where "recv_event i ib = Some (ib', Ready e)" "r = Ready (FromInbox e)"
  | "recv_event i ib = Some (ib', Pending)" "r = Pending \<or> (\<exists>x. r = Ready (FromEvents x))"
  using assms that
  by (fastforce simp: select_poll_def Let_def split: prod.splits option.splits poll.splits)

lemma select_poll_keeps:
  assumes "select_poll i pick d ev ib = Some (ib', d', r)"
  shows "msg_queue (channel ib) = selected_messages r @ msg_queue (channel ib')"
    and "r \<noteq> Ready (FromInbox (Some (SignalEvent Shutdown))) \<Longrightarrow>
      should_exit (inbox_status ib') = should_exit (inbox_status ib)"
    and "r = Ready (FromInbox None) \<Longrightarrow> should_exit (inbox_status ib') \<and> msg_queue (channel ib') = []"
  using assms by (cases rule: select_poll_cases; force dest: recv_event_keeps)+

lemma selected_cases:
  obtains "x = FromInbox None" | s where "x = FromInbox (Some (SignalEvent s))"
  | m where "x = FromInbox (Some (MessageEvent m))" | e where "x = FromEvents (Inr e)"
  | e where "x = FromEvents (Inl e)"
  by (cases x) (metis inbox_event.exhaust not_None_eq, metis sum.exhaust)

lemma after_select_ok:
  assumes "ht_phase t = AwaitEvent d" "select_poll i pick d ev (ht_inbox t) = Some (ib, d', r)"
  shows "handler_ok q t \<Longrightarrow> handler_ok q (after_select (ib, d', r) t)"
    and "told t \<Longrightarrow> told (after_select (ib, d', r) t)"
proof -
  note keeps = select_poll_keeps [OF assms(2)]
  show "handler_ok q t \<Longrightarrow> handler_ok q (after_select (ib, d', r) t)"
  proof (cases r)
    case (Ready x)
    assume "handler_ok q t"
    then show ?thesis using assms(1) keeps(1) Ready
      by (cases x rule: selected_cases) (auto simp: after_select_def handler_ok_def exit_with_def call_hook_def)
  qed (use assms(1) keeps(1) in \<open>auto simp: after_select_def handler_ok_def\<close>)
  show "told t \<Longrightarrow> told (after_select (ib, d', r) t)"
  proof (cases r)
    case (Ready x)
    assume "told t"
    then show ?thesis using assms(1) keeps(2) Ready
      by (cases x rule: selected_cases) (auto simp: after_select_def told_def exit_with_def call_hook_def)
  qed (use assms(1) keeps(2) in \<open>auto simp: after_select_def told_def\<close>)
qed

lemma handler_step_ok:
  assumes "handler_step i e t = Some t'"
  shows "handler_ok q t \<Longrightarrow> handler_ok q t'" "told t \<Longrightarrow> told t'"
proof -
  have "(handler_ok q t \<longrightarrow> handler_ok q t') \<and> (told t \<longrightarrow> told t')"
  proof (cases e)
    case (Outside op)
    then show ?thesis using assms outside_ok by auto
  next
    case (PollInit pick res)
    obtain ib r where "init_poll pick res (ht_inbox t) = (ib, r)" by fastforce
    then show ?thesis using assms PollInit after_init_ok by (auto split: if_splits)
  next
    case (PollSelect pick ev)
    then show ?thesis using assms after_select_ok by (fastforce split: phase.splits)
  next
    case (HookReturns r)
    then show ?thesis using assms
      by (auto simp: handler_ok_def told_def exit_with_def call_hook_def split: if_splits sum.splits)
  next
    case (ExitReturns r)
    then show ?thesis using assms by (auto simp: handler_ok_def told_def split: if_splits)
  qed
  then show "handler_ok q t \<Longrightarrow> handler_ok q t'" "told t \<Longrightarrow> told t'" by simp_all
qed

lemma handler_run_ok:
  "handler_run i es t = Some t' \<Longrightarrow> (handler_ok q t \<longrightarrow> handler_ok q t') \<and> (told t \<longrightarrow> told t')"
proof (induction es arbitrary: t)
  case (Cons e es)
  then obtain u where "handler_step i e t = Some u" "handler_run i es u = Some t'"
    by (auto simp: bind_eq_Some_conv)
  then show ?case using Cons.IH handler_step_ok by metis
qed simp

lemma handler_start_ok:
  "handler_ok (msg_queue (channel ib)) (handler_start ib)"
  "\<not> should_exit (inbox_status ib) \<Longrightarrow> told (handler_start ib)"
  by (simp_all add: handler_ok_def told_def handler_start_def)

section \<open>Stopping\<close>

definition told_to_stop :: "'m inbox \<Rightarrow> bool" where
  "told_to_stop ib \<longleftrightarrow> should_exit (inbox_status ib) \<or> SigShutdown \<in> set (signal_queue (channel ib))"

definition work_left :: "'m channel \<Rightarrow> nat" where
  "work_left ch = length (signal_queue ch) + length (msg_queue ch)"

lemma next_event_stopping:
  assumes "is_interface i ch" "should_exit (status ch) \<or> SigShutdown \<in> set (signal_queue ch)"
  shows "\<exists>ch' e. next_event False i ch = Some (ch', Ready e) \<and>
    (case e of None \<Rightarrow> True | Some _ \<Rightarrow> work_left ch' < work_left ch \<and> is_interface i ch' \<and>
      (should_exit (status ch') \<or> SigShutdown \<in> set (signal_queue ch')))"
proof -
  obtain ch1 r where p: "pop_signal ch = (ch1, r)" by fastforce
  note frame = signal_frame_pop_signalD [OF p]
  show ?thesis
  proof (cases r)
    case (Some s)
    have "work_left ch1 < work_left ch" "is_interface i ch1"
      using pop_signal_shorter p frame assms(1) Some by (auto simp: work_left_def signal_frame_def is_interface_def)
    moreover have "should_exit (status ch1) \<or> SigShutdown \<in> set (signal_queue ch1)"
      using assms(2) pop_signal_reaches_shutdown [OF p] pop_signal_keeps_exiting [OF p] pop_signal_Shutdown p Some
      by (cases "s = Shutdown") auto
    ultimately show ?thesis using p Some
      by (auto simp: next_event_def next_signal_def select_event_def split: actor_status.splits)
  next
    case None
    have exiting: "should_exit (status ch)" using assms(2) pop_signal_reaches_shutdown [OF p] None by auto
    then have "should_exit (status ch1)" using pop_signal_keeps_exiting [OF p] None by simp
    then show ?thesis using exiting p None frame assms(1)
      by (cases "status ch"; cases "msg_queue ch")
        (auto simp: next_event_def next_signal_def select_event_def next_msg_def pop_msg_def msg_is_empty_def
          msg_len_def signal_frame_def is_interface_def work_left_def)
  qed
qed

lemma recv_event_stopping:
  assumes "is_interface i (channel ib)" "told_to_stop ib"
  shows "\<exists>ib' e. recv_event i ib = Some (ib', Ready e) \<and>
    (case e of None \<Rightarrow> True | Some _ \<Rightarrow> work_left (channel ib') < work_left (channel ib) \<and>
      is_interface i (channel ib') \<and> told_to_stop ib')"
proof -
  let ?ib = "maybe_auto_init ib"
  obtain ch e where ch: "next_event False i (channel ?ib) = Some (ch, Ready e)"
      "case e of None \<Rightarrow> True | Some _ \<Rightarrow> work_left ch < work_left (channel ?ib) \<and> is_interface i ch \<and>
        (should_exit (status ch) \<or> SigShutdown \<in> set (signal_queue ch))"
    using next_event_stopping [of i "channel ?ib"] assms by (auto simp: is_interface_def told_to_stop_def)
  then show ?thesis
    by (auto simp: recv_event_def Let_def work_left_def told_to_stop_def split: option.splits)
qed

text \<open>One turn in which the handler has no event of its own and its method succeeds.\<close>

definition quiet_turn :: "('m, 'e, 'r) handler_event list" where
  "quiet_turn = [PollSelect False Pending, HookReturns (Inr ())]"

lemma quiet_turn_stopping:
  fixes t :: "('m, 'e, 'r) handler_task"
  assumes "ht_phase t = AwaitEvent d" "is_interface i (channel (ht_inbox t))" "told_to_stop (ht_inbox t)"
  obtains t' where "handler_run i quiet_turn t = Some t'" "ht_phase t' = AwaitExit"
      "ht_calls t' = ht_calls t @ [OnExit HandlerNormal]" "msg_queue (channel (ht_inbox t)) = []"
  | t' h where "handler_run i quiet_turn t = Some t'" "ht_phase t' = AwaitEvent False"
      "ht_calls t' = ht_calls t @ [h]" "is_interface i (channel (ht_inbox t'))" "told_to_stop (ht_inbox t')"
      "work_left (channel (ht_inbox t')) < work_left (channel (ht_inbox t))"
      "msg_queue (channel (ht_inbox t)) = message_of h @ msg_queue (channel (ht_inbox t'))"
proof -
  obtain ib e where e: "recv_event i (ht_inbox t) = Some (ib, Ready e)"
      "case e of None \<Rightarrow> True | Some _ \<Rightarrow> work_left (channel ib) < work_left (channel (ht_inbox t)) \<and>
        is_interface i (channel ib) \<and> told_to_stop ib"
    using recv_event_stopping [OF assms(2,3)] by blast
  have s: "select_poll i False d (Pending :: ('r hreport + 'e) option poll) (ht_inbox t) = Some (ib, d, Ready (FromInbox e))"
    using e(1) by (cases d) (simp_all add: select_poll_def poll_events_def)
  have run: "handler_run i quiet_turn t = handler_step i (HookReturns (Inr ())) (run_once (FromInbox e) (t\<lparr>ht_inbox := ib\<rparr>))"
    using assms(1) s by (simp add: quiet_turn_def after_select_def)
  note q = recv_event_keeps(1) [OF e(1)]
  show thesis
  proof (cases e)
    case None
    have "msg_queue (channel (ht_inbox t)) = []"
      using recv_event_keeps(3) [OF e(1)] q None by simp
    then show thesis using that(1) run None by (simp add: exit_with_def call_hook_def)
  next
    case (Some ev)
    then show thesis using that(2) run e(2) q by (cases ev) (simp_all add: call_hook_def)
  qed
qed

lemma handler_run_append: "handler_run i (es @ fs) t = Option.bind (handler_run i es t) (handler_run i fs)"
proof (induction es arbitrary: t)
  case (Cons e es)
  then show ?case by (cases "handler_step i e t") simp_all
qed simp

lemma quiet_turns_after_exit:
  "ht_phase t = AwaitExit \<Longrightarrow> handler_run i (concat (replicate n quiet_turn)) t = Some t"
  by (induction n) (simp_all add: quiet_turn_def)

lemma quiet_turns_stop:
  assumes "ht_phase t = AwaitEvent d" "is_interface i (channel (ht_inbox t))" "told_to_stop (ht_inbox t)"
    "work_left (channel (ht_inbox t)) \<le> n"
  shows "\<exists>t' cs. handler_run i (concat (replicate (Suc n) quiet_turn)) t = Some t' \<and> ht_phase t' = AwaitExit \<and>
    ht_calls t' = ht_calls t @ cs @ [OnExit HandlerNormal] \<and> handled cs = msg_queue (channel (ht_inbox t))"
  using assms
proof (induction n arbitrary: t d)
  case 0
  from 0(1-3) show ?case
    by (cases rule: quiet_turn_stopping) (use 0(4) in \<open>auto simp: quiet_turns_after_exit intro!: exI [of _ "[]"]\<close>)
next
  case (Suc n)
  note split = replicate_Suc [of "Suc n" quiet_turn] concat.simps(2) handler_run_append
  from Suc.prems(1-3) show ?case
  proof (cases rule: quiet_turn_stopping)
    case (1 t')
    then show ?thesis unfolding split
      using quiet_turns_after_exit [of t' i "Suc n"] by (auto intro!: exI [of _ "[]"] simp del: replicate_Suc)
  next
    case (2 t' h)
    then obtain t'' cs where "handler_run i (concat (replicate (Suc n) quiet_turn)) t' = Some t''"
        "ht_phase t'' = AwaitExit" "ht_calls t'' = ht_calls t' @ cs @ [OnExit HandlerNormal]"
        "handled cs = msg_queue (channel (ht_inbox t'))"
      using Suc.IH [of t' False] Suc.prems(4) by auto
    then show ?thesis unfolding split
      using 2 by (auto intro!: exI [of _ "h # cs"] simp del: replicate_Suc)
  qed
qed

lemma normal_exit_from_empty_inbox:
  assumes "handler_step i e t = Some t'" "ht_phase t \<noteq> AwaitExit" "ht_phase t' = AwaitExit"
    "last (ht_calls t') = OnExit HandlerNormal"
  shows "\<not> exiting_phase (ht_phase t) \<and> should_exit (inbox_status (ht_inbox t)) \<and>
    msg_queue (channel (ht_inbox t')) = []"
proof (cases e)
  case (Outside op)
  then show ?thesis using assms(1-3) by (auto simp: outside_def split: if_splits option.splits)
next
  case (PollInit pick res)
  then show ?thesis using assms PollInit
    by (auto simp: after_init_def exit_with_def call_hook_def split: if_splits prod.splits poll.splits sum.splits)
next
  case (PollSelect pick ev)
  then obtain d ib d' r where s: "ht_phase t = AwaitEvent d"
      "select_poll i pick d ev (ht_inbox t) = Some (ib, d', r)" "t' = after_select (ib, d', r) t"
    using assms(1-3) by (auto split: phase.splits)
  then obtain x where r: "r = Ready x" using assms(3) by (cases r) (auto simp: after_select_def)
  then have "x = FromInbox None \<and> ht_inbox t' = ib" using s(3) assms(3,4)
    by (cases x rule: selected_cases) (auto simp: after_select_def exit_with_def call_hook_def)
  then show ?thesis using s(1) r select_poll_keeps(2,3) [OF s(2)] by simp
qed (use assms in \<open>auto simp: exit_with_def call_hook_def split: if_splits sum.splits\<close>)

definition handler_inbox :: "nat inbox" where
  "handler_inbox = example_inbox Initializing [] Auto"

text \<open>An actor that handles a message and an event of its own, and is shut down.\<close>

definition handler_events :: "(nat, nat, nat) handler_event list" where
  "handler_events = [Outside (OpTryCast example_iface call_options_new (Message 10 1)), PollInit False Pending,
     PollInit True (Ready (Inr ())), PollSelect True (Ready (Some (Inr 7))), HookReturns (Inr ()),
     PollSelect False Pending, HookReturns (Inr ()), Outside (OpSignal Shutdown), PollSelect False (Ready None),
     HookReturns (Inr ())]"

lemma init_signals_queue:
  "signal_queue (channel ib) = [] \<Longrightarrow> init_signals ib = (maybe_auto_init ib, False)"
  "signal_queue (channel ib) = s # q \<Longrightarrow> init_signals ib =
     (case recv_signal ib of
        (ib', Ready Shutdown) \<Rightarrow> (ib', True)
      | (ib', Ready _) \<Rightarrow> init_signals ib'
      | (ib', Pending) \<Rightarrow> (ib', False))"
  by (simp_all add: init_signals.simps [of ib] recv_signal_def next_signal_def)

lemmas handler_defs = handler_inbox_def handler_events_def handler_start_def outside_def example_inbox_defs
  example_defs init_poll_def init_signals_queue init_result_def after_init_def select_poll_def poll_events_def
  recv_event_def after_select_def call_hook_def exit_with_def Let_def msg_is_empty_def

section \<open>Properties\<close>

text \<open>C24: Whatever is sent to an actor, whatever its handler returns and whichever branch is polled first,
\<open>init\<close> is the first call and \<open>exit\<close> the last, made once; nothing comes between when the initialization failed
or was cancelled; and the messages handled, followed by those still queued, are those that were queued at
the start and those accepted since, in order.\<close>

theorem handler_calls_are_in_order:
  assumes "handler_run i es (handler_start ib) = Some t"
  shows "calls_ok (ht_phase t) (ht_calls t) \<and>
    handled (ht_calls t) @ msg_queue (channel (ht_inbox t)) = msg_queue (channel ib) @ ht_accepted t"
  using handler_run_ok [OF assms] handler_start_ok(1) [of ib] by (auto simp: handler_ok_def)

text \<open>C25: When a handler is told to exit normally it has handled every message that was accepted, and has
been told of a shutdown: no other way out of the loop counts as normal.\<close>

theorem normal_exit_has_handled_everything:
  assumes "\<not> should_exit (inbox_status ib)" "handler_run i es (handler_start ib) = Some t"
    "handler_step i e t = Some t'" "ht_phase t \<noteq> AwaitExit" "ht_phase t' = AwaitExit"
    "last (ht_calls t') = OnExit HandlerNormal"
  shows "handled (ht_calls t') = msg_queue (channel ib) @ ht_accepted t' \<and> OnSignal Shutdown \<in> set (ht_calls t)"
proof -
  have ok: "handler_ok (msg_queue (channel ib)) t'" and told: "told t"
    using handler_run_ok [OF assms(2)] handler_step_ok [OF assms(3)] handler_start_ok assms(1) by blast+
  then show ?thesis using normal_exit_from_empty_inbox [OF assms(3-6)] by (simp add: handler_ok_def told_def)
qed

lemma handler_events_run:
  "\<exists>t t'. handler_run example_iface handler_events (handler_start handler_inbox) = Some t \<and>
    ht_phase t = AwaitEvent False \<and>
    ht_calls t = [OnInit, OnEvent 7, OnMessage (Message 10 1), OnSignal Shutdown] \<and>
    handler_step example_iface (PollSelect False Pending) t = Some t' \<and> ht_phase t' = AwaitExit \<and>
    last (ht_calls t') = OnExit HandlerNormal"
  by (simp add: handler_defs)

theorem handler_calls_are_in_order_witness:
  "\<exists>t. handler_run example_iface handler_events (handler_start handler_inbox) = Some t \<and>
    calls_ok (ht_phase t) (ht_calls t)"
  using handler_events_run handler_calls_are_in_order by metis

theorem normal_exit_has_handled_everything_witness:
  "\<exists>t t'. handler_run example_iface handler_events (handler_start handler_inbox) = Some t \<and>
    handler_step example_iface (PollSelect False Pending) t = Some t' \<and> handled (ht_calls t') = ht_accepted t'"
proof -
  obtain t t' where t: "handler_run example_iface handler_events (handler_start handler_inbox) = Some t"
      "ht_phase t \<noteq> AwaitExit" "handler_step example_iface (PollSelect False Pending) t = Some t'"
      "ht_phase t' = AwaitExit" "last (ht_calls t') = OnExit HandlerNormal"
    using handler_events_run by (metis phase.distinct(12))
  have "\<not> should_exit (inbox_status handler_inbox)" "msg_queue (channel handler_inbox) = []"
    by (simp_all add: handler_defs)
  with normal_exit_has_handled_everything [OF _ t(1,3,2,4,5)] t(1,3) show ?thesis by auto
qed



text \<open>Signals that come while a handler is initialized are said to be ignored, but a suspension is not: the
actor is suspended without \<open>on_suspend\<close>, its messages wait, and the resume is the first it hears of it. Events
of its own do not wait for anything: they are handled while it is suspended, and before a
shutdown that is queued.\<close>

theorem suspension_during_init_is_not_ignored:
  "\<exists>t. handler_run example_iface
      [Outside (OpSignal Suspend), PollInit False Pending, PollInit True (Ready (Inr ())),
       Outside (OpTryCast example_iface call_options_new (Message 10 1)), PollSelect False Pending]
      (handler_start handler_inbox :: (nat, nat, nat) handler_task) = Some t \<and>
    inbox_status (ht_inbox t) = Suspended \<and> ht_calls t = [OnInit] \<and> ht_accepted t = [Message 10 1] \<and>
    (\<exists>t'. handler_run example_iface [Outside (OpSignal Shutdown), PollSelect True (Ready (Some (Inr 7)))] t = Some t' \<and>
      ht_calls t' = [OnInit, OnEvent 7]) \<and>
    (\<exists>t'. handler_run example_iface [Outside (OpSignal Resume), PollSelect False Pending] t = Some t' \<and>
      ht_calls t' = [OnInit, OnSignal Resume])"
  by (simp add: handler_defs)

text \<open>The scheduler gives a handler exactly what its futures complete with, once each and in the order in
which they complete, passing over those that give nothing; it says that it is empty when it is.\<close>

theorem scheduler_gives_each_result_once:
  "(scheduler_run es scheduler_new = (s, rs, given) \<longrightarrow> results rs = given @ results (sc_completed s)) \<and>
    (snd (scheduler_next s) = Ready None \<longrightarrow> sc_running s = 0 \<and> results (sc_completed s) = [])"
  using scheduler_run_results [of es scheduler_new s rs given]
    scheduler_loop_results [of "sc_completed s" "sc_running s"]
  by (auto simp: scheduler_new_def results_def [of "[]"] scheduler_next_def split: prod.splits)

theorem scheduler_gives_each_result_once_witness:
  "results [Inr None, Inr (Some (3::nat)) :: nat hreport + nat option] = [Inr 3]"
proof -
  have run: "scheduler_run [Schedules, Schedules, Completes (Inr None), Completes (Inr (Some (3::nat))), Nexts]
      (scheduler_new :: (nat, nat) scheduler) = (scheduler_new, [Inr None, Inr (Some 3)], [Inr 3])"
    by (simp add: scheduler_new_def schedule_def future_completes_def scheduler_next_def)
  from scheduler_gives_each_result_once [THEN conjunct1, rule_format, OF run]
  show ?thesis by (simp add: results_def [of "[]"] scheduler_new_def)
qed

end
