(* ===== verification/Sim_Fabric.thy ===== *)
theory Sim_Fabric
  imports Zestors_Prelude "HOL-Library.Sublist"
begin

text \<open>
  The simulated network that whole clusters can run on (distr/src/cluster/sim/fabric.rs): nodes listen and
  dial, connections carry streams and datagrams with latency, and partitions cut them.

  Time is the moment of a step; what a step draws at random is an input of it. An endpoint goes by the
  instance number that it was bound with, a connection by the number of its pair, and its two ends by that
  number doubled, and one more for the acceptor.
\<close>

section \<open>The network\<close>

record listener =
  ls_node :: name
  ls_instance :: nat

record endpoint =
  ep_node :: name
  ep_addr :: string
  ep_incoming :: "nat list" \<comment> \<open>pairs to be accepted\<close>
  ep_connections :: "nat list" \<comment> \<open>pairs dialed or accepted\<close>
  ep_dropped :: bool

text \<open>A one-way pipe of bytes: what was read from the writer and when it may come out.\<close>

record pipe =
  pp_from :: name
  pp_to :: name
  pp_pair :: nat
  pp_last :: instant
  pp_queue :: "(instant \<times> byte list option) list"
  pp_ingress_done :: bool
  pp_egress_done :: bool
  pp_written :: "byte list"
  pp_received :: "byte list"
  pp_shutdown :: bool \<comment> \<open>the reader was told that the stream ends\<close>

record sim_end =
  se_pair :: nat
  se_local :: name
  se_remote :: name
  se_streams_in :: "(nat \<times> nat) list" \<comment> \<open>the pipes to write to and to read from\<close>
  se_datagrams_in :: "byte list list"

datatype dial = Dial (dial_from: nat) (dial_to: name) (dial_listener: nat) | Offer (offer_pair: nat) (offer_from: nat) (offer_listener: nat)

record fabric =
  fb_listeners :: "(string \<times> listener) list"
  fb_partitions :: "(name \<times> name) set"
  fb_pairs :: "(name \<times> name \<times> nat) list"
  fb_latency :: duration
  fb_jitter :: duration
  fb_endpoints :: "endpoint list" \<comment> \<open>by instance\<close>
  fb_ends :: "sim_end list"
  fb_closed :: "nat set" \<comment> \<open>pairs\<close>
  fb_gone :: "nat set" \<comment> \<open>pairs both ends of which are dropped\<close>
  fb_dials :: "dial list" \<comment> \<open>calls of \<open>connect\<close> that are under way\<close>
  fb_pipes :: "pipe list"
  fb_flying :: "(instant \<times> nat \<times> byte list) list" \<comment> \<open>datagrams, with the end that they go to\<close>

definition MAX_DATAGRAM :: nat where "MAX_DATAGRAM = 1200"
definition INCOMING_QUEUE :: nat where "INCOMING_QUEUE = 64"

definition fabric_new :: fabric where
  "fabric_new = \<lparr>fb_listeners = [], fb_partitions = {}, fb_pairs = [], fb_latency = 1000000, fb_jitter = 0,
     fb_endpoints = [], fb_ends = [], fb_closed = {}, fb_gone = {}, fb_dials = [], fb_pipes = [], fb_flying = []\<rparr>"

definition set_latency :: "duration \<Rightarrow> duration \<Rightarrow> fabric \<Rightarrow> fabric" where
  "set_latency latency jitter f = f\<lparr>fb_latency := latency, fb_jitter := jitter\<rparr>"

definition partitioned :: "name \<Rightarrow> name \<Rightarrow> fabric \<Rightarrow> bool" where
  "partitioned x y f \<longleftrightarrow> (x, y) \<in> fb_partitions f"

definition is_closed :: "nat \<Rightarrow> fabric \<Rightarrow> bool" where
  "is_closed p f \<longleftrightarrow> p \<in> fb_closed f"

definition partition_nodes :: "name list \<Rightarrow> name list \<Rightarrow> fabric \<Rightarrow> fabric" where
  "partition_nodes a b f =
     (let cut = fb_partitions f \<union> (set a \<times> set b) \<union> (set b \<times> set a);
          there = filter (\<lambda>(x, y, p). p \<notin> fb_gone f) (fb_pairs f) in
      f\<lparr>fb_partitions := cut,
        fb_closed := fb_closed f \<union> {p. \<exists>x y. (x, y, p) \<in> set there \<and> (x, y) \<in> cut},
        fb_pairs := filter (\<lambda>(x, y, p). (x, y) \<notin> cut) there\<rparr>)"

definition heal :: "fabric \<Rightarrow> fabric" where
  "heal f = f\<lparr>fb_partitions := {}\<rparr>"

definition bind_node :: "name \<Rightarrow> string \<Rightarrow> fabric \<Rightarrow> fabric" where
  "bind_node node addr f = f\<lparr>
     fb_listeners := imap_insert addr \<lparr>ls_node = node, ls_instance = length (fb_endpoints f)\<rparr> (fb_listeners f),
     fb_endpoints := fb_endpoints f @ [\<lparr>ep_node = node, ep_addr = addr, ep_incoming = [], ep_connections = [],
       ep_dropped = False\<rparr>]\<rparr>"

text \<open>How long a message takes: \<open>j\<close> is what the jitter comes to, at most \<open>fb_jitter\<close>.\<close>

definition fabric_delay :: "duration \<Rightarrow> fabric \<Rightarrow> duration" where
  "fabric_delay j f = fb_latency f + min j (fb_jitter f)"

section \<open>Connecting\<close>

definition track :: "nat \<Rightarrow> nat \<Rightarrow> fabric \<Rightarrow> fabric" where
  "track i p f = f\<lparr>fb_endpoints := (fb_endpoints f)[i := (fb_endpoints f ! i)
     \<lparr>ep_connections := ep_connections (fb_endpoints f ! i) @ [p]\<rparr>]\<rparr>"

definition close_pair :: "nat \<Rightarrow> fabric \<Rightarrow> fabric" where
  "close_pair p f = f\<lparr>fb_closed := insert p (fb_closed f)\<rparr>"

text \<open>\<open>connect\<close> up to its delay, the making of the pair, and handing it to the listener: \<open>False\<close> is refused.\<close>

definition connect_checks :: "nat \<Rightarrow> string \<Rightarrow> name \<Rightarrow> fabric \<Rightarrow> bool \<times> fabric" where
  "connect_checks i addr node f =
     (case map_of (fb_listeners f) addr of
        None \<Rightarrow> (False, f)
      | Some l \<Rightarrow>
          if ls_node l = node \<and> \<not> partitioned (ep_node (fb_endpoints f ! i)) node f
          then (True, f\<lparr>fb_dials := fb_dials f @ [Dial i node (ls_instance l)]\<rparr>) else (False, f))"

definition sim_end_new :: "nat \<Rightarrow> name \<Rightarrow> name \<Rightarrow> sim_end" where
  "sim_end_new p here there = \<lparr>se_pair = p, se_local = here, se_remote = there, se_streams_in = [],
     se_datagrams_in = []\<rparr>"

definition connect_pairs :: "nat \<Rightarrow> name \<Rightarrow> nat \<Rightarrow> fabric \<Rightarrow> fabric" where
  "connect_pairs i node l f =
     (let p = length (fb_ends f) div 2; here = ep_node (fb_endpoints f ! i) in
      if Dial i node l \<in> set (fb_dials f)
      then f\<lparr>fb_dials := remove1 (Dial i node l) (fb_dials f) @ [Offer p i l],
             fb_pairs := fb_pairs f @ [(here, node, p)],
             fb_ends := fb_ends f @ [sim_end_new p here node, sim_end_new p node here]\<rparr>
      else f)"

text \<open>Both ends are dropped when nobody listens any more.\<close>

definition connect_sends :: "nat \<Rightarrow> nat \<Rightarrow> nat \<Rightarrow> fabric \<Rightarrow> (unit + unit) poll \<times> fabric" where
  "connect_sends p i l f =
     (let f' = f\<lparr>fb_dials := remove1 (Offer p i l) (fb_dials f)\<rparr>; e = fb_endpoints f ! l in
      if Offer p i l \<notin> set (fb_dials f) then (Pending, f)
      else if ep_dropped e then (Ready (Inl ()), close_pair p (f'\<lparr>fb_gone := insert p (fb_gone f)\<rparr>))
      else if INCOMING_QUEUE \<le> length (ep_incoming e) then (Pending, f)
      else (Ready (Inr ()),
        track i p (f'\<lparr>fb_endpoints := (fb_endpoints f)[l := e\<lparr>ep_incoming := ep_incoming e @ [p]\<rparr>]\<rparr>)))"

text \<open>Accepting fails once nothing can dial this endpoint any more, its listener having been replaced.\<close>

definition can_be_dialed :: "nat \<Rightarrow> fabric \<Rightarrow> bool" where
  "can_be_dialed i f \<longleftrightarrow>
     list_ex (\<lambda>(_, l). ls_instance l = i) (fb_listeners f)
     \<or> list_ex (\<lambda>d. case d of Dial _ _ l \<Rightarrow> l = i | Offer _ _ l \<Rightarrow> l = i) (fb_dials f)"

definition accept_connection :: "nat \<Rightarrow> fabric \<Rightarrow> (unit + nat) poll \<times> fabric" where
  "accept_connection i f =
     (let e = fb_endpoints f ! i in
      case ep_incoming e of
        [] \<Rightarrow> (if can_be_dialed i f then Pending else Ready (Inl ()), f)
      | p # ps \<Rightarrow> (Ready (Inr p), track i p (f\<lparr>fb_endpoints := (fb_endpoints f)[i := e\<lparr>ep_incoming := ps\<rparr>]\<rparr>)))"

definition close_all :: "nat \<Rightarrow> fabric \<Rightarrow> fabric" where
  "close_all i f = f\<lparr>fb_closed := fb_closed f \<union> set (ep_connections (fb_endpoints f ! i)),
     fb_endpoints := (fb_endpoints f)[i := (fb_endpoints f ! i)\<lparr>ep_connections := []\<rparr>]\<rparr>"

text \<open>
  Dropping an endpoint takes down the connections it tracks and those nobody accepted, and its listener
  unless another has replaced that.
\<close>

definition drop_endpoint :: "nat \<Rightarrow> fabric \<Rightarrow> fabric" where
  "drop_endpoint i f =
     (let e = fb_endpoints f ! i; f = close_all i f in
      f\<lparr>fb_listeners := (case map_of (fb_listeners f) (ep_addr e) of
            Some l \<Rightarrow> if ls_instance l = i then snd (imap_shift_remove (ep_addr e) (fb_listeners f)) else fb_listeners f
          | None \<Rightarrow> fb_listeners f),
        fb_closed := fb_closed f \<union> set (ep_incoming e),
        fb_endpoints := (fb_endpoints f)[i := e\<lparr>ep_incoming := [], ep_connections := [], ep_dropped := True\<rparr>]\<rparr>)"

section \<open>Streams\<close>

definition pipe_new :: "instant \<Rightarrow> name \<Rightarrow> name \<Rightarrow> nat \<Rightarrow> pipe" where
  "pipe_new now x y p = \<lparr>pp_from = x, pp_to = y, pp_pair = p, pp_last = now, pp_queue = [],
     pp_ingress_done = False, pp_egress_done = False, pp_written = [], pp_received = [],
     pp_shutdown = False\<rparr>"

text \<open>One turn of the task that reads what is written: nothing more when the writer is done.\<close>

definition pipe_takes :: "instant \<Rightarrow> duration \<Rightarrow> byte list \<Rightarrow> fabric \<Rightarrow> pipe \<Rightarrow> pipe" where
  "pipe_takes now j chunk f pp =
     (let due = max (pp_last pp) (now + fabric_delay j f) in
      if pp_ingress_done pp then pp
      else if is_closed (pp_pair pp) f then pp\<lparr>pp_ingress_done := True\<rparr>
      else if chunk = [] then pp\<lparr>pp_last := due, pp_queue := pp_queue pp @ [(due, None)], pp_ingress_done := True\<rparr>
      else pp\<lparr>pp_last := due, pp_queue := pp_queue pp @ [(due, Some chunk)], pp_written := pp_written pp @ chunk\<rparr>)"

text \<open>One turn of the task that hands it on; \<open>reads\<close>: there still is a reader.\<close>

definition pipe_gives :: "instant \<Rightarrow> bool \<Rightarrow> fabric \<Rightarrow> pipe \<Rightarrow> pipe" where
  "pipe_gives now reads f pp =
     (if pp_egress_done pp then pp
      else if is_closed (pp_pair pp) f then pp\<lparr>pp_egress_done := True\<rparr>
      else case pp_queue pp of
        [] \<Rightarrow> if pp_ingress_done pp then pp\<lparr>pp_egress_done := True\<rparr> else pp
      | (due, chunk) # q \<Rightarrow>
          if now < due then pp
          else if partitioned (pp_from pp) (pp_to pp) f then pp\<lparr>pp_queue := q\<rparr>
          else (case chunk of
              Some bytes \<Rightarrow> if reads then pp\<lparr>pp_queue := q, pp_received := pp_received pp @ bytes\<rparr>
                else pp\<lparr>pp_queue := q, pp_egress_done := True\<rparr>
            | None \<Rightarrow> pp\<lparr>pp_queue := q, pp_egress_done := True, pp_shutdown := True\<rparr>))"

definition other_end :: "nat \<Rightarrow> nat" where
  "other_end k = (if even k then k + 1 else k - 1)"

definition at_end :: "nat \<Rightarrow> (sim_end \<Rightarrow> sim_end) \<Rightarrow> fabric \<Rightarrow> fabric" where
  "at_end k g f = f\<lparr>fb_ends := (fb_ends f)[k := g (fb_ends f ! k)]\<rparr>"

text \<open>Opens a stream at the end \<open>k\<close>: the numbers of the pipes to write to and to read from.\<close>

definition open_stream :: "instant \<Rightarrow> nat \<Rightarrow> fabric \<Rightarrow> (nat \<times> nat) option \<times> fabric" where
  "open_stream now k f =
     (let e = fb_ends f ! k; n = length (fb_pipes f) in
      if k < length (fb_ends f) \<and> \<not> is_closed (se_pair e) f
      then (Some (n, n + 1),
        at_end (other_end k) (\<lambda>e. e\<lparr>se_streams_in := se_streams_in e @ [(n + 1, n)]\<rparr>)
          (f\<lparr>fb_pipes := fb_pipes f @ [pipe_new now (se_local e) (se_remote e) (se_pair e),
             pipe_new now (se_remote e) (se_local e) (se_pair e)]\<rparr>))
      else (None, f))"

definition accept_stream :: "nat \<Rightarrow> fabric \<Rightarrow> (unit + nat \<times> nat) poll \<times> fabric" where
  "accept_stream k f =
     (let e = fb_ends f ! k in
      if is_closed (se_pair e) f then (Ready (Inl ()), f)
      else case se_streams_in e of
        [] \<Rightarrow> (Pending, f)
      | s # ss \<Rightarrow> (Ready (Inr s), at_end k (\<lambda>e. e\<lparr>se_streams_in := ss\<rparr>) f))"

section \<open>Datagrams\<close>

text \<open>The simulated network never says \<open>DatagramUnsupported\<close>.\<close>

datatype datagram_error = DatagramTooLarge | DatagramUnsupported | DatagramClosed

definition sim_send_datagram :: "instant \<Rightarrow> duration \<Rightarrow> nat \<Rightarrow> byte list \<Rightarrow> fabric \<Rightarrow> (datagram_error + unit) \<times> fabric" where
  "sim_send_datagram now j k data f =
     (let e = fb_ends f ! k in
      if is_closed (se_pair e) f then (Inl DatagramClosed, f)
      else if MAX_DATAGRAM < length data then (Inl DatagramTooLarge, f)
      else if partitioned (se_local e) (se_remote e) f then (Inr (), f)
      else (Inr (), f\<lparr>fb_flying := fb_flying f @ [(now + fabric_delay j f, other_end k, data)]\<rparr>))"

definition datagram_lands :: "instant \<Rightarrow> nat \<Rightarrow> fabric \<Rightarrow> fabric" where
  "datagram_lands now i f =
     (if i < length (fb_flying f) \<and> fst (fb_flying f ! i) \<le> now
      then at_end (fst (snd (fb_flying f ! i)))
        (\<lambda>e. e\<lparr>se_datagrams_in := se_datagrams_in e @ [snd (snd (fb_flying f ! i))]\<rparr>)
        (f\<lparr>fb_flying := take i (fb_flying f) @ drop (Suc i) (fb_flying f)\<rparr>)
      else f)"

definition recv_datagram :: "nat \<Rightarrow> fabric \<Rightarrow> (unit + byte list) poll \<times> fabric" where
  "recv_datagram k f =
     (let e = fb_ends f ! k in
      if is_closed (se_pair e) f then (Ready (Inl ()), f)
      else case se_datagrams_in e of
        [] \<Rightarrow> (Pending, f)
      | d # ds \<Rightarrow> (Ready (Inr d), at_end k (\<lambda>e. e\<lparr>se_datagrams_in := ds\<rparr>) f))"

section \<open>Runs\<close>

datatype fabric_event = Latency duration duration | Partition "name list" "name list" | Heal | Bind name string
  | Connect nat string name | Pairs nat name nat | Sends nat nat nat | Accept nat | CloseAll nat | DropEndpoint nat
  | CloseEnd nat | Gone nat | OpenStream instant nat | AcceptStream nat
  | SendDatagram instant duration nat "byte list" | Lands instant nat | RecvDatagram nat
  | Takes instant duration "byte list" nat | Gives instant bool nat

definition at_pipe :: "nat \<Rightarrow> (pipe \<Rightarrow> pipe) \<Rightarrow> fabric \<Rightarrow> fabric" where
  "at_pipe n g f = f\<lparr>fb_pipes := (fb_pipes f)[n := g (fb_pipes f ! n)]\<rparr>"

text \<open>Dropping a connection closes it; its pair is gone when both ends are.\<close>

fun fabric_step :: "fabric_event \<Rightarrow> fabric \<Rightarrow> fabric" where
  "fabric_step (Latency l j) f = set_latency l j f"
| "fabric_step (Partition a b) f = partition_nodes a b f"
| "fabric_step Heal f = heal f"
| "fabric_step (Bind x addr) f = bind_node x addr f"
| "fabric_step (Connect i addr x) f = snd (connect_checks i addr x f)"
| "fabric_step (Pairs i x l) f = connect_pairs i x l f"
| "fabric_step (Sends p i l) f = snd (connect_sends p i l f)"
| "fabric_step (Accept i) f = snd (accept_connection i f)"
| "fabric_step (CloseAll i) f = close_all i f"
| "fabric_step (DropEndpoint i) f = drop_endpoint i f"
| "fabric_step (CloseEnd k) f = (if k < length (fb_ends f) then close_pair (se_pair (fb_ends f ! k)) f else f)"
| "fabric_step (Gone p) f = (if is_closed p f then f\<lparr>fb_gone := insert p (fb_gone f)\<rparr> else f)"
| "fabric_step (OpenStream now k) f = snd (open_stream now k f)"
| "fabric_step (AcceptStream k) f = snd (accept_stream k f)"
| "fabric_step (SendDatagram now j k data) f = snd (sim_send_datagram now j k data f)"
| "fabric_step (Lands now i) f = datagram_lands now i f"
| "fabric_step (RecvDatagram k) f = snd (recv_datagram k f)"
| "fabric_step (Takes now j chunk n) f = at_pipe n (pipe_takes now j chunk f) f"
| "fabric_step (Gives now reads n) f = at_pipe n (pipe_gives now reads f) f"

definition fabric_run :: "fabric_event list \<Rightarrow> fabric" where
  "fabric_run es = fold fabric_step es fabric_new"

text \<open>A calm run makes no connection between nodes that a partition separates at that moment.\<close>

fun makes_across_a_cut :: "fabric_event \<Rightarrow> fabric \<Rightarrow> bool" where
  "makes_across_a_cut (Pairs i x l) f \<longleftrightarrow> partitioned (ep_node (fb_endpoints f ! i)) x f"
| "makes_across_a_cut _ f \<longleftrightarrow> False"

fun undivided_run :: "fabric_event list \<Rightarrow> fabric \<Rightarrow> bool" where
  "undivided_run [] f \<longleftrightarrow> True"
| "undivided_run (e # es) f \<longleftrightarrow> \<not> makes_across_a_cut e f \<and> undivided_run es (fabric_step e f)"

section \<open>One pipe\<close>

definition chunk_bytes :: "(instant \<times> byte list option) list \<Rightarrow> byte list" where
  "chunk_bytes q = concat (map (\<lambda>(_, c). case c of Some b \<Rightarrow> b | None \<Rightarrow> []) q)"

lemma chunk_bytes_simps [simp]:
  "chunk_bytes [] = []"
  "chunk_bytes ((due, c) # q) = (case c of Some b \<Rightarrow> b | None \<Rightarrow> []) @ chunk_bytes q"
  "chunk_bytes (q @ q') = chunk_bytes q @ chunk_bytes q'"
  by (simp_all add: chunk_bytes_def)

text \<open>
  What was read from the writer is what came out and what waits, until the reader is gone; the deadlines
  never decrease, and only the last chunk may be the end of the stream.
\<close>

definition pipe_ok :: "pipe \<Rightarrow> bool" where
  "pipe_ok pp \<longleftrightarrow> prefix (pp_received pp) (pp_written pp)
     \<and> (\<not> pp_egress_done pp \<longrightarrow> pp_received pp @ chunk_bytes (pp_queue pp) = pp_written pp)
     \<and> sorted (map fst (pp_queue pp)) \<and> (\<forall>x\<in>set (pp_queue pp). fst x \<le> pp_last pp)
     \<and> (\<forall>x\<in>set (butlast (pp_queue pp)). snd x \<noteq> None)
     \<and> (\<forall>x\<in>set (pp_queue pp). snd x = None \<longrightarrow> pp_ingress_done pp)
     \<and> (pp_shutdown pp \<longrightarrow> pp_ingress_done pp \<and> pp_egress_done pp \<and> pp_received pp = pp_written pp)"

lemma pipe_new_ok: "pipe_ok (pipe_new now x y p)"
  by (simp add: pipe_ok_def pipe_new_def)

lemma pipe_takes_ok:
  assumes ok: "pipe_ok pp"
  shows "pipe_ok (pipe_takes now j chunk f pp)"
proof -
  have "\<forall>x\<in>set (pp_queue pp). fst x \<le> max (pp_last pp) (now + fabric_delay j f)"
    using ok by (auto simp: pipe_ok_def)
  moreover have "\<forall>x\<in>set (pp_queue pp). snd x \<noteq> None" if "\<not> pp_ingress_done pp"
    using ok that by (auto simp: pipe_ok_def)
  ultimately show ?thesis
    using ok by (auto simp: pipe_takes_def pipe_ok_def sorted_append butlast_append Let_def)
qed

lemma pipe_gives_ok:
  assumes ok: "pipe_ok pp" and there: "is_closed (pp_pair pp) f \<or> \<not> partitioned (pp_from pp) (pp_to pp) f"
  shows "pipe_ok (pipe_gives now reads f pp)"
proof (cases "pp_queue pp")
  case Nil
  then show ?thesis using ok by (auto simp: pipe_gives_def pipe_ok_def)
next
  case (Cons x q)
  obtain due c where x: "x = (due, c)" by (cases x)
  show ?thesis
  proof (cases c)
    case None
    then have "q = []" using ok Cons x by (auto simp: pipe_ok_def split: if_splits)
    then show ?thesis using ok there Cons x None by (auto simp: pipe_gives_def pipe_ok_def)
  next
    case (Some b)
    have "\<forall>x\<in>set (butlast q). snd x \<noteq> None" using ok Cons by (auto simp: pipe_ok_def split: if_splits)
    moreover have "prefix (pp_received pp @ b) (pp_written pp)" if "\<not> pp_egress_done pp"
      using ok Cons x Some that by (auto simp: pipe_ok_def prefix_def)
    ultimately show ?thesis using ok there Cons x Some by (auto simp: pipe_gives_def pipe_ok_def)
  qed
qed

text \<open>As many turns as there are chunks, after the last deadline and on a link that holds, empty the pipe.\<close>

lemma pipe_gives_everything:
  assumes "pipe_ok pp" "\<not> pp_egress_done pp" "\<not> is_closed (pp_pair pp) f"
    "\<not> partitioned (pp_from pp) (pp_to pp) f" "pp_last pp \<le> now"
  shows "pp_received ((pipe_gives now True f ^^ length (pp_queue pp)) pp) = pp_written pp"
  using assms
proof (induction "length (pp_queue pp)" arbitrary: pp)
  case 0
  then show ?case by (simp add: pipe_ok_def)
next
  case (Suc n)
  then obtain due c q where q: "pp_queue pp = (due, c) # q" by (metis length_Suc_conv surj_pair)
  let ?pp = "pipe_gives now True f pp"
  have due: "due \<le> now" using Suc.prems q by (force simp: pipe_ok_def)
  have n: "n = length q" using Suc.hyps q by simp
  have ok: "pipe_ok ?pp" using Suc.prems pipe_gives_ok by blast
  have iter: "(pipe_gives now True f ^^ Suc n) pp = (pipe_gives now True f ^^ n) ?pp"
    by (simp add: funpow_swap1)
  show ?case
  proof (cases c)
    case None
    then have "q = []" using Suc.prems q by (auto simp: pipe_ok_def split: if_splits)
    then show ?thesis using Suc.prems q None due n iter by (simp add: pipe_gives_def pipe_ok_def)
  next
    case (Some b)
    then have pp: "?pp = pp\<lparr>pp_queue := q, pp_received := pp_received pp @ b\<rparr>"
      using Suc.prems q due by (simp add: pipe_gives_def)
    have "pp_received ((pipe_gives now True f ^^ length (pp_queue ?pp)) ?pp) = pp_written ?pp"
      by (rule Suc.hyps(1)) (use ok pp n Suc.prems in simp_all)
    moreover have "length (pp_queue ?pp) = n" "pp_written ?pp = pp_written pp" using pp n by simp_all
    ultimately show ?thesis by (simp only: iter Suc.hyps(2) [symmetric])
  qed
qed

section \<open>The network in a calm run\<close>

definition joined :: "name \<Rightarrow> name \<Rightarrow> nat \<Rightarrow> fabric \<Rightarrow> bool" where
  "joined x y p f \<longleftrightarrow> p \<in> fb_closed f \<or> (x, y, p) \<in> set (fb_pairs f) \<or> (y, x, p) \<in> set (fb_pairs f)"

text \<open>
  Every open connection is registered, with its ends and pipes, and no registered one that is open lies
  across a partition.
\<close>

definition cuts_ok :: "fabric \<Rightarrow> bool" where
  "cuts_ok f \<longleftrightarrow> sym (fb_partitions f) \<and> fb_gone f \<subseteq> fb_closed f
     \<and> (\<forall>x y p. (x, y, p) \<in> set (fb_pairs f) \<longrightarrow> p \<in> fb_closed f \<or> (x, y) \<notin> fb_partitions f)"

definition ends_ok :: "fabric \<Rightarrow> bool" where
  "ends_ok f \<longleftrightarrow> (\<forall>e\<in>set (fb_ends f). joined (se_local e) (se_remote e) (se_pair e) f)"

definition pipes_ok :: "fabric \<Rightarrow> bool" where
  "pipes_ok f \<longleftrightarrow> (\<forall>pp\<in>set (fb_pipes f). pipe_ok pp \<and> joined (pp_from pp) (pp_to pp) (pp_pair pp) f)"

lemmas fabric_ok_defs = cuts_ok_def ends_ok_def pipes_ok_def joined_def

text \<open>What a step that makes no connection and no pipe leaves alone.\<close>

definition end_names :: "sim_end \<Rightarrow> name \<times> name \<times> nat" where
  "end_names e = (se_local e, se_remote e, se_pair e)"

definition only_closes :: "fabric \<Rightarrow> fabric \<Rightarrow> bool" where
  "only_closes f f' \<longleftrightarrow> fb_partitions f' = fb_partitions f \<and> fb_pairs f' = fb_pairs f \<and> fb_pipes f' = fb_pipes f
     \<and> map end_names (fb_ends f') = map end_names (fb_ends f) \<and> fb_closed f \<subseteq> fb_closed f'
     \<and> (fb_gone f \<subseteq> fb_closed f \<longrightarrow> fb_gone f' \<subseteq> fb_closed f')"

lemma only_closes_ok:
  assumes "only_closes f f'" "cuts_ok f" "ends_ok f" "pipes_ok f"
  shows "cuts_ok f'" "ends_ok f'" "pipes_ok f'"
proof -
  have "joined x y p f'" if "joined x y p f" for x y p
    using assms(1) that by (auto simp: joined_def only_closes_def)
  moreover have "\<exists>e'\<in>set (fb_ends f). end_names e' = end_names e" if "e \<in> set (fb_ends f')" for e
    using assms(1) that unfolding only_closes_def by (metis image_iff image_set)
  ultimately show "ends_ok f'" "pipes_ok f'"
    using assms unfolding ends_ok_def pipes_ok_def by (metis end_names_def prod.inject, metis only_closes_def)
  show "cuts_ok f'" using assms(1,2) unfolding cuts_ok_def only_closes_def by (metis subsetD)
qed

lemma only_closes_at_end:
  assumes "\<And>e. end_names (g e) = end_names e"
  shows "map end_names ((fb_ends f)[k := g (fb_ends f ! k)]) = map end_names (fb_ends f)"
  using assms by (cases "k < length (fb_ends f)") (simp_all add: map_update list_update_same_conv list_update_beyond)

fun plain_event :: "fabric_event \<Rightarrow> bool" where
  "plain_event (Partition a b) \<longleftrightarrow> False"
| "plain_event Heal \<longleftrightarrow> False"
| "plain_event (Pairs i x l) \<longleftrightarrow> False"
| "plain_event (OpenStream now k) \<longleftrightarrow> False"
| "plain_event (Takes now j c n) \<longleftrightarrow> False"
| "plain_event (Gives now r n) \<longleftrightarrow> False"
| "plain_event _ \<longleftrightarrow> True"

lemma plain_event_only_closes: "plain_event e \<Longrightarrow> only_closes f (fabric_step e f)"
  by (cases e)
     (auto simp: only_closes_def set_latency_def bind_node_def connect_checks_def connect_sends_def close_pair_def
        track_def accept_connection_def close_all_def drop_endpoint_def accept_stream_def sim_send_datagram_def
        datagram_lands_def recv_datagram_def at_end_def Let_def is_closed_def only_closes_at_end end_names_def
        split: option.splits list.splits)

lemma partition_nodes_ok:
  assumes "cuts_ok f" "ends_ok f" "pipes_ok f"
  shows "cuts_ok (partition_nodes a b f)" "ends_ok (partition_nodes a b f)" "pipes_ok (partition_nodes a b f)"
proof -
  let ?f = "partition_nodes a b f"
  have cut: "sym (fb_partitions ?f)"
    using assms(1) by (auto simp: cuts_ok_def partition_nodes_def Let_def sym_def)
  have kept: "p \<in> fb_closed ?f \<or> (x, y, p) \<in> set (fb_pairs ?f)" if "(x, y, p) \<in> set (fb_pairs f)" for x y p
    using assms(1) that unfolding cuts_ok_def partition_nodes_def Let_def by fastforce
  have "fb_closed f \<subseteq> fb_closed ?f" by (auto simp: partition_nodes_def Let_def)
  then have joined: "joined x y p ?f" if "joined x y p f" for x y p
    using that kept unfolding joined_def by blast
  show "cuts_ok ?f"
    using assms(1) cut unfolding cuts_ok_def by (auto simp: partition_nodes_def Let_def simp del: Un_iff)
  show "ends_ok ?f" using assms(2) joined by (auto simp: ends_ok_def partition_nodes_def Let_def)
  show "pipes_ok ?f" using assms(3) joined by (auto simp: pipes_ok_def partition_nodes_def Let_def)
qed

lemma joined_not_cut:
  "joined x y p f \<Longrightarrow> cuts_ok f \<Longrightarrow> is_closed p f \<or> \<not> partitioned x y f"
  unfolding joined_def cuts_ok_def is_closed_def partitioned_def sym_def by blast

lemma joined_pipes [simp]: "joined x y p (f\<lparr>fb_pipes := pps\<rparr>) = joined x y p f"
  by (simp add: joined_def)

lemma at_pipe_ok:
  assumes ok: "cuts_ok f" "ends_ok f" "pipes_ok f"
    and g: "\<And>pp. pipe_ok pp \<Longrightarrow> joined (pp_from pp) (pp_to pp) (pp_pair pp) f \<Longrightarrow> pipe_ok (g pp)
      \<and> pp_from (g pp) = pp_from pp \<and> pp_to (g pp) = pp_to pp \<and> pp_pair (g pp) = pp_pair pp"
  shows "cuts_ok (at_pipe n g f)" "ends_ok (at_pipe n g f)" "pipes_ok (at_pipe n g f)"
proof -
  show "cuts_ok (at_pipe n g f)" "ends_ok (at_pipe n g f)"
    using ok by (simp_all add: cuts_ok_def ends_ok_def at_pipe_def)
  show "pipes_ok (at_pipe n g f)"
  proof (cases "n < length (fb_pipes f)")
    case True
    then have "fb_pipes f ! n \<in> set (fb_pipes f)" by simp
    then show ?thesis
      using ok(3) g by (auto simp: pipes_ok_def at_pipe_def dest!: subsetD [OF set_update_subset_insert])
  next
    case False
    then show ?thesis using ok(3) by (simp add: pipes_ok_def at_pipe_def list_update_beyond)
  qed
qed

lemma pipe_names:
  "pp_from (pipe_takes now j c f pp) = pp_from pp" "pp_to (pipe_takes now j c f pp) = pp_to pp"
  "pp_pair (pipe_takes now j c f pp) = pp_pair pp" "pp_from (pipe_gives now r f pp) = pp_from pp"
  "pp_to (pipe_gives now r f pp) = pp_to pp" "pp_pair (pipe_gives now r f pp) = pp_pair pp"
  by (auto simp: pipe_takes_def pipe_gives_def Let_def split: list.splits option.splits)

lemma connect_pairs_ok:
  assumes "cuts_ok f" "ends_ok f" "pipes_ok f" "\<not> partitioned (ep_node (fb_endpoints f ! i)) x f"
  shows "cuts_ok (connect_pairs i x l f)" "ends_ok (connect_pairs i x l f)" "pipes_ok (connect_pairs i x l f)"
  using assms by (auto simp: fabric_ok_defs connect_pairs_def Let_def sim_end_new_def partitioned_def)

lemma open_stream_ok:
  assumes "cuts_ok f" "ends_ok f" "pipes_ok f"
  shows "cuts_ok (snd (open_stream now k f))" "ends_ok (snd (open_stream now k f))"
    "pipes_ok (snd (open_stream now k f))"
proof -
  have e: "joined (se_local (fb_ends f ! k)) (se_remote (fb_ends f ! k)) (se_pair (fb_ends f ! k)) f"
    if "k < length (fb_ends f)"
    using assms(2) that by (simp add: ends_ok_def)
  have "map end_names (fb_ends (snd (open_stream now k f))) = map end_names (fb_ends f)"
    by (auto simp: open_stream_def at_end_def Let_def only_closes_at_end end_names_def)
  then have "only_closes (f\<lparr>fb_pipes := fb_pipes (snd (open_stream now k f))\<rparr>) (snd (open_stream now k f))"
    by (auto simp: only_closes_def open_stream_def at_end_def Let_def)
  moreover have "pipes_ok (f\<lparr>fb_pipes := fb_pipes (snd (open_stream now k f))\<rparr>)"
    using assms(3) e pipe_new_ok
    by (auto simp: pipes_ok_def open_stream_def at_end_def Let_def pipe_new_def joined_def)
  moreover have "cuts_ok (f\<lparr>fb_pipes := pps\<rparr>)" "ends_ok (f\<lparr>fb_pipes := pps\<rparr>)" for pps
    using assms by (simp_all add: cuts_ok_def ends_ok_def)
  ultimately show "cuts_ok (snd (open_stream now k f))" "ends_ok (snd (open_stream now k f))"
    "pipes_ok (snd (open_stream now k f))"
    using only_closes_ok by blast+
qed

lemma fabric_step_ok:
  assumes ok: "cuts_ok f" "ends_ok f" "pipes_ok f" and calm: "\<not> makes_across_a_cut e f"
  shows "cuts_ok (fabric_step e f) \<and> ends_ok (fabric_step e f) \<and> pipes_ok (fabric_step e f)"
proof (cases "plain_event e")
  case True
  then show ?thesis using only_closes_ok plain_event_only_closes ok by blast
next
  case False
  have gives: "pipe_ok (pipe_gives now r f pp)"
    if "pipe_ok pp" "joined (pp_from pp) (pp_to pp) (pp_pair pp) f" for now r pp
    using that joined_not_cut [OF _ ok(1)] pipe_gives_ok by blast
  show ?thesis
  proof (cases e)
    case Heal
    then show ?thesis using ok by (auto simp: heal_def fabric_ok_defs sym_def)
  next
    case (Pairs i x l)
    then show ?thesis using connect_pairs_ok [OF ok] calm by simp
  next
    case (Takes now j c n)
    then show ?thesis using at_pipe_ok [OF ok] pipe_takes_ok pipe_names by simp
  next
    case (Gives now r n)
    then show ?thesis using at_pipe_ok [OF ok] gives pipe_names by simp
  qed (use False partition_nodes_ok [OF ok] open_stream_ok [OF ok] in simp_all)
qed

lemma undivided_run_ok:
  assumes "cuts_ok f" "ends_ok f" "pipes_ok f" "undivided_run es f"
  shows "cuts_ok (fold fabric_step es f) \<and> ends_ok (fold fabric_step es f) \<and> pipes_ok (fold fabric_step es f)"
  using assms by (induction es arbitrary: f) (auto dest: fabric_step_ok)

lemma fabric_new_ok: "cuts_ok fabric_new" "ends_ok fabric_new" "pipes_ok fabric_new"
  by (simp_all add: fabric_new_def cuts_ok_def ends_ok_def pipes_ok_def sym_def)

section \<open>Properties\<close>

text \<open>C29: streams of the simulated network lose nothing and keep their order, as long as no connection is
made between nodes that a partition separates at that moment: what a reader has is a prefix of what was read
from the writer, and all of it once the reader is told that the stream ends; no connection that is open lies
across a partition; and a pipe hands on all that it holds, in as many turns as it has chunks, when its
deadlines have passed.\<close>

theorem sim_streams_lose_nothing:
  assumes "undivided_run es fabric_new" "pp \<in> set (fb_pipes (fabric_run es))"
  shows "prefix (pp_received pp) (pp_written pp) \<and> sorted (map fst (pp_queue pp))
    \<and> (pp_shutdown pp \<longrightarrow> pp_received pp = pp_written pp)
    \<and> (is_closed (pp_pair pp) (fabric_run es) \<or> \<not> partitioned (pp_from pp) (pp_to pp) (fabric_run es))
    \<and> (\<not> is_closed (pp_pair pp) (fabric_run es) \<and> \<not> pp_egress_done pp \<and> pp_last pp \<le> now \<longrightarrow>
        pp_received ((pipe_gives now True (fabric_run es) ^^ length (pp_queue pp)) pp) = pp_written pp)"
proof -
  let ?f = "fabric_run es"
  have ok: "cuts_ok ?f" "pipes_ok ?f"
    using undivided_run_ok [OF fabric_new_ok assms(1)] by (simp_all add: fabric_run_def)
  then have pp: "pipe_ok pp" and "joined (pp_from pp) (pp_to pp) (pp_pair pp) ?f"
    using assms(2) by (auto simp: pipes_ok_def)
  then have cut: "is_closed (pp_pair pp) ?f \<or> \<not> partitioned (pp_from pp) (pp_to pp) ?f"
    using joined_not_cut ok(1) by blast
  show ?thesis
    using pp cut pipe_gives_everything [OF pp] by (auto simp: pipe_ok_def)
qed

lemmas fabric_eval = fabric_run_def fabric_new_def bind_node_def connect_checks_def connect_pairs_def
  connect_sends_def accept_connection_def open_stream_def at_end_def at_pipe_def pipe_new_def pipe_takes_def
  pipe_gives_def partition_nodes_def heal_def partitioned_def is_closed_def fabric_delay_def track_def
  sim_end_new_def other_end_def INCOMING_QUEUE_def Let_def

text \<open>Two nodes, a connection and a stream on it: of three bytes two have come out.\<close>

definition calm_example :: "fabric_event list" where
  "calm_example = [Bind ''x'' ''ax'', Bind ''y'' ''ay'', Connect 0 ''ay'' ''y'', Pairs 0 ''y'' 1, Sends 0 0 1, Accept 1,
     OpenStream 0 0, Takes 0 0 [1, 2] 0, Gives 1000000 True 0, Takes 1000000 0 [3] 0]"

theorem sim_streams_lose_nothing_witness:
  "\<exists>pp\<in>set (fb_pipes (fabric_run calm_example)). pp_received pp = [1, 2]
     \<and> prefix (pp_received pp) (pp_written pp) \<and> pp_written pp = [1, 2, 3]
     \<and> pp_received ((pipe_gives 2000000 True (fabric_run calm_example) ^^ length (pp_queue pp)) pp) = pp_written pp"
proof -
  let ?f = "fabric_run calm_example"
  have calm: "undivided_run calm_example fabric_new" by (simp add: calm_example_def fabric_eval)
  have pp: "fb_pipes ?f ! 0 \<in> set (fb_pipes ?f)" by (simp add: calm_example_def fabric_eval)
  have "pp_received (fb_pipes ?f ! 0) = [1, 2] \<and> pp_written (fb_pipes ?f ! 0) = [1, 2, 3]
      \<and> \<not> is_closed (pp_pair (fb_pipes ?f ! 0)) ?f \<and> \<not> pp_egress_done (fb_pipes ?f ! 0)
      \<and> pp_last (fb_pipes ?f ! 0) \<le> 2000000"
    by (simp add: calm_example_def fabric_eval)
  then show ?thesis
    using sim_streams_lose_nothing [OF calm pp, of 2000000] pp by blast
qed

text \<open>
  A partition that falls while a node dials does not cut the connection that comes of it: what is sent on it
  before the network heals is lost, and what is sent afterwards arrives.
\<close>

definition dial_across_a_partition :: "byte list \<Rightarrow> byte list \<Rightarrow> fabric_event list" where
  "dial_across_a_partition lost kept = [Bind ''x'' ''ax'', Bind ''y'' ''ay'', Connect 0 ''ay'' ''y'',
     Partition [''x''] [''y''], Pairs 0 ''y'' 1, Sends 0 0 1, Accept 1, OpenStream 0 0, Takes 0 0 lost 0,
     Gives 1000000 True 0, Heal, Takes 1000000 0 kept 0, Gives 2000000 True 0]"

theorem dial_across_a_falling_partition_loses_bytes:
  assumes "lost \<noteq> []" "kept \<noteq> []"
  shows "fb_closed (fabric_run (dial_across_a_partition lost kept)) = {}
    \<and> pp_written (fb_pipes (fabric_run (dial_across_a_partition lost kept)) ! 0) = lost @ kept
    \<and> pp_received (fb_pipes (fabric_run (dial_across_a_partition lost kept)) ! 0) = kept"
  using assms by (simp add: dial_across_a_partition_def fabric_eval)

end
