(* ===== verification/Supervisor_Source.thy ===== *)
theory Supervisor_Source
  imports One_For_One
begin

text \<open>
  Where a supervisor's children come from: its blueprint (supervisor/src/actor/blueprint.rs) and a source of
  specifications that may change while it runs (supervisor/src/source.rs), which a supervisor loads when it
  starts and whose events it handles in its loop. What it supervises refines what the source holds.
\<close>

section \<open>The source in memory\<close>

text \<open>
  The notification is a permit that wakes the one who waits for the next event; \<open>src_waiting\<close>: there is
  one who waits.
\<close>

record memory_source =
  src_children :: "(name \<times> child_spec) list"
  src_events :: "source_event list"
  src_permit :: bool
  src_waiting :: bool

definition source_new :: memory_source where
  "source_new = \<lparr>src_children = [], src_events = [], src_permit = False, src_waiting = False\<rparr>"

definition notify_one :: "memory_source \<Rightarrow> memory_source" where
  "notify_one s = (if src_waiting s then s\<lparr>src_waiting := False\<rparr> else s\<lparr>src_permit := True\<rparr>)"

definition source_add :: "child_spec \<Rightarrow> memory_source \<Rightarrow> (duplicate_name_error + unit) \<times> memory_source" where
  "source_add sp s =
     (if map_of (src_children s) (spec_name sp) \<noteq> None then (Inl (DuplicateNameError (spec_name sp)), s)
      else (Inr (), notify_one (s\<lparr>src_children := imap_insert (spec_name sp) sp (src_children s),
        src_events := src_events s @ [Added sp]\<rparr>)))"

definition source_remove :: "name \<Rightarrow> memory_source \<Rightarrow> child_spec option \<times> memory_source" where
  "source_remove n s =
     (case imap_shift_remove n (src_children s) of
        (None, _) \<Rightarrow> (None, s)
      | (Some sp, cs) \<Rightarrow>
          (Some sp, notify_one (s\<lparr>src_children := cs, src_events := src_events s @ [Removed n]\<rparr>)))"

definition source_read_all :: "memory_source \<Rightarrow> child_spec list" where
  "source_read_all s = map snd (src_children s)"

definition source_get :: "name \<Rightarrow> memory_source \<Rightarrow> child_spec option" where
  "source_get n s = map_of (src_children s) n"

definition source_len :: "memory_source \<Rightarrow> nat" where
  "source_len s = length (src_children s)"

definition source_load_all :: "memory_source \<Rightarrow> child_spec list \<times> memory_source" where
  "source_load_all s = (map snd (src_children s), s\<lparr>src_events := []\<rparr>)"

text \<open>
  One poll of \<open>next\<close>. A permit that is there wakes it once more, to find nothing new; a future that is
  dropped while it waits waits no more.
\<close>

definition source_next :: "memory_source \<Rightarrow> source_event poll \<times> memory_source" where
  "source_next s =
     (case src_events s of
        e # es \<Rightarrow> (Ready e, s\<lparr>src_events := es, src_waiting := False\<rparr>)
      | [] \<Rightarrow> (Pending, s\<lparr>src_permit := False, src_waiting := True\<rparr>))"

section \<open>The blueprint\<close>

record blueprint =
  bp_supervisees :: "(name \<times> child_spec) list"
  bp_strategy :: supervision_strategy
  bp_intensity :: "restart_intensity option"
  bp_source :: "memory_source option"

definition blueprint_new :: blueprint where
  "blueprint_new = \<lparr>bp_supervisees = [], bp_strategy = OneForOne, bp_intensity = None, bp_source = None\<rparr>"

definition bp_child :: "child_spec \<Rightarrow> blueprint \<Rightarrow> blueprint" where
  "bp_child sp bp = bp\<lparr>bp_supervisees := imap_insert (spec_name sp) sp (bp_supervisees bp)\<rparr>"

definition bp_children :: "child_spec list \<Rightarrow> blueprint \<Rightarrow> blueprint" where
  "bp_children sps bp = fold bp_child sps bp"

definition fallback_restart_intensity :: "blueprint \<Rightarrow> restart_intensity" where
  "fallback_restart_intensity bp =
     (case bp_strategy bp of
        OneForOne \<Rightarrow>
          intensity_new (if length (bp_supervisees bp) * 2 < 2 ^ 16
            then word_of_nat (length (bp_supervisees bp) * 2) else - 1) (minutes 5)
      | OneForAll \<Rightarrow> intensity_default
      | RestForOne \<Rightarrow> intensity_default)"

definition blueprint_intensity :: "blueprint \<Rightarrow> restart_intensity" where
  "blueprint_intensity bp = (case bp_intensity bp of Some ri \<Rightarrow> ri | None \<Rightarrow> fallback_restart_intensity bp)"

text \<open>The supervisor that it makes, in the inbox it is given.\<close>

definition instantiate :: "(nat list \<Rightarrow> nat) \<Rightarrow> unit inbox \<Rightarrow> blueprint \<Rightarrow> supervisor_inner" where
  "instantiate a ib bp = \<lparr>kids = sm_new a (map snd (bp_supervisees bp)), ibox = ib,
     inner_restarter = limiter_new (blueprint_intensity bp)\<rparr>"

section \<open>A supervisor and its source\<close>

text \<open>The beginning of \<open>SupervisorInner::run\<close>, with a source.\<close>

definition load_source ::
    "memory_source \<Rightarrow> supervisor_inner \<Rightarrow> memory_source \<times> supervisor_inner \<times> (duplicate_name_error + unit)" where
  "load_source src si = (let (sps, src) = source_load_all src in (src, inner_prepare sps si))"

text \<open>Then the program changes the source, and the supervisor takes its events, in any order.\<close>

datatype source_step = SourceAdds child_spec | SourceRemoves name | SupervisorTakes instant

fun source_turn :: "source_step \<Rightarrow> memory_source \<times> one_for_one \<Rightarrow> (memory_source \<times> one_for_one) option" where
  "source_turn (SourceAdds sp) (src, s) = Some (snd (source_add sp src), s)"
| "source_turn (SourceRemoves n) (src, s) = Some (snd (source_remove n src), s)"
| "source_turn (SupervisorTakes now) (src, s) =
     (case source_next src of
        (Ready e, src') \<Rightarrow>
          map_option (\<lambda>(s', _). (src', s')) (handle_next OneForOneStrategy now (NextSource e) s)
      | (Pending, src') \<Rightarrow> Some (src', s))"

fun source_run :: "source_step list \<Rightarrow> memory_source \<times> one_for_one \<Rightarrow> (memory_source \<times> one_for_one) option" where
  "source_run [] w = Some w"
| "source_run (x # xs) w = Option.bind (source_turn x w) (source_run xs)"

section \<open>What it refines\<close>

text \<open>
  The entries of a source are under their names, and nobody waits for an event while there is one.
\<close>

definition source_wf :: "memory_source \<Rightarrow> bool" where
  "source_wf s \<longleftrightarrow> distinct (map fst (src_children s)) \<and> (\<forall>(n, sp)\<in>set (src_children s). spec_name sp = n)
     \<and> (src_waiting s \<longrightarrow> src_events s = [])"

text \<open>A supervisor's children as the map of their specifications, and what an event does to such a map.\<close>

definition specs_of :: "supervisor_inner \<Rightarrow> name \<Rightarrow> child_spec option" where
  "specs_of si n = map_option spec (child_of si n)"

fun apply_event :: "source_event \<Rightarrow> (name \<Rightarrow> child_spec option) \<Rightarrow> (name \<Rightarrow> child_spec option)" where
  "apply_event (Added sp) m = (if m (spec_name sp) = None then m(spec_name sp \<mapsto> sp) else m)"
| "apply_event (Removed n) m = m(n := None)"

lemma spec_start [simp]: "spec (fst (start sv)) = spec sv"
  by (simp add: start_def split: supervisee_state.splits)

lemma specs_of_sm: "specs_of si n = map_option spec (sm_get (kids si) n)"
  by (simp add: specs_of_def child_of_def)

lemma inner_add_spec_applies:
  assumes "inner_wf si" "\<not> inner_is_exiting si"
  shows "\<exists>si' r. inner_add_spec sp si = Some (si', r) \<and> inner_wf si' \<and> \<not> inner_is_exiting si'
    \<and> specs_of si' = apply_event (Added sp) (specs_of si)"
proof -
  have wf: "sm_wf (kids si)" using assms(1) by (simp add: inner_wf_def)
  obtain si' r where a: "inner_add_spec sp si = Some (si', r)" "inner_wf si'" "ibox si' = ibox si"
    using inner_add_spec_total [OF assms(1), of sp] by metis
  have "specs_of si' = apply_event (Added sp) (specs_of si)"
  proof (cases "sm_get (kids si) (spec_name sp)")
    case (Some sv)
    then show ?thesis
      using a(1) assms wf by (auto simp: inner_add_spec_def sm_add_def sm_get_None_iff [symmetric] specs_of_sm)
  next
    case None
    let ?sm = "put_supervisee (supervisee_new sp) (kids si)"
    have get: "sm_get (fst (sm_modify (spec_name sp) start ?sm)) k =
        (if k = spec_name sp then Some (fst (start (supervisee_new sp))) else sm_get (kids si) k)" for k
      using wf by (simp add: sm_get_modify sm_wf_put sm_get_put)
    have "kids si' = fst (sm_modify (spec_name sp) start ?sm)"
      using a(1) assms(2) None wf
      by (auto simp: inner_add_spec_def sm_add_def sm_get_None_iff split: prod.splits option.splits sum.splits)
    then show ?thesis using get None by (auto simp: specs_of_sm)
  qed
  then show ?thesis using a assms(2) by (auto simp: inner_is_exiting_def)
qed

lemma inner_remove_spec_applies:
  assumes "inner_wf si"
  shows "specs_of (si\<lparr>kids := fst (sm_remove n (kids si))\<rparr>) = apply_event (Removed n) (specs_of si)"
  using kids_removed(2) [OF assms, of n] by (auto simp: specs_of_def)

text \<open>One event of the source, handled by the loop.\<close>

lemma handle_source_applies:
  assumes "inner_wf (o_inner s)" "\<not> inner_is_exiting (o_inner s)"
  shows "\<exists>s' r. handle_next OneForOneStrategy now (NextSource e) s = Some (s', r)
    \<and> inner_wf (o_inner s') \<and> \<not> inner_is_exiting (o_inner s')
    \<and> specs_of (o_inner s') = apply_event e (specs_of (o_inner s))"
proof (cases e)
  case (Added sp)
  then show ?thesis
    using inner_add_spec_applies [OF assms, of sp]
    by (fastforce simp: strategy_add_spec_def OneForOneStrategy_def)
next
  case (Removed n)
  have "o_inner (fst (ofo_remove_spec n s)) = (o_inner s)\<lparr>kids := fst (sm_remove n (kids (o_inner s)))\<rparr>"
    by (simp add: ofo_remove_spec_def inner_remove_spec_eq [OF assms(1)])
  then show ?thesis
    using Removed assms kids_removed(1,3) [OF assms(1), of n] inner_remove_spec_applies [OF assms(1), of n]
    by (cases "ofo_remove_spec n s") (simp add: OneForOneStrategy_def)
qed

text \<open>Loading.\<close>

lemma sm_add_applies:
  assumes wf: "inner_wf si" and new: "specs_of si (spec_name sp) = None"
  defines "si' \<equiv> si\<lparr>kids := fst (sm_add (supervisee_new sp) (kids si))\<rparr>"
  shows "snd (sm_add (supervisee_new sp) (kids si)) = Inr ()" "inner_wf si'" "ibox si' = ibox si"
    "specs_of si' = (specs_of si)(spec_name sp \<mapsto> sp)" "all_dead si \<Longrightarrow> all_dead si'"
proof -
  have k: "sm_wf (kids si)" using wf by (simp add: inner_wf_def)
  have get: "sm_get (kids si') k =
      (if k = spec_name sp then Some (supervisee_new sp) else sm_get (kids si) k)" for k
    using new sm_get_add [OF k, of "supervisee_new sp"] by (auto simp: si'_def specs_of_sm)
  show "snd (sm_add (supervisee_new sp) (kids si)) = Inr ()"
    using new k by (simp add: sm_add_def specs_of_sm sm_get_None_iff [symmetric])
  show "inner_wf si'" "ibox si' = ibox si" using wf by (simp_all add: si'_def inner_wf_def sm_wf_add)
  show "specs_of si' = (specs_of si)(spec_name sp \<mapsto> sp)" using get by (auto simp: specs_of_sm)
  show "all_dead si'" if "all_dead si"
    using get that by (auto simp: all_dead_def child_of_def supervisee_new_def)
qed

definition named :: "child_spec list \<Rightarrow> (name \<times> child_spec) list" where
  "named sps = map (\<lambda>sp. (spec_name sp, sp)) sps"

lemma load_specs_ok:
  assumes "inner_wf si" "distinct (map spec_name sps)" "\<forall>sp\<in>set sps. specs_of si (spec_name sp) = None"
  shows "\<exists>si'. load_specs sps si = (si', Inr ()) \<and> inner_wf si' \<and> ibox si' = ibox si
    \<and> specs_of si' = specs_of si ++ map_of (named sps) \<and> (all_dead si \<longrightarrow> all_dead si')"
  using assms
proof (induction sps arbitrary: si)
  case Nil
  then show ?case by (simp add: named_def)
next
  case (Cons sp sps)
  let ?si = "si\<lparr>kids := fst (sm_add (supervisee_new sp) (kids si))\<rparr>"
  have new: "specs_of si (spec_name sp) = None" using Cons.prems(3) by simp
  note a = sm_add_applies [OF Cons.prems(1) new]
  have "\<forall>x\<in>set sps. specs_of ?si (spec_name x) = None"
  proof
    fix x assume x: "x \<in> set sps"
    then have "spec_name x \<noteq> spec_name sp" using Cons.prems(2) by (auto simp: rev_image_eqI)
    then show "specs_of ?si (spec_name x) = None" unfolding a(4) using Cons.prems(3) x by simp
  qed
  from Cons.IH [OF a(2) _ this] obtain si' where si': "load_specs sps ?si = (si', Inr ())" "inner_wf si'"
    "ibox si' = ibox ?si" "specs_of si' = specs_of ?si ++ map_of (named sps)" "all_dead ?si \<longrightarrow> all_dead si'"
    using Cons.prems(2) by auto
  have "map_of (named sps) (spec_name sp) = None"
    using Cons.prems(2) by (auto simp: named_def map_of_eq_None_iff)
  then have "specs_of si' = specs_of si ++ map_of (named (sp # sps))"
    using si'(4) a(4) by (auto simp: named_def map_add_def fun_eq_iff split: option.splits)
  moreover have "load_specs (sp # sps) si = (si', Inr ())"
    using si'(1) a(1) by (cases "sm_add (supervisee_new sp) (kids si)") simp
  ultimately show ?case using si' a(3,5) by auto
qed

lemma load_specs_clash:
  assumes "inner_wf si" "\<exists>sp\<in>set sps. specs_of si (spec_name sp) \<noteq> None"
  shows "isl (snd (load_specs sps si))"
  using assms
proof (induction sps arbitrary: si)
  case (Cons sp sps)
  show ?case
  proof (cases "specs_of si (spec_name sp)")
    case None
    note a = sm_add_applies [OF Cons.prems(1) None]
    have "isl (snd (load_specs sps (si\<lparr>kids := fst (sm_add (supervisee_new sp) (kids si))\<rparr>)))"
      using Cons.prems(2) None a(4) by (intro Cons.IH [OF a(2)]) auto
    then show ?thesis using a(1) by (cases "sm_add (supervisee_new sp) (kids si)") simp
  next
    case (Some sp')
    then have "token_of (spec_name sp) (kids si) \<noteq> None"
      using Cons.prems(1) by (auto simp: specs_of_sm inner_wf_def sm_get_None_iff [symmetric])
    then show ?thesis by (simp add: sm_add_def sv_name_def)
  qed
qed simp

lemma inner_prepared:
  fixes si
  defines "si' \<equiv> si\<lparr>ibox := fst (set_manual_init (ibox si))\<rparr>"
  shows "inner_wf si' = inner_wf si" "inner_is_exiting si' = inner_is_exiting si" "all_dead si' = all_dead si"
    "specs_of si' = specs_of si"
  by (simp_all add: si'_def inner_wf_def inner_is_exiting_def all_dead_def child_of_def specs_of_sm fun_eq_iff
      set_manual_init_def)

lemma source_wf_named: "source_wf s \<Longrightarrow> named (map snd (src_children s)) = src_children s"
  by (auto simp: source_wf_def named_def intro!: map_idI)

lemma source_wf_distinct: "source_wf s \<Longrightarrow> distinct (map spec_name (map snd (src_children s)))"
proof -
  assume s: "source_wf s"
  then have eq: "map spec_name (map snd (src_children s)) = map fst (src_children s)"
    by (auto simp: source_wf_def)
  show ?thesis unfolding eq using s by (simp add: source_wf_def)
qed

text \<open>Running.\<close>

definition in_step :: "(name \<Rightarrow> child_spec option) \<Rightarrow> memory_source \<Rightarrow> one_for_one \<Rightarrow> bool" where
  "in_step static src s \<longleftrightarrow> source_wf src \<and> inner_wf (o_inner s) \<and> \<not> inner_is_exiting (o_inner s)
     \<and> fold apply_event (src_events src) (specs_of (o_inner s)) = static ++ map_of (src_children src)
     \<and> (\<forall>n. static n \<noteq> None \<longrightarrow> map_of (src_children src) n = None)"

lemma notify_one_simps [simp]:
  "src_children (notify_one s) = src_children s" "src_events (notify_one s) = src_events s"
  "src_waiting (notify_one s) = False"
  by (simp_all add: notify_one_def)

lemma imap_insert_new: "map_of m k = None \<Longrightarrow> imap_insert k v m = m @ [(k, v)]"
  by (induction m) (auto split: if_splits)

lemma in_step_add:
  assumes f: "in_step static src s" and n: "static (spec_name sp) = None"
  shows "in_step static (snd (source_add sp src)) s"
proof (cases "map_of (src_children src) (spec_name sp)")
  case None
  then have "apply_event (Added sp) (static ++ map_of (src_children src)) =
      static ++ map_of (imap_insert (spec_name sp) sp (src_children src))"
    using n by (auto simp: fun_eq_iff map_add_def)
  moreover have "\<forall>(k, x)\<in>set (imap_insert (spec_name sp) sp (src_children src)). spec_name x = k"
    using f None by (auto simp: in_step_def source_wf_def imap_insert_new)
  ultimately show ?thesis
    using f n None by (auto simp: in_step_def source_wf_def source_add_def)
next
  case (Some sp')
  then show ?thesis using f by (simp add: source_add_def)
qed

lemma in_step_remove:
  assumes f: "in_step static src s"
  shows "in_step static (snd (source_remove n src)) s"
proof (cases "map_of (src_children src) n")
  case None
  then show ?thesis using f by (simp add: source_remove_def imap_shift_remove_def)
next
  case (Some sp)
  let ?cs = "snd (imap_shift_remove n (src_children src))"
  have cs: "map_of ?cs = (map_of (src_children src))(n := None)"
    by (auto simp: imap_shift_remove_def map_of_filter_ne)
  have "static n = None" using f Some by (cases "static n") (auto simp: in_step_def)
  then have "apply_event (Removed n) (static ++ map_of (src_children src)) = static ++ map_of ?cs"
    by (auto simp: cs fun_eq_iff map_add_def)
  moreover have "\<forall>(k, x)\<in>set ?cs. spec_name x = k"
    using f by (auto simp: imap_shift_remove_def in_step_def source_wf_def)
  moreover have "source_remove n src =
      (Some sp, notify_one (src\<lparr>src_children := ?cs, src_events := src_events src @ [Removed n]\<rparr>))"
    using Some by (simp add: source_remove_def imap_shift_remove_def)
  ultimately show ?thesis using f cs by (auto simp: in_step_def source_wf_def)
qed

lemma in_step_take:
  assumes "in_step static src s"
  shows "\<exists>src' s'. source_turn (SupervisorTakes now) (src, s) = Some (src', s') \<and> in_step static src' s'"
proof (cases "src_events src")
  case Nil
  then show ?thesis using assms by (auto simp: source_next_def in_step_def source_wf_def)
next
  case (Cons e es)
  have "inner_wf (o_inner s)" "\<not> inner_is_exiting (o_inner s)" using assms by (auto simp: in_step_def)
  from handle_source_applies [OF this, of now e] obtain s' r where
    "handle_next OneForOneStrategy now (NextSource e) s = Some (s', r)" "inner_wf (o_inner s')"
    "\<not> inner_is_exiting (o_inner s')" "specs_of (o_inner s') = apply_event e (specs_of (o_inner s))"
    by blast
  then show ?thesis using assms Cons by (auto simp: source_next_def in_step_def source_wf_def)
qed

lemma in_step_run:
  assumes "in_step static src s" "\<forall>sp. SourceAdds sp \<in> set xs \<longrightarrow> static (spec_name sp) = None"
  shows "\<exists>src' s'. source_run xs (src, s) = Some (src', s') \<and> in_step static src' s'"
  using assms
proof (induction xs arbitrary: src s)
  case (Cons x xs)
  have "\<exists>src' s'. source_turn x (src, s) = Some (src', s') \<and> in_step static src' s'"
  proof (cases x)
    case (SupervisorTakes now)
    then show ?thesis using in_step_take [OF Cons.prems(1)] by simp
  qed (use Cons.prems in \<open>auto intro: in_step_add in_step_remove\<close>)
  then show ?case using Cons.IH Cons.prems(2) by fastforce
qed simp

section \<open>Properties\<close>



text \<open>With a name in both, the supervisor does not start.\<close>

theorem clashing_source_stops_the_start:
  assumes "inner_wf si" "source_wf src" "specs_of si n \<noteq> None" "source_get n src \<noteq> None"
  shows "isl (snd (snd (load_source src si)))"
proof -
  obtain sp where sp: "(n, sp) \<in> set (src_children src)"
    using assms(4) by (auto simp: source_get_def dest: map_of_SomeD)
  then have "spec_name sp = n" using assms(2) by (auto simp: source_wf_def)
  then have "\<exists>sp\<in>set (map snd (src_children src)). specs_of si (spec_name sp) \<noteq> None"
    using sp assms(3) by force
  then show ?thesis
    using load_specs_clash [of "si\<lparr>ibox := fst (set_manual_init (ibox si))\<rparr>"] assms(1)
    by (simp add: load_source_def source_load_all_def inner_prepare_def inner_prepared)
qed

theorem clashing_source_stops_the_start_witness:
  "isl (snd (snd (load_source (snd (source_add (example_spec ''a'' Never) source_new))
     (example_inner [example_spec ''a'' Always] Initializing))))"
proof (rule clashing_source_stops_the_start [where n = "''a''"])
  show "inner_wf (example_inner [example_spec ''a'' Always] Initializing)" by (simp add: inner_wf_example)
  show "source_wf (snd (source_add (example_spec ''a'' Never) source_new))"
    by (simp add: source_wf_def source_add_def source_new_def notify_one_def example_spec_def)
  show "specs_of (example_inner [example_spec ''a'' Always] Initializing) ''a'' \<noteq> None" by code_simp
  show "source_get ''a'' (snd (source_add (example_spec ''a'' Never) source_new)) \<noteq> None" by code_simp
qed

text \<open>
  A name that the source adds while it is static, or registered by a message, is refused; but when the
  source removes it again the supervisor drops the other child.
\<close>

theorem source_removes_a_child_it_does_not_have:
  assumes "inner_wf (o_inner s)" "\<not> inner_is_exiting (o_inner s)" "src_events src = []"
    and "child_of (o_inner s) (spec_name sp) \<noteq> None" "source_get (spec_name sp) src = None"
  shows "\<exists>src' s'. source_run [SourceAdds sp, SupervisorTakes t, SourceRemoves (spec_name sp), SupervisorTakes t'] (src, s) =
      Some (src', s') \<and> child_of (o_inner s') (spec_name sp) = None"
proof -
  obtain s1 r1 where s1: "handle_next OneForOneStrategy t (NextSource (Added sp)) s = Some (s1, r1)"
    "inner_wf (o_inner s1)" "\<not> inner_is_exiting (o_inner s1)"
    using handle_source_applies [OF assms(1,2)] by blast
  obtain s2 r2 where s2: "handle_next OneForOneStrategy t' (NextSource (Removed (spec_name sp))) s1 = Some (s2, r2)"
    "specs_of (o_inner s2) = (specs_of (o_inner s1))(spec_name sp := None)"
    using handle_source_applies [OF s1(2,3), of t' "Removed (spec_name sp)"] by auto
  have "child_of (o_inner s2) (spec_name sp) = None"
    using fun_cong [OF s2(2), of "spec_name sp"] by (simp add: specs_of_def)
  moreover have "\<exists>src'. source_run [SourceAdds sp, SupervisorTakes t, SourceRemoves (spec_name sp), SupervisorTakes t'] (src, s)
      = Some (src', s2)"
    using s1(1) s2(1) assms(3,5)
    by (simp add: source_add_def source_remove_def source_get_def source_next_def imap_shift_remove_def
        del: handle_next.simps)
  ultimately show ?thesis by blast
qed

text \<open>
  A blueprint has one specification per name, the last one given. The fallback for a one-for-one
  supervisor counts its static children only: with none, all its children coming from a source or from
  messages, it never permits a restart, and so the first child that fails takes it down.
\<close>

theorem fallback_forbids_restarts_of_sourced_children:
  assumes "bp_supervisees bp = []" "bp_strategy bp = OneForOne" "bp_intensity bp = None"
  shows "snd (inner_acquire_permit now (instantiate a ib bp)) = False"
  using assms
  by (simp add: inner_acquire_permit_def instantiate_def blueprint_intensity_def fallback_restart_intensity_def
      limiter_new_def acquire_permit_def allow_restart_def unlimited_def intensity_new_def)

end
