(* ===== verification/Node_Run.thy ===== *)
theory Node_Run
  imports Supervisee
begin

text \<open>
  The owning handle of a task as a future, and the two ways to shut it down within a time
  (runtime/src/references/child.rs), which supervisors use on their children; and a program that runs one root
  supervisor until it exits or is told to stop (supervisor/src/node.rs).

  A future is a state and a poll at a moment. \<open>None\<close> is a panic.
\<close>

section \<open>The child\<close>

text \<open>The task's part is its result, once it has ended, and whether it was told to shut down or to abort.\<close>

record 'e owned_child =
  oc_join :: bool \<comment> \<open>the handle of the task has not been taken out\<close>
  oc_attached :: bool
  oc_result :: "(join_error + 'e) option"
  oc_signalled :: bool
  oc_abort :: bool

definition owned_child_new :: "'e owned_child" where
  "owned_child_new = \<lparr>oc_join = True, oc_attached = True, oc_result = None, oc_signalled = False, oc_abort = False\<rparr>"

text \<open>An abort of a task that has ended does nothing.\<close>

definition task_abort :: "'e owned_child \<Rightarrow> 'e owned_child" where
  "task_abort c = (if oc_result c = None then c\<lparr>oc_abort := True\<rparr> else c)"

definition child_abort :: "'e owned_child \<Rightarrow> 'e owned_child option" where
  "child_abort c = (if oc_join c then Some (task_abort c) else None)"

definition child_poll :: "'e owned_child \<Rightarrow> ((join_error + 'e) poll \<times> 'e owned_child) option" where
  "child_poll c =
     (if \<not> oc_join c then None
      else case oc_result c of
        Some r \<Rightarrow> Some (Ready r, c\<lparr>oc_join := False\<rparr>)
      | None \<Rightarrow> Some (Pending, c))"

definition child_drop :: "'e owned_child \<Rightarrow> 'e owned_child" where
  "child_drop c = (if oc_attached c \<and> oc_join c then task_abort c else c)"

definition child_ends :: "(join_error + 'e) \<Rightarrow> 'e owned_child \<Rightarrow> 'e owned_child" where
  "child_ends r c = (if oc_result c = None then c\<lparr>oc_result := Some r\<rparr> else c)"

section \<open>Shutting it down\<close>

record 'e shutdown_child =
  sc_child :: "'e owned_child"
  sc_abort_after :: instant

definition shutdown_child_new :: "instant \<Rightarrow> duration \<Rightarrow> 'e owned_child \<Rightarrow> 'e shutdown_child" where
  "shutdown_child_new now d c = \<lparr>sc_child = c\<lparr>oc_signalled := True\<rparr>, sc_abort_after = now + d\<rparr>"

definition shutdown_child_poll ::
    "instant \<Rightarrow> 'e shutdown_child \<Rightarrow> ((join_error + 'e) poll \<times> 'e shutdown_child) option" where
  "shutdown_child_poll now sc =
     (case child_poll (sc_child sc) of
        None \<Rightarrow> None
      | Some (Ready r, c) \<Rightarrow> Some (Ready r, sc\<lparr>sc_child := c\<rparr>)
      | Some (Pending, c) \<Rightarrow>
          if now < sc_abort_after sc then Some (Pending, sc\<lparr>sc_child := c\<rparr>)
          else (case Option.bind (child_abort c) child_poll of
              None \<Rightarrow> None
            | Some (r, c) \<Rightarrow> Some (r, sc\<lparr>sc_child := c\<rparr>)))"

record shutdown_abort_error =
  sa_aborted :: bool
  sa_timeout :: duration
  sa_error :: join_error

definition into_join_abort :: "bool \<Rightarrow> duration \<Rightarrow> join_error \<Rightarrow> shutdown_abort_error" where
  "into_join_abort aborted d e = \<lparr>sa_aborted = aborted, sa_timeout = d, sa_error = e\<rparr>"

text \<open>Such an error as the bare \<open>JoinError\<close>, in a result.\<close>

definition bare_error :: "(shutdown_abort_error + 'e) \<Rightarrow> (join_error + 'e)" where
  "bare_error r = map_sum sa_error id r"

text \<open>
  The future of \<open>shutdown_abort\<close> does nothing until it is polled; then it waits until a deadline, and after
  it for the aborted task.
\<close>

datatype shutdown_phase = NotPolled | WaitsUntil instant | Aborts

record 'e shutdown_abort =
  sa_child :: "'e owned_child"
  sa_phase :: shutdown_phase
  sa_within :: duration

definition shutdown_abort_new :: "duration \<Rightarrow> 'e owned_child \<Rightarrow> 'e shutdown_abort" where
  "shutdown_abort_new d c = \<lparr>sa_child = c, sa_phase = NotPolled, sa_within = d\<rparr>"

definition poll_aborted ::
    "'e owned_child \<Rightarrow> duration \<Rightarrow> ((shutdown_abort_error + 'e) poll \<times> 'e shutdown_abort) option" where
  "poll_aborted c d =
     (case child_poll c of
        None \<Rightarrow> None
      | Some (Pending, c) \<Rightarrow> Some (Pending, \<lparr>sa_child = c, sa_phase = Aborts, sa_within = d\<rparr>)
      | Some (Ready r, c) \<Rightarrow>
          Some (Ready (map_sum (into_join_abort True d) id r), \<lparr>sa_child = c, sa_phase = Aborts, sa_within = d\<rparr>))"

definition poll_waiting ::
    "instant \<Rightarrow> instant \<Rightarrow> 'e owned_child \<Rightarrow> duration \<Rightarrow>
     ((shutdown_abort_error + 'e) poll \<times> 'e shutdown_abort) option" where
  "poll_waiting now deadline c d =
     (let waits = (\<lambda>c. \<lparr>sa_child = c, sa_phase = WaitsUntil deadline, sa_within = d\<rparr>) in
      case child_poll c of
        None \<Rightarrow> None
      | Some (Ready r, c) \<Rightarrow> Some (Ready (map_sum (into_join_abort False d) id r), waits c)
      | Some (Pending, c) \<Rightarrow>
          if now < deadline then Some (Pending, waits c)
          else Option.bind (child_abort c) (\<lambda>c. poll_aborted c d))"

definition shutdown_abort_poll ::
    "instant \<Rightarrow> 'e shutdown_abort \<Rightarrow> ((shutdown_abort_error + 'e) poll \<times> 'e shutdown_abort) option" where
  "shutdown_abort_poll now sa =
     (case sa_phase sa of
        NotPolled \<Rightarrow> poll_waiting now (now + sa_within sa) ((sa_child sa)\<lparr>oc_signalled := True\<rparr>) (sa_within sa)
      | WaitsUntil deadline \<Rightarrow> poll_waiting now deadline (sa_child sa) (sa_within sa)
      | Aborts \<Rightarrow> poll_aborted (sa_child sa) (sa_within sa))"

text \<open>Both are polled, and the task ends at some moment, in any order; a future that is ready is polled no more.\<close>

datatype 'e child_event = PolledAt instant | TaskEnds "join_error + 'e"

fun shutdown_child_run ::
    "'e child_event list \<Rightarrow> 'e shutdown_child \<Rightarrow> ((join_error + 'e) option \<times> 'e shutdown_child) option" where
  "shutdown_child_run [] sc = Some (None, sc)"
| "shutdown_child_run (TaskEnds r # es) sc =
     shutdown_child_run es (sc\<lparr>sc_child := child_ends r (sc_child sc)\<rparr>)"
| "shutdown_child_run (PolledAt now # es) sc =
     (case shutdown_child_poll now sc of
        None \<Rightarrow> None
      | Some (Ready r, sc) \<Rightarrow> Some (Some r, sc)
      | Some (Pending, sc) \<Rightarrow> shutdown_child_run es sc)"

fun shutdown_abort_run ::
    "'e child_event list \<Rightarrow> 'e shutdown_abort \<Rightarrow> ((shutdown_abort_error + 'e) option \<times> 'e shutdown_abort) option" where
  "shutdown_abort_run [] sa = Some (None, sa)"
| "shutdown_abort_run (TaskEnds r # es) sa =
     shutdown_abort_run es (sa\<lparr>sa_child := child_ends r (sa_child sa)\<rparr>)"
| "shutdown_abort_run (PolledAt now # es) sa =
     (case shutdown_abort_poll now sa of
        None \<Rightarrow> None
      | Some (Ready r, sa) \<Rightarrow> Some (Some r, sa)
      | Some (Pending, sa) \<Rightarrow> shutdown_abort_run es sa)"

section \<open>The node\<close>

datatype node_error = StartFailed start_on_error | SupervisorExited join_error
  | ShutdownFailed shutdown_abort_error | ForcedShutdown

fun exit_code :: "node_error \<Rightarrow> int" where
  "exit_code ForcedShutdown = 130"
| "exit_code (StartFailed _) = 1"
| "exit_code (SupervisorExited _) = 1"
| "exit_code (ShutdownFailed _) = 1"

text \<open>
  What a poll finds: how the start of the root supervisor went, if it is over, and what the supervisor has
  ended with, if it has already; whether the exit watcher
  and the second wait for a signal are ready; and which branch each of the two selects looks at first.
\<close>

record node_inputs =
  ni_now :: instant
  ni_started :: "(start_on_error + (join_error + unit) option) option"
  ni_watcher :: bool
  ni_second :: bool
  ni_exit_first :: bool

text \<open>A failed shutdown is reported after three seconds more.\<close>

datatype node_state = NodeStarts | NodeFailed | NodeRuns "unit owned_child" | NodeStops "unit shutdown_abort"
  | NodeSleeps instant shutdown_abort_error "unit owned_child" | NodeEnded "unit owned_child"

definition node_new :: node_state where
  "node_new = NodeStarts"

definition node_sleeps ::
    "instant \<Rightarrow> instant \<Rightarrow> shutdown_abort_error \<Rightarrow> unit owned_child \<Rightarrow> (node_error + unit) poll \<times> node_state" where
  "node_sleeps now until e c =
     (if now < until then (Pending, NodeSleeps until e c) else (Ready (Inl (ShutdownFailed e)), NodeEnded c))"

definition node_forced :: "unit shutdown_abort \<Rightarrow> (node_error + unit) poll \<times> node_state" where
  "node_forced sa = (Ready (Inl ForcedShutdown), NodeEnded (child_drop (sa_child sa)))"

definition node_stops ::
    "node_inputs \<Rightarrow> unit shutdown_abort \<Rightarrow> ((node_error + unit) poll \<times> node_state) option" where
  "node_stops i sa =
     (if ni_second i \<and> \<not> ni_exit_first i then Some (node_forced sa)
      else case shutdown_abort_poll (ni_now i) sa of
        None \<Rightarrow> None
      | Some (Ready (Inr _), sa) \<Rightarrow> Some (Ready (Inr ()), NodeEnded (sa_child sa))
      | Some (Ready (Inl e), sa) \<Rightarrow> Some (node_sleeps (ni_now i) (ni_now i + seconds 3) e (sa_child sa))
      | Some (Pending, sa) \<Rightarrow> if ni_second i then Some (node_forced sa) else Some (Pending, NodeStops sa))"

definition node_runs ::
    "duration \<Rightarrow> node_inputs \<Rightarrow> unit owned_child \<Rightarrow> ((node_error + unit) poll \<times> node_state) option" where
  "node_runs abort i c =
     (if ni_watcher i \<and> \<not> ni_exit_first i then node_stops i (shutdown_abort_new abort c)
      else case child_poll c of
        None \<Rightarrow> None
      | Some (Ready (Inr _), c) \<Rightarrow> Some (Ready (Inr ()), NodeEnded c)
      | Some (Ready (Inl e), c) \<Rightarrow> Some (Ready (Inl (SupervisorExited e)), NodeEnded c)
      | Some (Pending, c) \<Rightarrow>
          if ni_watcher i then node_stops i (shutdown_abort_new abort c) else Some (Pending, NodeRuns c))"

text \<open>A node whose supervisor did not start has no child; an ended future is polled no more.\<close>

definition node_poll ::
    "duration \<Rightarrow> node_inputs \<Rightarrow> node_state \<Rightarrow> ((node_error + unit) poll \<times> node_state) option" where
  "node_poll abort i n =
     (case n of
        NodeStarts \<Rightarrow>
          (case ni_started i of
             None \<Rightarrow> Some (Pending, NodeStarts)
           | Some (Inl e) \<Rightarrow> Some (Ready (Inl (StartFailed e)), NodeFailed)
           | Some (Inr r) \<Rightarrow> node_runs abort i (owned_child_new\<lparr>oc_result := r\<rparr>))
      | NodeRuns c \<Rightarrow> node_runs abort i c
      | NodeStops sa \<Rightarrow> node_stops i sa
      | NodeSleeps until e c \<Rightarrow> Some (node_sleeps (ni_now i) until e c)
      | NodeFailed \<Rightarrow> None
      | NodeEnded c \<Rightarrow> None)"

definition node_child :: "node_state \<Rightarrow> unit owned_child option" where
  "node_child n = (case n of
       NodeStarts \<Rightarrow> None | NodeFailed \<Rightarrow> None | NodeRuns c \<Rightarrow> Some c | NodeStops sa \<Rightarrow> Some (sa_child sa)
     | NodeSleeps _ _ c \<Rightarrow> Some c | NodeEnded c \<Rightarrow> Some c)"

fun root_ends :: "(join_error + unit) \<Rightarrow> node_state \<Rightarrow> node_state" where
  "root_ends r (NodeRuns c) = NodeRuns (child_ends r c)"
| "root_ends r (NodeStops sa) = NodeStops (sa\<lparr>sa_child := child_ends r (sa_child sa)\<rparr>)"
| "root_ends r n = n"

datatype node_event = NodePolled node_inputs | RootEnds "join_error + unit"

fun node_run ::
    "duration \<Rightarrow> node_event list \<Rightarrow> node_state \<Rightarrow> ((node_error + unit) option \<times> node_state) option" where
  "node_run abort [] n = Some (None, n)"
| "node_run abort (RootEnds r # es) n = node_run abort es (root_ends r n)"
| "node_run abort (NodePolled i # es) n =
     (case node_poll abort i n of
        None \<Rightarrow> None
      | Some (Ready r, n) \<Rightarrow> Some (Some r, n)
      | Some (Pending, n) \<Rightarrow> node_run abort es n)"

section \<open>One future\<close>

lemma child_poll_result:
  "oc_join c \<Longrightarrow> child_poll c = Some (case oc_result c of
      Some r \<Rightarrow> (Ready r, c\<lparr>oc_join := False\<rparr>) | None \<Rightarrow> (Pending, c))"
  by (auto simp: child_poll_def split: option.splits)

lemmas child_defs = child_poll_result child_abort_def task_abort_def

text \<open>
  What a poll of either future comes to: the task's result when it has one; before, nothing but an abort
  once the time is over.
\<close>

lemma shutdown_child_poll_eq:
  assumes "oc_join (sc_child sc)"
  shows "shutdown_child_poll now sc = Some (case oc_result (sc_child sc) of
      Some r \<Rightarrow> (Ready r, sc\<lparr>sc_child := (sc_child sc)\<lparr>oc_join := False\<rparr>\<rparr>)
    | None \<Rightarrow> (Pending, sc\<lparr>sc_child := (sc_child sc)\<lparr>oc_abort := oc_abort (sc_child sc) \<or> sc_abort_after sc \<le> now\<rparr>\<rparr>))"
  using assms by (cases "oc_result (sc_child sc)") (auto simp: shutdown_child_poll_def child_defs)

lemma poll_waiting_eq:
  assumes "oc_join c"
  shows "poll_waiting now t c d = Some (case oc_result c of
      Some r \<Rightarrow> (Ready (map_sum (into_join_abort False d) id r),
        \<lparr>sa_child = c\<lparr>oc_join := False\<rparr>, sa_phase = WaitsUntil t, sa_within = d\<rparr>)
    | None \<Rightarrow> (Pending, if now < t then \<lparr>sa_child = c, sa_phase = WaitsUntil t, sa_within = d\<rparr>
        else \<lparr>sa_child = c\<lparr>oc_abort := True\<rparr>, sa_phase = Aborts, sa_within = d\<rparr>))"
  using assms by (cases "oc_result c") (auto simp: poll_waiting_def poll_aborted_def child_defs)

lemma poll_aborted_eq:
  assumes "oc_join c"
  shows "poll_aborted c d = Some (case oc_result c of
      Some r \<Rightarrow> (Ready (map_sum (into_join_abort True d) id r),
        \<lparr>sa_child = c\<lparr>oc_join := False\<rparr>, sa_phase = Aborts, sa_within = d\<rparr>)
    | None \<Rightarrow> (Pending, \<lparr>sa_child = c, sa_phase = Aborts, sa_within = d\<rparr>))"
  using assms by (cases "oc_result c") (auto simp: poll_aborted_def child_defs)

section \<open>Both futures together\<close>

definition same_shutdown :: "'e shutdown_child \<Rightarrow> 'e shutdown_abort \<Rightarrow> bool" where
  "same_shutdown sc sa \<longleftrightarrow> sa_child sa = sc_child sc \<and> oc_join (sc_child sc)
     \<and> (sa_phase sa = WaitsUntil (sc_abort_after sc) \<and> \<not> oc_abort (sc_child sc)
        \<or> sa_phase sa = Aborts \<and> oc_abort (sc_child sc))"

text \<open>What holds of the two when they have run: \<open>t\<close> is the moment after which to abort.\<close>

definition shutdown_outcome ::
    "instant \<Rightarrow> duration \<Rightarrow> 'e child_event list \<Rightarrow> bool \<Rightarrow> (shutdown_abort_error + 'e) option \<Rightarrow> 'e owned_child \<Rightarrow> bool" where
  "shutdown_outcome t d es aborted r c \<longleftrightarrow>
     (\<forall>x. r = Some x \<longrightarrow> oc_result c = Some (bare_error x))
     \<and> (\<forall>e. r = Some (Inl e) \<longrightarrow> sa_timeout e = d \<and> sa_aborted e = oc_abort c)
     \<and> (oc_abort c \<longrightarrow> aborted \<or> (\<exists>now. PolledAt now \<in> set es \<and> t \<le> now))
     \<and> (\<forall>now. PolledAt now \<in> set es \<and> t \<le> now \<longrightarrow> oc_abort c \<or> oc_result c \<noteq> None)
     \<and> (aborted \<longrightarrow> oc_abort c)"

lemma bare_error_into [simp]: "bare_error (map_sum (into_join_abort b d) id r) = r"
  by (cases r) (simp_all add: into_join_abort_def bare_error_def)

lemma oc_abort_same: "oc_abort c = b \<Longrightarrow> c\<lparr>oc_abort := b\<rparr> = c"
  by (cases c) simp

lemma map_sum_into_Inl: "map_sum (into_join_abort b d) id r = Inl e \<longleftrightarrow> (\<exists>j. r = Inl j \<and> e = into_join_abort b d j)"
  by (cases r) auto

lemma shutdowns_run_alike:
  fixes sc :: "'e shutdown_child"
  assumes "same_shutdown sc sa"
  shows "\<exists>r sc' sa'. shutdown_child_run es sc = Some (map_option bare_error r, sc')
    \<and> shutdown_abort_run es sa = Some (r, sa') \<and> sa_child sa' = sc_child sc'
    \<and> oc_signalled (sc_child sc') = oc_signalled (sc_child sc)
    \<and> shutdown_outcome (sc_abort_after sc) (sa_within sa) es (oc_abort (sc_child sc)) r (sc_child sc')"
  using assms
proof (induction es arbitrary: sc sa)
  case Nil
  then show ?case by (simp add: same_shutdown_def shutdown_outcome_def)
next
  case (Cons e es)
  let ?c = "sc_child sc"
  have join: "oc_join ?c" and child: "sa_child sa = ?c" using Cons.prems by (simp_all add: same_shutdown_def)
  show ?case
  proof (cases e)
    case (TaskEnds r)
    have "same_shutdown (sc\<lparr>sc_child := child_ends r ?c\<rparr>) (sa\<lparr>sa_child := child_ends r (sa_child sa)\<rparr>)"
      using Cons.prems by (auto simp: same_shutdown_def child_ends_def)
    from Cons.IH [OF this] show ?thesis
      by (auto simp: TaskEnds child_ends_def shutdown_outcome_def split: if_splits)
  next
    case (PolledAt now)
    show ?thesis
    proof (cases "oc_result ?c")
      case (Some r)
      then show ?thesis
        using Cons.prems join child
        by (auto simp: PolledAt same_shutdown_def shutdown_child_poll_eq shutdown_abort_poll_def poll_waiting_eq
            poll_aborted_eq shutdown_outcome_def map_sum_into_Inl into_join_abort_def)
    next
      case None
      let ?c' = "?c\<lparr>oc_abort := oc_abort ?c \<or> sc_abort_after sc \<le> now\<rparr>"
      obtain sa' where sa': "shutdown_abort_poll now sa = Some (Pending, sa')" "same_shutdown (sc\<lparr>sc_child := ?c'\<rparr>) sa'"
        "sa_within sa' = sa_within sa"
      proof (rule that)
        let ?sa = "\<lparr>sa_child = ?c', sa_phase = (if oc_abort ?c' then Aborts else sa_phase sa), sa_within = sa_within sa\<rparr>"
        show "shutdown_abort_poll now sa = Some (Pending, ?sa)" "same_shutdown (sc\<lparr>sc_child := ?c'\<rparr>) ?sa"
          "sa_within ?sa = sa_within sa"
          using Cons.prems join child None oc_abort_same
          by (auto simp: same_shutdown_def shutdown_abort_poll_def poll_waiting_eq poll_aborted_eq)
      qed
      from Cons.IH [OF sa'(2)] obtain r sc'' sa'' where r:
        "shutdown_child_run es (sc\<lparr>sc_child := ?c'\<rparr>) = Some (map_option bare_error r, sc'')"
        "shutdown_abort_run es sa' = Some (r, sa'')" "sa_child sa'' = sc_child sc''"
        "oc_signalled (sc_child sc'') = oc_signalled ?c"
        "shutdown_outcome (sc_abort_after sc) (sa_within sa) es (oc_abort ?c') r (sc_child sc'')"
        using sa'(3) by auto
      then have "shutdown_outcome (sc_abort_after sc) (sa_within sa) (e # es) (oc_abort ?c) r (sc_child sc'')"
        by (auto simp: PolledAt shutdown_outcome_def)
      then show ?thesis using r None join sa'(1) by (simp add: PolledAt shutdown_child_poll_eq)
    qed
  qed
qed

section \<open>The node\<close>

definition node_ok :: "node_state \<Rightarrow> bool" where
  "node_ok n = (case n of
       NodeStarts \<Rightarrow> True
     | NodeRuns c \<Rightarrow> oc_join c \<and> oc_attached c \<and> \<not> oc_abort c \<and> \<not> oc_signalled c
     | NodeStops sa \<Rightarrow> oc_join (sa_child sa) \<and> oc_attached (sa_child sa) \<and> oc_signalled (sa_child sa)
         \<and> sa_phase sa \<noteq> NotPolled \<and> (sa_phase sa = Aborts \<longleftrightarrow> oc_abort (sa_child sa))
     | NodeSleeps until e c \<Rightarrow> oc_signalled c \<and> oc_result c = Some (Inl (sa_error e)) \<and> (sa_aborted e \<longleftrightarrow> oc_abort c)
     | NodeFailed \<Rightarrow> False
     | NodeEnded c \<Rightarrow> False)"

fun node_outcome :: "node_error + unit \<Rightarrow> unit owned_child option \<Rightarrow> bool" where
  "node_outcome (Inr _) oc = (\<exists>c. oc = Some c \<and> oc_result c = Some (Inr ()))"
| "node_outcome (Inl (StartFailed e)) oc = (oc = None)"
| "node_outcome (Inl (SupervisorExited e)) oc =
     (\<exists>c. oc = Some c \<and> oc_result c = Some (Inl e) \<and> \<not> oc_signalled c \<and> \<not> oc_abort c)"
| "node_outcome (Inl (ShutdownFailed e)) oc =
     (\<exists>c. oc = Some c \<and> oc_result c = Some (Inl (sa_error e)) \<and> oc_signalled c \<and> (sa_aborted e \<longleftrightarrow> oc_abort c))"
| "node_outcome (Inl ForcedShutdown) oc = (\<exists>c. oc = Some c \<and> (oc_result c \<noteq> None \<or> oc_abort c))"

definition node_good :: "((node_error + unit) poll \<times> node_state) option \<Rightarrow> bool" where
  "node_good x = (case x of
       None \<Rightarrow> False | Some (Ready r, n) \<Rightarrow> node_outcome r (node_child n) | Some (Pending, n) \<Rightarrow> node_ok n)"

lemma node_good_simps [simp]:
  "node_good (Some (Ready r, n)) = node_outcome r (node_child n)" "node_good (Some (Pending, n)) = node_ok n"
  by (simp_all add: node_good_def)

lemmas node_defs = node_good_def node_ok_def node_child_def

lemma node_forced_good: "oc_join (sa_child sa) \<Longrightarrow> oc_attached (sa_child sa) \<Longrightarrow> node_good (Some (node_forced sa))"
  by (auto simp: node_forced_def child_drop_def task_abort_def node_child_def)

lemma node_sleeps_good: "node_ok (NodeSleeps until e c) \<Longrightarrow> node_good (Some (node_sleeps now until e c))"
  by (auto simp: node_sleeps_def node_defs)

text \<open>A poll of the future that shuts the supervisor down.\<close>

lemma shutdown_abort_poll_node:
  assumes "oc_join (sa_child sa)" "oc_attached (sa_child sa)" "sa_phase sa \<noteq> NotPolled \<longrightarrow> oc_signalled (sa_child sa)"
    "sa_phase sa = Aborts \<longleftrightarrow> oc_abort (sa_child sa)"
  shows "\<exists>r sa'. shutdown_abort_poll now sa = Some (r, sa') \<and> (case r of
      Pending \<Rightarrow> node_ok (NodeStops sa')
    | Ready (Inr _) \<Rightarrow> oc_result (sa_child sa') = Some (Inr ())
    | Ready (Inl e) \<Rightarrow> node_ok (NodeSleeps until e (sa_child sa')))"
  using assms
  by (cases "oc_result (sa_child sa)"; cases "sa_phase sa"; cases "the (oc_result (sa_child sa))")
     (auto simp: shutdown_abort_poll_def poll_waiting_eq poll_aborted_eq node_ok_def into_join_abort_def)

lemma node_stops_good:
  assumes "oc_join (sa_child sa)" "oc_attached (sa_child sa)" "sa_phase sa \<noteq> NotPolled \<longrightarrow> oc_signalled (sa_child sa)"
    "sa_phase sa = Aborts \<longleftrightarrow> oc_abort (sa_child sa)"
  shows "node_good (node_stops i sa)"
proof -
  obtain r sa' where p: "shutdown_abort_poll (ni_now i) sa = Some (r, sa')" "case r of
      Pending \<Rightarrow> node_ok (NodeStops sa')
    | Ready (Inr _) \<Rightarrow> oc_result (sa_child sa') = Some (Inr ())
    | Ready (Inl e) \<Rightarrow> node_ok (NodeSleeps (ni_now i + seconds 3) e (sa_child sa'))"
    using shutdown_abort_poll_node [OF assms] by blast
  have "node_good (Some (node_forced sa'))" if "r = Pending"
    using p(2) that by (intro node_forced_good) (simp_all add: node_ok_def)
  then show ?thesis
    using p node_forced_good [OF assms(1,2)] node_sleeps_good
    by (auto simp: node_stops_def node_child_def split: poll.splits sum.splits)
qed

lemma node_runs_good:
  assumes "node_ok (NodeRuns c)"
  shows "node_good (node_runs abort i c)"
proof -
  have c: "oc_join c" "oc_attached c" "\<not> oc_abort c" "\<not> oc_signalled c" using assms by (simp_all add: node_ok_def)
  have "node_good (node_stops i (shutdown_abort_new abort c))"
    using c by (intro node_stops_good) (simp_all add: shutdown_abort_new_def)
  then show ?thesis
    using c assms by (auto simp: node_runs_def child_poll_result node_child_def split: option.splits sum.splits)
qed

lemma node_poll_good: "node_ok n \<Longrightarrow> node_good (node_poll abort i n)"
proof (cases n)
  case NodeStarts
  have "node_ok (NodeRuns (owned_child_new\<lparr>oc_result := r\<rparr>))" for r
    by (simp add: node_ok_def owned_child_new_def)
  then show ?thesis
    using NodeStarts node_runs_good
    by (auto simp: node_poll_def node_child_def node_ok_def split: option.splits sum.splits)
next
  case (NodeStops sa)
  then show "node_ok n \<Longrightarrow> ?thesis" by (auto simp: node_poll_def node_ok_def intro!: node_stops_good)
next
  case (NodeRuns c)
  then show "node_ok n \<Longrightarrow> ?thesis" by (simp add: node_poll_def node_runs_good)
next
  case (NodeSleeps until e c)
  then show "node_ok n \<Longrightarrow> ?thesis" by (simp add: node_poll_def node_sleeps_good)
qed (simp_all add: node_ok_def)

lemma node_ok_root_ends: "node_ok n \<Longrightarrow> node_ok (root_ends r n)"
  by (cases n) (auto simp: node_ok_def child_ends_def)

lemma node_run_good:
  "node_ok n \<Longrightarrow> \<exists>r n'. node_run abort es n = Some (r, n') \<and> (\<forall>x. r = Some x \<longrightarrow> node_outcome x (node_child n'))"
proof (induction es arbitrary: n)
  case (Cons e es)
  show ?case
  proof (cases e)
    case (NodePolled i)
    then show ?thesis
      using node_poll_good [OF Cons.prems, of abort i] Cons.IH
      by (auto simp: node_good_def split: option.splits poll.splits)
  qed (use Cons.IH [OF node_ok_root_ends [OF Cons.prems]] in simp)
qed simp

section \<open>Properties\<close>

text \<open>C31: The two ways to shut a child down agree. Polled at the same moments, whenever the task ends, neither
panics, both tell the task to shut down, and they are ready at the same poll with the result of the task,
which \<open>shutdown_abort\<close> wraps in an error that says truly whether the task was told to abort. That happens
only at a poll after the timeout, and at every such poll unless the task has ended.\<close>

theorem shutdowns_agree:
  fixes c :: "'e owned_child"
  assumes "oc_join c" "\<not> oc_abort c"
  shows "\<exists>r sc sa.
    shutdown_child_run (PolledAt now # es) (shutdown_child_new now d c) = Some (map_option bare_error r, sc)
    \<and> shutdown_abort_run (PolledAt now # es) (shutdown_abort_new d c) = Some (r, sa)
    \<and> sa_child sa = sc_child sc \<and> oc_signalled (sc_child sc)
    \<and> (\<forall>x. r = Some x \<longrightarrow> oc_result (sc_child sc) = Some (bare_error x))
    \<and> (\<forall>e. r = Some (Inl e) \<longrightarrow> sa_timeout e = d \<and> sa_aborted e = oc_abort (sc_child sc))
    \<and> (oc_abort (sc_child sc) \<longrightarrow> (\<exists>t. PolledAt t \<in> set (PolledAt now # es) \<and> now + d \<le> t))
    \<and> (\<forall>t. PolledAt t \<in> set (PolledAt now # es) \<and> now + d \<le> t \<longrightarrow>
        oc_abort (sc_child sc) \<or> oc_result (sc_child sc) \<noteq> None)"
proof -
  let ?c = "c\<lparr>oc_signalled := True\<rparr>"
  let ?sc = "shutdown_child_new now d c" and ?sa = "\<lparr>sa_child = ?c, sa_phase = WaitsUntil (now + d), sa_within = d\<rparr>"
  have "same_shutdown ?sc ?sa" using assms by (simp add: same_shutdown_def shutdown_child_new_def)
  from shutdowns_run_alike [OF this, of "PolledAt now # es"] obtain r sc sa where r:
    "shutdown_child_run (PolledAt now # es) ?sc = Some (map_option bare_error r, sc)"
    "shutdown_abort_run (PolledAt now # es) ?sa = Some (r, sa)" "sa_child sa = sc_child sc"
    "oc_signalled (sc_child sc)" "shutdown_outcome (now + d) d (PolledAt now # es) False r (sc_child sc)"
    using assms(2) by (auto simp: shutdown_child_new_def simp del: shutdown_child_run.simps shutdown_abort_run.simps)
  have "shutdown_abort_poll now (shutdown_abort_new d c) = shutdown_abort_poll now ?sa"
    by (simp add: shutdown_abort_poll_def shutdown_abort_new_def)
  then have "shutdown_abort_run (PolledAt now # es) (shutdown_abort_new d c) = Some (r, sa)"
    using r(2) by simp
  then show ?thesis using r(1,3,4,5) unfolding shutdown_outcome_def by blast
qed

theorem shutdowns_agree_witness:
  "\<exists>r sc sa.
    shutdown_child_run [PolledAt 1, PolledAt 7, TaskEnds (Inl JoinPanic), PolledAt 8]
      (shutdown_child_new 1 5 (owned_child_new :: unit owned_child)) = Some (map_option bare_error r, sc)
    \<and> r = Some (Inl \<lparr>sa_aborted = True, sa_timeout = 5, sa_error = JoinPanic\<rparr>)
    \<and> shutdown_abort_run [PolledAt 1, PolledAt 7, TaskEnds (Inl JoinPanic), PolledAt 8]
      (shutdown_abort_new 5 (owned_child_new :: unit owned_child)) = Some (r, sa) \<and> sa_child sa = sc_child sc"
proof -
  let ?c = "owned_child_new :: unit owned_child" and ?es = "[PolledAt 7, TaskEnds (Inl JoinPanic), PolledAt 8]"
  have c: "oc_join ?c" "\<not> oc_abort ?c" by (simp_all add: owned_child_new_def)
  have "map_option fst (shutdown_abort_run (PolledAt 1 # ?es) (shutdown_abort_new 5 ?c)) =
      Some (Some (Inl \<lparr>sa_aborted = True, sa_timeout = 5, sa_error = JoinPanic\<rparr>))"
    by code_simp
  then show ?thesis using shutdowns_agree [OF c, of 1 ?es 5] by fastforce
qed



text \<open>Telling a task to abort does not decide what it ends with: it may still panic, or fail by itself.\<close>

theorem aborted_child_may_have_panicked:
  "map_option fst (shutdown_abort_run [PolledAt 1, PolledAt 7, TaskEnds (Inl JoinPanic), PolledAt 8]
     (shutdown_abort_new 5 (owned_child_new :: unit owned_child))) =
   Some (Some (Inl \<lparr>sa_aborted = True, sa_timeout = 5, sa_error = JoinPanic\<rparr>))"
  by code_simp

end
