(* ===== verification/Child_Spec.thy ===== *)
theory Child_Spec
  imports Supervisee Lifecycle
begin

text \<open>
  The specification of a child (supervision/src/childspec.rs), from the defaults of its blueprint
  (actor/src/blueprint.rs), and starting one on the channel it keeps (supervision/src/start.rs). A start that
  fails leaves the world as it was.
\<close>

section \<open>Configuration\<close>

text \<open>What a blueprint may override.\<close>

record blueprint_defaults =
  default_instantiation_timeout :: duration
  default_abort_timeout :: duration
  default_init_timeout :: duration
  default_restart_mode :: restart_mode

definition no_overrides :: blueprint_defaults where
  "no_overrides = \<lparr>default_instantiation_timeout = seconds 5, default_abort_timeout = seconds 5,
     default_init_timeout = seconds 5, default_restart_mode = Always\<rparr>"

definition from_blueprint :: "blueprint_defaults \<Rightarrow> child_config" where
  "from_blueprint b = \<lparr>restart_mode = default_restart_mode b, cfg_intensity = None,
     abort_timeout = default_abort_timeout b, init_timeout = default_init_timeout b,
     start_timeout = default_instantiation_timeout b\<rparr>"

text \<open>The specification holds a strong reference of its channel.\<close>

record held_spec =
  hs_cfg :: child_config
  hs_blueprint :: nat
  hs_channel :: nat

definition spec_create ::
    "name \<Rightarrow> iface \<Rightarrow> instant \<Rightarrow> blueprint_defaults \<Rightarrow> nat \<Rightarrow> 'm world \<Rightarrow> held_spec option \<times> 'm world" where
  "spec_create n i now d b w =
     (case create n i now w of
        (None, w) \<Rightarrow> (None, w)
      | (Some k, w) \<Rightarrow> (Some \<lparr>hs_cfg = from_blueprint d, hs_blueprint = b, hs_channel = k\<rparr>, w))"

definition with_mode :: "restart_mode \<Rightarrow> held_spec \<Rightarrow> held_spec" where
  "with_mode m s = s\<lparr>hs_cfg := (hs_cfg s)\<lparr>restart_mode := m\<rparr>\<rparr>"

definition with_abort_timeout :: "duration \<Rightarrow> held_spec \<Rightarrow> held_spec" where
  "with_abort_timeout d s = s\<lparr>hs_cfg := (hs_cfg s)\<lparr>abort_timeout := d\<rparr>\<rparr>"

definition with_init_timeout :: "duration \<Rightarrow> held_spec \<Rightarrow> held_spec" where
  "with_init_timeout d s = s\<lparr>hs_cfg := (hs_cfg s)\<lparr>init_timeout := d\<rparr>\<rparr>"

definition with_cfg :: "child_config \<Rightarrow> held_spec \<Rightarrow> held_spec" where
  "with_cfg c s = s\<lparr>hs_cfg := c\<rparr>"

section \<open>Starting\<close>

text \<open>
  \<open>start_on\<close> consumes a reference; \<open>made\<close>: the blueprint gave an actor. \<open>None\<close> is the overflow
  of the counter of references.
\<close>

definition start_on ::
    "nat \<Rightarrow> instant \<Rightarrow> bool \<Rightarrow> 'm world \<Rightarrow> ((start_on_error + child) \<times> 'm world) option" where
  "start_on k now made w =
     (if \<not> made then Some (Inl StartOnInstantiation, drop_strong k w)
      else map_option (\<lambda>(found_dead, w').
          if found_dead then (Inr (child_new (length (wd_tasks w)) k), spawn_registers k now w')
          else (Inl StartOnConcurrentInbox, w'))
        (spawn_checks k w))"

definition spec_start ::
    "held_spec \<Rightarrow> instant \<Rightarrow> bool \<Rightarrow> 'm world \<Rightarrow> ((start_on_error + child) \<times> 'm world) option" where
  "spec_start s now made w = Option.bind (clone_strong (hs_channel s) w) (start_on (hs_channel s) now made)"

text \<open>A type-erased blueprint clones the channel once more, at its own type, which \<open>typed\<close> says it has.\<close>

definition start_on_dyn ::
    "nat \<Rightarrow> instant \<Rightarrow> bool \<Rightarrow> bool \<Rightarrow> 'm world \<Rightarrow> ((start_on_error + child) \<times> 'm world) option" where
  "start_on_dyn k now made typed w =
     (if \<not> made then Some (Inl StartOnInstantiation, drop_strong k w)
      else if \<not> typed then None
      else Option.bind (clone_strong k w) (\<lambda>w.
        map_option (\<lambda>(r, w). (r, drop_strong k w)) (start_on k now True w)))"

section \<open>What a start does\<close>

lemma count_up_down:
  assumes "count_up k w = Some w'" "k < length (wd_channels w)" "strong_count (wd_channels w ! k) \<noteq> 0"
  shows "count_down k w' = w" "wd_held w' = wd_held w" "wd_channels w' ! k =
    (wd_channels w ! k)\<lparr>strong_count := strong_count (wd_channels w ! k) + 1\<rparr>" "length (wd_channels w') = length (wd_channels w)"
  using assms
  by (auto simp: count_up_def incr_strong_count_def count_down_def decr_strong_count_def set_channel_def Let_def
      split: if_splits)

lemma count_up_not_0:
  assumes "count_up k w = Some w'"
  shows "strong_count (wd_channels w ! k) + 1 \<noteq> 0"
proof
  assume "strong_count (wd_channels w ! k) + 1 = 0"
  then have "strong_count (wd_channels w ! k) = - 1" by (simp add: eq_neg_iff_add_eq_0)
  then show False using assms by (simp add: count_up_def incr_strong_count_def)
qed

text \<open>A reference that is cloned and dropped again while there is another.\<close>

lemma held_count:
  assumes "world_ok (refs w) w" "k \<in> set (wd_held w)"
  shows "k < length (wd_channels w)" "strong_count (wd_channels w ! k) \<noteq> 0"
proof -
  have k: "k \<in># refs w" using assms(2) by (simp add: refs_def)
  then show len: "k < length (wd_channels w)" using assms(1) by (auto simp: world_ok_def)
  then have c: "strong_count (wd_channels w ! k) = of_nat (count (refs w) k)" "count (refs w) k \<le> 2 ^ 63"
    using assms(1) by (auto simp: world_ok_def)
  have "count (refs w) k \<noteq> 0" using k by (simp add: count_eq_zero_iff)
  moreover have "unat (strong_count (wd_channels w ! k)) = count (refs w) k"
    using c by (simp add: unat_small)
  ultimately show "strong_count (wd_channels w ! k) \<noteq> 0" by (metis unat_0)
qed

lemma clone_drop:
  assumes "world_ok (refs w) w" "k \<in> set (wd_held w)" "clone_strong k w = Some w'"
  shows "drop_strong k w' = w" "wd_held w' = k # wd_held w" "k < length (wd_channels w')"
    "strong_count (wd_channels w' ! k) \<noteq> 0" "status (wd_channels w' ! k) = status (wd_channels w ! k)"
proof -
  note k = held_count [OF assms(1,2)]
  obtain u where u: "count_up k w = Some u" "w' = u\<lparr>wd_held := k # wd_held w\<rparr>"
    using assms(2,3) by (auto simp: clone_strong_def count_up_def set_channel_def)
  note c = count_up_down [OF u(1) k(1,2)]
  show "wd_held w' = k # wd_held w" "k < length (wd_channels w')" "strong_count (wd_channels w' ! k) \<noteq> 0"
    "status (wd_channels w' ! k) = status (wd_channels w ! k)"
    using u(2) c k count_up_not_0 [OF u(1)] by simp_all
  have "w'\<lparr>wd_held := remove1 k (wd_held w')\<rparr> = u" using u(2) c(2) by simp
  then show "drop_strong k w' = w" using u(2) c(1) by (simp add: drop_strong_def)
qed

lemma start_outcome:
  assumes "world_ok (refs w) w" "hs_channel s \<in> set (wd_held w)" "spec_start s now made w = Some (r, w')"
  shows "(\<forall>e. r = Inl e \<longrightarrow> w' = w \<and>
      e = (if made then StartOnConcurrentInbox else StartOnInstantiation)
      \<and> (made \<longrightarrow> \<not> is_dead (status (wd_channels w ! hs_channel s))))
    \<and> (\<forall>c. r = Inr c \<longrightarrow> made \<and> is_dead (status (wd_channels w ! hs_channel s))
      \<and> cd_task c = Some (length (wd_tasks w)) \<and> cd_chan c = hs_channel s \<and> cd_attached c
      \<and> length (wd_tasks w') = Suc (length (wd_tasks w)) \<and> wd_registry w' = wd_registry w
      \<and> \<not> is_dead (status (wd_channels w' ! hs_channel s))
      \<and> ch_name (wd_channels w' ! hs_channel s) = ch_name (wd_channels w ! hs_channel s))"
proof -
  let ?k = "hs_channel s"
  obtain u where u: "clone_strong ?k w = Some u" "start_on ?k now made u = Some (r, w')"
    using assms(3) by (auto simp: spec_start_def bind_eq_Some_conv)
  note c = clone_drop [OF assms(1,2) u(1)]
  show ?thesis
  proof (cases made)
    case False
    then show ?thesis using u(2) c(1) by (auto simp: start_on_def)
  next
    case True
    obtain v where v: "count_up ?k u = Some v"
      using u(2) True c(2) by (auto simp: start_on_def spawn_checks_def split: option.splits)
    note d = count_up_down [OF v c(3,4)]
    show ?thesis
    proof (cases "is_dead (status (wd_channels w ! ?k))")
      case False
      then show ?thesis
        using u(2) True v c d(1) by (auto simp: start_on_def spawn_checks_def)
    next
      case dead: True
      have "wd_tasks u = wd_tasks w" "wd_tasks v = wd_tasks u" "wd_registry v = wd_registry w"
        "ch_name (wd_channels v ! ?k) = ch_name (wd_channels w ! ?k)"
        using u(1) v c(3) d
        by (auto simp: clone_strong_def count_up_def set_channel_def incr_strong_count_def split: if_splits)
      then show ?thesis
        using u(2) True v c d dead
        by (auto simp: start_on_def spawn_checks_def spawn_registers_def register_defs set_channel_def child_new_def
            Let_def split: actor_status.splits)
    qed
  qed
qed

section \<open>Properties\<close>

text \<open>C23: A start that fails leaves no trace: when the blueprint gives no actor, or a process is running on
the channel already, everything is as it was before, the counters of references included. And it fails in
these two cases only; otherwise the task is registered on the channel, which lives and has the name it had.\<close>

theorem failed_start_leaves_no_trace:
  assumes "sound_run es (world_new :: 'm world)" "lifecycle_run es (world_new :: 'm world) = Some w"
    and "hs_channel s \<in> set (wd_held w)" "spec_start s now made w = Some (r, w')"
  shows "(\<forall>e. r = Inl e \<longrightarrow> w' = w \<and>
      e = (if made then StartOnConcurrentInbox else StartOnInstantiation)
      \<and> (made \<longrightarrow> \<not> is_dead (status (wd_channels w ! hs_channel s))))
    \<and> (\<forall>c. r = Inr c \<longrightarrow> made \<and> is_dead (status (wd_channels w ! hs_channel s))
      \<and> cd_task c = Some (length (wd_tasks w)) \<and> cd_chan c = hs_channel s \<and> cd_attached c
      \<and> length (wd_tasks w') = Suc (length (wd_tasks w)) \<and> wd_registry w' = wd_registry w
      \<and> \<not> is_dead (status (wd_channels w' ! hs_channel s))
      \<and> ch_name (wd_channels w' ! hs_channel s) = ch_name (wd_channels w ! hs_channel s))"
  by (rule start_outcome [OF conjunct1 [OF sound_run_ok [OF assms(1,2) world_new_ok]] assms(3,4)])

theorem failed_start_leaves_no_trace_witness:
  "\<exists>w. lifecycle_run an_actor (world_new :: nat world) = Some w
    \<and> spec_start \<lparr>hs_cfg = from_blueprint no_overrides, hs_blueprint = 0, hs_channel = 0\<rparr> 5 True w =
        Some (Inl StartOnConcurrentInbox, w)"
proof -
  let ?s = "\<lparr>hs_cfg = from_blueprint no_overrides, hs_blueprint = 0, hs_channel = 0\<rparr>"
  obtain w where w: "sound_run an_actor (world_new :: nat world)"
    "lifecycle_run an_actor (world_new :: nat world) = Some w"
    using an_actor_run by blast
  have "0 \<in> set (wd_held w) \<and> (\<exists>e v. spec_start ?s 5 True w = Some (Inl e, v))"
    using w(2) by (auto simp: an_actor_def lifecycle_defs spec_start_def start_on_def)
  then show ?thesis using failed_start_leaves_no_trace [OF w, of ?s 5 True] w(2) by auto
qed

end
