(* ===== verification/Supervision_Tree.thy ===== *)
theory Supervision_Tree
  imports Supervisee "HOL-Library.Sublist"
begin

text \<open>
  Discovering the supervision tree (supervision/src/tree.rs): from a supervisor down through the children that
  each reports, breadth first. What the registry and the actors answer is given by the name asked for, and
  does not change during the walk; an actor that is not found, errs or takes too long reports no children.
\<close>

section \<open>Trees\<close>

datatype 'c supervision_tree = Tree
  (tree_description: child_description)
  (tree_status: "actor_status option")
  (channel_state: "'c option")
  (tree_children: "'c supervision_tree list")

record 'c directory =
  dir_status :: "name \<Rightarrow> actor_status option" \<comment> \<open>of the actors that are registered\<close>
  dir_snapshot :: "name \<Rightarrow> 'c"
  dir_children :: "name \<Rightarrow> child_description list option" \<comment> \<open>what \<open>GetChildren\<close> is answered in time\<close>

definition tree_new :: "'c directory \<Rightarrow> child_description \<Rightarrow> 'c supervision_tree" where
  "tree_new w d = Tree d (dir_status w (desc_name d)) None []"

definition found_children :: "'c directory \<Rightarrow> child_description \<Rightarrow> child_description list" where
  "found_children w d =
     (if dir_status w (desc_name d) = None then []
      else case dir_children w (desc_name d) of Some ds \<Rightarrow> ds | None \<Rightarrow> [])"

definition populate_layer :: "'c directory \<Rightarrow> 'c supervision_tree \<Rightarrow> 'c supervision_tree" where
  "populate_layer w t = Tree (tree_description t) (tree_status t) (channel_state t)
     (tree_children t @ map (tree_new w) (found_children w (tree_description t)))"

text \<open>The queue of the loops has references into the tree: paths.\<close>

fun subtree :: "nat list \<Rightarrow> 'c supervision_tree \<Rightarrow> 'c supervision_tree option" where
  "subtree [] t = Some t"
| "subtree (i # p) t = (if i < length (tree_children t) then subtree p (tree_children t ! i) else None)"

fun at_path ::
    "nat list \<Rightarrow> ('c supervision_tree \<Rightarrow> 'c supervision_tree) \<Rightarrow> 'c supervision_tree \<Rightarrow> 'c supervision_tree" where
  "at_path [] f t = f t"
| "at_path (i # p) f (Tree d st cs ts) =
     (if i < length ts then Tree d st cs (ts[i := at_path p f (ts ! i)]) else Tree d st cs ts)"

definition child_paths :: "nat list \<Rightarrow> 'c supervision_tree \<Rightarrow> nat list list" where
  "child_paths p t = (case subtree p t of
       None \<Rightarrow> [] | Some s \<Rightarrow> map (\<lambda>i. p @ [i]) [0..<length (tree_children s)])"

partial_function (option) populate_loop ::
    "'c directory \<Rightarrow> nat list list \<Rightarrow> 'c supervision_tree \<Rightarrow> 'c supervision_tree option" where
  "populate_loop w q t =
     (case q of
        [] \<Rightarrow> Some t
      | p # ps \<Rightarrow>
          (let t' = at_path p (populate_layer w) t in populate_loop w (ps @ child_paths p t') t'))"

definition populate :: "'c directory \<Rightarrow> 'c supervision_tree \<Rightarrow> 'c supervision_tree option" where
  "populate w t = populate_loop w [[]] t"

text \<open>The second loop visits the children of the actors that are registered only.\<close>

definition take_snapshot :: "'c directory \<Rightarrow> 'c supervision_tree \<Rightarrow> 'c supervision_tree" where
  "take_snapshot w t = Tree (tree_description t) (tree_status t)
     (Some (dir_snapshot w (desc_name (tree_description t)))) (tree_children t)"

definition is_registered :: "'c directory \<Rightarrow> nat list \<Rightarrow> 'c supervision_tree \<Rightarrow> bool" where
  "is_registered w p t = (case subtree p t of
       None \<Rightarrow> False | Some s \<Rightarrow> dir_status w (desc_name (tree_description s)) \<noteq> None)"

partial_function (option) snapshot_loop ::
    "'c directory \<Rightarrow> nat list list \<Rightarrow> 'c supervision_tree \<Rightarrow> 'c supervision_tree option" where
  "snapshot_loop w q t =
     (case q of
        [] \<Rightarrow> Some t
      | p # ps \<Rightarrow>
          if is_registered w p t
          then snapshot_loop w (ps @ child_paths p t) (at_path p (take_snapshot w) t)
          else snapshot_loop w ps t)"

definition populate_channel_snapshots :: "'c directory \<Rightarrow> 'c supervision_tree \<Rightarrow> 'c supervision_tree option" where
  "populate_channel_snapshots w t = snapshot_loop w [[]] t"

section \<open>What is below an actor\<close>

text \<open>The description at the end of a path of indices into what each actor reports.\<close>

fun below :: "'c directory \<Rightarrow> child_description \<Rightarrow> nat list \<Rightarrow> child_description option" where
  "below w d [] = Some d"
| "below w d (i # p) = (if i < length (found_children w d) then below w (found_children w d ! i) p else None)"

lemma below_append: "below w d (p @ q) = Option.bind (below w d p) (\<lambda>e. below w e q)"
  by (induction p arbitrary: d) auto

lemma subtree_append: "subtree (p @ q) t = Option.bind (subtree p t) (subtree q)"
  by (induction p arbitrary: t) auto

definition node_of :: "'c supervision_tree \<Rightarrow> nat list \<Rightarrow> (child_description \<times> actor_status option) option" where
  "node_of t p = map_option (\<lambda>s. (tree_description s, tree_status s)) (subtree p t)"

definition keeps_node :: "('c supervision_tree \<Rightarrow> 'c supervision_tree) \<Rightarrow> bool" where
  "keeps_node f \<longleftrightarrow> (\<forall>t. tree_description (f t) = tree_description t \<and> tree_status (f t) = tree_status t)"

lemma subtree_at_path: "subtree (p @ q) (at_path p f t) = Option.bind (subtree p t) (\<lambda>s. subtree q (f s))"
  by (induction p f t rule: at_path.induct) auto

lemma node_of_at_path_other:
  assumes "\<not> prefix p x"
  shows "node_of (at_path p f t) x = node_of t x"
  using assms
proof (induction p f t arbitrary: x rule: at_path.induct)
  case (2 i p f d st cs ts)
  show ?case
  proof (cases x)
    case (Cons j y)
    show ?thesis
    proof (cases "j = i \<and> i < length ts")
      case True
      then have "node_of (at_path p f (ts ! i)) y = node_of (ts ! i) y"
        using 2 Cons by simp
      then show ?thesis using Cons True by (simp add: node_of_def)
    next
      case False
      then show ?thesis using Cons by (auto simp: node_of_def)
    qed
  qed (simp add: node_of_def)
qed simp

lemma node_of_at_path:
  "node_of (at_path p f t) (p @ q) = Option.bind (subtree p t) (\<lambda>s. node_of (f s) q)"
  by (cases "subtree p t") (simp_all add: node_of_def subtree_at_path)

lemma finite_subtrees: "finite {p. subtree p t \<noteq> None}"
proof (induction t)
  case (Tree d st cs ts)
  have "{p. subtree p (Tree d st cs ts) \<noteq> None} \<subseteq>
      insert [] (\<Union>i<length ts. Cons i ` {p. subtree p (ts ! i) \<noteq> None})"
  proof
    fix p assume "p \<in> {p. subtree p (Tree d st cs ts) \<noteq> None}"
    then show "p \<in> insert [] (\<Union>i<length ts. Cons i ` {p. subtree p (ts ! i) \<noteq> None})"
      by (cases p) (auto split: if_splits)
  qed
  moreover have "finite {p. subtree p (ts ! i) \<noteq> None}" if "i < length ts" for i
    using Tree.IH that by simp
  ultimately show ?case by (meson finite_UN_I finite_imageI finite_insert finite_lessThan finite_subset lessThan_iff)
qed

section \<open>The walk\<close>

text \<open>
  While it walks, the tree has what is below the root as far as no path in the queue leads further; no path
  in the queue leads to another.
\<close>

definition shown :: "nat list list \<Rightarrow> nat list \<Rightarrow> bool" where
  "shown q x \<longleftrightarrow> (\<forall>p\<in>set q. \<not> strict_prefix p x)"

definition described :: "'c directory \<Rightarrow> child_description \<Rightarrow> child_description \<times> actor_status option" where
  "described w d = (d, dir_status w (desc_name d))"

definition apart :: "nat list list \<Rightarrow> bool" where
  "apart q \<longleftrightarrow> distinct q \<and> (\<forall>p\<in>set q. \<forall>r\<in>set q. prefix p r \<longrightarrow> p = r)"

definition walk_ok :: "'c directory \<Rightarrow> child_description \<Rightarrow> nat list list \<Rightarrow> 'c supervision_tree \<Rightarrow> bool" where
  "walk_ok w root q t \<longleftrightarrow> apart q \<and> (\<forall>p\<in>set q. below w root p \<noteq> None)
     \<and> (\<forall>x. node_of t x = (if shown q x then map_option (described w) (below w root x) else None))"

lemma prefix_snoc_cases: "prefix q (p @ [i]) \<longleftrightarrow> q = p @ [i] \<or> prefix q p"
  by (simp add: prefix_snoc)

lemma apart_step:
  assumes "apart (p # ps)"
  shows "apart (ps @ map (\<lambda>i. p @ [i]) [0..<n])"
proof -
  have p: "\<not> prefix p r \<and> \<not> prefix r p" if "r \<in> set ps" for r using assms that by (auto simp: apart_def)
  then have "\<not> prefix (p @ ys) r" if "r \<in> set ps" for r ys using that by (meson prefix_order.trans prefixI)
  then have "distinct (ps @ map (\<lambda>i. p @ [i]) [0..<n])"
    using assms by (auto simp: apart_def distinct_map inj_on_def)
  moreover have "q = r" if "q \<in> set (ps @ map (\<lambda>i. p @ [i]) [0..<n])" "r \<in> set (ps @ map (\<lambda>i. p @ [i]) [0..<n])" "prefix q r" for q r
    using that assms p \<open>\<And>ys r. r \<in> set ps \<Longrightarrow> \<not> prefix (p @ ys) r\<close>
    by (auto simp: apart_def prefix_snoc_cases dest: prefix_length_le)
  ultimately show ?thesis by (simp add: apart_def)
qed

lemma node_of_layer:
  assumes "tree_children s = []" "tree_description s = d"
  shows "node_of (populate_layer w s) (i # r) =
    (if i < length (found_children w d) \<and> r = [] then Some (described w (found_children w d ! i)) else None)"
  using assms by (cases r) (auto simp: node_of_def populate_layer_def tree_new_def described_def)

lemma walk_step:
  assumes ok: "walk_ok w root (p # ps) t"
  defines "t' \<equiv> at_path p (populate_layer w) t"
  shows "walk_ok w root (ps @ child_paths p t') t'"
    "\<exists>n. child_paths p t' = map (\<lambda>i. p @ [i]) [0..<n]"
proof -
  have ap: "apart (p # ps)" and nodes: "\<And>x. node_of t x =
      (if shown (p # ps) x then map_option (described w) (below w root x) else None)"
    using ok by (auto simp: walk_ok_def)
  have far: "\<not> prefix p r \<and> \<not> prefix r p" if "r \<in> set ps" for r using ap that by (auto simp: apart_def)
  obtain d where d: "below w root p = Some d" using ok by (auto simp: walk_ok_def)
  have "shown (p # ps) p" using far by (auto simp: shown_def strict_prefix_def)
  then have "node_of t p = Some (described w d)" using nodes d by simp
  then obtain s where s: "subtree p t = Some s" "tree_description s = d" "tree_status s = dir_status w (desc_name d)"
    by (auto simp: node_of_def described_def)
  have "strict_prefix p (p @ [0])" by (simp add: strict_prefix_def)
  then have "\<not> shown (p # ps) (p @ [0])" unfolding shown_def by (metis list.set_intros(1))
  then have "node_of t (p @ [0]) = None" using nodes by presburger
  then have leaf: "tree_children s = []" using s(1) by (auto simp: node_of_def subtree_append split: if_splits)
  let ?n = "length (found_children w d)"
  have kids: "child_paths p t' = map (\<lambda>i. p @ [i]) [0..<?n]"
    using s leaf subtree_at_path [of p "[]" "populate_layer w" t]
    by (simp add: child_paths_def t'_def populate_layer_def)
  let ?q = "ps @ map (\<lambda>i. p @ [i]) [0..<?n]"
  have hid: "shown ?q x \<longleftrightarrow> (\<forall>r\<in>set ps. \<not> strict_prefix r x) \<and> (\<forall>i<?n. \<not> strict_prefix (p @ [i]) x)" for x
    by (auto simp: shown_def)
  have near: "\<not> strict_prefix r (p @ [i])" if "r \<in> set ps" for r i
    using far [OF that] by (auto simp: strict_prefix_def prefix_snoc_cases)
  have "node_of t' x = (if shown ?q x then map_option (described w) (below w root x) else None)" for x
  proof (cases "prefix p x")
    case False
    then have "\<not> strict_prefix (p @ ys) x" for ys by (auto simp: prefix_def strict_prefix_def)
    then have "shown ?q x = shown (p # ps) x"
      using hid [of x] False by (auto simp: shown_def strict_prefix_def)
    then show ?thesis by (simp add: t'_def node_of_at_path_other [OF False] nodes)
  next
    case True
    then obtain y where x: "x = p @ y" by (auto simp: prefix_def)
    have at: "node_of t' x = node_of (populate_layer w s) y"
      using s(1) by (simp add: t'_def x node_of_at_path)
    show ?thesis
    proof (cases y)
      case Nil
      then have "shown ?q x" using far by (auto simp: hid x strict_prefix_def dest: prefix_length_le)
      then show ?thesis using at Nil x d s(2,3) by (simp add: node_of_def populate_layer_def described_def)
    next
      case (Cons i r)
      have "shown ?q x" if "r = []"
        using near that by (auto simp: hid x Cons strict_prefix_def)
      moreover have "\<not> shown ?q x" if "r \<noteq> []" "i < ?n"
        using that by (auto simp: hid x Cons strict_prefix_def prefix_def)
      ultimately show ?thesis
        using node_of_layer [OF leaf s(2), of w i r] at d by (auto simp: x Cons below_append)
    qed
  qed
  moreover have "below w root (p @ [i]) \<noteq> None" if "i < ?n" for i using d that by (simp add: below_append)
  ultimately show "walk_ok w root (ps @ child_paths p t') t'"
    using ok apart_step [OF ap, of ?n] by (auto simp: walk_ok_def kids)
  show "\<exists>n. child_paths p t' = map (\<lambda>i. p @ [i]) [0..<n]" using kids by blast
qed

lemma walk_new: "walk_ok w root [[]] (tree_new w root)"
proof -
  have "node_of (tree_new w root) x =
      (if shown [[]] x then map_option (described w) (below w root x) else None)" for x
    by (cases x) (auto simp: node_of_def tree_new_def shown_def described_def)
  then show ?thesis by (simp add: walk_ok_def apart_def)
qed

lemma populate_loop_result:
  assumes "populate_loop w q t = Some t'" "walk_ok w root q t"
  shows "walk_ok w root [] t'"
proof -
  have "walk_ok w root q t \<longrightarrow> walk_ok w root [] t'"
  proof (rule populate_loop.raw_induct [where P = "\<lambda>w q t t'. walk_ok w root q t \<longrightarrow> walk_ok w root [] t'", OF _ assms(1)])
    fix loop :: "'a directory \<Rightarrow> nat list list \<Rightarrow> 'a supervision_tree \<Rightarrow> 'a supervision_tree option"
    fix w :: "'a directory" and q t t'
    assume IH: "\<And>w q t t'. loop w q t = Some t' \<Longrightarrow> walk_ok w root q t \<longrightarrow> walk_ok w root [] t'"
      and run: "(case q of [] \<Rightarrow> Some t | p # ps \<Rightarrow>
        let t' = at_path p (populate_layer w) t in loop w (ps @ child_paths p t') t') = Some t'"
    show "walk_ok w root q t \<longrightarrow> walk_ok w root [] t'"
    proof (cases q)
      case (Cons p ps)
      then have "walk_ok w root (ps @ child_paths p (at_path p (populate_layer w) t)) (at_path p (populate_layer w) t)
          \<longrightarrow> walk_ok w root [] t'"
        using run by (intro IH) (simp add: Let_def)
      then show ?thesis using walk_step(1) Cons by blast
    qed (use run in simp)
  qed
  then show ?thesis using assms(2) by blast
qed

definition to_walk :: "'c directory \<Rightarrow> child_description \<Rightarrow> nat list list \<Rightarrow> nat list set" where
  "to_walk w root q = {x. below w root x \<noteq> None \<and> (\<exists>p\<in>set q. prefix p x)}"

lemma populate_loop_returns:
  assumes "finite {x. below w root x \<noteq> None}" "walk_ok w root q t"
  shows "\<exists>t'. populate_loop w q t = Some t'"
  using assms(2)
proof (induction "card (to_walk w root q)" arbitrary: q t rule: less_induct)
  case less
  show ?case
  proof (cases q)
    case Nil
    then show ?thesis by (simp add: populate_loop.simps)
  next
    case (Cons p ps)
    let ?t = "at_path p (populate_layer w) t"
    obtain n where n: "child_paths p ?t = map (\<lambda>i. p @ [i]) [0..<n]"
      using walk_step(2) less.prems Cons by blast
    let ?q = "ps @ map (\<lambda>i. p @ [i]) [0..<n]"
    have far: "\<not> prefix r p" if "r \<in> set ps" for r
      using less.prems that by (auto simp: Cons walk_ok_def apart_def)
    have "to_walk w root ?q \<subseteq> to_walk w root q"
      by (auto simp: to_walk_def Cons prefix_def)
    moreover have "p \<in> to_walk w root q" using less.prems by (auto simp: to_walk_def Cons walk_ok_def)
    moreover have "p \<notin> to_walk w root ?q" using far by (auto simp: to_walk_def dest: prefix_length_le)
    ultimately have "to_walk w root ?q \<subset> to_walk w root q" by blast
    moreover have "finite (to_walk w root q)"
      by (rule finite_subset [OF _ assms(1)]) (auto simp: to_walk_def)
    ultimately have "card (to_walk w root ?q) < card (to_walk w root q)" by (rule psubset_card_mono [rotated])
    then show ?thesis
      using less.hyps [of ?q ?t] walk_step(1) [of w root p ps t] less.prems n
      by (simp add: Cons populate_loop.simps [of w "p # ps"] Let_def)
  qed
qed

section \<open>Properties\<close>

text \<open>C33: Populating a new tree returns exactly if what is below its root, each actor unfolded wherever it
is reported, is finite, and then the tree has at each path of indices what the actors on the way report, and
its status, and nothing else. So the walk does not return if some actor is below itself.\<close>

theorem populate_unfolds_what_is_below:
  "(finite {x. below w root x \<noteq> None} \<longleftrightarrow> (\<exists>t. populate w (tree_new w root) = Some t))
   \<and> (populate w (tree_new w root) = Some t \<longrightarrow>
       (\<forall>x. node_of t x = map_option (\<lambda>d. (d, dir_status w (desc_name d))) (below w root x)))
   \<and> (below w root p = Some d \<and> q \<noteq> [] \<and> below w d q = Some d \<longrightarrow> populate w (tree_new w root) = None)"
proof -
  have result: "node_of t x = map_option (\<lambda>d. (d, dir_status w (desc_name d))) (below w root x)"
    if "populate w (tree_new w root) = Some t" for t x
  proof -
    have "described w = (\<lambda>d. (d, dir_status w (desc_name d)))" by (simp add: described_def fun_eq_iff)
    then show ?thesis
      using populate_loop_result [OF that [unfolded populate_def] walk_new]
      by (simp add: walk_ok_def shown_def)
  qed
  have fin: "finite {x. below w root x \<noteq> None}" if t: "populate w (tree_new w root) = Some t" for t
  proof (rule finite_subset [OF _ finite_subtrees [of t]])
    have "subtree x t \<noteq> None" if "below w root x \<noteq> None" for x
      using result [OF t, of x] that by (auto simp: node_of_def)
    then show "{x. below w root x \<noteq> None} \<subseteq> {x. subtree x t \<noteq> None}" by blast
  qed
  have "\<exists>t. populate w (tree_new w root) = Some t" if "finite {x. below w root x \<noteq> None}"
    using populate_loop_returns [OF that walk_new] by (simp add: populate_def)
  moreover have "populate w (tree_new w root) = None"
    if "below w root p = Some d" "q \<noteq> []" "below w d q = Some d"
  proof (rule ccontr)
    assume "populate w (tree_new w root) \<noteq> None"
    then have "finite {x. below w root x \<noteq> None}" using fin by blast
    moreover have round: "below w d (concat (replicate n q)) = Some d" for n
      using that(3) by (induction n) (simp_all add: below_append)
    have "below w root (p @ concat (replicate n q)) = Some d" for n
      using that(1) round by (simp add: below_append)
    then have "range (\<lambda>n. p @ concat (replicate n q)) \<subseteq> {x. below w root x \<noteq> None}" by auto
    moreover have "inj (\<lambda>n. p @ concat (replicate n q))"
    proof (rule injI)
      fix n m assume "p @ concat (replicate n q) = p @ concat (replicate m q)"
      then have "length (concat (replicate n q)) = length (concat (replicate m q))" by simp
      then show "n = m" using that(2) by (simp add: length_concat sum_list_replicate)
    qed
    ultimately show False by (metis finite_imageD finite_subset infinite_UNIV_nat)
  qed
  ultimately show ?thesis using result fin by blast
qed

text \<open>A supervisor with two children, one of which is gone and one a supervisor of one more.\<close>

definition example_description :: "name \<Rightarrow> child_description" where
  "example_description n = \<lparr>desc_name = n, desc_cfg = child_config_default\<rparr>"

definition example_directory :: "nat directory" where
  "example_directory = \<lparr>
     dir_status = (\<lambda>n. if n = ''b'' then None else Some Running),
     dir_snapshot = length,
     dir_children = (\<lambda>n. if n = ''r'' then Some [example_description ''a'', example_description ''b'']
       else if n = ''a'' then Some [example_description ''c''] else None)\<rparr>"

theorem populate_unfolds_what_is_below_witness:
  "\<exists>t. populate example_directory (tree_new example_directory (example_description ''r'')) = Some t
    \<and> node_of t [0, 0] = Some (example_description ''c'', Some Running)
    \<and> node_of t [1] = Some (example_description ''b'', None)"
proof -
  let ?w = example_directory and ?d = "example_description ''r''"
  obtain t where t: "populate ?w (tree_new ?w ?d) = Some t"
    by (simp add: populate_def populate_loop.simps child_paths_def populate_layer_def tree_new_def
        found_children_def example_directory_def example_description_def)
  then have "node_of t x = map_option (\<lambda>d. (d, dir_status ?w (desc_name d))) (below ?w ?d x)" for x
    using populate_unfolds_what_is_below [of ?w ?d t] by blast
  then show ?thesis
    using t by (simp add: found_children_def example_directory_def example_description_def)
qed

text \<open>Populating a tree a second time finds the children of the root once more, and adds them again.\<close>

theorem populating_twice_doubles_the_children:
  "tree_children (populate_layer w (populate_layer w t)) =
     tree_children t @ map (tree_new w) (found_children w (tree_description t))
       @ map (tree_new w) (found_children w (tree_description t))"
  by (simp add: populate_layer_def)

text \<open>Below an actor that is gone no snapshots are taken, although what is there may be registered.\<close>

definition orphaned :: "nat supervision_tree" where
  "orphaned = Tree (example_description ''b'') None None
     [Tree (example_description ''c'') (Some Running) None []]"

theorem snapshots_stop_at_a_gone_actor:
  "populate_channel_snapshots example_directory orphaned = Some orphaned
    \<and> dir_status example_directory ''c'' \<noteq> None"
  by (simp add: populate_channel_snapshots_def snapshot_loop.simps is_registered_def orphaned_def
      example_directory_def example_description_def)

end
