(* ===== verification/Api_Server.thy ===== *)
theory Api_Server
  imports Supervision_Tree Supervisor
begin

text \<open>
  The API server (api-server/src/router.rs and lib.rs): the walk over the supervision tree that answers
  \<open>GET /processes\<close>, the other two routes, and the actor that serves them. As in \<open>Supervision_Tree\<close>, what the
  registry and the actors answer is given by the name asked for and does not change during a request.
\<close>

section \<open>The walk over the processes\<close>

type_synonym process_info = "child_config \<times> actor_status \<times> name list"

datatype api_error =
    Root_Not_Found
  | Circular process_info \<comment> \<open>the message has what was there for the name, not the name\<close>

definition get_children :: "'c directory \<Rightarrow> name \<Rightarrow> child_description list" where
  "get_children w n = (case dir_children w n of Some ds \<Rightarrow> ds | None \<Rightarrow> [])"

text \<open>Insertion into an \<open>IndexMap\<close>: a name that is there keeps its place.\<close>

fun index_insert :: "'k \<Rightarrow> 'v \<Rightarrow> ('k \<times> 'v) list \<Rightarrow> 'v option \<times> ('k \<times> 'v) list" where
  "index_insert k v [] = (None, [(k, v)])"
| "index_insert k v ((k', v') # m) =
     (if k' = k then (Some v', (k, v) # m) else let (old, m') = index_insert k v m in (old, (k', v') # m'))"

text \<open>The children that are registered, with the status of their address.\<close>

fun found_addresses :: "'c directory \<Rightarrow> child_description list \<Rightarrow> (actor_status \<times> child_description) list" where
  "found_addresses w [] = []"
| "found_addresses w (c # cs) =
     (case dir_status w (desc_name c) of
        None \<Rightarrow> found_addresses w cs
      | Some st \<Rightarrow> (st, c) # found_addresses w cs)"

fun add_processes ::
    "'c directory \<Rightarrow> ((actor_status \<times> child_description) \<times> child_description list) list
      \<Rightarrow> (name \<times> process_info) list \<Rightarrow> (actor_status \<times> child_description) list
      \<Rightarrow> api_error + (name \<times> process_info) list \<times> (actor_status \<times> child_description) list" where
  "add_processes w [] results pending = Inr (results, pending)"
| "add_processes w (((st, desc), children) # new_children) results pending =
     (case index_insert (desc_name desc) (desc_cfg desc, st, map desc_name children) results of
        (Some duplicate_process, results) \<Rightarrow> Inl (Circular duplicate_process)
      | (None, results) \<Rightarrow> add_processes w new_children results (pending @ found_addresses w children))"

partial_function (option) processes_loop ::
    "'c directory \<Rightarrow> (actor_status \<times> child_description) list \<Rightarrow> (name \<times> process_info) list
      \<Rightarrow> (api_error + (name \<times> process_info) list) option" where
  "processes_loop w pending results =
     (if pending = [] then Some (Inr results)
      else case add_processes w (map (\<lambda>a. (a, get_children w (desc_name (snd a)))) pending) results [] of
             Inl e \<Rightarrow> Some (Inl e)
           | Inr (results, pending) \<Rightarrow> processes_loop w pending results)"

definition root_description :: "name \<Rightarrow> child_description" where
  "root_description rootn = \<lparr>desc_name = rootn, desc_cfg = child_config_default\<rparr>"

text \<open>What the route returns: None if the walk never ends.\<close>

definition get_processes :: "'c directory \<Rightarrow> name \<Rightarrow> (api_error + (name \<times> process_info) list) option" where
  "get_processes w rootn =
     (case dir_status w rootn of
        None \<Rightarrow> Some (Inl Root_Not_Found)
      | Some st \<Rightarrow> processes_loop w [(st, root_description rootn)] [])"

section \<open>Health reports\<close>

fun health_str :: "health_status \<Rightarrow> string" where
  "health_str Healthy = ''healthy''"
| "health_str Degraded = ''degraded''"
| "health_str Unhealthy = ''unhealthy''"

text \<open>A point in time is of a type \<open>'z\<close>, printed by a function that is given.\<close>

record 'z health_detail =
  detail_name :: string
  detail_message :: string
  detail_since :: "'z option"

record 'z health_report =
  hr_status :: health_status
  hr_debug_repr :: "string option"
  hr_message :: "string option"
  hr_details :: "'z health_detail list"

definition health_detail_new :: "string \<Rightarrow> string \<Rightarrow> 'z health_detail" where
  "health_detail_new n m = \<lparr>detail_name = n, detail_message = m, detail_since = None\<rparr>"

definition with_since :: "'z \<Rightarrow> 'z health_detail \<Rightarrow> 'z health_detail" where
  "with_since z d = d\<lparr>detail_since := Some z\<rparr>"

definition show_detail :: "('z \<Rightarrow> string) \<Rightarrow> 'z health_detail \<Rightarrow> string" where
  "show_detail sh d = detail_name d @ '': '' @ detail_message d
     @ (case detail_since d of None \<Rightarrow> [] | Some z \<Rightarrow> '' (since '' @ sh z @ '')'')"

definition health_new :: "health_status \<Rightarrow> 'z health_report" where
  "health_new s = \<lparr>hr_status = s, hr_debug_repr = None, hr_message = None, hr_details = []\<rparr>"

definition add_debug_repr :: "string \<Rightarrow> 'z health_report \<Rightarrow> 'z health_report" where
  "add_debug_repr r h = h\<lparr>hr_debug_repr := Some r\<rparr>"

definition add_message :: "string \<Rightarrow> 'z health_report \<Rightarrow> string option \<times> 'z health_report" where
  "add_message m h = (hr_message h, h\<lparr>hr_message := Some m\<rparr>)"

definition with_message :: "string \<Rightarrow> 'z health_report \<Rightarrow> 'z health_report" where
  "with_message m h = snd (add_message m h)"

definition add_details :: "'z health_detail list \<Rightarrow> 'z health_report \<Rightarrow> 'z health_report" where
  "add_details ds h = h\<lparr>hr_details := hr_details h @ ds\<rparr>"

definition add_detail :: "'z health_detail \<Rightarrow> 'z health_report \<Rightarrow> 'z health_report" where
  "add_detail d h = h\<lparr>hr_details := hr_details h @ [d]\<rparr>"

definition show_health :: "'z health_report \<Rightarrow> string" where
  "show_health h = health_str (hr_status h) @ (case hr_message h of None \<Rightarrow> [] | Some m \<Rightarrow> '': '' @ m)"

lemma add_details_fold: "add_details ds h = fold add_detail ds h"
proof (induction ds arbitrary: h)
  case (Cons d ds)
  have "add_details (d # ds) h = add_details ds (add_detail d h)" by (simp add: add_details_def add_detail_def)
  then show ?case using Cons by simp
qed (simp add: add_details_def)

text \<open>The text of a report does not depend on its details; with another message, it says the last one.\<close>

lemma show_health_simps [simp]:
  "show_health (health_new s) = health_str s"
  "show_health (add_details ds h) = show_health h"
  "show_health (add_debug_repr r h) = show_health h"
  "show_health (with_message m h) = health_str (hr_status h) @ '': '' @ m"
  by (simp_all add: show_health_def health_new_def add_details_def add_debug_repr_def with_message_def add_message_def)

section \<open>The other routes and the server\<close>

definition get_channel_snapshots :: "'c directory \<Rightarrow> name list \<Rightarrow> 'c option list" where
  "get_channel_snapshots w names =
     map (\<lambda>n. if dir_status w n = None then None else Some (dir_snapshot w n)) names"

text \<open>What \<open>GetHealth\<close> is answered in time is an argument, by name.\<close>

definition get_health ::
    "'c directory \<Rightarrow> (name \<Rightarrow> 'z health_report option) \<Rightarrow> name list \<Rightarrow> 'z health_report option list" where
  "get_health w answered names = map (\<lambda>n. if dir_status w n = None then None else answered n) names"

record 'a api_blueprint =
  api_addr :: 'a
  root_supervisor_name :: name

record 'a api_server =
  api_cfg :: "'a api_blueprint"
  root_supervisor :: name

definition api_build :: "'c directory \<Rightarrow> 'a api_blueprint \<Rightarrow> string + 'a api_server" where
  "api_build w bp =
     (if dir_status w (root_supervisor_name bp) = None then Inl ''Root supervisor not found''
      else Inr \<lparr>api_cfg = bp, root_supervisor = root_supervisor_name bp\<rparr>)"

text \<open>Serving ends with an error if the address cannot be bound, or as the web server ends.\<close>

definition api_run :: "('a \<Rightarrow> 'e + 'l) \<Rightarrow> ('l \<Rightarrow> 'e + unit) \<Rightarrow> 'a api_server \<Rightarrow> 'e + unit" where
  "api_run bind serve s = (case bind (api_addr (api_cfg s)) of Inl e \<Rightarrow> Inl e | Inr listener \<Rightarrow> serve listener)"

datatype 'e api_event =
    ApiExits "'e + unit"
  | StreamEnds
  | ApiSignal signal
  | ChildrenAsked
  | HealthAsked

datatype 'z api_reply = RepliesChildren "child_description list" | RepliesHealth "'z health_report"

datatype 'e api_report = ServeFailed 'e | StreamClosed

text \<open>The loop of the actor: what it replies, and how it exits; None while it runs.\<close>

fun api_loop :: "'e api_event list \<Rightarrow> 'z api_reply list \<times> ('e api_report + unit) option" where
  "api_loop [] = ([], None)"
| "api_loop (ApiExits (Inl e) # es) = ([], Some (Inl (ServeFailed e)))"
| "api_loop (ApiExits (Inr u) # es) = ([], Some (Inr ()))"
| "api_loop (StreamEnds # es) = ([], Some (Inl StreamClosed))"
| "api_loop (ApiSignal Shutdown # es) = ([], Some (Inr ()))"
| "api_loop (ApiSignal Resume # es) = api_loop es"
| "api_loop (ApiSignal Suspend # es) = api_loop es"
| "api_loop (ChildrenAsked # es) = apfst (Cons (RepliesChildren [])) (api_loop es)"
| "api_loop (HealthAsked # es) = apfst (Cons (RepliesHealth (health_new Healthy))) (api_loop es)"

fun ends_server :: "'e api_event \<Rightarrow> bool" where
  "ends_server (ApiExits r) = True"
| "ends_server StreamEnds = True"
| "ends_server (ApiSignal s) = (s = Shutdown)"
| "ends_server e = False"

lemma api_loop_append:
  "\<not> list_ex ends_server es \<Longrightarrow> api_loop (es @ fs) = apfst ((@) (fst (api_loop es :: 'z api_reply list \<times> ('e api_report + unit) option)))
    (api_loop fs :: 'z api_reply list \<times> ('e api_report + unit) option)"
  by (induction es rule: api_loop.induct) (auto simp: apfst_def map_prod_def split: prod.splits)

text \<open>The server answers each query that comes before what ends it, and none after; a suspended one answers
too.\<close>

theorem api_server_answers_while_it_runs:
  fixes es :: "'e api_event list"
  defines "served \<equiv> takeWhile (\<lambda>e. \<not> ends_server e) es"
  shows "length (fst (api_loop es :: 'z api_reply list \<times> ('e api_report + unit) option)) =
      length (filter (\<lambda>e. e \<in> {ChildrenAsked, HealthAsked}) served)
    \<and> (snd (api_loop es :: 'z api_reply list \<times> ('e api_report + unit) option) = None \<longleftrightarrow> served = es)"
  unfolding served_def by (induction es rule: api_loop.induct) auto

section \<open>The levels of the tree\<close>

fun level :: "'c directory \<Rightarrow> name \<Rightarrow> nat \<Rightarrow> child_description list" where
  "level w rootn 0 = filter (\<lambda>c. dir_status w (desc_name c) \<noteq> None) [root_description rootn]"
| "level w rootn (Suc n) = concat (map (\<lambda>c. filter (\<lambda>c. dir_status w (desc_name c) \<noteq> None)
     (get_children w (desc_name c))) (level w rootn n))"

definition levels :: "'c directory \<Rightarrow> name \<Rightarrow> nat \<Rightarrow> child_description list" where
  "levels w rootn n = concat (map (level w rootn) [0..<n])"

definition process_of :: "'c directory \<Rightarrow> child_description \<Rightarrow> name \<times> process_info" where
  "process_of w c = (desc_name c, desc_cfg c, the (dir_status w (desc_name c)), map desc_name (get_children w (desc_name c)))"

definition with_status :: "'c directory \<Rightarrow> child_description \<Rightarrow> actor_status \<times> child_description" where
  "with_status w c = (the (dir_status w (desc_name c)), c)"

lemma levels_0 [simp]: "levels w rootn 0 = []" by (simp add: levels_def)
lemma levels_Suc: "levels w rootn (Suc n) = levels w rootn n @ level w rootn n" by (simp add: levels_def)

lemma level_empty: "level w rootn n = [] \<Longrightarrow> n \<le> m \<Longrightarrow> level w rootn m = []"
  by (induction m) (auto simp: le_Suc_eq)

lemma levels_empty: "level w rootn n = [] \<Longrightarrow> n \<le> m \<Longrightarrow> levels w rootn m = levels w rootn n"
proof (induction m)
  case (Suc m)
  show ?case
  proof (cases "n = Suc m")
    case False
    then have "n \<le> m" using Suc.prems(2) by simp
    then show ?thesis using Suc.IH [OF Suc.prems(1)] level_empty [OF Suc.prems(1)] by (simp add: levels_Suc del: level.simps)
  qed simp
qed simp

lemma levels_prefix: "n \<le> m \<Longrightarrow> prefix (levels w rootn n) (levels w rootn m)"
  by (induction m) (auto simp: le_Suc_eq levels_Suc)

lemma distinct_levels: "n \<le> m \<Longrightarrow> distinct (map desc_name (levels w rootn m)) \<Longrightarrow> distinct (map desc_name (levels w rootn n))"
  using levels_prefix [of n m w rootn] by (auto simp: prefix_def)

lemma found_addresses_eq:
  "found_addresses w cs = map (with_status w) (filter (\<lambda>c. dir_status w (desc_name c) \<noteq> None) cs)"
  by (induction cs) (auto simp: with_status_def split: option.splits)

lemma index_insert_new: "k \<notin> fst ` set m \<Longrightarrow> index_insert k v m = (None, m @ [(k, v)])"
  by (induction m) auto

lemma index_insert_old: "k \<in> fst ` set m \<Longrightarrow> \<exists>old m'. index_insert k v m = (Some old, m')"
proof (induction k v m rule: index_insert.induct)
  case (2 k v k' v' m)
  show ?case
  proof (cases "k' = k")
    case False
    then obtain old m' where "index_insert k v m = (Some old, m')" using 2 by auto
    then show ?thesis using False by simp
  qed simp
qed simp

lemma add_processes_levels:
  fixes w :: "'c directory"
  assumes "distinct (map fst results)"
  shows "(distinct (map fst results @ map desc_name cs) \<longrightarrow>
      add_processes w (map (\<lambda>c. (with_status w c, get_children w (desc_name c))) cs) results pending =
        Inr (results @ map (process_of w) cs, pending @ concat (map (\<lambda>c. found_addresses w (get_children w (desc_name c))) cs)))
    \<and> (\<not> distinct (map fst results @ map desc_name cs) \<longrightarrow>
      (\<exists>p. add_processes w (map (\<lambda>c. (with_status w c, get_children w (desc_name c))) cs) results pending = Inl (Circular p)))"
  using assms
proof (induction cs arbitrary: results pending)
  case (Cons c cs)
  show ?case
  proof (cases "desc_name c \<in> fst ` set results")
    case True
    then show ?thesis
      using index_insert_old [OF True, of "snd (process_of w c)"] by (auto simp: with_status_def process_of_def)
  next
    case False
    let ?r = "results @ [process_of w c]" and ?p = "pending @ found_addresses w (get_children w (desc_name c))"
    have ins: "index_insert (desc_name c) (desc_cfg c, the (dir_status w (desc_name c)), map desc_name (get_children w (desc_name c))) results
        = (None, ?r)" using index_insert_new [OF False] by (simp add: process_of_def)
    have "distinct (map fst ?r)" using Cons.prems False by (auto simp: process_of_def)
    moreover have "distinct (map fst results @ map desc_name (c # cs)) = distinct (map fst ?r @ map desc_name cs)"
      by (auto simp: process_of_def)
    ultimately show ?thesis
      using Cons.IH [of ?r ?p] ins by (simp add: with_status_def)
  qed
qed simp

text \<open>One round of the loop adds one level.\<close>

lemma processes_round:
  fixes w :: "'c directory"
  assumes "distinct (map desc_name (levels w rootn n))" "level w rootn n \<noteq> []"
  shows "distinct (map desc_name (levels w rootn (Suc n))) \<Longrightarrow>
      processes_loop w (map (with_status w) (level w rootn n)) (map (process_of w) (levels w rootn n)) =
      processes_loop w (map (with_status w) (level w rootn (Suc n))) (map (process_of w) (levels w rootn (Suc n)))"
    and "\<not> distinct (map desc_name (levels w rootn (Suc n))) \<Longrightarrow>
      \<exists>p. processes_loop w (map (with_status w) (level w rootn n)) (map (process_of w) (levels w rootn n)) = Some (Inl (Circular p))"
proof -
  let ?r = "map (process_of w) (levels w rootn n)"
  have fst: "map fst ?r = map desc_name (levels w rootn n)" by (simp add: process_of_def)
  have eq: "map (\<lambda>a. (a, get_children w (desc_name (snd a)))) (map (with_status w) (level w rootn n)) =
      map (\<lambda>c. (with_status w c, get_children w (desc_name c))) (level w rootn n)"
    by (simp add: with_status_def)
  have next_level: "concat (map (\<lambda>c. found_addresses w (get_children w (desc_name c))) (level w rootn n)) =
      map (with_status w) (level w rootn (Suc n))"
    by (simp add: found_addresses_eq map_concat comp_def)
  note add = add_processes_levels [of ?r "level w rootn n" w "[]", unfolded fst, OF assms(1)]
  have d: "distinct (map desc_name (levels w rootn n) @ map desc_name (level w rootn n)) =
      distinct (map desc_name (levels w rootn (Suc n)))" by (simp add: levels_Suc)
  show "processes_loop w (map (with_status w) (level w rootn n)) ?r =
      processes_loop w (map (with_status w) (level w rootn (Suc n))) (map (process_of w) (levels w rootn (Suc n)))"
    if "distinct (map desc_name (levels w rootn (Suc n)))"
    using add that d assms(2) next_level
    by (subst processes_loop.simps) (simp del: level.simps add: eq [unfolded map_map comp_def] comp_def levels_Suc)
  show "\<exists>p. processes_loop w (map (with_status w) (level w rootn n)) ?r = Some (Inl (Circular p))"
    if "\<not> distinct (map desc_name (levels w rootn (Suc n)))"
    using add that d assms(2)
    by (subst processes_loop.simps) (auto simp del: level.simps simp add: eq [unfolded map_map comp_def] comp_def)
qed

lemma processes_rounds:
  assumes "distinct (map desc_name (levels w rootn n))" "\<And>m. m < n \<Longrightarrow> level w rootn m \<noteq> []"
  shows "processes_loop w (map (with_status w) (level w rootn 0)) [] =
    processes_loop w (map (with_status w) (level w rootn n)) (map (process_of w) (levels w rootn n))"
  using assms
proof (induction n)
  case (Suc n)
  have "distinct (map desc_name (levels w rootn n))" using Suc.prems(1) by (simp add: levels_Suc)
  then show ?case using Suc processes_round(1) [of w rootn n] by (simp del: level.simps)
qed simp

lemma get_processes_start:
  "dir_status w rootn \<noteq> None \<Longrightarrow> get_processes w rootn = processes_loop w (map (with_status w) (level w rootn 0)) []"
  by (auto simp: get_processes_def with_status_def root_description_def)

lemma get_processes_ends:
  assumes "dir_status w rootn \<noteq> None" "level w rootn n = []" "distinct (map desc_name (levels w rootn n))"
  shows "get_processes w rootn = Some (Inr (map (process_of w) (levels w rootn n)))"
proof -
  define k where "k = (LEAST k. level w rootn k = [])"
  have k: "level w rootn k = []" "k \<le> n" and less: "level w rootn m \<noteq> []" if "m < k" for m
    using assms(2) that by (auto simp: k_def intro: LeastI Least_le dest: not_less_Least)
  have k: "level w rootn k = []" "k \<le> n" using assms(2) by (auto simp: k_def intro: LeastI Least_le)
  have "processes_loop w (map (with_status w) (level w rootn 0)) [] = Some (Inr (map (process_of w) (levels w rootn k)))"
    using processes_rounds [of w rootn k] less k distinct_levels [OF k(2) assms(3)]
    by (simp add: processes_loop.simps del: level.simps)
  then show ?thesis using get_processes_start [OF assms(1)] levels_empty [OF k] by (simp del: level.simps)
qed

lemma get_processes_circular:
  assumes "dir_status w rootn \<noteq> None" "\<not> distinct (map desc_name (levels w rootn n))"
  shows "\<exists>p. get_processes w rootn = Some (Inl (Circular p))"
proof -
  define k where "k = (LEAST k. \<not> distinct (map desc_name (levels w rootn k)))"
  have k: "\<not> distinct (map desc_name (levels w rootn k))" unfolding k_def by (rule LeastI [of _ n]) (rule assms(2))
  have less: "distinct (map desc_name (levels w rootn m))" if "m < k" for m
    using that by (auto simp: k_def dest: not_less_Least)
  obtain j where j: "k = Suc j" using k by (cases k) auto
  have "level w rootn m \<noteq> []" if "m \<le> j" for m
  proof
    assume "level w rootn m = []"
    then have "levels w rootn k = levels w rootn j" using levels_empty [of w rootn m] that j by (metis le_SucI)
    then show False using k less [of j] j by simp
  qed
  then show ?thesis
    using processes_rounds [of w rootn j] processes_round(2) [of w rootn j] less [of j] k j
    by (simp add: get_processes_start [OF assms(1)] del: level.simps)
qed

lemma processes_loop_result:
  assumes "processes_loop w pending results = Some out"
  shows "distinct (map desc_name (levels w rootn n)) \<Longrightarrow> pending = map (with_status w) (level w rootn n) \<Longrightarrow>
    results = map (process_of w) (levels w rootn n) \<Longrightarrow>
    \<exists>m. level w rootn m = [] \<or> \<not> distinct (map desc_name (levels w rootn m))"
proof -
  have "\<forall>n. distinct (map desc_name (levels w rootn n)) \<longrightarrow> pending = map (with_status w) (level w rootn n) \<longrightarrow>
    results = map (process_of w) (levels w rootn n) \<longrightarrow>
    (\<exists>m. level w rootn m = [] \<or> \<not> distinct (map desc_name (levels w rootn m)))" (is "?P pending results")
  proof (rule processes_loop.raw_induct [where P = "\<lambda>w' pending results out. w' = w \<longrightarrow> (\<forall>n.
      distinct (map desc_name (levels w rootn n)) \<longrightarrow> pending = map (with_status w) (level w rootn n) \<longrightarrow>
      results = map (process_of w) (levels w rootn n) \<longrightarrow>
      (\<exists>m. level w rootn m = [] \<or> \<not> distinct (map desc_name (levels w rootn m))))",
      OF _ assms, THEN mp, OF _ refl])
    fix loop :: "'a directory \<Rightarrow> (actor_status \<times> child_description) list \<Rightarrow> (name \<times> process_info) list
      \<Rightarrow> (api_error + (name \<times> process_info) list) option"
    fix w' :: "'a directory" and pending results out
    assume IH: "\<And>w' pending results out. loop w' pending results = Some out \<Longrightarrow> w' = w \<longrightarrow> ?P pending results"
      and run: "(if pending = [] then Some (Inr results)
        else case add_processes w' (map (\<lambda>a. (a, get_children w' (desc_name (snd a)))) pending) results [] of
             Inl e \<Rightarrow> Some (Inl e) | Inr (results, pending) \<Rightarrow> loop w' pending results) = Some out"
    show "w' = w \<longrightarrow> ?P pending results"
    proof (intro impI allI)
      fix n assume w: "w' = w" and d: "distinct (map desc_name (levels w rootn n))"
        and p: "pending = map (with_status w) (level w rootn n)" and r: "results = map (process_of w) (levels w rootn n)"
      show "\<exists>m. level w rootn m = [] \<or> \<not> distinct (map desc_name (levels w rootn m))"
      proof (rule ccontr)
        assume no: "\<not> ?thesis"
        then have ne: "level w rootn n \<noteq> []" and d': "distinct (map desc_name (levels w rootn (Suc n)))" by blast+
        have "distinct (map fst results @ map desc_name (level w rootn n))" "map fst results = map desc_name (levels w rootn n)"
          using d' r by (simp_all add: levels_Suc process_of_def comp_def)
        then have "add_processes w (map (\<lambda>a. (a, get_children w (desc_name (snd a)))) pending) results [] =
            Inr (map (process_of w) (levels w rootn (Suc n)), map (with_status w) (level w rootn (Suc n)))"
          using add_processes_levels [of results "level w rootn n" w "[]"]
          by (simp add: r p levels_Suc with_status_def found_addresses_eq map_concat comp_def)
        then have "loop w (map (with_status w) (level w rootn (Suc n))) (map (process_of w) (levels w rootn (Suc n))) = Some out"
          using run ne p w by (simp del: level.simps)
        from IH [OF this] d' no show False by blast
      qed
    qed
  qed
  then show "distinct (map desc_name (levels w rootn n)) \<Longrightarrow> pending = map (with_status w) (level w rootn n) \<Longrightarrow>
    results = map (process_of w) (levels w rootn n) \<Longrightarrow>
    \<exists>m. level w rootn m = [] \<or> \<not> distinct (map desc_name (levels w rootn m))" by blast
qed

section \<open>The levels and what is below the root\<close>

lemma found_children_registered:
  "dir_status w (desc_name d) \<noteq> None \<Longrightarrow> found_children w d = get_children w (desc_name d)"
  by (auto simp: found_children_def get_children_def)

lemma below_one: "below w d [i] = Some c \<longleftrightarrow> i < length (found_children w d) \<and> found_children w d ! i = c"
  by auto

lemma in_level:
  "c \<in> set (level w rootn n) \<longleftrightarrow>
    (\<exists>x. length x = n \<and> below w (root_description rootn) x = Some c \<and> dir_status w (desc_name c) \<noteq> None)"
proof (induction n arbitrary: c)
  case (Suc n)
  let ?b = "below w (root_description rootn)"
  have "c \<in> set (level w rootn (Suc n)) \<longleftrightarrow>
      (\<exists>e\<in>set (level w rootn n). c \<in> set (get_children w (desc_name e)) \<and> dir_status w (desc_name c) \<noteq> None)" by auto
  also have "\<dots> \<longleftrightarrow> (\<exists>x e i. length x = n \<and> ?b x = Some e \<and> below w e [i] = Some c \<and> dir_status w (desc_name c) \<noteq> None)"
    (is "?l \<longleftrightarrow> ?r")
  proof
    assume ?l
    then obtain e where e: "e \<in> set (level w rootn n)" "c \<in> set (get_children w (desc_name e))" "dir_status w (desc_name c) \<noteq> None"
      by blast
    then obtain x where x: "length x = n" "?b x = Some e" "dir_status w (desc_name e) \<noteq> None" using Suc.IH by blast
    then have "c \<in> set (found_children w e)" using e by (simp add: found_children_registered)
    then obtain i where "below w e [i] = Some c" unfolding below_one in_set_conv_nth by blast
    then show ?r using x e by blast
  next
    assume ?r
    then obtain x e i where x: "length x = n" "?b x = Some e" "below w e [i] = Some c" "dir_status w (desc_name c) \<noteq> None"
      by blast
    then have reg: "dir_status w (desc_name e) \<noteq> None" by (auto simp: found_children_def split: if_splits)
    then have "c \<in> set (get_children w (desc_name e))" using x(3) by (auto simp: found_children_registered split: if_splits)
    then show ?l using x Suc.IH [of e] reg by blast
  qed
  also have "\<dots> \<longleftrightarrow> (\<exists>x. length x = Suc n \<and> ?b x = Some c \<and> dir_status w (desc_name c) \<noteq> None)"
  proof -
    have "\<exists>y i. x = y @ [i] \<and> length y = n" if "length x = Suc n" for x :: "nat list"
      using that by (metis append_butlast_last_id length_append_singleton length_butlast diff_Suc_1 length_0_conv nat.distinct(1))
    then have "(\<exists>x. length x = Suc n \<and> ?b x = Some c) \<longleftrightarrow> (\<exists>y i. length y = n \<and> ?b (y @ [i]) = Some c)"
      by (metis length_append_singleton)
    then show ?thesis by (auto simp: below_append bind_eq_Some_conv simp del: below.simps)
  qed
  finally show ?case .
qed auto

lemma finite_below_length: "finite {x. length x = n \<and> below w d x \<noteq> None}"
proof (induction n arbitrary: d)
  case (Suc n)
  have "{x. length x = Suc n \<and> below w d x \<noteq> None} \<subseteq>
      (\<Union>i<length (found_children w d). Cons i ` {x. length x = n \<and> below w (found_children w d ! i) x \<noteq> None})"
    by (auto simp: length_Suc_conv split: if_splits)
  then show ?case by (rule finite_subset) (use Suc.IH in blast)
qed simp

lemma finite_below:
  assumes "level w rootn n = []"
  shows "finite {x. below w (root_description rootn) x \<noteq> None}"
proof (rule finite_subset)
  have "length x \<le> n" if x: "below w (root_description rootn) x \<noteq> None" for x
  proof (rule ccontr)
    assume "\<not> length x \<le> n"
    then obtain i r where d: "drop n x = i # r" by (cases "drop n x") auto
    have "x = take n x @ i # r" using d by (metis append_take_drop_id)
    then have "below w (root_description rootn) (take n x @ i # r) \<noteq> None" using x by simp
    then obtain e where e: "below w (root_description rootn) (take n x) = Some e" "below w e (i # r) \<noteq> None"
      by (auto simp: below_append bind_eq_Some_conv simp del: below.simps split: Option.bind_splits)
    then have "dir_status w (desc_name e) \<noteq> None" by (auto simp: found_children_def split: if_splits)
    then have "e \<in> set (level w rootn n)"
      using e(1) \<open>\<not> length x \<le> n\<close> in_level [of e w rootn n] by (auto intro!: exI [of _ "take n x"])
    then show False using assms by simp
  qed
  then show "{x. below w (root_description rootn) x \<noteq> None} \<subseteq>
      (\<Union>k\<le>n. {x. length x = k \<and> below w (root_description rootn) x \<noteq> None})" by auto
  show "finite (\<Union>k\<le>n. {x. length x = k \<and> below w (root_description rootn) x \<noteq> None})"
    by (rule finite_UN_I) (rule finite_atMost, rule finite_below_length)
qed

lemma levels_registered: "c \<in> set (levels w rootn n) \<Longrightarrow> dir_status w (desc_name c) \<noteq> None"
  unfolding levels_def by (auto simp: in_level simp del: level.simps)

lemma names_of_levels:
  assumes "level w rootn n = []"
  shows "set (levels w rootn n) =
    {c. dir_status w (desc_name c) \<noteq> None \<and> (\<exists>x. below w (root_description rootn) x = Some c)}"
proof -
  have "c \<in> set (levels w rootn n)" if "c \<in> set (level w rootn m)" for c m
    using that level_empty [OF assms, of m] by (cases "m < n") (auto simp: levels_def)
  moreover have "\<exists>m. c \<in> set (level w rootn m)" if "c \<in> set (levels w rootn n)" for c using that by (auto simp: levels_def)
  ultimately show ?thesis using in_level [of _ w rootn] by blast
qed

lemma levels_grow: "(\<And>m. m < n \<Longrightarrow> level w rootn m \<noteq> []) \<Longrightarrow> n \<le> length (levels w rootn n)"
proof (induction n)
  case (Suc n)
  then show ?case using Suc.prems [of n] by (cases "level w rootn n") (auto simp: levels_Suc)
qed simp

lemma walk_ends_in_finite_registry:
  assumes "finite {n. dir_status w n \<noteq> None}"
  shows "\<exists>m. level w rootn m = [] \<or> \<not> distinct (map desc_name (levels w rootn m))"
proof (rule ccontr)
  assume no: "\<not> ?thesis"
  let ?N = "Suc (card {n. dir_status w n \<noteq> None})"
  have "set (map desc_name (levels w rootn ?N)) \<subseteq> {n. dir_status w n \<noteq> None}"
    using levels_registered by fastforce
  then have "card (set (map desc_name (levels w rootn ?N))) \<le> card {n. dir_status w n \<noteq> None}"
    using assms by (rule card_mono [rotated])
  moreover have "card (set (map desc_name (levels w rootn ?N))) = length (map desc_name (levels w rootn ?N))"
    using no by (intro distinct_card) blast
  moreover have "?N \<le> length (levels w rootn ?N)" using no by (intro levels_grow) blast
  ultimately show False by simp
qed

section \<open>Properties\<close>



end
