(* ===== verification/Cluster_Node.thy ===== *)
theory Cluster_Node
  imports Node_Run Membership Lane Remote_Delivery
begin

text \<open>
  A node of a cluster (distr/src/cluster/node): its configuration, and how it runs, from claiming its
  generation over starting its backend, its membership task and its messaging to the way out. With what of
  membership (cluster/membership/mod.rs) and messaging (messaging/node.rs) is started and stopped there.

  The failure detector and the random generator are not part of the repository: their types are variables,
  and what makes them are functions given in a \<open>cluster_env\<close>.
\<close>

section \<open>Configuration\<close>

record seed =
  seed_node :: name
  seed_addr :: string

record cluster_timings =
  seed_retry :: duration
  departure_grace :: duration
  leave_grace :: duration

definition cluster_timings_default :: cluster_timings where
  "cluster_timings_default =
     \<lparr>seed_retry = 5000000000, departure_grace = 300000000, leave_grace = 1000000000\<rparr>"

record ('f, 'b) cluster_config =
  cc_node_id :: name
  cc_backend :: 'b
  cc_advertise :: "string option"
  cc_seeds :: "seed list"
  cc_foca :: "'f option"
  cc_expected_size :: nat
  cc_timings :: cluster_timings
  cc_link_timings :: link_timings
  cc_rng_seed :: "u64 option"
  cc_generation_store :: "string option"
  cc_call_timeout :: duration
  cc_lanes :: nat
  cc_handlers :: handlers

text \<open>None is the panic of the handlers: two types with one id.\<close>

definition cluster_config_new :: "name \<Rightarrow> 'b \<Rightarrow> ('f, 'b) cluster_config option" where
  "cluster_config_new n backend = map_option (\<lambda>h. \<lparr>cc_node_id = n, cc_backend = backend, cc_advertise = None,
     cc_seeds = [], cc_foca = None, cc_expected_size = 32, cc_timings = cluster_timings_default,
     cc_link_timings = default_timings, cc_rng_seed = None, cc_generation_store = None,
     cc_call_timeout = 30000000000, cc_lanes = 4, cc_handlers = h\<rparr>) handlers_new"

definition config_register ::
    "u128 \<Rightarrow> type_id \<Rightarrow> ('f, 'b) cluster_config \<Rightarrow> ('f, 'b) cluster_config option" where
  "config_register i ty c = map_option (\<lambda>h. c\<lparr>cc_handlers := h\<rparr>) (insert_handler i ty (cc_handlers c))"

definition config_seed :: "seed \<Rightarrow> ('f, 'b) cluster_config \<Rightarrow> ('f, 'b) cluster_config" where
  "config_seed s c = c\<lparr>cc_seeds := cc_seeds c @ [s]\<rparr>"

definition config_advertise :: "string \<Rightarrow> ('f, 'b) cluster_config \<Rightarrow> ('f, 'b) cluster_config" where
  "config_advertise addr c = c\<lparr>cc_advertise := Some addr\<rparr>"

definition config_expected_size :: "nat \<Rightarrow> ('f, 'b) cluster_config \<Rightarrow> ('f, 'b) cluster_config" where
  "config_expected_size n c = c\<lparr>cc_expected_size := n\<rparr>"

definition config_timings :: "cluster_timings \<Rightarrow> ('f, 'b) cluster_config \<Rightarrow> ('f, 'b) cluster_config" where
  "config_timings t c = c\<lparr>cc_timings := t\<rparr>"

definition config_link_timings :: "link_timings \<Rightarrow> ('f, 'b) cluster_config \<Rightarrow> ('f, 'b) cluster_config" where
  "config_link_timings t c = c\<lparr>cc_link_timings := t\<rparr>"

definition config_generation_store :: "string \<Rightarrow> ('f, 'b) cluster_config \<Rightarrow> ('f, 'b) cluster_config" where
  "config_generation_store path c = c\<lparr>cc_generation_store := Some path\<rparr>"

definition config_call_timeout :: "duration \<Rightarrow> ('f, 'b) cluster_config \<Rightarrow> ('f, 'b) cluster_config" where
  "config_call_timeout d c = c\<lparr>cc_call_timeout := d\<rparr>"

definition config_lanes :: "nat \<Rightarrow> ('f, 'b) cluster_config \<Rightarrow> ('f, 'b) cluster_config" where
  "config_lanes n c = c\<lparr>cc_lanes := n\<rparr>"

definition config_rng_seed :: "u64 \<Rightarrow> ('f, 'b) cluster_config \<Rightarrow> ('f, 'b) cluster_config" where
  "config_rng_seed x c = c\<lparr>cc_rng_seed := Some x\<rparr>"

definition config_foca :: "'f \<Rightarrow> ('f, 'b) cluster_config \<Rightarrow> ('f, 'b) cluster_config" where
  "config_foca f c = c\<lparr>cc_foca := Some f\<rparr>"

record ('f, 'r, 's) cluster_env =
  env_new_lan :: "nat \<Rightarrow> 'f"
  env_max_packet_size :: "nat \<Rightarrow> 'f \<Rightarrow> 'f"
  env_seeded_rng :: "u64 \<Rightarrow> 'r"
  env_made_rng :: 'r
  env_foca_new :: "member \<Rightarrow> 'f \<Rightarrow> 'r \<Rightarrow> 's"
  env_foca :: "'s foca"

record ('f, 'r) driver_options =
  opt_foca :: 'f
  opt_seeds :: "seed list"
  opt_timings :: cluster_timings
  opt_rng :: 'r

definition membership_options ::
    "('f, 'r, 's) cluster_env \<Rightarrow> ('f, 'b) cluster_config \<Rightarrow> ('f, 'r) driver_options" where
  "membership_options E c = \<lparr>
     opt_foca = (case cc_foca c of Some f \<Rightarrow> f
       | None \<Rightarrow> env_max_packet_size E 1000 (env_new_lan E (cc_expected_size c))),
     opt_seeds = cc_seeds c, opt_timings = cc_timings c,
     opt_rng = (case cc_rng_seed c of Some x \<Rightarrow> env_seeded_rng E x | None \<Rightarrow> env_made_rng E)\<rparr>"

section \<open>A node\<close>

record comm_view =
  cv_call_timeout :: duration
  cv_shards :: nat
  cv_handlers :: handlers
  cv_running :: bool
  cv_calls :: calls

definition comm_view_new :: "duration \<Rightarrow> nat \<Rightarrow> handlers \<Rightarrow> comm_view" where
  "comm_view_new t n h = \<lparr>cv_call_timeout = t, cv_shards = n, cv_handlers = h, cv_running = False, cv_calls = calls_new\<rparr>"

record ('f, 'b) cluster_node =
  cnode_config :: "('f, 'b) cluster_config"
  cnode_cluster :: cluster
  cnode_view :: comm_view

text \<open>The handlers move out of the configuration; new ones, which are not used, take their place.\<close>

definition from_node :: "('f, 'b) cluster_config \<Rightarrow> ('f, 'b) cluster_node option" where
  "from_node c = map_option (\<lambda>h. \<lparr>cnode_config = c\<lparr>cc_handlers := h\<rparr>,
     cnode_cluster = cluster_new \<lparr>member_name = cc_node_id c,
       member_addr = (case cc_advertise c of Some addr \<Rightarrow> addr | None \<Rightarrow> ''0.0.0.0:0''), member_generation = 0\<rparr>,
     cnode_view = comm_view_new (cc_call_timeout c) (cc_lanes c) (cc_handlers c)\<rparr>) handlers_new"

datatype cluster_node_error = BackendFailed string | GenerationFailed | NodeStopped node_error

fun cluster_exit_code :: "cluster_node_error \<Rightarrow> int" where
  "cluster_exit_code (NodeStopped e) = exit_code e"
| "cluster_exit_code (BackendFailed _) = 1"
| "cluster_exit_code GenerationFailed = 1"

section \<open>Running it\<close>

datatype command = AnnounceSeed member | Leave

datatype leave_phase = LeaveSends | LeaveWaits instant | LeaveJoins

datatype run_phase =
    Claiming
  | Binding u64
  | Announcing "member list"
  | Running_Node node_state
  | Leaving "node_error + unit" leave_phase
  | Shutting_Links "node_error + unit"
  | Run_Ended "cluster_node_error + unit"
  | Run_Cancelled "unit owned_child option"

datatype links_phase = LinksNone | LinksUp | LinksShut | LinksDropped

text \<open>
  The driver is there while its task runs. Senders are calls that have found messaging running and not yet
  begun to wait; \<open>nt_late\<close> remembers the waits begun after messaging stopped.
\<close>

record ('f, 'b, 's) node_task =
  nt_node :: "('f, 'b) cluster_node"
  nt_phase :: run_phase
  nt_driver :: "'s driver option"
  nt_commands :: "command list"
  nt_links :: links_phase
  nt_senders :: nat
  nt_late :: "u64 list"

abbreviation nt_config :: "('f, 'b, 's) node_task \<Rightarrow> ('f, 'b) cluster_config" where
  "nt_config s \<equiv> cnode_config (nt_node s)"

abbreviation nt_cluster :: "('f, 'b, 's) node_task \<Rightarrow> cluster" where
  "nt_cluster s \<equiv> cnode_cluster (nt_node s)"

abbreviation nt_view :: "('f, 'b, 's) node_task \<Rightarrow> comm_view" where
  "nt_view s \<equiv> cnode_view (nt_node s)"

abbreviation nt_calls :: "('f, 'b, 's) node_task \<Rightarrow> calls" where
  "nt_calls s \<equiv> cv_calls (nt_view s)"

definition set_view :: "comm_view \<Rightarrow> ('f, 'b, 's) node_task \<Rightarrow> ('f, 'b, 's) node_task" where
  "set_view v s = s\<lparr>nt_node := (nt_node s)\<lparr>cnode_view := v\<rparr>\<rparr>"

definition set_calls :: "calls \<Rightarrow> ('f, 'b, 's) node_task \<Rightarrow> ('f, 'b, 's) node_task" where
  "set_calls c s = set_view ((nt_view s)\<lparr>cv_calls := c\<rparr>) s"

definition set_driver :: "'s driver \<Rightarrow> bool \<Rightarrow> ('f, 'b, 's) node_task \<Rightarrow> ('f, 'b, 's) node_task" where
  "set_driver d goes_on s = s\<lparr>nt_node := (nt_node s)\<lparr>cnode_cluster := drv_cluster d\<rparr>,
     nt_driver := (if goes_on then Some d else None)\<rparr>"

definition node_task_new :: "('f, 'b) cluster_node \<Rightarrow> ('f, 'b, 's) node_task" where
  "node_task_new n = \<lparr>nt_node = n, nt_phase = Claiming, nt_driver = None, nt_commands = [], nt_links = LinksNone,
     nt_senders = 0, nt_late = []\<rparr>"

definition command_queue :: nat where
  "command_queue = 16"

definition claim_step ::
    "stored \<Rightarrow> u64 \<Rightarrow> (u64 \<times> u64) list \<Rightarrow> ('f, 'b, 's) node_task \<Rightarrow> ('f, 'b, 's) node_task" where
  "claim_step file latest attempts s =
     (case next_generation (if cc_generation_store (nt_config s) = None then None else Some file) latest attempts of
        None \<Rightarrow> s
      | Some (Inl e) \<Rightarrow> s\<lparr>nt_phase := Run_Ended (Inl GenerationFailed)\<rparr>
      | Some (Inr g) \<Rightarrow> s\<lparr>nt_phase := Binding g\<rparr>)"

text \<open>The backend gives the address it listens on; with it up, membership starts before the next await.\<close>

definition seed_member :: "seed \<Rightarrow> member" where
  "seed_member sd = \<lparr>member_name = seed_node sd, member_addr = seed_addr sd, member_generation = 0\<rparr>"

definition backend_step ::
    "('f, 'r, 's) cluster_env \<Rightarrow> u64 \<Rightarrow> string + string \<Rightarrow> ('f, 'b, 's) node_task \<Rightarrow> ('f, 'b, 's) node_task option" where
  "backend_step E g r s =
     (case r of
        Inl e \<Rightarrow> Some (s\<lparr>nt_phase := Run_Ended (Inl (BackendFailed e))\<rparr>)
      | Inr addr \<Rightarrow>
          (let c = nt_config s; options = membership_options E c;
               local = \<lparr>member_name = cc_node_id c,
                 member_addr = (case cc_advertise c of Some a \<Rightarrow> a | None \<Rightarrow> addr), member_generation = g\<rparr>;
               seeds = map seed_member (opt_seeds options) in
           map_option (\<lambda>d. (set_driver d True s)\<lparr>nt_links := LinksUp, nt_phase := Announcing seeds\<rparr>)
             (membership_start (env_foca_new E local (opt_foca options) (opt_rng options)) local seeds (nt_cluster s))))"

text \<open>Each seed is announced once there is room in the queue; when all are, messaging starts.\<close>

definition messaging_starts :: "('f, 'b, 's) node_task \<Rightarrow> ('f, 'b, 's) node_task" where
  "messaging_starts s = set_view ((nt_view s)\<lparr>cv_running := True,
     cv_calls := calls_new\<lparr>next_call := next_call (nt_calls s)\<rparr>\<rparr>) s"

fun announce_step :: "member list \<Rightarrow> ('f, 'b, 's) node_task \<Rightarrow> ('f, 'b, 's) node_task" where
  "announce_step [] s = (messaging_starts s)\<lparr>nt_phase := Running_Node node_new\<rparr>"
| "announce_step (sd # seeds) s =
     (if nt_driver s = None then s\<lparr>nt_phase := Announcing seeds\<rparr>
      else if length (nt_commands s) < command_queue
      then s\<lparr>nt_commands := nt_commands s @ [AnnounceSeed sd], nt_phase := Announcing seeds\<rparr>
      else s)"

text \<open>Dropping what messaging returned stops it, and ends the calls still waiting.\<close>

definition drop_messaging :: "('f, 'b, 's) node_task \<Rightarrow> ('f, 'b, 's) node_task" where
  "drop_messaging s =
     (if cv_running (nt_view s)
      then set_view ((nt_view s)\<lparr>cv_running := False, cv_calls := fail_all (nt_calls s)\<rparr>) s else s)"

definition node_step ::
    "duration \<Rightarrow> node_event \<Rightarrow> node_state \<Rightarrow> ('f, 'b, 's) node_task \<Rightarrow> ('f, 'b, 's) node_task option" where
  "node_step abort e n s =
     (case e of
        RootEnds r \<Rightarrow> Some (s\<lparr>nt_phase := Running_Node (root_ends r n)\<rparr>)
      | NodePolled i \<Rightarrow>
          (case node_poll abort i n of
             None \<Rightarrow> None
           | Some (Pending, n) \<Rightarrow> Some (s\<lparr>nt_phase := Running_Node n\<rparr>)
           | Some (Ready r, n) \<Rightarrow> Some ((drop_messaging s)\<lparr>nt_phase := Leaving r LeaveSends\<rparr>)))"

text \<open>Leaving: the command is sent, its answer awaited for a while, and then the end of the task.\<close>

fun leave_poll :: "instant \<Rightarrow> node_error + unit \<Rightarrow> leave_phase \<Rightarrow> ('f, 'b, 's) node_task \<Rightarrow> ('f, 'b, 's) node_task" where
  "leave_poll now r LeaveSends s =
     (if nt_driver s = None then s\<lparr>nt_phase := Leaving r LeaveJoins\<rparr>
      else if length (nt_commands s) < command_queue
      then s\<lparr>nt_commands := nt_commands s @ [Leave],
        nt_phase := Leaving r (LeaveWaits (now + leave_grace (cc_timings (nt_config s))))\<rparr>
      else s)"
| "leave_poll now r (LeaveWaits until) s =
     (if nt_driver s = None \<or> until \<le> now then s\<lparr>nt_phase := Leaving r LeaveJoins\<rparr> else s)"
| "leave_poll now r LeaveJoins s =
     (if nt_driver s = None then s\<lparr>nt_phase := Shutting_Links r\<rparr> else s)"

text \<open>The membership task takes one event or one command at a time; a leave ends it.\<close>

definition driver_step ::
    "'s foca \<Rightarrow> driver_event \<Rightarrow> ('f, 'b, 's) node_task \<Rightarrow> ('f, 'b, 's) node_task option" where
  "driver_step F e s =
     (case nt_driver s of
        None \<Rightarrow> Some s
      | Some d \<Rightarrow> map_option (\<lambda>d. set_driver d (e \<noteq> LeaveCommand) s) (drain (driver_handle F e d)))"

definition command_step :: "'s foca \<Rightarrow> ('f, 'b, 's) node_task \<Rightarrow> ('f, 'b, 's) node_task option" where
  "command_step F s =
     (case nt_commands s of
        [] \<Rightarrow> Some s
      | AnnounceSeed m # cs \<Rightarrow> driver_step F (AnnounceCommand m) (s\<lparr>nt_commands := cs\<rparr>)
      | Leave # cs \<Rightarrow> driver_step F LeaveCommand (s\<lparr>nt_commands := cs\<rparr>))"

text \<open>Dropping the future of the run drops what it holds: messaging, the membership task, the node, the links.\<close>

definition run_child :: "run_phase \<Rightarrow> unit owned_child option" where
  "run_child p = (case p of Running_Node n \<Rightarrow> map_option child_drop (node_child n) | _ \<Rightarrow> None)"

definition cancel_run :: "('f, 'b, 's) node_task \<Rightarrow> ('f, 'b, 's) node_task" where
  "cancel_run s = (drop_messaging s)\<lparr>nt_driver := None, nt_phase := Run_Cancelled (run_child (nt_phase s)),
     nt_links := (if nt_links s = LinksUp then LinksDropped else nt_links s)\<rparr>"

definition run_over :: "run_phase \<Rightarrow> bool" where
  "run_over p \<longleftrightarrow> (case p of Run_Ended _ \<Rightarrow> True | Run_Cancelled _ \<Rightarrow> True | _ \<Rightarrow> False)"

datatype run_event =
    Claims stored u64 "(u64 \<times> u64) list"
  | BackendStarts "string + string"
  | Announces
  | Node node_event
  | Leaves instant
  | LinksShutDown
  | Drives driver_event
  | TakesCommand
  | Cancels
  | SenderReads
  | SenderInserts u64 name
  | Answers u64 name "remote_error + bytes"
  | LosesNode name
  | GivesUp u64

fun is_command :: "driver_event \<Rightarrow> bool" where
  "is_command (AnnounceCommand m) = True"
| "is_command LeaveCommand = True"
| "is_command CommandsClosed = True"
| "is_command e = False"

text \<open>A step that is not due does nothing. None is a panic.\<close>

fun run_step ::
    "('f, 'r, 's) cluster_env \<Rightarrow> duration \<Rightarrow> run_event \<Rightarrow> ('f, 'b, 's) node_task \<Rightarrow> ('f, 'b, 's) node_task option" where
  "run_step E abort (Claims file latest attempts) s =
     Some (if nt_phase s = Claiming then claim_step file latest attempts s else s)"
| "run_step E abort (BackendStarts r) s = (case nt_phase s of Binding g \<Rightarrow> backend_step E g r s | _ \<Rightarrow> Some s)"
| "run_step E abort Announces s = Some (case nt_phase s of Announcing seeds \<Rightarrow> announce_step seeds s | _ \<Rightarrow> s)"
| "run_step E abort (Node e) s = (case nt_phase s of Running_Node n \<Rightarrow> node_step abort e n s | _ \<Rightarrow> Some s)"
| "run_step E abort (Leaves now) s = Some (case nt_phase s of Leaving r p \<Rightarrow> leave_poll now r p s | _ \<Rightarrow> s)"
| "run_step E abort LinksShutDown s = Some (case nt_phase s of
     Shutting_Links r \<Rightarrow> s\<lparr>nt_links := LinksShut, nt_phase := Run_Ended (map_sum NodeStopped id r)\<rparr> | _ \<Rightarrow> s)"
| "run_step E abort (Drives e) s = (if is_command e then Some s else driver_step (env_foca E) e s)"
| "run_step E abort TakesCommand s = (if nt_driver s = None then Some s else command_step (env_foca E) s)"
| "run_step E abort Cancels s = Some (if run_over (nt_phase s) then s else cancel_run s)"
| "run_step E abort SenderReads s = Some (if cv_running (nt_view s) then s\<lparr>nt_senders := nt_senders s + 1\<rparr> else s)"
| "run_step E abort (SenderInserts i n) s = Some (if nt_senders s = 0 then s
     else (set_calls (pending_insert i n (nt_calls s)) s)\<lparr>nt_senders := nt_senders s - 1,
       nt_late := (if cv_running (nt_view s) then nt_late s else i # nt_late s)\<rparr>)"
| "run_step E abort (Answers i n r) s = Some (if cv_running (nt_view s) then set_calls (complete n i r (nt_calls s)) s else s)"
| "run_step E abort (LosesNode n) s = Some (if cv_running (nt_view s) then set_calls (fail_node n (nt_calls s)) s else s)"
| "run_step E abort (GivesUp i) s = Some (set_calls (pending_remove i (nt_calls s)) s)"

fun run_steps ::
    "('f, 'r, 's) cluster_env \<Rightarrow> duration \<Rightarrow> run_event list \<Rightarrow> ('f, 'b, 's) node_task \<Rightarrow> ('f, 'b, 's) node_task option" where
  "run_steps E abort [] s = Some s"
| "run_steps E abort (e # es) s = Option.bind (run_step E abort e s) (run_steps E abort es)"

section \<open>The status on the way out\<close>

definition has_left :: "cluster \<Rightarrow> bool" where
  "has_left c \<longleftrightarrow> cluster_status c = NodeLeaving \<or> cluster_status c = NodeDefunct"

lemma status_of_mutators [simp]:
  "cluster_status (member_up m c) = cluster_status c"
  "cluster_status (member_failed m c) = cluster_status c"
  "cluster_status (member_renamed m m' c) = cluster_status c"
  by (simp_all add: member_up_def member_failed_def member_renamed_def insert_member_def remove_member_def
      clear_unreachable_def publish_def Let_def)

lemma has_left_set_status: "has_left c \<Longrightarrow> has_left (snd (set_status NodeDefunct c))"
  by (auto simp: has_left_def set_status_def Let_def)

lemma cluster_of_driver [simp]:
  "drv_cluster (cancel_pending n d) = drv_cluster d"
  "drv_cluster (forget_links m d) = drv_cluster d"
  "drv_cluster (add_pending m d) = drv_cluster d"
  by (simp_all add: cancel_pending_def forget_links_def add_pending_def remove_entry_def Let_def split: option.split)

lemma notify_has_left: "notify n d = Some d' \<Longrightarrow> has_left (drv_cluster d) \<Longrightarrow> has_left (drv_cluster d')"
  by (cases n) (auto simp: has_left_def set_local_def set_status_def Let_def split: if_splits)

lemma notify_all_has_left: "notify_all ns d = Some d' \<Longrightarrow> has_left (drv_cluster d) \<Longrightarrow> has_left (drv_cluster d')"
  by (induction ns d rule: notify_all.induct) (auto split: option.splits intro: notify_has_left)

lemma drain_has_left:
  assumes "drain d = Some d'" "has_left (drv_cluster d)"
  shows "has_left (drv_cluster d')"
  by (rule notify_all_has_left [OF assms(1) [unfolded drain_def Let_def]]) (simp add: fold_sends assms(2))

lemma leave_has_left: "drain (driver_handle F LeaveCommand d) = Some d' \<Longrightarrow> has_left (drv_cluster d')"
  by (erule drain_has_left)
    (auto simp: drv_leave_def Let_def fold_departures has_left_def set_status_def
      intro: node_status.exhaust [of "cluster_status (drv_cluster d)"])

section \<open>What holds of a running node\<close>

definition phase_ok :: "cluster \<Rightarrow> ('f, 'b, 's) node_task \<Rightarrow> bool" where
  "phase_ok c0 s \<longleftrightarrow> (let idle = (nt_driver s = None \<and> nt_cluster s = c0 \<and> nt_links s = LinksNone);
       gone = (nt_driver s = None \<and> has_left (nt_cluster s)) in
     case nt_phase s of
       Claiming \<Rightarrow> idle
     | Binding g \<Rightarrow> idle
     | Announcing seeds \<Rightarrow> nt_driver s \<noteq> None \<and> nt_links s = LinksUp
     | Running_Node n \<Rightarrow> nt_driver s \<noteq> None \<and> nt_links s = LinksUp \<and> node_ok n
     | Leaving r p \<Rightarrow> nt_links s = LinksUp \<and> (nt_driver s = None \<longrightarrow> has_left (nt_cluster s))
     | Shutting_Links r \<Rightarrow> gone \<and> nt_links s = LinksUp
     | Run_Ended (Inl (NodeStopped e)) \<Rightarrow> gone \<and> nt_links s = LinksShut
     | Run_Ended (Inr u) \<Rightarrow> gone \<and> nt_links s = LinksShut
     | Run_Ended r \<Rightarrow> idle
     | Run_Cancelled c \<Rightarrow> nt_driver s = None \<and> nt_links s \<noteq> LinksUp)"

definition is_leaving :: "run_phase \<Rightarrow> bool" where
  "is_leaving p \<longleftrightarrow> (case p of Claiming \<Rightarrow> False | Binding g \<Rightarrow> False | Announcing seeds \<Rightarrow> False | Running_Node n \<Rightarrow> False | _ \<Rightarrow> True)"

definition node_task_ok :: "name \<Rightarrow> cluster \<Rightarrow> ('f, 'b, 's) node_task \<Rightarrow> bool" where
  "node_task_ok me c0 s \<longleftrightarrow> cc_node_id (nt_config s) = me \<and> cluster_local_name (nt_cluster s) = me
     \<and> (\<forall>d. nt_driver s = Some d \<longrightarrow> driver_ok d \<and> drv_cluster d = nt_cluster s)
     \<and> phase_ok c0 s \<and> (Leave \<in> set (nt_commands s) \<longrightarrow> is_leaving (nt_phase s))
     \<and> (cv_running (nt_view s) \<longleftrightarrow> (\<exists>n. nt_phase s = Running_Node n))
     \<and> (\<not> cv_running (nt_view s) \<longrightarrow> fst ` set (pending_calls (nt_calls s)) \<subseteq> set (nt_late s))"

lemmas task_defs = node_task_ok_def phase_ok_def is_leaving_def set_view_def Let_def

lemma phase_ok_updates [simp]:
  "phase_ok c0 (s\<lparr>nt_commands := cs\<rparr>) = phase_ok c0 s"
  "phase_ok c0 (s\<lparr>nt_senders := n\<rparr>) = phase_ok c0 s"
  "phase_ok c0 (s\<lparr>nt_late := late\<rparr>) = phase_ok c0 s"
  "phase_ok c0 (set_calls calls s) = phase_ok c0 s"
  by (cases "nt_phase s"; simp add: phase_ok_def set_calls_def set_view_def split: sum.split cluster_node_error.split)+

lemma run_over_ok:
  assumes "phase_ok c0 s" "run_over (nt_phase s)"
  shows "nt_driver s = None \<and> nt_links s \<noteq> LinksUp"
proof (cases "nt_phase s")
  case (Run_Ended r)
  show ?thesis
  proof (cases r)
    case (Inl e)
    then show ?thesis using assms Run_Ended by (cases e) (simp_all add: phase_ok_def)
  qed (use assms Run_Ended in \<open>simp add: phase_ok_def\<close>)
qed (use assms in \<open>simp_all add: run_over_def phase_ok_def\<close>)

lemma set_calls_simps [simp]:
  "nt_driver (set_calls calls s) = nt_driver s" "nt_cluster (set_calls calls s) = nt_cluster s"
  "nt_config (set_calls calls s) = nt_config s" "nt_commands (set_calls calls s) = nt_commands s"
  "nt_phase (set_calls calls s) = nt_phase s" "nt_links (set_calls calls s) = nt_links s"
  "nt_late (set_calls calls s) = nt_late s" "cv_running (nt_view (set_calls calls s)) = cv_running (nt_view s)"
  "nt_calls (set_calls calls s) = calls"
  by (simp_all add: set_calls_def set_view_def)

lemma fst_remove [simp]: "fst ` set (snd (imap_shift_remove i m)) = fst ` set m - {i}"
  by (auto simp: imap_shift_remove_def image_iff)

lemma pending_answer [simp]: "fst ` set (pending_calls (answer i a s)) = fst ` set (pending_calls s) - {i}"
  by (simp add: answer_def)

lemma fail_all_empty [simp]: "pending_calls (fail_all s) = []"
proof -
  define f where "f = (\<lambda>i s. if map_of (pending_calls s) i = None then s else answer i (Inl ReplyDisconnected) s)"
  have f: "fst ` set (pending_calls (f i s)) \<subseteq> fst ` set (pending_calls s) - {i}" for i s
    by (auto simp: f_def map_of_eq_None_iff)
  have "fst ` set (pending_calls (fold f is s)) \<subseteq> fst ` set (pending_calls s) - set is" for "is"
  proof (induction "is" arbitrary: s)
    case (Cons i "is")
    show ?case using Cons [of "f i s"] f [of i s] by auto
  qed simp
  from this [of "map fst (pending_calls s)"] have "fst ` set (pending_calls (fail_all s)) = {}"
    by (simp add: fail_all_def f_def)
  then show ?thesis by simp
qed

lemma pending_insert_keys: "fst ` set (pending_calls (pending_insert i n s)) = insert i (fst ` set (pending_calls s))"
  by (auto simp: pending_insert_def Let_def)

lemma node_task_ok_new:
  assumes "from_node c = Some n"
  shows "node_task_ok (cc_node_id c) (cnode_cluster n) (node_task_new n)"
    "cnode_cluster n = cluster_new (cluster_local (cnode_cluster n))"
    "member_name (cluster_local (cnode_cluster n)) = cc_node_id c"
  using assms by (auto simp: task_defs from_node_def node_task_new_def comm_view_new_def calls_new_def cluster_new_def)

lemma driver_step_ok:
  assumes F: "foca_keeps_names me F" and ok: "node_task_ok me c0 s"
    and leave: "e = LeaveCommand \<longrightarrow> is_leaving (nt_phase s)"
  shows "\<exists>s'. driver_step F e s = Some s' \<and> node_task_ok me c0 s'"
proof (cases "nt_driver s")
  case (Some d)
  have d: "driver_ok d" "drv_cluster d = nt_cluster s" "cluster_local_name (drv_cluster d) = me"
    using ok Some by (auto simp: node_task_ok_def)
  have h: "goes_to d (driver_handle F e d)" by (rule handle_goes_to) (use F d in auto)
  obtain d' where d': "drain (driver_handle F e d) = Some d'" "goes_to (driver_handle F e d) d'"
    using drain_ok [OF goes_to_ok [OF h]] by blast
  have "driver_ok d'" "cluster_local_name (drv_cluster d') = me"
    using goes_to_ok [OF d'(2)] goes_to_local [OF goes_to_trans [OF h d'(2)]] d(3) by simp_all
  moreover have "has_left (drv_cluster d')" if "e = LeaveCommand"
    using leave_has_left d'(1) that by blast
  ultimately have "node_task_ok me c0 (set_driver d' (e \<noteq> LeaveCommand) s)"
    using ok Some leave
    by (auto simp: task_defs set_driver_def split: run_phase.splits sum.splits cluster_node_error.splits)
  then show ?thesis by (simp add: driver_step_def Some d'(1))
qed (use ok in \<open>simp add: driver_step_def\<close>)

lemma command_step_ok:
  assumes F: "foca_keeps_names me F" and ok: "node_task_ok me c0 s"
  shows "\<exists>s'. command_step F s = Some s' \<and> node_task_ok me c0 s'"
proof (cases "nt_commands s")
  case (Cons x cs)
  have ok': "node_task_ok me c0 (s\<lparr>nt_commands := cs\<rparr>)" using ok Cons by (auto simp: node_task_ok_def)
  show ?thesis
  proof (cases x)
    case (AnnounceSeed m)
    then show ?thesis using driver_step_ok [OF F ok', of "AnnounceCommand m"] by (simp add: command_step_def Cons)
  next
    case Leave
    then have "is_leaving (nt_phase s)" using ok Cons by (simp add: node_task_ok_def)
    then show ?thesis using driver_step_ok [OF F ok', of LeaveCommand] Leave by (simp add: command_step_def Cons)
  qed
qed (use ok in \<open>simp add: command_step_def\<close>)

lemma backend_step_ok:
  assumes "node_task_ok me c0 s" "nt_phase s = Binding g" "c0 = cluster_new m" "member_name m = me"
  shows "\<exists>s'. backend_step E g r s = Some s' \<and> node_task_ok me c0 s'"
proof (cases r)
  case (Inr addr)
  let ?c = "nt_config s"
  let ?local = "\<lparr>member_name = cc_node_id ?c,
      member_addr = (case cc_advertise ?c of Some a \<Rightarrow> a | None \<Rightarrow> addr), member_generation = g\<rparr>"
  let ?o = "membership_options E ?c"
  let ?S = "membership_start (env_foca_new E ?local (opt_foca ?o) (opt_rng ?o)) ?local (map seed_member (opt_seeds ?o)) (cluster_new m)"
  have c0: "nt_cluster s = cluster_new m" using assms by (simp add: task_defs)
  have "member_name ?local = cluster_local_name (cluster_new m)"
    using assms by (simp add: node_task_ok_def cluster_new_def)
  then obtain d where d: "?S = Some d" by (auto simp: membership_start_def set_local_def)
  from membership_start_ok [OF d] have "driver_ok d" "cluster_local_name (drv_cluster d) = me"
    using assms(4) by simp_all
  then have "node_task_ok me c0 ((set_driver d True s)\<lparr>nt_links := LinksUp, nt_phase := Announcing (map seed_member (opt_seeds ?o))\<rparr>)"
    using assms by (auto simp: task_defs set_driver_def)
  then show ?thesis using d by (simp add: backend_step_def Inr Let_def c0)
qed (use assms in \<open>auto simp: backend_step_def cluster_new_def node_task_ok_def phase_ok_def is_leaving_def Let_def\<close>)

lemma drop_messaging_simps [simp]:
  "nt_driver (drop_messaging s) = nt_driver s" "nt_cluster (drop_messaging s) = nt_cluster s"
  "nt_links (drop_messaging s) = nt_links s" "nt_config (drop_messaging s) = nt_config s"
  "nt_commands (drop_messaging s) = nt_commands s" "\<not> cv_running (nt_view (drop_messaging s))"
  "nt_late (drop_messaging s) = nt_late s" "nt_phase (drop_messaging s) = nt_phase s"
  by (simp_all add: drop_messaging_def set_view_def)

lemma drop_messaging_pending:
  "node_task_ok me c0 s \<Longrightarrow> fst ` set (pending_calls (nt_calls (drop_messaging s))) \<subseteq> set (nt_late s)"
  by (auto simp: drop_messaging_def set_view_def node_task_ok_def)

lemma node_step_ok:
  assumes "node_task_ok me c0 s" "nt_phase s = Running_Node n"
  shows "\<exists>s'. node_step abort e n s = Some s' \<and> node_task_ok me c0 s'"
proof (cases e)
  case (NodePolled i)
  have "node_good (node_poll abort i n)" using assms by (intro node_poll_good) (simp add: task_defs)
  then obtain p n' where p: "node_poll abort i n = Some (p, n')" "p = Pending \<Longrightarrow> node_ok n'"
    by (auto simp: node_good_def split: option.splits poll.splits)
  show ?thesis
  proof (cases p)
    case (Ready r)
    have "node_task_ok me c0 ((drop_messaging s)\<lparr>nt_phase := Leaving r LeaveSends\<rparr>)"
      using assms drop_messaging_pending [OF assms(1)] by (auto simp: node_task_ok_def phase_ok_def is_leaving_def)
    then show ?thesis using p Ready by (simp add: node_step_def NodePolled)
  qed (use p assms in \<open>auto simp: node_step_def NodePolled task_defs\<close>)
qed (use assms node_ok_root_ends in \<open>auto simp: node_step_def task_defs\<close>)

lemma run_step_ok:
  assumes F: "foca_keeps_names me (env_foca E)" and ok: "node_task_ok me c0 s"
    and c0: "c0 = cluster_new m" "member_name m = me"
  shows "\<exists>s'. run_step E abort e s = Some s' \<and> node_task_ok me c0 s'"
proof (cases e)
  case (Claims stored latest attempts)
  have "node_task_ok me c0 (claim_step stored latest attempts s)" if "nt_phase s = Claiming"
  proof (cases "next_generation (if cc_generation_store (nt_config s) = None then None else Some stored) latest attempts")
    case (Some r)
    then show ?thesis using ok that by (cases r) (auto simp: claim_step_def task_defs)
  qed (use ok that in \<open>simp add: claim_step_def\<close>)
  then show ?thesis using ok Claims by simp
next
  case (BackendStarts r)
  show ?thesis
  proof (cases "\<exists>g. nt_phase s = Binding g")
    case True
    then obtain g where g: "nt_phase s = Binding g" by blast
    then show ?thesis using backend_step_ok [OF ok g c0, of E r] BackendStarts by simp
  qed (use ok BackendStarts in \<open>simp split: run_phase.split\<close>)
next
  case Announces
  have "node_task_ok me c0 (announce_step seeds s)" if "nt_phase s = Announcing seeds" for seeds
    using ok that by (cases seeds)
      (auto simp: task_defs messaging_starts_def calls_new_def node_new_def node_ok_def)
  then show ?thesis using ok Announces by (simp split: run_phase.split)
next
  case (Node x)
  show ?thesis
  proof (cases "\<exists>n. nt_phase s = Running_Node n")
    case True
    then obtain n where n: "nt_phase s = Running_Node n" by blast
    then show ?thesis using node_step_ok [OF ok n, of abort x] Node by simp
  qed (use ok Node in \<open>simp split: run_phase.split\<close>)
next
  case (Leaves now)
  have "node_task_ok me c0 (leave_poll now r p s)" if "nt_phase s = Leaving r p" for r p
    using ok that by (cases p) (auto simp: task_defs)
  then show ?thesis using ok Leaves by (simp split: run_phase.split)
next
  case LinksShutDown
  have "node_task_ok me c0 (s\<lparr>nt_links := LinksShut, nt_phase := Run_Ended (map_sum NodeStopped id r)\<rparr>)"
    if "nt_phase s = Shutting_Links r" for r
    using ok that by (cases r) (auto simp: task_defs)
  then show ?thesis using ok LinksShutDown by (simp split: run_phase.split)
next
  case (Drives x)
  then show ?thesis using ok driver_step_ok [OF F ok, of x] by (cases x) simp_all
next
  case TakesCommand
  then show ?thesis using ok command_step_ok [OF F ok] by simp
next
  case Cancels
  have "node_task_ok me c0 (cancel_run s)"
    using ok drop_messaging_pending [OF ok] by (simp add: node_task_ok_def cancel_run_def phase_ok_def is_leaving_def)
  then show ?thesis using ok Cancels by simp
next
  case (SenderInserts i n)
  then show ?thesis using ok by (auto simp: node_task_ok_def pending_insert_keys)
next
  case (GivesUp i)
  then show ?thesis using ok by (auto simp: node_task_ok_def pending_remove_def)
qed (use ok in \<open>auto simp: node_task_ok_def\<close>)

lemma run_steps_ok:
  assumes "foca_keeps_names me (env_foca E)" "node_task_ok me c0 s" "c0 = cluster_new m" "member_name m = me"
  shows "\<exists>s'. run_steps E abort es s = Some s' \<and> node_task_ok me c0 s'"
  using assms(2)
proof (induction es arbitrary: s)
  case (Cons e es)
  then show ?case using run_step_ok [OF assms(1) Cons.prems assms(3,4), of abort e] by auto
qed simp

section \<open>Leaving\<close>

text \<open>How a node leaves when each part has its turn, and what it leaves of a wait that began too late.\<close>

definition leaves :: "run_event list" where
  "leaves = [Leaves 2, TakesCommand, Leaves 3, Leaves 3, LinksShutDown]"

lemma run_steps_append: "run_steps E abort (es @ fs) s = Option.bind (run_steps E abort es s) (run_steps E abort fs)"
  by (induction es arbitrary: s) (auto split: Option.bind_splits)

lemma driver_turn:
  assumes "foca_keeps_names me F" "node_task_ok me c0 s" "nt_driver s = Some d"
  shows "\<exists>d'. drain (driver_handle F e d) = Some d'"
proof -
  have "driver_ok d" "cluster_local_name (drv_cluster d) = me" using assms by (auto simp: node_task_ok_def)
  then have "goes_to d (driver_handle F e d)" using assms(1) by (intro handle_goes_to) simp_all
  then show ?thesis using drain_ok [OF goes_to_ok] by blast
qed

lemma leaving_completes:
  assumes F: "foca_keeps_names me (env_foca E)" and ok: "node_task_ok me c0 s"
    and s: "nt_phase s = Leaving r LeaveSends" "nt_driver s = Some d" "nt_commands s = []"
  shows "\<exists>s'. run_steps E abort leaves s = Some s' \<and> nt_phase s' = Run_Ended (map_sum NodeStopped id r)
    \<and> nt_view s' = nt_view s \<and> nt_senders s' = nt_senders s"
proof -
  obtain d' where "drain (driver_handle (env_foca E) LeaveCommand d) = Some d'" using driver_turn [OF F ok s(2)] by blast
  then show ?thesis
    using s by (simp add: leaves_def command_queue_def command_step_def driver_step_def set_driver_def del: driver_handle.simps)
qed

lemma driver_step_keeps:
  "driver_step F e s = Some s' \<Longrightarrow> nt_phase s' = nt_phase s \<and> nt_view s' = nt_view s"
  by (auto simp: driver_step_def set_driver_def split: option.splits)

lemma command_step_keeps:
  "command_step F s = Some s' \<Longrightarrow> nt_phase s' = nt_phase s \<and> nt_view s' = nt_view s"
  by (auto simp: command_step_def dest!: driver_step_keeps split: list.splits command.splits)

lemma late_wait_stays:
  assumes "run_over (nt_phase s)" "\<not> cv_running (nt_view s)" "map_of (pending_calls (nt_calls s)) i = Some m"
    "i \<notin> fst ` set (answers (nt_calls s))" "GivesUp i \<notin> set es" "\<forall>m. SenderInserts i m \<notin> set es"
    "run_steps E abort es s = Some s'"
  shows "map_of (pending_calls (nt_calls s')) i = Some m \<and> i \<notin> fst ` set (answers (nt_calls s'))"
  using assms
proof (induction es arbitrary: s)
  case (Cons e es)
  obtain s1 where s1: "run_step E abort e s = Some s1" "run_steps E abort es s1 = Some s'"
    using Cons.prems(7) by (auto simp: bind_eq_Some_conv)
  have "run_over (nt_phase s1) \<and> \<not> cv_running (nt_view s1) \<and> map_of (pending_calls (nt_calls s1)) i = Some m
      \<and> i \<notin> fst ` set (answers (nt_calls s1))"
  proof (cases e)
    case (Drives x)
    then show ?thesis using Cons.prems s1(1) by (auto dest!: driver_step_keeps split: if_splits)
  next
    case TakesCommand
    then show ?thesis using Cons.prems s1(1) by (auto dest!: command_step_keeps split: if_splits)
  next
    case (SenderInserts j n)
    then have "j \<noteq> i" using Cons.prems(6) by auto
    then show ?thesis using SenderInserts Cons.prems s1(1)
      by (auto simp: pending_insert_def answer_def Let_def imap_shift_remove_def map_of_filter_key split: if_splits)
  next
    case (GivesUp j)
    then show ?thesis using Cons.prems s1(1) by (auto simp: pending_remove_def imap_shift_remove_def map_of_filter_key)
  qed (use Cons.prems s1(1) in \<open>auto simp: run_over_def split: run_phase.splits\<close>)
  then show ?case using Cons.IH [of s1] Cons.prems(5,6) s1(2) by simp
qed simp

section \<open>Properties\<close>


text \<open>A node without a supervisor to start: it joins, fails, and leaves.\<close>

definition example_env :: "(nat, nat, unit) cluster_env" where
  "example_env = \<lparr>env_new_lan = id, env_max_packet_size = (\<lambda>n f. n), env_seeded_rng = (\<lambda>x. 0), env_made_rng = 1,
     env_foca_new = (\<lambda>m f r. ()), env_foca = example_foca\<rparr>"

definition example_config :: "(nat, unit) cluster_config" where
  "example_config = \<lparr>cc_node_id = ''a'', cc_backend = (), cc_advertise = None, cc_seeds = [], cc_foca = None,
     cc_expected_size = 32, cc_timings = cluster_timings_default, cc_link_timings = default_timings,
     cc_rng_seed = None, cc_generation_store = None, cc_call_timeout = 30000000000, cc_lanes = 4,
     cc_handlers = \<lparr>by_id = [], by_type = []\<rparr>\<rparr>"

definition joins :: "run_event list" where
  "joins = [Claims (Holds 0) 20 [(100, 20)], BackendStarts (Inr ''10.0.0.1:7000''), Announces]"

definition fails_to_start :: node_event where
  "fails_to_start = NodePolled \<lparr>ni_now = 1, ni_started = Some (Inl StartOnInstantiation), ni_watcher = False, ni_second = False, ni_exit_first = True\<rparr>"

lemma example_joins:
  assumes "from_node example_config = Some n"
  shows "\<exists>s. run_steps example_env 5 joins (node_task_new n) = Some s \<and> nt_phase s = Running_Node node_new
    \<and> cluster_status (nt_cluster s) = NodeUp \<and> nt_commands s = [] \<and> nt_driver s \<noteq> None
    \<and> pending_calls (nt_calls s) = [] \<and> answers (nt_calls s) = [] \<and> cv_running (nt_view s)"
proof -
  have "next_generation None 20 [(100, 20)] = Some (Inr 100)"
    by (simp add: next_generation_def pick_def saturating_add_one_def max_def)
  then show ?thesis using assms
    by (auto simp: joins_def from_node_def example_config_def node_task_new_def claim_step_def backend_step_def
        membership_options_def example_env_def membership_start_def set_local_def cluster_new_def set_driver_def
        driver_new_def set_status_def Let_def messaging_starts_def set_view_def calls_new_def)
qed

lemma example_fails:
  assumes "nt_phase s = Running_Node node_new"
  shows "run_step E abort (Node fails_to_start) s =
    Some ((drop_messaging s)\<lparr>nt_phase := Leaving (Inl (StartFailed StartOnInstantiation)) LeaveSends\<rparr>)"
  using assms by (simp add: fails_to_start_def node_step_def node_poll_def node_new_def)

lemma example_node: "\<exists>n. from_node example_config = Some n"
proof -
  have "handlers_new \<noteq> None" by code_simp
  then show ?thesis by (auto simp: from_node_def)
qed

lemma example_env_names: "foca_keeps_names me (env_foca example_env)"
  by (simp add: example_env_def example_foca_keeps_names)

text \<open>What happens between the failure of the supervisor and the leave: nothing, or a sender that is late.\<close>

lemma example_leaves:
  assumes n: "from_node example_config = Some n"
    and late: "late = [] \<or> late = [SenderInserts 7 ''b'']"
  shows "\<exists>s. run_steps example_env 5 (joins @ [SenderReads, Node fails_to_start] @ late @ leaves) (node_task_new n) = Some s
    \<and> nt_phase s = Run_Ended (Inl (NodeStopped (StartFailed StartOnInstantiation))) \<and> \<not> cv_running (nt_view s)
    \<and> pending_calls (nt_calls s) = (if late = [] then [] else [(7, ''b'')]) \<and> answers (nt_calls s) = []"
proof -
  let ?me = "cc_node_id example_config" and ?E = example_env
  note new = node_task_ok_new [OF n]
  obtain s where s: "run_steps ?E 5 joins (node_task_new n) = Some s" "nt_phase s = Running_Node node_new"
    "nt_commands s = []" "nt_driver s \<noteq> None" "pending_calls (nt_calls s) = []" "answers (nt_calls s) = []" "cv_running (nt_view s)"
    using example_joins [OF n] by blast
  let ?es = "joins @ [SenderReads, Node fails_to_start] @ late"
  define s1 where "s1 = (drop_messaging (s\<lparr>nt_senders := nt_senders s + 1\<rparr>))\<lparr>nt_phase := Leaving (Inl (StartFailed StartOnInstantiation)) LeaveSends\<rparr>"
  have s1: "run_steps ?E 5 (joins @ [SenderReads, Node fails_to_start]) (node_task_new n) = Some s1"
    using s example_fails [of "s\<lparr>nt_senders := nt_senders s + 1\<rparr>" ?E 5]
    by (simp add: run_steps_append s1_def del: run_step.simps(4))
  have calls: "pending_calls (nt_calls s1) = []" "answers (nt_calls s1) = []" "nt_senders s1 > 0"
    using s by (simp_all add: s1_def drop_messaging_def set_view_def fail_all_def)
  have es: "run_steps ?E 5 ?es (node_task_new n) = run_steps ?E 5 late s1"
    using run_steps_append [of ?E 5 "joins @ [SenderReads, Node fails_to_start]" late "node_task_new n"]
    unfolding s1 by simp
  obtain s2 where s2: "run_steps ?E 5 ?es (node_task_new n) = Some s2" "nt_phase s2 = nt_phase s1" "nt_commands s2 = []"
    "pending_calls (nt_calls s2) = (if late = [] then [] else [(7, ''b'')])" "answers (nt_calls s2) = []"
    "\<not> cv_running (nt_view s2)" "nt_driver s2 \<noteq> None"
    using late calls s(3,4) es by (auto simp: s1_def pending_insert_def Let_def)
  obtain s2' where "run_steps ?E 5 ?es (node_task_new n) = Some s2'" "node_task_ok ?me (cnode_cluster n) s2'"
    using run_steps_ok [OF example_env_names new(1) new(2,3)] by blast
  then have ok: "node_task_ok ?me (cnode_cluster n) s2" using s2(1) by simp
  have ph: "nt_phase s2 = Leaving (Inl (StartFailed StartOnInstantiation)) LeaveSends" using s2(2) by (simp add: s1_def)
  obtain d where d: "nt_driver s2 = Some d" using s2(7) by blast
  have "run_steps ?E 5 (?es @ leaves) (node_task_new n) = run_steps ?E 5 leaves s2"
    using run_steps_append [of ?E 5 ?es leaves "node_task_new n"] unfolding s2(1) by simp
  then show ?thesis
    using leaving_completes [OF example_env_names ok ph d s2(3), of 5] s2(4-6) by (auto simp del: run_steps.simps)
qed


section \<open>What the ways out miss\<close>

text \<open>
  A call that has found messaging running may begin to wait after messaging was stopped: then nothing ends the
  wait but its own deadline, which a monitor does not have.
\<close>

theorem stopping_node_can_leave_a_wait:
  "\<exists>n es s. from_node example_config = Some n \<and> run_steps example_env 5 es (node_task_new n) = Some s
    \<and> (\<exists>r. nt_phase s = Run_Ended r) \<and> map_of (pending_calls (nt_calls s)) 7 = Some ''b''
    \<and> (\<forall>fs s'. GivesUp 7 \<notin> set fs \<and> (\<forall>m. SenderInserts 7 m \<notin> set fs) \<and> run_steps example_env 5 fs s = Some s' \<longrightarrow>
        map_of (pending_calls (nt_calls s')) 7 = Some ''b'' \<and> 7 \<notin> fst ` set (answers (nt_calls s')))"
proof -
  obtain n where n: "from_node example_config = Some n" using example_node by blast
  let ?es = "joins @ [SenderReads, Node fails_to_start] @ [SenderInserts 7 ''b''] @ leaves"
  obtain s where s: "run_steps example_env 5 ?es (node_task_new n) = Some s" "\<exists>r. nt_phase s = Run_Ended r"
    "\<not> cv_running (nt_view s)" "pending_calls (nt_calls s) = [(7, ''b'')]" "answers (nt_calls s) = []"
    using example_leaves [OF n, of "[SenderInserts 7 ''b'']"] by auto
  have "run_over (nt_phase s)" using s(2) by (auto simp: run_over_def)
  then have "map_of (pending_calls (nt_calls s')) 7 = Some ''b'' \<and> 7 \<notin> fst ` set (answers (nt_calls s'))"
    if "GivesUp 7 \<notin> set fs" "\<forall>m. SenderInserts 7 m \<notin> set fs" "run_steps example_env 5 fs s = Some s'" for fs s'
    using late_wait_stays [of s 7 "''b''" fs example_env 5 s'] s(3-5) that by simp
  then have "\<forall>fs s'. GivesUp 7 \<notin> set fs \<and> (\<forall>m. SenderInserts 7 m \<notin> set fs) \<and> run_steps example_env 5 fs s = Some s' \<longrightarrow>
      map_of (pending_calls (nt_calls s')) 7 = Some ''b'' \<and> 7 \<notin> fst ` set (answers (nt_calls s'))" by blast
  moreover have "map_of (pending_calls (nt_calls s)) 7 = Some ''b''" using s(4) by simp
  ultimately show ?thesis using n s(1,2) by blast
qed

text \<open>A node whose run is dropped says of itself that it takes part in the cluster, and does so for good.\<close>

theorem cancelled_node_stays_up:
  "\<exists>n s. from_node example_config = Some n \<and> run_steps example_env 5 (joins @ [Cancels]) (node_task_new n) = Some s
    \<and> run_over (nt_phase s) \<and> nt_driver s = None \<and> cluster_status (nt_cluster s) = NodeUp"
proof -
  obtain n where n: "from_node example_config = Some n" using example_node by blast
  then show ?thesis
    using example_joins [OF n] by (auto simp: run_steps_append run_over_def cancel_run_def)
qed

text \<open>The grace for leaving is no limit: when it is over, the end of the task is awaited all the same.\<close>

theorem leave_grace_is_no_limit:
  "nt_driver s \<noteq> None \<Longrightarrow> nt_phase s = Leaving r p \<Longrightarrow>
    \<exists>s' q. run_steps E abort (map Leaves ts) s = Some s' \<and> nt_phase s' = Leaving r q \<and> nt_driver s' = nt_driver s"
proof (induction ts arbitrary: s p)
  case (Cons t ts)
  have "\<exists>q. nt_phase (leave_poll t r p s) = Leaving r q" "nt_driver (leave_poll t r p s) = nt_driver s"
    using Cons.prems by (cases p; simp)+
  then show ?case using Cons.IH [of "leave_poll t r p s"] Cons.prems by auto
qed simp

end
