(* ===== verification/Oneshot.thy ===== *)
theory Oneshot
  imports Zestors_Prelude
begin

text \<open>
  Requests and the replies that they are answered on (interface/src/oneshot.rs). A request and its reply are the two
  ends of a channel of tokio, which is modelled as documented: it carries one value, and each end sees that the
  other is gone.
\<close>

section \<open>Requests and replies\<close>

text \<open>The channel of a request: what was sent, and whether either end is still there.\<close>

record 'v oneshot =
  os_value :: "'v option"
  os_request :: bool
  os_reply :: bool

datatype receipt_error = ReceiptError
datatype 'v resolve_error = ResolveError 'v

definition request_new :: "'v oneshot" where
  "request_new = \<lparr>os_value = None, os_request = True, os_reply = True\<rparr>"

definition request_reply :: "'v \<Rightarrow> 'v oneshot \<Rightarrow> ('v resolve_error + unit) \<times> 'v oneshot" where
  "request_reply v o1 =
     (if os_reply o1 then (Inr (), o1\<lparr>os_value := Some v, os_request := False\<rparr>)
      else (Inl (ResolveError v), o1\<lparr>os_request := False\<rparr>))"

definition request_no_reply :: "'v oneshot \<Rightarrow> 'v oneshot" where
  "request_no_reply o1 = o1\<lparr>os_request := False\<rparr>"

definition request_is_closed :: "'v oneshot \<Rightarrow> bool" where
  "request_is_closed o1 \<longleftrightarrow> \<not> os_reply o1"

definition reply_close :: "'v oneshot \<Rightarrow> 'v oneshot" where
  "reply_close o1 = o1\<lparr>os_reply := False\<rparr>"

definition reply_poll :: "'v oneshot \<Rightarrow> (receipt_error + 'v) poll" where
  "reply_poll o1 = (case os_value o1 of
       Some v \<Rightarrow> Ready (Inr v)
     | None \<Rightarrow> if os_request o1 \<and> os_reply o1 then Pending else Ready (Inl ReceiptError))"

definition reply_try_wait :: "'v oneshot \<Rightarrow> receipt_error + 'v option" where
  "reply_try_wait o1 = (case reply_poll o1 of
       Ready (Inr v) \<Rightarrow> Inr (Some v) | Ready (Inl e) \<Rightarrow> Inl e | Pending \<Rightarrow> Inr None)"

end
