(* ===== verification/Remote_Request.thy ===== *)
theory Remote_Request
  imports Remote_Calls Oneshot
begin

text \<open>
  Requests that travel in messages to other nodes (distr/src/messaging/request.rs): encoding one hands it to the node (\<open>Wire::export\<close> in wire.rs), where a task
  waits for the answer; decoding one makes a request here, whose answer is sent back
  (\<open>Wire::import\<close>). The layout of values is a parameter.
\<close>

section \<open>Requests that travel\<close>

text \<open>
  \<open>rr_slots\<close> are the \<open>RemoteRequest\<close>s, with the request that is in each; a task that waits has the
  request it took. \<open>rr_log\<close> is what was done to the table of waits so far.
\<close>

record export_task =
  et_id :: u64
  et_peer :: name
  et_request :: nat
  et_deadline :: instant
  et_done :: bool

record 'v remote_requests =
  rr_calls :: calls
  rr_log :: "call_op list"
  rr_requests :: "'v oneshot list"
  rr_slots :: "nat option list"
  rr_tasks :: "export_task list"
  rr_exported :: "u64 list" \<comment> \<open>by the message that is encoded\<close>

definition remote_requests_new :: "'v remote_requests" where
  "remote_requests_new = \<lparr>rr_calls = calls_new, rr_log = [], rr_requests = [], rr_slots = [], rr_tasks = [],
     rr_exported = []\<rparr>"

definition on_request :: "nat \<Rightarrow> ('v oneshot \<Rightarrow> 'v oneshot) \<Rightarrow> 'v remote_requests \<Rightarrow> 'v remote_requests" where
  "on_request r f s = s\<lparr>rr_requests := (rr_requests s)[r := f (rr_requests s ! r)]\<rparr>"

definition on_table :: "call_op \<Rightarrow> 'v remote_requests \<Rightarrow> 'v remote_requests" where
  "on_table op s = s\<lparr>rr_calls := call_step op (rr_calls s), rr_log := rr_log s @ [op]\<rparr>"

definition remote_request_new :: "'v remote_requests \<Rightarrow> 'v remote_requests" where
  "remote_request_new s = s\<lparr>rr_requests := rr_requests s @ [request_new],
     rr_slots := rr_slots s @ [Some (length (rr_requests s))]\<rparr>"

definition into_request :: "nat \<Rightarrow> 'v remote_requests \<Rightarrow> nat option \<times> 'v remote_requests" where
  "into_request k s = (rr_slots s ! k, s\<lparr>rr_slots := (rr_slots s)[k := None]\<rparr>)"

definition remote_request_reply :: "nat \<Rightarrow> 'v \<Rightarrow> 'v remote_requests \<Rightarrow> ('v resolve_error + unit) \<times> 'v remote_requests" where
  "remote_request_reply k v s =
     (case into_request k s of
        (Some r, s) \<Rightarrow> (fst (request_reply v (rr_requests s ! r)), on_request r (\<lambda>o1. snd (request_reply v o1)) s)
      | (None, s) \<Rightarrow> (Inl (ResolveError v), s))"

definition remote_request_no_reply :: "nat \<Rightarrow> 'v remote_requests \<Rightarrow> 'v remote_requests" where
  "remote_request_no_reply k s =
     (case into_request k s of (Some r, s) \<Rightarrow> on_request r request_no_reply s | (None, s) \<Rightarrow> s)"

definition remote_request_is_closed :: "nat \<Rightarrow> 'v remote_requests \<Rightarrow> bool" where
  "remote_request_is_closed k s \<longleftrightarrow>
     (case rr_slots s ! k of None \<Rightarrow> True | Some r \<Rightarrow> request_is_closed (rr_requests s ! r))"

text \<open>\<open>Wire::export\<close>: the task's deadline is the node's call timeout from now.\<close>

definition export_request :: "name \<Rightarrow> instant \<Rightarrow> duration \<Rightarrow> nat \<Rightarrow> 'v remote_requests \<Rightarrow> u64 \<times> 'v remote_requests" where
  "export_request peer now call_timeout r s =
     (let (i, c) = mint (rr_calls s) in
      (i, on_table (OpInsert i peer) (s\<lparr>rr_calls := c, rr_exported := rr_exported s @ [i],
        rr_tasks := rr_tasks s @ [\<lparr>et_id = i, et_peer = peer, et_request = r, et_deadline = now + call_timeout,
          et_done = False\<rparr>]\<rparr>)))"

datatype serialize_error = NotInAMessage | AlreadySent

definition serialize_request ::
    "name option \<Rightarrow> instant \<Rightarrow> duration \<Rightarrow> nat \<Rightarrow> 'v remote_requests \<Rightarrow> (serialize_error + u64) \<times> 'v remote_requests" where
  "serialize_request wire now call_timeout k s =
     (case wire of
        None \<Rightarrow> (Inl NotInAMessage, s)
      | Some peer \<Rightarrow>
          (case into_request k s of
             (None, s) \<Rightarrow> (Inl AlreadySent, s)
           | (Some r, s) \<Rightarrow> map_prod Inr id (export_request peer now call_timeout r s)))"

text \<open>What was exported is forgotten again unless the message is sent.\<close>

definition exports_dropped :: "'v remote_requests \<Rightarrow> 'v remote_requests" where
  "exports_dropped s = (fold (\<lambda>i. on_table (OpRemove i)) (rr_exported s) s)\<lparr>rr_exported := []\<rparr>"

definition exports_committed :: "'v remote_requests \<Rightarrow> 'v remote_requests" where
  "exports_committed s = s\<lparr>rr_exported := []\<rparr>"

text \<open>
  One poll of the task that waits: for an answer, for the end of the channel it would come by, or for the
  deadline.
\<close>

definition export_answered :: "(bytes \<Rightarrow> string + 'v) \<Rightarrow> answer \<Rightarrow> 'v oneshot \<Rightarrow> 'v oneshot" where
  "export_answered dec a o1 =
     (case a of
        Inr bytes \<Rightarrow> (case dec bytes of Inr v \<Rightarrow> snd (request_reply v o1) | Inl _ \<Rightarrow> request_no_reply o1)
      | Inl _ \<Rightarrow> request_no_reply o1)"

definition export_task_done :: "nat \<Rightarrow> ('v oneshot \<Rightarrow> 'v oneshot) \<Rightarrow> 'v remote_requests \<Rightarrow> 'v remote_requests" where
  "export_task_done k f s = on_request (et_request (rr_tasks s ! k)) f
     (s\<lparr>rr_tasks := (rr_tasks s)[k := (rr_tasks s ! k)\<lparr>et_done := True\<rparr>]\<rparr>)"

definition export_task_poll :: "(bytes \<Rightarrow> string + 'v) \<Rightarrow> instant \<Rightarrow> nat \<Rightarrow> 'v remote_requests \<Rightarrow> 'v remote_requests" where
  "export_task_poll dec now k s =
     (let t = rr_tasks s ! k in
      if k \<ge> length (rr_tasks s) \<or> et_done t then s
      else case map_of (answers (rr_calls s)) (et_id t) of
        Some a \<Rightarrow> export_task_done k (export_answered dec a) s
      | None \<Rightarrow>
          if map_of (pending_calls (rr_calls s)) (et_id t) = None then export_task_done k request_no_reply s
          else if et_deadline t \<le> now then export_task_done k request_no_reply (on_table (OpRemove (et_id t)) s)
          else s)"

text \<open>The other node: what it sends back for a request that it imported, once that is resolved.\<close>

definition import_poll :: "('v \<Rightarrow> string + bytes) \<Rightarrow> 'v oneshot \<Rightarrow> (remote_error + bytes) poll" where
  "import_poll enc o1 = (case reply_poll o1 of
       Pending \<Rightarrow> Pending
     | Ready (Inr v) \<Rightarrow> Ready (map_sum EncodeFailed id (enc v))
     | Ready (Inl _) \<Rightarrow> Ready (Inl NoReply))"

section \<open>Runs\<close>

text \<open>
  Among the other users of the table are calls, which take numbers of the same counter; the tasks and the
  holders of requests and replies act in any order.
\<close>

datatype 'v request_event = NewRequest | Serializes "name option" instant duration nat | Drops | Commits
  | LocalReply nat 'v | LocalNoReply nat | Closes nat
  | Calls name | Completes name u64 "remote_error + bytes" | Loses name | FailsAll | Forgets u64
  | PollsTask instant nat

fun request_step :: "(bytes \<Rightarrow> string + 'v) \<Rightarrow> 'v request_event \<Rightarrow> 'v remote_requests \<Rightarrow> 'v remote_requests" where
  "request_step dec NewRequest s = remote_request_new s"
| "request_step dec (Serializes wire now d k) s =
     (if k < length (rr_slots s) then snd (serialize_request wire now d k s) else s)"
| "request_step dec Drops s = exports_dropped s"
| "request_step dec Commits s = exports_committed s"
| "request_step dec (LocalReply k v) s = (if k < length (rr_slots s) then snd (remote_request_reply k v s) else s)"
| "request_step dec (LocalNoReply k) s = (if k < length (rr_slots s) then remote_request_no_reply k s else s)"
| "request_step dec (Closes r) s = on_request r reply_close s"
| "request_step dec (Calls node) s =
     (let (i, c) = mint (rr_calls s) in on_table (OpInsert i node) (s\<lparr>rr_calls := c\<rparr>))"
| "request_step dec (Completes node i result) s = on_table (OpComplete node i result) s"
| "request_step dec (Loses node) s = on_table (OpFailNode node) s"
| "request_step dec FailsAll s = on_table OpFailAll s"
| "request_step dec (Forgets i) s = on_table (OpRemove i) s"
| "request_step dec (PollsTask now k) s = export_task_poll dec now k s"

definition request_run :: "(bytes \<Rightarrow> string + 'v) \<Rightarrow> 'v request_event list \<Rightarrow> 'v remote_requests" where
  "request_run dec es = fold (request_step dec) es remote_requests_new"

section \<open>The invariant\<close>

definition minted_first :: "nat \<Rightarrow> 'v remote_requests \<Rightarrow> bool" where
  "minted_first m s \<longleftrightarrow> inserted (rr_log s) = map of_nat [0..<m] \<and> next_call (rr_calls s) = of_nat m"

text \<open>
  A request is in one slot, and open, or with one task, and open until that is done; what it was answered
  with came from the node that it went to.
\<close>

definition slots_ok :: "'v remote_requests \<Rightarrow> bool" where
  "slots_ok s \<longleftrightarrow> (\<forall>k < length (rr_slots s). \<forall>r. rr_slots s ! k = Some r \<longrightarrow>
     r < length (rr_requests s) \<and> os_request (rr_requests s ! r) \<and> os_value (rr_requests s ! r) = None
     \<and> r \<notin> et_request ` set (rr_tasks s)
     \<and> (\<forall>k' < length (rr_slots s). rr_slots s ! k' = Some r \<longrightarrow> k' = k))"

definition export_ok :: "(bytes \<Rightarrow> string + 'v) \<Rightarrow> call_op list \<Rightarrow> calls \<Rightarrow> 'v oneshot \<Rightarrow> export_task \<Rightarrow> bool" where
  "export_ok dec log c o1 t \<longleftrightarrow> OpInsert (et_id t) (et_peer t) \<in> set log
     \<and> (et_done t \<longleftrightarrow> \<not> os_request o1)
     \<and> (\<forall>v. os_value o1 = Some v \<longrightarrow> et_done t \<and>
         (\<exists>bytes. OpComplete (et_peer t) (et_id t) (Inr bytes) \<in> set log \<and> dec bytes = Inr v))
     \<and> (et_done t \<longrightarrow> map_of (pending_calls c) (et_id t) = None)"

definition exports_ok :: "(bytes \<Rightarrow> string + 'v) \<Rightarrow> 'v remote_requests \<Rightarrow> bool" where
  "exports_ok dec s \<longleftrightarrow> distinct (map et_request (rr_tasks s))
     \<and> (\<forall>t\<in>set (rr_tasks s). et_request t < length (rr_requests s)
         \<and> export_ok dec (rr_log s) (rr_calls s) (rr_requests s ! et_request t) t)"

definition requests_ok :: "(bytes \<Rightarrow> string + 'v) \<Rightarrow> 'v remote_requests \<Rightarrow> bool" where
  "requests_ok dec s \<longleftrightarrow> waits_ok (rr_log s) (rr_calls s) \<and> distinct (inserted (rr_log s))
     \<and> slots_ok s \<and> exports_ok dec s"

lemma distinct_of_nat:
  assumes "m \<le> 2 ^ 64"
  shows "distinct (map (of_nat :: nat \<Rightarrow> u64) [0..<m])"
proof -
  have "unat (of_nat n :: u64) = n" if "n < m" for n
    using that assms by (simp add: unsigned_of_nat take_bit_nat_eq_self_iff)
  then have "inj_on (of_nat :: nat \<Rightarrow> u64) {0..<m}" by (intro inj_on_inverseI [of _ unat]) simp
  then show ?thesis by (simp add: distinct_map)
qed

lemma inserted_unique:
  "distinct (inserted ops) \<Longrightarrow> OpInsert i n \<in> set ops \<Longrightarrow> OpInsert i n' \<in> set ops \<Longrightarrow> n = n'"
proof (induction ops)
  case (Cons op ops)
  have "OpInsert i m \<in> set ops \<Longrightarrow> i \<in> set (inserted ops)" for m by (auto simp: set_inserted)
  then show ?case using Cons by (cases op) auto
qed simp

lemma waits_ok_next [simp]: "waits_ok ops (c\<lparr>next_call := n\<rparr>) = waits_ok ops c"
  by (simp add: waits_ok_def)

lemma slots_ok_same:
  "rr_slots s' = rr_slots s \<Longrightarrow> rr_requests s' = rr_requests s \<Longrightarrow> rr_tasks s' = rr_tasks s \<Longrightarrow> slots_ok s' = slots_ok s"
  unfolding slots_ok_def by (erule ssubst)+ (rule refl)

text \<open>Operations on the table.\<close>

lemma on_table_fields [simp]:
  "rr_requests (on_table op s) = rr_requests s" "rr_slots (on_table op s) = rr_slots s"
  "rr_tasks (on_table op s) = rr_tasks s" "rr_exported (on_table op s) = rr_exported s"
  "rr_log (on_table op s) = rr_log s @ [op]" "rr_calls (on_table op s) = call_step op (rr_calls s)"
  by (simp_all add: on_table_def)

lemma call_step_shrinks:
  assumes "\<nexists>i node. op = OpInsert i node" "map_of (pending_calls c) i = None"
  shows "map_of (pending_calls (call_step op c)) i = None"
  using ends_waits_sub [OF call_step_ends [OF assms(1)], of c i] assms(2)
  by (cases "map_of (pending_calls (call_step op c)) i") auto

lemma export_ok_grows:
  assumes "export_ok dec log c o1 t" "map_of (pending_calls c) (et_id t) = None \<Longrightarrow> map_of (pending_calls c') (et_id t) = None"
  shows "export_ok dec (log @ [op]) c' o1 t"
  using assms unfolding export_ok_def by auto

lemma on_table_ok:
  assumes ok: "requests_ok dec s" and op: "\<nexists>i node. op = OpInsert i node"
  shows "requests_ok dec (on_table op s)"
proof -
  have "inserted (rr_log s @ [op]) = inserted (rr_log s)" using op by (cases op) (simp_all add: inserted_snoc)
  moreover have "waits_ok (rr_log s @ [op]) (call_step op (rr_calls s))"
    using ok waits_ok_ends [OF _ call_step_ends [OF op] op] by (simp add: requests_ok_def)
  moreover have "exports_ok dec (on_table op s)"
    using ok call_step_shrinks [OF op] export_ok_grows by (fastforce simp: requests_ok_def exports_ok_def)
  moreover have "slots_ok (on_table op s) = slots_ok s" by (rule slots_ok_same) simp_all
  ultimately show ?thesis using ok unfolding requests_ok_def by simp
qed

lemma minted_on_table: "minted_first m s \<Longrightarrow> \<nexists>i node. op = OpInsert i node \<Longrightarrow> minted_first m (on_table op s)"
proof -
  assume m: "minted_first m s" and op: "\<nexists>i node. op = OpInsert i node"
  have "inserted (rr_log s @ [op]) = inserted (rr_log s)" using op by (cases op) (simp_all add: inserted_snoc)
  moreover have "next_call (call_step op (rr_calls s)) = next_call (rr_calls s)"
    using call_step_ends [OF op, of "rr_calls s"] by (simp add: ends_waits_def)
  ultimately show ?thesis using m by (simp add: minted_first_def)
qed

lemma minted_insert:
  fixes s node
  assumes m: "minted_first m s" "m < 2 ^ 64" and ok: "requests_ok dec s"
  defines "i \<equiv> fst (mint (rr_calls s))"
  defines "u \<equiv> on_table (OpInsert i node) (s\<lparr>rr_calls := snd (mint (rr_calls s))\<rparr>)"
  shows "minted_first (Suc m) u" "requests_ok dec u" "i \<notin> set (inserted (rr_log s))"
proof -
  have i: "i = of_nat m" using m(1) by (simp add: i_def mint_def minted_first_def)
  have "distinct (map (of_nat :: nat \<Rightarrow> u64) [0..<Suc m])" using m(2) by (intro distinct_of_nat) simp
  then show new: "i \<notin> set (inserted (rr_log s))" using m(1) i by (auto simp: minted_first_def)
  have next_call: "next_call (pending_insert i node c) = next_call c" for c
    by (simp add: pending_insert_def answer_def)
  show "minted_first (Suc m) u"
    using m(1) i by (simp add: minted_first_def u_def inserted_snoc mint_def next_call)
  have "waits_ok (rr_log s @ [OpInsert i node]) (pending_insert i node (snd (mint (rr_calls s))))"
    using ok new by (intro waits_ok_insert) (simp_all add: requests_ok_def mint_def)
  moreover have "exports_ok dec u"
    unfolding exports_ok_def
  proof (intro conjI ballI)
    fix t assume t: "t \<in> set (rr_tasks u)"
    then have t': "t \<in> set (rr_tasks s)" by (simp add: u_def)
    then have o1: "export_ok dec (rr_log s) (rr_calls s) (rr_requests s ! et_request t) t"
      "et_request t < length (rr_requests s)"
      using ok by (auto simp: requests_ok_def exports_ok_def)
    then have "et_id t \<in> set (inserted (rr_log s))" by (auto simp: export_ok_def set_inserted)
    then have "et_id t \<noteq> i" using new by auto
    then show "export_ok dec (rr_log u) (rr_calls u) (rr_requests u ! et_request t) t"
      using export_ok_grows [OF o1(1)] by (simp add: u_def mint_def pending_insert_def answer_def)
    show "et_request t < length (rr_requests u)" using o1(2) by (simp add: u_def)
  qed (use ok in \<open>simp add: requests_ok_def exports_ok_def u_def\<close>)
  moreover have "slots_ok u = slots_ok s" by (rule slots_ok_same) (simp_all add: u_def)
  ultimately show "requests_ok dec u"
    using ok new unfolding requests_ok_def by (simp add: u_def inserted_snoc)
qed


text \<open>Requests and the slots that they are in.\<close>

lemma on_request_fields [simp]:
  "rr_requests (on_request r f s) = (rr_requests s)[r := f (rr_requests s ! r)]"
  "rr_slots (on_request r f s) = rr_slots s" "rr_tasks (on_request r f s) = rr_tasks s"
  "rr_log (on_request r f s) = rr_log s" "rr_calls (on_request r f s) = rr_calls s"
  by (simp_all add: on_request_def)

lemma slots_okI:
  assumes s: "slots_ok s" and len: "length (rr_slots s') = length (rr_slots s)"
    and slots: "\<And>k r. k < length (rr_slots s) \<Longrightarrow> rr_slots s' ! k = Some r \<Longrightarrow> rr_slots s ! k = Some r"
    and requests: "length (rr_requests s') = length (rr_requests s)"
      "\<And>r. Some r \<in> set (rr_slots s') \<Longrightarrow> os_request (rr_requests s' ! r) = os_request (rr_requests s ! r)
        \<and> os_value (rr_requests s' ! r) = os_value (rr_requests s ! r)"
    and tasks: "\<And>r. Some r \<in> set (rr_slots s') \<Longrightarrow> r \<in> et_request ` set (rr_tasks s') \<Longrightarrow> r \<in> et_request ` set (rr_tasks s)"
  shows "slots_ok s'"
  unfolding slots_ok_def
proof (intro allI impI conjI)
  fix k r assume k: "k < length (rr_slots s')" "rr_slots s' ! k = Some r"
  then have mem: "Some r \<in> set (rr_slots s')" by (metis nth_mem)
  have old: "k < length (rr_slots s)" "rr_slots s ! k = Some r" using k slots len by auto
  then have r: "r < length (rr_requests s)" "os_request (rr_requests s ! r)" "os_value (rr_requests s ! r) = None"
      "r \<notin> et_request ` set (rr_tasks s)" using s unfolding slots_ok_def by blast+
  show "r < length (rr_requests s')" "os_request (rr_requests s' ! r)" "os_value (rr_requests s' ! r) = None"
      "r \<notin> et_request ` set (rr_tasks s')" using r requests mem tasks by auto
  fix k' assume "k' < length (rr_slots s')" "rr_slots s' ! k' = Some r"
  then show "k' = k" using s old slots len unfolding slots_ok_def by (metis (no_types))
qed

lemma into_request_ok:
  assumes ok: "requests_ok dec s" and k: "k < length (rr_slots s)"
  shows "requests_ok dec (snd (into_request k s))"
    "fst (into_request k s) = Some r \<Longrightarrow> r < length (rr_requests s) \<and> os_request (rr_requests s ! r)
      \<and> os_value (rr_requests s ! r) = None \<and> r \<notin> et_request ` set (rr_tasks s)
      \<and> Some r \<notin> set (rr_slots (snd (into_request k s)))"
proof -
  have old: "rr_slots s ! j = Some q" if "(rr_slots s)[k := None] ! j = Some q" for j q
    using that k by (cases "j = k") auto
  have "slots_ok (snd (into_request k s))"
    by (rule slots_okI [of s]) (use ok old in \<open>auto simp: into_request_def requests_ok_def\<close>)
  then show "requests_ok dec (snd (into_request k s))"
    using ok by (simp add: requests_ok_def into_request_def exports_ok_def)
  assume "fst (into_request k s) = Some r"
  then have r: "rr_slots s ! k = Some r" by (simp add: into_request_def)
  have "Some r \<notin> set ((rr_slots s)[k := None])"
  proof
    assume "Some r \<in> set ((rr_slots s)[k := None])"
    then obtain k' where "k' < length (rr_slots s)" "(rr_slots s)[k := None] ! k' = Some r"
      by (auto simp: in_set_conv_nth)
    then have "k' \<noteq> k" "k' < length (rr_slots s)" "rr_slots s ! k' = Some r" using k by (cases "k' = k"; simp)+
    then show False using ok k r unfolding requests_ok_def slots_ok_def by blast
  qed
  then show "r < length (rr_requests s) \<and> os_request (rr_requests s ! r)
      \<and> os_value (rr_requests s ! r) = None \<and> r \<notin> et_request ` set (rr_tasks s)
      \<and> Some r \<notin> set (rr_slots (snd (into_request k s)))"
    using ok k r unfolding requests_ok_def slots_ok_def by (simp add: into_request_def)
qed

lemma on_request_ok:
  assumes ok: "requests_ok dec s" and r: "r \<notin> et_request ` set (rr_tasks s)" "Some r \<notin> set (rr_slots s)"
  shows "requests_ok dec (on_request r f s)"
proof -
  have same: "(rr_requests s)[r := f (rr_requests s ! r)] ! q = rr_requests s ! q" if "Some q \<in> set (rr_slots s)" for q
    using that r(2) by (cases "q = r") auto
  have "slots_ok (on_request r f s)"
    by (rule slots_okI [of s]) (use ok same in \<open>auto simp: requests_ok_def\<close>)
  moreover have "(rr_requests s)[r := f (rr_requests s ! r)] ! et_request t = rr_requests s ! et_request t"
    if "t \<in> set (rr_tasks s)" for t
    using that r(1) by (cases "et_request t = r") auto
  then have "exports_ok dec (on_request r f s)" using ok by (simp add: requests_ok_def exports_ok_def)
  ultimately show ?thesis using ok by (simp add: requests_ok_def)
qed

lemma reply_close_ok: "requests_ok dec s \<Longrightarrow> requests_ok dec (on_request r reply_close s)"
proof -
  assume ok: "requests_ok dec s"
  have same: "os_request ((rr_requests s)[r := reply_close (rr_requests s ! r)] ! q) = os_request (rr_requests s ! q)"
    "os_value ((rr_requests s)[r := reply_close (rr_requests s ! r)] ! q) = os_value (rr_requests s ! q)" for q
    by (cases "q = r"; cases "r < length (rr_requests s)"; simp add: reply_close_def list_update_beyond)+
  have slots: "slots_ok s" using ok by (simp add: requests_ok_def)
  have "slots_ok (on_request r reply_close s)"
    by (rule slots_okI [OF slots]) (simp_all add: same)
  moreover have "export_ok dec (rr_log s) (rr_calls s) ((rr_requests s)[r := reply_close (rr_requests s ! r)] ! q) t
      = export_ok dec (rr_log s) (rr_calls s) (rr_requests s ! q) t" for q t
    unfolding export_ok_def same ..
  then have "exports_ok dec (on_request r reply_close s)" using ok by (simp add: requests_ok_def exports_ok_def)
  ultimately show ?thesis using ok by (simp add: requests_ok_def)
qed

lemma remote_request_new_ok: "requests_ok dec s \<Longrightarrow> requests_ok dec (remote_request_new s)"
proof -
  assume ok: "requests_ok dec s"
  have tasks: "exports_ok dec (remote_request_new s)"
    using ok by (auto simp: requests_ok_def exports_ok_def remote_request_new_def nth_append)
  have "slots_ok (remote_request_new s)"
    unfolding slots_ok_def
  proof (intro allI impI)
    fix k r assume k: "k < length (rr_slots (remote_request_new s))" "rr_slots (remote_request_new s) ! k = Some r"
    have old: "r' < length (rr_requests s)" if "j < length (rr_slots s)" "rr_slots s ! j = Some r'" for j r'
      using ok that unfolding requests_ok_def slots_ok_def by blast
    show "r < length (rr_requests (remote_request_new s)) \<and> os_request (rr_requests (remote_request_new s) ! r)
      \<and> os_value (rr_requests (remote_request_new s) ! r) = None
      \<and> r \<notin> et_request ` set (rr_tasks (remote_request_new s))
      \<and> (\<forall>k' < length (rr_slots (remote_request_new s)). rr_slots (remote_request_new s) ! k' = Some r \<longrightarrow> k' = k)"
    proof (cases "k = length (rr_slots s)")
      case True
      then have "r = length (rr_requests s)" using k by (simp add: remote_request_new_def)
      then show ?thesis
        using True old tasks ok unfolding requests_ok_def exports_ok_def
        by (fastforce simp: remote_request_new_def request_new_def nth_append less_Suc_eq)
    next
      case False
      then have k': "k < length (rr_slots s)" "rr_slots s ! k = Some r"
        using k by (auto simp: remote_request_new_def nth_append split: if_splits)
      then have "r < length (rr_requests s) \<and> os_request (rr_requests s ! r) \<and> os_value (rr_requests s ! r) = None
        \<and> r \<notin> et_request ` set (rr_tasks s) \<and> (\<forall>j < length (rr_slots s). rr_slots s ! j = Some r \<longrightarrow> j = k)"
        using ok unfolding requests_ok_def slots_ok_def by blast
      then show ?thesis by (auto simp: remote_request_new_def nth_append less_Suc_eq)
    qed
  qed
  then show ?thesis using ok tasks by (simp add: requests_ok_def remote_request_new_def)
qed


text \<open>The task that waits.\<close>

lemma export_request_ok:
  assumes ok: "requests_ok dec s" and m: "minted_first m s" "m < 2 ^ 64"
    and r: "r < length (rr_requests s) \<and> os_request (rr_requests s ! r) \<and> os_value (rr_requests s ! r) = None
      \<and> r \<notin> et_request ` set (rr_tasks s) \<and> Some r \<notin> set (rr_slots s)"
  shows "requests_ok dec (snd (export_request peer now d r s))" "minted_first (Suc m) (snd (export_request peer now d r s))"
proof -
  define i where "i = fst (mint (rr_calls s))"
  define u where "u = on_table (OpInsert i peer) (s\<lparr>rr_calls := snd (mint (rr_calls s))\<rparr>)"
  define t where "t = \<lparr>et_id = i, et_peer = peer, et_request = r, et_deadline = now + d, et_done = False\<rparr>"
  have e: "snd (export_request peer now d r s) = u\<lparr>rr_exported := rr_exported s @ [i], rr_tasks := rr_tasks s @ [t]\<rparr>"
    by (simp add: export_request_def u_def i_def t_def mint_def on_table_def)
  have u: "requests_ok dec u" "minted_first (Suc m) u"
    using minted_insert(1,2) [OF m ok, of peer] by (simp_all add: u_def i_def)
  have same: "rr_requests u = rr_requests s" "rr_slots u = rr_slots s" "rr_tasks u = rr_tasks s"
    "OpInsert i peer \<in> set (rr_log u)"
    by (simp_all add: u_def)
  have slots: "slots_ok u" using u(1) by (simp add: requests_ok_def)
  have "slots_ok (u\<lparr>rr_exported := rr_exported s @ [i], rr_tasks := rr_tasks s @ [t]\<rparr>)"
    by (rule slots_okI [OF slots]) (use r same in \<open>auto simp: t_def\<close>)
  moreover have "exports_ok dec (u\<lparr>rr_exported := rr_exported s @ [i], rr_tasks := rr_tasks s @ [t]\<rparr>)"
    using u(1) r same by (auto simp: requests_ok_def exports_ok_def t_def export_ok_def)
  ultimately show "requests_ok dec (snd (export_request peer now d r s))"
    using u(1) unfolding e by (simp add: requests_ok_def)
  show "minted_first (Suc m) (snd (export_request peer now d r s))"
    using u(2) unfolding e by (simp add: minted_first_def)
qed

lemma export_task_done_ok:
  assumes ok: "requests_ok dec s" and k: "k < length (rr_tasks s)" "\<not> et_done (rr_tasks s ! k)"
    and gone: "map_of (pending_calls (rr_calls s)) (et_id (rr_tasks s ! k)) = None"
    and f: "\<And>o1. \<not> os_request (f o1)"
      "\<And>o1 v. os_value o1 = None \<Longrightarrow> os_value (f o1) = Some v \<Longrightarrow>
        \<exists>bytes. OpComplete (et_peer (rr_tasks s ! k)) (et_id (rr_tasks s ! k)) (Inr bytes) \<in> set (rr_log s) \<and> dec bytes = Inr v"
  shows "requests_ok dec (export_task_done k f s)"
proof -
  let ?t = "rr_tasks s ! k" and ?u = "export_task_done k f s"
  have t: "?t \<in> set (rr_tasks s)" using k(1) by simp
  have tasks: "exports_ok dec s" and slots: "slots_ok s" using ok by (simp_all add: requests_ok_def)
  have r: "et_request ?t < length (rr_requests s)" "export_ok dec (rr_log s) (rr_calls s) (rr_requests s ! et_request ?t) ?t"
    using tasks t by (auto simp: exports_ok_def)
  then have none: "os_value (rr_requests s ! et_request ?t) = None"
    using k(2) by (cases "os_value (rr_requests s ! et_request ?t)") (auto simp: export_ok_def)
  have req: "map et_request (rr_tasks ?u) = map et_request (rr_tasks s)"
    using k(1) by (simp add: export_task_done_def map_update list_update_same_conv)
  then have req': "et_request ` set (rr_tasks ?u) = et_request ` set (rr_tasks s)" by (metis list.set_map)
  have notslot: "et_request ?t \<noteq> q" if q: "Some q \<in> set (rr_slots s)" for q
  proof -
    obtain j where "j < length (rr_slots s)" "rr_slots s ! j = Some q" using q by (auto simp: in_set_conv_nth)
    then have "q \<notin> et_request ` set (rr_tasks s)" using slots unfolding slots_ok_def by blast
    then show ?thesis using t by auto
  qed
  have "slots_ok ?u"
  proof (rule slots_okI [OF slots])
    fix q assume q: "Some q \<in> set (rr_slots ?u)"
    then show "os_request (rr_requests ?u ! q) = os_request (rr_requests s ! q) \<and> os_value (rr_requests ?u ! q) = os_value (rr_requests s ! q)"
      using notslot by (simp add: export_task_done_def)
    assume "q \<in> et_request ` set (rr_tasks ?u)"
    then show "q \<in> et_request ` set (rr_tasks s)" using req' by simp
  qed (simp_all add: export_task_done_def)
  moreover have "exports_ok dec ?u"
    unfolding exports_ok_def
  proof (intro conjI ballI)
    show "distinct (map et_request (rr_tasks ?u))" using tasks req by (simp add: exports_ok_def)
    fix t' assume "t' \<in> set (rr_tasks ?u)"
    then obtain j where j: "j < length (rr_tasks s)" "t' = rr_tasks ?u ! j"
      by (auto simp: in_set_conv_nth export_task_done_def)
    then have old: "rr_tasks s ! j \<in> set (rr_tasks s)" by simp
    then show "et_request t' < length (rr_requests ?u)"
      using tasks j r(1) by (cases "j = k") (auto simp: exports_ok_def export_task_done_def)
    show "export_ok dec (rr_log ?u) (rr_calls ?u) (rr_requests ?u ! et_request t') t'"
    proof (cases "j = k")
      case True
      then show ?thesis using r f none gone j by (auto simp: export_ok_def export_task_done_def)
    next
      case False
      then have "et_request (rr_tasks s ! j) \<noteq> et_request ?t"
        using tasks k(1) j(1) unfolding exports_ok_def by (metis distinct_conv_nth length_map nth_map)
      then show ?thesis using False tasks old j by (simp add: exports_ok_def export_task_done_def)
    qed
  qed
  ultimately show ?thesis using ok by (simp add: requests_ok_def export_task_done_def)
qed


text \<open>Each step, and each run.\<close>

lemma minted_same:
  fixes s s' :: "'v remote_requests"
  shows "minted_first m s \<Longrightarrow> rr_log s' = rr_log s \<Longrightarrow> rr_calls s' = rr_calls s \<Longrightarrow> minted_first m s'"
  by (simp add: minted_first_def)

lemma waits_ok_answered:
  assumes "waits_ok log c" "distinct (inserted log)" "map_of (answers c) i = Some a" "OpInsert i node \<in> set log"
  shows "map_of (pending_calls c) i = None" "may_answer log i node a"
proof -
  have a: "(i, a) \<in> set (answers c)" using assms(3) by (rule map_of_SomeD)
  then have "i \<in> fst ` set (answers c)" by force
  then show "map_of (pending_calls c) i = None"
    using assms(1) unfolding waits_ok_def by (cases "map_of (pending_calls c) i") auto
  obtain n where n: "OpInsert i n \<in> set log" "may_answer log i n a" using assms(1) a unfolding waits_ok_def by blast
  then show "may_answer log i node a" using inserted_unique [OF assms(2) n(1) assms(4)] by simp
qed

lemma export_task_poll_ok:
  assumes ok: "requests_ok dec s" shows "requests_ok dec (export_task_poll dec now k s)"
proof (cases "k \<ge> length (rr_tasks s) \<or> et_done (rr_tasks s ! k)")
  case True
  then show ?thesis using ok by (simp add: export_task_poll_def)
next
  case False
  let ?t = "rr_tasks s ! k"
  have k: "k < length (rr_tasks s)" "\<not> et_done ?t" using False by auto
  have "?t \<in> set (rr_tasks s)" using k(1) by simp
  then have ins: "OpInsert (et_id ?t) (et_peer ?t) \<in> set (rr_log s)"
    using ok by (auto simp: requests_ok_def exports_ok_def export_ok_def)
  have no: "\<not> os_request (request_no_reply o1)" "os_value o1 = None \<Longrightarrow> os_value (request_no_reply o1) = None" for o1 :: "'a oneshot"
    by (simp_all add: request_no_reply_def)
  show ?thesis
  proof (cases "map_of (answers (rr_calls s)) (et_id ?t)")
    case (Some a)
    have w: "map_of (pending_calls (rr_calls s)) (et_id ?t) = None" "may_answer (rr_log s) (et_id ?t) (et_peer ?t) a"
      using waits_ok_answered [OF _ _ Some ins] ok by (simp_all add: requests_ok_def)
    have "requests_ok dec (export_task_done k (export_answered dec a) s)"
    proof (rule export_task_done_ok [OF ok k w(1)])
      show "\<not> os_request (export_answered dec a o1)" for o1
        by (simp add: export_answered_def request_reply_def request_no_reply_def split: sum.split)
      fix o1 v assume "os_value o1 = None" "os_value (export_answered dec a o1) = Some v"
      then obtain bytes where b: "a = Inr bytes" "dec bytes = Inr v"
        by (auto simp: export_answered_def request_reply_def request_no_reply_def split: sum.splits if_splits)
      then obtain result where "OpComplete (et_peer ?t) (et_id ?t) result \<in> set (rr_log s)" "Inr bytes = reply_answer result"
        using w(2) by (auto simp: may_answer_def)
      then show "\<exists>bytes. OpComplete (et_peer ?t) (et_id ?t) (Inr bytes) \<in> set (rr_log s) \<and> dec bytes = Inr v"
        using b by (cases result) auto
    qed
    then show ?thesis using False Some by (simp add: export_task_poll_def)
  next
    case None
    have "requests_ok dec (export_task_done k request_no_reply s)" if "map_of (pending_calls (rr_calls s)) (et_id ?t) = None"
      by (rule export_task_done_ok [OF ok k that]) (use no in auto)
    moreover have "requests_ok dec (export_task_done k request_no_reply (on_table (OpRemove (et_id ?t)) s))"
      by (rule export_task_done_ok [OF on_table_ok [OF ok]]) (use k no in auto)
    ultimately show ?thesis using False None ok by (simp add: export_task_poll_def Let_def)
  qed
qed

lemma export_task_poll_minted: "minted_first m s \<Longrightarrow> minted_first m (export_task_poll dec now k s)"
proof -
  assume m: "minted_first m s"
  have finish: "minted_first m (export_task_done k f u)" if "minted_first m u" for f and u :: "'a remote_requests"
    by (rule minted_same [OF that]) (simp_all add: export_task_done_def)
  have "minted_first m (on_table (OpRemove i) s)" for i by (rule minted_on_table [OF m]) simp
  then show ?thesis using m finish by (simp add: export_task_poll_def Let_def split: option.split)
qed

lemma exports_dropped_ok:
  assumes "requests_ok dec s" "minted_first m s"
  shows "requests_ok dec (exports_dropped s) \<and> minted_first m (exports_dropped s)"
proof -
  have "requests_ok dec (fold (\<lambda>i. on_table (OpRemove i)) is s) \<and> minted_first m (fold (\<lambda>i. on_table (OpRemove i)) is s)" for "is"
    using assms by (induction "is" arbitrary: s) (simp_all add: on_table_ok minted_on_table)
  then have u: "requests_ok dec (fold (\<lambda>i. on_table (OpRemove i)) (rr_exported s) s)"
    "minted_first m (fold (\<lambda>i. on_table (OpRemove i)) (rr_exported s) s)" by blast+
  have "requests_ok dec (u\<lparr>rr_exported := x\<rparr>) = requests_ok dec u" for u x
    using slots_ok_same [of "u\<lparr>rr_exported := x\<rparr>" u] by (simp add: requests_ok_def exports_ok_def)
  then show ?thesis using u by (simp add: exports_dropped_def minted_first_def)
qed


lemma request_step_ok:
  assumes ok: "requests_ok dec s" and m: "minted_first m s" "m < 2 ^ 64"
  shows "requests_ok dec (request_step dec e s) \<and> (\<exists>m' \<le> Suc m. minted_first m' (request_step dec e s))"
proof -
  have stay: "?thesis" if "requests_ok dec (request_step dec e s)" "minted_first m (request_step dec e s)"
    using that le_SucI by blast
  have into: "requests_ok dec (snd (into_request k s))" "minted_first m (snd (into_request k s))"
    if "k < length (rr_slots s)" for k
    using into_request_ok(1) [OF ok that] minted_same [OF m(1)] by (simp_all add: into_request_def)
  have resolve: "requests_ok dec (on_request r f (snd (into_request k s)))"
    "minted_first m (on_request r f (snd (into_request k s)))"
    if "k < length (rr_slots s)" "fst (into_request k s) = Some r" for k r f
  proof -
    show "requests_ok dec (on_request r f (snd (into_request k s)))"
      using into_request_ok(2) [OF ok that] by (intro on_request_ok into(1) that) (simp_all add: into_request_def)
    show "minted_first m (on_request r f (snd (into_request k s)))" by (rule minted_same [OF into(2) [OF that(1)]]) simp_all
  qed
  show ?thesis
  proof (cases e)
    case NewRequest
    then show ?thesis using remote_request_new_ok [OF ok] minted_same [OF m(1)]
      by (intro stay) (simp_all add: remote_request_new_def)
  next
    case (Serializes wire now d k)
    show ?thesis
    proof (cases "k < length (rr_slots s) \<and> wire \<noteq> None \<and> fst (into_request k s) \<noteq> None")
      case True
      then obtain peer r where k: "k < length (rr_slots s)" "wire = Some peer" "fst (into_request k s) = Some r" by auto
      have "request_step dec e s = snd (export_request peer now d r (snd (into_request k s)))"
        using k Serializes by (simp add: serialize_request_def split_beta)
      moreover have "rr_requests (snd (into_request k s)) = rr_requests s" "rr_tasks (snd (into_request k s)) = rr_tasks s"
        by (simp_all add: into_request_def)
      ultimately show ?thesis
        using export_request_ok [OF into(1,2) m(2), of k r peer now d] into_request_ok(2) [OF ok k(1,3)] k(1)
        by (metis order_refl)
    next
      case False
      then have "request_step dec e s = s \<or> (k < length (rr_slots s) \<and> request_step dec e s = snd (into_request k s))"
        using Serializes by (auto simp: serialize_request_def split_beta split: option.split)
      then show ?thesis using ok m(1) into by (intro stay) auto
    qed
  next
    case Drops
    then show ?thesis using exports_dropped_ok [OF ok m(1)] by (intro stay) simp_all
  next
    case Commits
    have "requests_ok dec (s\<lparr>rr_exported := []\<rparr>)"
      using ok slots_ok_same [of "s\<lparr>rr_exported := []\<rparr>" s] by (simp add: requests_ok_def exports_ok_def)
    then show ?thesis using Commits minted_same [OF m(1)] by (intro stay) (simp_all add: exports_committed_def)
  next
    case (LocalReply k v)
    then show ?thesis
      using ok m(1) into resolve
      by (intro stay) (auto simp: remote_request_reply_def split_beta split: option.split)
  next
    case (LocalNoReply k)
    then show ?thesis
      using ok m(1) into resolve
      by (intro stay) (auto simp: remote_request_no_reply_def split_beta split: option.split)
  next
    case (Closes r)
    then show ?thesis using reply_close_ok [OF ok] minted_same [OF m(1)] by (intro stay) simp_all
  next
    case (Calls node)
    then show ?thesis using minted_insert(1,2) [OF m ok, of node] by (auto simp: mint_def Let_def)
  next
    case (PollsTask now k)
    then show ?thesis using export_task_poll_ok [OF ok] export_task_poll_minted [OF m(1)] by (intro stay) simp_all
  qed (rule stay; use ok m(1) in \<open>simp add: on_table_ok minted_on_table\<close>)+
qed

lemma request_run_ok:
  assumes "length es \<le> 2 ^ 64"
  shows "requests_ok dec (request_run dec es) \<and> (\<exists>m \<le> length es. minted_first m (request_run dec es))"
  using assms
proof (induction es rule: rev_induct)
  case Nil
  have "requests_ok dec remote_requests_new"
    by (simp add: requests_ok_def remote_requests_new_def waits_ok_def calls_new_def slots_ok_def exports_ok_def)
  moreover have "minted_first 0 remote_requests_new"
    by (simp add: minted_first_def remote_requests_new_def calls_new_def)
  ultimately show ?case by (auto simp: request_run_def)
next
  case (snoc e es)
  then obtain m where m: "requests_ok dec (request_run dec es)" "m \<le> length es" "minted_first m (request_run dec es)"
    by auto
  then have "m < 2 ^ 64" using snoc.prems by simp
  from request_step_ok [OF m(1,3) this, of e] obtain m' where
    "requests_ok dec (request_step dec e (request_run dec es))" "m' \<le> Suc m"
    "minted_first m' (request_step dec e (request_run dec es))" by blast
  then show ?case using m(2) by (intro conjI exI [of _ m']) (simp_all add: request_run_def)
qed

text \<open>What the table was told is what happened.\<close>

lemma completed_happened:
  "OpComplete node i result \<in> set (rr_log (request_run dec es)) \<Longrightarrow> Completes node i result \<in> set es"
proof (induction es rule: rev_induct)
  case Nil
  then show ?case by (simp add: request_run_def remote_requests_new_def)
next
  case (snoc e es)
  have fold: "set (rr_log (fold (\<lambda>i. on_table (OpRemove i)) is s)) = set (rr_log s) \<union> OpRemove ` set is" for s :: "'a remote_requests" and "is"
    by (induction "is" arbitrary: s) auto
  have "OpComplete node i result \<in> set (rr_log (request_step dec e s)) \<Longrightarrow>
      OpComplete node i result \<in> set (rr_log s) \<or> e = Completes node i result" for s
    by (cases e) (auto simp: remote_request_new_def serialize_request_def into_request_def export_request_def mint_def
      exports_dropped_def fold exports_committed_def remote_request_reply_def remote_request_no_reply_def
      export_task_poll_def export_task_done_def Let_def split: option.splits if_splits)
  then show ?case using snoc by (auto simp: request_run_def)
qed


text \<open>What a task resolved stays as it is.\<close>

lemma resolved_stays:
  assumes ok: "requests_ok dec s" and t: "t \<in> set (rr_tasks s)" "et_done t"
  shows "reply_poll (rr_requests (request_step dec e s) ! et_request t) = reply_poll (rr_requests s ! et_request t)"
proof -
  let ?r = "et_request t"
  have tasks: "exports_ok dec s" and slots: "slots_ok s" using ok by (simp_all add: requests_ok_def)
  have r: "?r < length (rr_requests s)" "\<not> os_request (rr_requests s ! ?r)"
    using tasks t by (auto simp: exports_ok_def export_ok_def)
  have notslot: "q \<noteq> ?r" if "k < length (rr_slots s)" "rr_slots s ! k = Some q" for k q
    using slots that t(1) unfolding slots_ok_def by blast
  have other: "et_request (rr_tasks s ! k) \<noteq> ?r" if k: "k < length (rr_tasks s)" "\<not> et_done (rr_tasks s ! k)" for k
  proof -
    obtain j where j: "j < length (rr_tasks s)" "rr_tasks s ! j = t" using t(1) by (auto simp: in_set_conv_nth)
    then have "j \<noteq> k" using k t(2) by auto
    then show ?thesis using tasks k(1) j unfolding exports_ok_def by (metis distinct_conv_nth length_map nth_map)
  qed
  have fold: "rr_requests (fold (\<lambda>i. on_table (OpRemove i)) is u) = rr_requests u" for u :: "'a remote_requests" and "is"
    by (induction "is" arbitrary: u) auto
  show ?thesis
  proof (cases e)
    case (Closes q)
    then show ?thesis using r by (cases "q = ?r") (auto simp: reply_poll_def reply_close_def split: option.split)
  next
    case (PollsTask now k)
    then show ?thesis
      using other [of k] by (auto simp: export_task_poll_def export_task_done_def Let_def split: option.split)
  next
    case (LocalReply k v)
    then show ?thesis using notslot [of k]
      by (auto simp: remote_request_reply_def into_request_def split_beta split: option.split)
  next
    case (LocalNoReply k)
    then show ?thesis using notslot [of k]
      by (auto simp: remote_request_no_reply_def into_request_def split_beta split: option.split)
  next
    case (Serializes wire now d k)
    then show ?thesis
      by (auto simp: serialize_request_def into_request_def export_request_def mint_def Let_def split: option.split)
  qed (use r in \<open>auto simp: remote_request_new_def nth_append exports_dropped_def fold exports_committed_def mint_def Let_def\<close>)
qed

lemma deadline_resolves:
  assumes k: "k < length (rr_tasks s)" "et_deadline (rr_tasks s ! k) \<le> now" and ok: "requests_ok dec s"
  shows "reply_poll (rr_requests (export_task_poll dec now k s) ! et_request (rr_tasks s ! k)) \<noteq> Pending"
proof -
  let ?t = "rr_tasks s ! k"
  have "?t \<in> set (rr_tasks s)" using k(1) by simp
  then have t: "et_request ?t < length (rr_requests s)" "et_done ?t \<longleftrightarrow> \<not> os_request (rr_requests s ! et_request ?t)"
    using ok by (auto simp: requests_ok_def exports_ok_def export_ok_def)
  have no: "\<not> os_request (request_no_reply o1)" "\<not> os_request (export_answered dec a o1)" for o1 a
    by (simp_all add: request_no_reply_def export_answered_def request_reply_def split: sum.split)
  have "\<not> os_request (rr_requests (export_task_poll dec now k s) ! et_request ?t)"
    using k t no by (auto simp: export_task_poll_def export_task_done_def Let_def split: option.split)
  then show ?thesis by (simp add: reply_poll_def split: option.split)
qed

text \<open>C34: A request that was sent in a message is resolved once, by its task: it is open until the task is
  done (or the reply is given up), and what it resolves to stays. A value is what the node that the message
  went to answered with, under the number that only this request has; nothing else can put one there. Once
  the task is done the table has no entry for it, and a poll at or after the deadline finds it resolved, whatever
  the node does. Runs have at most \<open>2 ^ 64\<close> steps, so that no number is taken twice.\<close>

theorem remote_requests_resolve_once:
  assumes es: "length es \<le> 2 ^ 64" and t: "t \<in> set (rr_tasks (request_run dec es))"
  shows "let s = request_run dec es; o1 = rr_requests s ! et_request t in
    (reply_poll o1 = Pending \<longleftrightarrow> \<not> et_done t \<and> os_reply o1)
    \<and> (\<forall>v. reply_poll o1 = Ready (Inr v) \<longrightarrow>
        (\<exists>bytes. Completes (et_peer t) (et_id t) (Inr bytes) \<in> set es \<and> dec bytes = Inr v))
    \<and> (et_done t \<longrightarrow> map_of (pending_calls (rr_calls s)) (et_id t) = None)
    \<and> (\<forall>e. et_done t \<longrightarrow> reply_poll (rr_requests (request_step dec e s) ! et_request t) = reply_poll o1)
    \<and> (\<forall>k now. k < length (rr_tasks s) \<and> rr_tasks s ! k = t \<and> et_deadline t \<le> now \<longrightarrow>
        reply_poll (rr_requests (export_task_poll dec now k s) ! et_request t) \<noteq> Pending)"
proof -
  have ok: "requests_ok dec (request_run dec es)" using request_run_ok [OF es] by blast
  then have "export_ok dec (rr_log (request_run dec es)) (rr_calls (request_run dec es))
      (rr_requests (request_run dec es) ! et_request t) t"
    using t by (simp add: requests_ok_def exports_ok_def)
  then have task: "et_done t \<longleftrightarrow> \<not> os_request (rr_requests (request_run dec es) ! et_request t)"
    "\<And>v. os_value (rr_requests (request_run dec es) ! et_request t) = Some v \<Longrightarrow> et_done t \<and>
      (\<exists>bytes. OpComplete (et_peer t) (et_id t) (Inr bytes) \<in> set (rr_log (request_run dec es)) \<and> dec bytes = Inr v)"
    "et_done t \<Longrightarrow> map_of (pending_calls (rr_calls (request_run dec es))) (et_id t) = None"
    unfolding export_ok_def by blast+
  have outcome: "reply_poll o1 = Ready (Inr v) \<longleftrightarrow> os_value o1 = Some v"
    "reply_poll o1 = Pending \<longleftrightarrow> os_value o1 = None \<and> os_request o1 \<and> os_reply o1" for o1 :: "'a oneshot" and v
    by (auto simp: reply_poll_def split: option.split)
  show ?thesis
    unfolding Let_def outcome
  proof (intro conjI allI impI)
    show "(os_value (rr_requests (request_run dec es) ! et_request t) = None
        \<and> os_request (rr_requests (request_run dec es) ! et_request t)
        \<and> os_reply (rr_requests (request_run dec es) ! et_request t)) =
      (\<not> et_done t \<and> os_reply (rr_requests (request_run dec es) ! et_request t))"
      using task(1,2) by (cases "os_value (rr_requests (request_run dec es) ! et_request t)") auto
  next
    fix v assume "os_value (rr_requests (request_run dec es) ! et_request t) = Some v"
    then show "\<exists>bytes. Completes (et_peer t) (et_id t) (Inr bytes) \<in> set es \<and> dec bytes = Inr v"
      using task(2) completed_happened by blast
  next
    fix k now assume "k < length (rr_tasks (request_run dec es)) \<and> rr_tasks (request_run dec es) ! k = t \<and> et_deadline t \<le> now"
    then show "\<not> (os_value (rr_requests (export_task_poll dec now k (request_run dec es)) ! et_request t) = None
        \<and> os_request (rr_requests (export_task_poll dec now k (request_run dec es)) ! et_request t)
        \<and> os_reply (rr_requests (export_task_poll dec now k (request_run dec es)) ! et_request t))"
      using deadline_resolves [OF _ _ ok] outcome by auto
  qed (use task(3) resolved_stays [OF ok t] in auto)
qed


lemma remote_requests_resolve_once_witness:
  "let s = request_run Inr [NewRequest, Serializes (Some ''b'') 5 30 0, Commits, Completes ''b'' 0 (Inr [7]), PollsTask 9 0];
      t = \<lparr>et_id = 0, et_peer = ''b'', et_request = 0, et_deadline = 35, et_done = True\<rparr>
    in t \<in> set (rr_tasks s) \<and> reply_poll (rr_requests s ! 0) = Ready (Inr [7])
      \<and> reply_poll (rr_requests (request_step Inr (PollsTask 99 0) s) ! 0) = Ready (Inr [7])"
proof -
  let ?es = "[NewRequest, Serializes (Some ''b'') 5 30 0, Commits, Completes ''b'' 0 (Inr [7]), PollsTask 9 0]"
  let ?t = "\<lparr>et_id = 0, et_peer = ''b'', et_request = 0, et_deadline = 35, et_done = True\<rparr>"
  have t: "?t \<in> set (rr_tasks (request_run Inr ?es))" and "reply_poll (rr_requests (request_run Inr ?es) ! 0) = Ready (Inr [7])"
    by code_simp+
  moreover have "length ?es \<le> 2 ^ 64" by simp
  from remote_requests_resolve_once [OF this t]
  have "reply_poll (rr_requests (request_step Inr (PollsTask 99 0) (request_run Inr ?es)) ! 0)
      = reply_poll (rr_requests (request_run Inr ?es) ! 0)"
    by (simp add: Let_def del: request_step.simps)
  ultimately show ?thesis by (simp add: Let_def del: request_step.simps)
qed

end
