(* ===== verification/Quic.thy ===== *)
theory Quic
  imports Sim_Fabric "HOL-Library.Multiset" "HOL-Library.Char_ord"
begin

text \<open>
  The QUIC backend (distr-quic/src): the TLS identity of a node (tls.rs), starting an endpoint, and how its
  connections come by the name of the node at the other end (lib.rs).

  What rustls, webpki, rcgen and quinn do is a parameter: a record of what their functions give. Certificates
  and keys are abstract. What an operation of theirs may fail with is a string.
\<close>

section \<open>Identities\<close>

text \<open>\<open>tc_roots\<close> are the certificates that peers must chain to; with \<open>None\<close> anyone is accepted.\<close>

record ('c, 'k) tls_config =
  tc_roots :: "'c list option"
  tc_chain :: "'c list"
  tc_key :: 'k
  tc_alpn :: "string list"

record ('c, 'k) tls_library =
  pem_certs :: "byte list \<Rightarrow> (string + 'c) list"
  pem_key :: "byte list \<Rightarrow> string + 'k"
  add_root :: "'c \<Rightarrow> string + unit"
  build_verifier :: "'c list \<Rightarrow> string + unit"
  protocol_versions :: "string + unit"
  with_cert :: "'c list \<Rightarrow> 'k \<Rightarrow> string + unit" \<comment> \<open>\<open>with_single_cert\<close> and \<open>with_client_auth_cert\<close>\<close>
  cert_names :: "'c \<Rightarrow> string + name list"
  self_signed :: "name \<Rightarrow> string + 'c \<times> 'k"
  quic_crypto :: "('c, 'k) tls_config \<Rightarrow> string + unit"
  server_name_ok :: "name \<Rightarrow> bool"
  idle_timeout_ok :: "duration \<Rightarrow> bool"

datatype tls_error =
    PemError string | NoCertificates | RustlsError string | VerifierError string | GenerateError string
  | CertificateNames nat | CertificateError string

datatype ('c, 'k) tls =
    TlsCa (ca_server: "('c, 'k) tls_config") (ca_client: "('c, 'k) tls_config") (ca_node: name)
  | TlsInsecure

text \<open>Rust's \<open>?\<close>.\<close>

definition attempt :: "('e \<Rightarrow> 'f) \<Rightarrow> 'e + 'a \<Rightarrow> ('a \<Rightarrow> 'f + 'b) \<Rightarrow> 'f + 'b" where
  "attempt into r f = (case r of Inl e \<Rightarrow> Inl (into e) | Inr a \<Rightarrow> f a)"

lemma attempt_Inr_iff: "attempt into r f = Inr b \<longleftrightarrow> (\<exists>a. r = Inr a \<and> f a = Inr b)"
  by (simp add: attempt_def split: sum.split)

definition alpn :: "string list" where
  "alpn = [''zestors/1'']"

definition node_of_cert :: "('c, 'k) tls_library \<Rightarrow> 'c \<Rightarrow> tls_error + name" where
  "node_of_cert lib cert = attempt CertificateError (cert_names lib cert) (\<lambda>names.
     case names of
       [name] \<Rightarrow> Inr name
     | [] \<Rightarrow> Inl (CertificateNames 0)
     | _ # _ # others \<Rightarrow> Inl (CertificateNames (2 + length others)))"

lemma node_of_cert_Inr_iff: "node_of_cert lib cert = Inr node \<longleftrightarrow> cert_names lib cert = Inr [node]"
proof (cases "cert_names lib cert")
  case (Inr names)
  then show ?thesis by (cases names rule: remdups_adj.cases) (auto simp: node_of_cert_def attempt_def)
qed (simp add: node_of_cert_def attempt_def)

fun add_roots :: "('c, 'k) tls_library \<Rightarrow> (string + 'c) list \<Rightarrow> 'c list \<Rightarrow> tls_error + 'c list" where
  "add_roots lib [] roots = Inr roots"
| "add_roots lib (c # cs) roots = attempt PemError c (\<lambda>c.
     attempt RustlsError (add_root lib c) (\<lambda>_. add_roots lib cs (roots @ [c])))"

fun collect_certs :: "(string + 'c) list \<Rightarrow> string + 'c list" where
  "collect_certs [] = Inr []"
| "collect_certs (c # cs) = attempt id c (\<lambda>c. attempt id (collect_certs cs) (\<lambda>cs. Inr (c # cs)))"

definition from_pem :: "('c, 'k) tls_library \<Rightarrow> byte list \<Rightarrow> byte list \<Rightarrow> byte list \<Rightarrow> tls_error + ('c, 'k) tls" where
  "from_pem lib ca_pem cert_pem key_pem =
     attempt id (add_roots lib (pem_certs lib ca_pem) []) (\<lambda>roots.
     attempt PemError (collect_certs (pem_certs lib cert_pem)) (\<lambda>chain.
     attempt id (case chain of [] \<Rightarrow> Inl NoCertificates | cert # _ \<Rightarrow> node_of_cert lib cert) (\<lambda>node.
     attempt PemError (pem_key lib key_pem) (\<lambda>key.
     attempt VerifierError (build_verifier lib roots) (\<lambda>_.
     attempt RustlsError (protocol_versions lib) (\<lambda>_.
     attempt RustlsError (with_cert lib chain key) (\<lambda>_.
       let config = \<lparr>tc_roots = Some roots, tc_chain = chain, tc_key = key, tc_alpn = alpn\<rparr>
       in Inr (TlsCa config config node))))))))"

definition insecure_dev :: "tls_error + ('c, 'k) tls" where
  "insecure_dev = Inr TlsInsecure"

definition insecure_configs :: "('c, 'k) tls_library \<Rightarrow> name \<Rightarrow> tls_error + ('c, 'k) tls_config \<times> ('c, 'k) tls_config" where
  "insecure_configs lib local =
     attempt GenerateError (self_signed lib local) (\<lambda>(cert, key).
     attempt RustlsError (protocol_versions lib) (\<lambda>_.
     attempt RustlsError (with_cert lib [cert] key) (\<lambda>_.
       let config = \<lparr>tc_roots = None, tc_chain = [cert], tc_key = key, tc_alpn = alpn\<rparr>
       in Inr (config, config))))"

datatype invalid_input =
    OtherNode name name | BadTls tls_error | BadCrypto string | BadNodeName name | BadIdleTimeout

datatype quic_error =
    InvalidInput invalid_input | ConnectionAborted | NotFound string | IoError string

record quic_timings =
  keep_alive :: duration
  idle_timeout :: duration

definition quic_timings_default :: quic_timings where
  "quic_timings_default = \<lparr>keep_alive = 5 * 10 ^ 9, idle_timeout = 30 * 10 ^ 9\<rparr>"

text \<open>A configuration of quinn: the TLS configuration, and the transport's.\<close>

type_synonym ('c, 'k) quinn_config = "('c, 'k) tls_config \<times> quic_timings"

definition quic_configs ::
    "('c, 'k) tls_library \<Rightarrow> ('c, 'k) tls \<Rightarrow> name \<Rightarrow> quic_timings \<Rightarrow> quic_error + ('c, 'k) quinn_config \<times> ('c, 'k) quinn_config" where
  "quic_configs lib tls local transport =
     attempt InvalidInput (case tls of
         TlsCa server client node \<Rightarrow> if node \<noteq> local then Inl (OtherNode node local) else Inr (server, client)
       | TlsInsecure \<Rightarrow> map_sum BadTls id (insecure_configs lib local)) (\<lambda>(server, client).
     attempt (InvalidInput \<circ> BadCrypto) (quic_crypto lib server) (\<lambda>_.
     attempt (InvalidInput \<circ> BadCrypto) (quic_crypto lib client) (\<lambda>_.
       Inr ((server, transport), (client, transport)))))"

section \<open>Endpoints and connections\<close>

text \<open>What quinn knows of the peer of a connection: \<open>peer_identity\<close> and what it can be downcast to.\<close>

datatype 'c identity = NoIdentity | UnknownIdentity | Chain "'c list"

datatype peer_error = NoCertificatePresented | UnexpectedIdentity | EmptyChain | BadPeerCertificate tls_error

definition peer_of :: "('c, 'k) tls_library \<Rightarrow> 'c identity \<Rightarrow> peer_error + name" where
  "peer_of lib identity = (case identity of
       NoIdentity \<Rightarrow> Inl NoCertificatePresented
     | UnknownIdentity \<Rightarrow> Inl UnexpectedIdentity
     | Chain [] \<Rightarrow> Inl EmptyChain
     | Chain (cert # _) \<Rightarrow> attempt BadPeerCertificate (node_of_cert lib cert) Inr)"

record quic_connection =
  qn_conn :: nat \<comment> \<open>the connection of quinn\<close>
  qn_peer :: name

record ('c, 'k) quic =
  qc_bind :: string
  qc_tls :: "('c, 'k) tls"
  qc_timings :: quic_timings

definition quic_new :: "string \<Rightarrow> ('c, 'k) tls \<Rightarrow> ('c, 'k) quic" where
  "quic_new bind tls = \<lparr>qc_bind = bind, qc_tls = tls, qc_timings = quic_timings_default\<rparr>"

definition quic_with_timings :: "quic_timings \<Rightarrow> ('c, 'k) quic \<Rightarrow> ('c, 'k) quic" where
  "quic_with_timings timings q = q\<lparr>qc_timings := timings\<rparr>"

text \<open>
  An endpoint with the tasks that its accepting task spawned, one for each incoming connection: in the
  handshake, or waiting for room among the ready ones. \<open>qe_closed\<close> are the connections that this node
  closed, \<open>qe_accepted\<close> those that were handed out.
\<close>

datatype accept_task = Handshaking nat | Sending quic_connection | AcceptDone

record ('c, 'k) quic_endpoint =
  qe_server :: "('c, 'k) quinn_config"
  qe_client :: "('c, 'k) quinn_config"
  qe_tasks :: "accept_task list"
  qe_ready :: "quic_connection list"
  qe_accepted :: "quic_connection list"
  qe_rejected :: "nat list"
  qe_open :: bool \<comment> \<open>not \<open>close\<close>d\<close>

definition quic_start :: "('c, 'k) tls_library \<Rightarrow> ('c, 'k) quic \<Rightarrow> name \<Rightarrow> string + unit \<Rightarrow> quic_error + ('c, 'k) quic_endpoint" where
  "quic_start lib q local bound =
     (if \<not> server_name_ok lib local then Inl (InvalidInput (BadNodeName local))
      else if \<not> idle_timeout_ok lib (idle_timeout (qc_timings q)) then Inl (InvalidInput BadIdleTimeout)
      else attempt id (quic_configs lib (qc_tls q) local (qc_timings q)) (\<lambda>(server, client).
        attempt IoError bound (\<lambda>_.
          Inr \<lparr>qe_server = server, qe_client = client, qe_tasks = [], qe_ready = [], qe_accepted = [],
            qe_rejected = [], qe_open = True\<rparr>)))"

definition ready_capacity :: nat where
  "ready_capacity = 64"

text \<open>\<open>quinn::Endpoint::accept\<close> gives nothing more once the endpoint is closed.\<close>

definition incoming_conn :: "nat \<Rightarrow> ('c, 'k) quic_endpoint \<Rightarrow> ('c, 'k) quic_endpoint" where
  "incoming_conn conn e = (if qe_open e then e\<lparr>qe_tasks := qe_tasks e @ [Handshaking conn]\<rparr> else e)"

definition handshake_done ::
    "('c, 'k) tls_library \<Rightarrow> nat \<Rightarrow> string + 'c identity \<Rightarrow> ('c, 'k) quic_endpoint \<Rightarrow> ('c, 'k) quic_endpoint" where
  "handshake_done lib k result e =
     (if k < length (qe_tasks e)
      then case qe_tasks e ! k of
          Handshaking conn \<Rightarrow> (case result of
              Inl _ \<Rightarrow> e\<lparr>qe_tasks := (qe_tasks e)[k := AcceptDone]\<rparr>
            | Inr identity \<Rightarrow> (case peer_of lib identity of
                  Inr peer \<Rightarrow> e\<lparr>qe_tasks := (qe_tasks e)[k := Sending \<lparr>qn_conn = conn, qn_peer = peer\<rparr>]\<rparr>
                | Inl _ \<Rightarrow> e\<lparr>qe_tasks := (qe_tasks e)[k := AcceptDone], qe_rejected := qe_rejected e @ [conn]\<rparr>))
        | _ \<Rightarrow> e
      else e)"

definition ready_sent :: "nat \<Rightarrow> ('c, 'k) quic_endpoint \<Rightarrow> ('c, 'k) quic_endpoint" where
  "ready_sent k e =
     (if k < length (qe_tasks e)
      then case qe_tasks e ! k of
          Sending conn \<Rightarrow>
            if length (qe_ready e) < ready_capacity
            then e\<lparr>qe_tasks := (qe_tasks e)[k := AcceptDone], qe_ready := qe_ready e @ [conn]\<rparr>
            else e
        | _ \<Rightarrow> e
      else e)"

definition quic_accept :: "('c, 'k) quic_endpoint \<Rightarrow> (quic_error + quic_connection) poll \<times> ('c, 'k) quic_endpoint" where
  "quic_accept e = (case qe_ready e of
       conn # others \<Rightarrow> (Ready (Inr conn), e\<lparr>qe_ready := others, qe_accepted := qe_accepted e @ [conn]\<rparr>)
     | [] \<Rightarrow> if \<not> qe_open e \<and> set (qe_tasks e) \<subseteq> {AcceptDone} then (Ready (Inl ConnectionAborted), e)
             else (Pending, e))"

definition quic_close :: "('c, 'k) quic_endpoint \<Rightarrow> ('c, 'k) quic_endpoint" where
  "quic_close e = e\<lparr>qe_open := False\<rparr>"

text \<open>
  Dialing: what an address parses to and resolves to, and how quinn's \<open>connect\<close> and the handshake end, are
  inputs. The peer is the one that was asked for.
\<close>

definition resolve_addr :: "(string \<Rightarrow> 's option) \<Rightarrow> (string \<Rightarrow> string + 's list) \<Rightarrow> string \<Rightarrow> quic_error + 's" where
  "resolve_addr to_socket_addr lookup_host addr = (case to_socket_addr addr of
       Some socket \<Rightarrow> Inr socket
     | None \<Rightarrow> attempt IoError (lookup_host addr) (\<lambda>sockets.
         case sockets of socket # _ \<Rightarrow> Inr socket | [] \<Rightarrow> Inl (NotFound addr)))"

definition quic_connect ::
    "(string \<Rightarrow> 's option) \<Rightarrow> (string \<Rightarrow> string + 's list) \<Rightarrow> ('s \<Rightarrow> name \<Rightarrow> string + nat)
      \<Rightarrow> string \<Rightarrow> name \<Rightarrow> quic_error + quic_connection" where
  "quic_connect to_socket_addr lookup_host dial addr node =
     attempt id (resolve_addr to_socket_addr lookup_host addr) (\<lambda>socket.
     attempt IoError (dial socket node) (\<lambda>conn. Inr \<lparr>qn_conn = conn, qn_peer = node\<rparr>))"

datatype send_datagram_error = SdTooLarge | SdUnsupportedByPeer | SdDisabled | SdConnectionLost string

definition quic_send_datagram :: "send_datagram_error + unit \<Rightarrow> datagram_error + unit" where
  "quic_send_datagram result = map_sum (\<lambda>err. case err of
       SdTooLarge \<Rightarrow> DatagramTooLarge
     | SdUnsupportedByPeer \<Rightarrow> DatagramUnsupported
     | SdDisabled \<Rightarrow> DatagramUnsupported
     | SdConnectionLost _ \<Rightarrow> DatagramClosed) id result"


text \<open>Names of hosts are compared without regard to the case of ASCII letters.\<close>

definition lower :: "name \<Rightarrow> name" where
  "lower = map (\<lambda>c. if CHR ''A'' \<le> c \<and> c \<le> CHR ''Z'' then char_of (of_char c + 32 :: nat) else c)"

section \<open>Runs of an endpoint\<close>

datatype 'c quic_event = Incoming nat | Handshake nat "string + 'c identity" | ReadySent nat | Accept | CloseEndpoint

fun quic_step :: "('c, 'k) tls_library \<Rightarrow> 'c quic_event \<Rightarrow> ('c, 'k) quic_endpoint \<Rightarrow> ('c, 'k) quic_endpoint" where
  "quic_step lib (Incoming conn) e = incoming_conn conn e"
| "quic_step lib (Handshake k result) e = handshake_done lib k result e"
| "quic_step lib (ReadySent k) e = ready_sent k e"
| "quic_step lib Accept e = snd (quic_accept e)"
| "quic_step lib CloseEndpoint e = quic_close e"

definition quic_run :: "('c, 'k) tls_library \<Rightarrow> 'c quic_event list \<Rightarrow> ('c, 'k) quic_endpoint \<Rightarrow> ('c, 'k) quic_endpoint" where
  "quic_run lib es e = fold (quic_step lib) es e"

text \<open>The connections that came in while the endpoint was open, by task.\<close>

fun offered :: "'c quic_event list \<Rightarrow> nat list" where
  "offered [] = []"
| "offered (Incoming conn # es) = conn # offered es"
| "offered (CloseEndpoint # es) = []"
| "offered (_ # es) = offered es"

lemma offered_snoc:
  "offered (es @ [e]) = offered es @ (case e of Incoming conn \<Rightarrow> if CloseEndpoint \<in> set es then [] else [conn] | _ \<Rightarrow> [])"
proof (induction es)
  case Nil
  then show ?case by (cases e) auto
next
  case (Cons a es)
  then show ?case by (cases a; cases e) auto
qed

fun task_conn :: "accept_task \<Rightarrow> nat list" where
  "task_conn (Handshaking conn) = [conn]"
| "task_conn (Sending conn) = [qn_conn conn]"
| "task_conn AcceptDone = []"

text \<open>
  What is known of connection \<open>c\<close>: the task that took it in saw its handshake done, and read the name from what
  the peer presented.
\<close>

definition identified :: "('c, 'k) tls_library \<Rightarrow> 'c quic_event list \<Rightarrow> quic_connection \<Rightarrow> bool" where
  "identified lib es c \<longleftrightarrow> (\<exists>k identity. k < length (offered es) \<and> offered es ! k = qn_conn c
     \<and> Handshake k (Inr identity) \<in> set es \<and> peer_of lib identity = Inr (qn_peer c))"

definition endpoint_ok :: "('c, 'k) tls_library \<Rightarrow> 'c quic_event list \<Rightarrow> ('c, 'k) quic_endpoint \<Rightarrow> bool" where
  "endpoint_ok lib es e \<longleftrightarrow> (qe_open e \<longleftrightarrow> CloseEndpoint \<notin> set es) \<and> length (qe_tasks e) = length (offered es)
     \<and> (\<forall>k < length (qe_tasks e). \<forall>conn. qe_tasks e ! k = Handshaking conn \<longrightarrow> offered es ! k = conn)
     \<and> (\<forall>c. Sending c \<in> set (qe_tasks e) \<longrightarrow> identified lib es c)
     \<and> (\<forall>c \<in> set (qe_ready e @ qe_accepted e). identified lib es c)
     \<and> length (qe_ready e) \<le> ready_capacity
     \<and> mset (concat (map task_conn (qe_tasks e))) + mset (map qn_conn (qe_ready e @ qe_accepted e)) + mset (qe_rejected e)
         \<subseteq># mset (offered es)"

lemma identified_snoc: "identified lib es c \<Longrightarrow> identified lib (es @ [e]) c"
  unfolding identified_def offered_snoc by (metis Un_iff length_append nth_append set_append trans_less_add1)

lemma distinct_mset_sub:
  assumes "mset xs \<subseteq># mset ys" "distinct ys" shows "distinct xs"
proof -
  obtain zs where "mset ys = mset xs + mset zs" using assms(1) by (metis ex_mset mset_subset_eq_exists_conv)
  then have "mset ys = mset (xs @ zs)" by simp
  then show ?thesis using assms(2) mset_eq_imp_distinct_iff by (metis distinct_append)
qed

lemma task_conns_update:
  "k < length ts \<Longrightarrow> mset (concat (map task_conn (ts[k := t]))) + mset (task_conn (ts ! k))
    = mset (concat (map task_conn ts)) + mset (task_conn t)"
proof (induction ts arbitrary: k)
  case (Cons a ts)
  then show ?case by (cases k) (auto simp: ac_simps)
qed simp


lemma sending_update: "Sending c \<in> set (ts[k := t]) \<Longrightarrow> Sending c \<in> set ts \<or> t = Sending c"
  by (metis insert_iff set_update_subset_insert subsetD)

text \<open>A task moves on: what it holds becomes \<open>t\<close>, and goes elsewhere otherwise.\<close>

lemma endpoint_task_ok:
  assumes ok: "endpoint_ok lib es e" and k: "k < length (qe_tasks e)"
    and t: "t = AcceptDone \<or> (\<exists>c. t = Sending c \<and> identified lib (es @ [ev]) c)"
    and ev: "ev \<noteq> CloseEndpoint" "offered (es @ [ev]) = offered es"
    and e': "qe_tasks e' = (qe_tasks e)[k := t]" "qe_open e' = qe_open e" "qe_accepted e' = qe_accepted e"
      "qe_ready e' = qe_ready e @ rs" "qe_rejected e' = qe_rejected e @ xs"
    and rs: "\<forall>c \<in> set rs. identified lib (es @ [ev]) c" "length (qe_ready e) + length rs \<le> ready_capacity"
    and moved: "mset (task_conn t) + mset (map qn_conn rs) + mset xs \<subseteq># mset (task_conn (qe_tasks e ! k))"
  shows "endpoint_ok lib (es @ [ev]) e'"
  unfolding endpoint_ok_def
proof (intro conjI)
  note old = ok [unfolded endpoint_ok_def]
  show "qe_open e' \<longleftrightarrow> CloseEndpoint \<notin> set (es @ [ev])" using old e' ev by auto
  show "length (qe_tasks e') = length (offered (es @ [ev]))" using old e' ev by simp
  show "\<forall>j < length (qe_tasks e'). \<forall>conn. qe_tasks e' ! j = Handshaking conn \<longrightarrow> offered (es @ [ev]) ! j = conn"
  proof (intro allI impI)
    fix j conn assume "j < length (qe_tasks e')" "qe_tasks e' ! j = Handshaking conn"
    then show "offered (es @ [ev]) ! j = conn" using old e' ev t k by (cases "j = k") auto
  qed
  show "\<forall>c. Sending c \<in> set (qe_tasks e') \<longrightarrow> identified lib (es @ [ev]) c"
  proof (intro allI impI)
    fix c assume "Sending c \<in> set (qe_tasks e')"
    then have "Sending c \<in> set (qe_tasks e) \<or> t = Sending c" using e' sending_update by metis
    then show "identified lib (es @ [ev]) c" using old t by (auto intro: identified_snoc)
  qed
  show "\<forall>c \<in> set (qe_ready e' @ qe_accepted e'). identified lib (es @ [ev]) c"
    using old e' rs by (auto intro: identified_snoc)
  show "length (qe_ready e') \<le> ready_capacity" using e' rs by simp
  let ?T = "\<lambda>ts. mset (concat (map task_conn ts))"
  have "?T (qe_tasks e') + mset (task_conn (qe_tasks e ! k)) = ?T (qe_tasks e) + mset (task_conn t)"
    using task_conns_update [OF k] e' by simp
  then have "?T (qe_tasks e') + (mset (map qn_conn (qe_ready e' @ qe_accepted e')) + mset (qe_rejected e'))
      + mset (task_conn (qe_tasks e ! k))
    = ?T (qe_tasks e) + (mset (map qn_conn (qe_ready e @ qe_accepted e)) + mset (qe_rejected e))
      + (mset (task_conn t) + mset (map qn_conn rs) + mset xs)"
    using e' by (simp add: ac_simps)
  moreover have "a \<subseteq># b" if "a + n = b + m" "m \<subseteq># n" for a b m n :: "nat multiset"
    using that by (metis mset_subset_eq_exists_conv mset_subset_eq_add_left add.assoc add_right_cancel union_commute)
  ultimately have "?T (qe_tasks e') + (mset (map qn_conn (qe_ready e' @ qe_accepted e')) + mset (qe_rejected e'))
      \<subseteq># ?T (qe_tasks e) + (mset (map qn_conn (qe_ready e @ qe_accepted e)) + mset (qe_rejected e))"
    using moved by blast
  then show "?T (qe_tasks e') + mset (map qn_conn (qe_ready e' @ qe_accepted e')) + mset (qe_rejected e')
      \<subseteq># mset (offered (es @ [ev]))"
    using old ev(2) by (metis (no_types, lifting) add.assoc subset_mset.order_trans)
qed

lemma endpoint_same_ok:
  assumes "endpoint_ok lib es e" "ev \<noteq> CloseEndpoint" "offered (es @ [ev]) = offered es"
  shows "endpoint_ok lib (es @ [ev]) e"
  using assms unfolding endpoint_ok_def by (auto intro: identified_snoc)

lemma handshake_done_ok:
  assumes ok: "endpoint_ok lib es e" shows "endpoint_ok lib (es @ [Handshake k result]) (handshake_done lib k result e)"
proof (cases "\<exists>conn. k < length (qe_tasks e) \<and> qe_tasks e ! k = Handshaking conn")
  case False
  then have "handshake_done lib k result e = e" by (auto simp: handshake_done_def split: accept_task.split)
  then show ?thesis using endpoint_same_ok [OF ok] by (simp add: offered_snoc)
next
  case True
  then obtain conn where k: "k < length (qe_tasks e)" "qe_tasks e ! k = Handshaking conn" by blast
  then have conn: "k < length (offered es)" "offered es ! k = conn" using ok by (auto simp: endpoint_ok_def)
  have le: "length (qe_ready e) + length [] \<le> ready_capacity" using ok by (simp add: endpoint_ok_def)
  have off: "offered (es @ [Handshake k result]) = offered es" by (simp add: offered_snoc)
  note move = endpoint_task_ok [OF ok k(1) _ _ off _ _ _ _ _ _ le]
  consider (failed) "\<exists>err. result = Inl err"
    | (peer) identity peer where "result = Inr identity" "peer_of lib identity = Inr peer"
    | (rejected) identity err where "result = Inr identity" "peer_of lib identity = Inl err"
    by (metis sum.exhaust)
  then show ?thesis
  proof cases
    case failed
    then have "handshake_done lib k result e = e\<lparr>qe_tasks := (qe_tasks e)[k := AcceptDone]\<rparr>"
      using k by (auto simp: handshake_done_def)
    then show ?thesis by (intro move [where t = AcceptDone and xs = "[]"]) simp_all
  next
    case (peer identity peer)
    let ?c = "\<lparr>qn_conn = conn, qn_peer = peer\<rparr>"
    have "handshake_done lib k result e = e\<lparr>qe_tasks := (qe_tasks e)[k := Sending ?c]\<rparr>"
      using k peer by (simp add: handshake_done_def)
    moreover have "identified lib (es @ [Handshake k result]) ?c"
      using conn peer unfolding identified_def off by (intro exI [of _ k] exI [of _ identity]) simp
    ultimately show ?thesis using k by (intro move [where t = "Sending ?c" and xs = "[]"]) simp_all
  next
    case (rejected identity err)
    then have "handshake_done lib k result e =
        e\<lparr>qe_tasks := (qe_tasks e)[k := AcceptDone], qe_rejected := qe_rejected e @ [conn]\<rparr>"
      using k by (simp add: handshake_done_def)
    then show ?thesis using k by (intro move [where t = AcceptDone and xs = "[conn]"]) simp_all
  qed
qed

lemma ready_sent_ok:
  assumes ok: "endpoint_ok lib es e" shows "endpoint_ok lib (es @ [ReadySent k]) (ready_sent k e)"
proof (cases "\<exists>c. k < length (qe_tasks e) \<and> qe_tasks e ! k = Sending c \<and> length (qe_ready e) < ready_capacity")
  case False
  then have "ready_sent k e = e" by (auto simp: ready_sent_def split: accept_task.split)
  then show ?thesis using endpoint_same_ok [OF ok] by (simp add: offered_snoc)
next
  case True
  then obtain c where k: "k < length (qe_tasks e)" "qe_tasks e ! k = Sending c" "length (qe_ready e) < ready_capacity" by blast
  then have "Sending c \<in> set (qe_tasks e)" by (metis nth_mem)
  then have "identified lib es c" using ok by (simp add: endpoint_ok_def)
  then have "identified lib (es @ [ReadySent k]) c" by (rule identified_snoc)
  moreover have "ready_sent k e = e\<lparr>qe_tasks := (qe_tasks e)[k := AcceptDone], qe_ready := qe_ready e @ [c]\<rparr>"
    using k by (simp add: ready_sent_def)
  ultimately show ?thesis
    using k by (intro endpoint_task_ok [OF ok k(1), where t = AcceptDone and xs = "[]" and rs = "[c]"]) (simp_all add: offered_snoc)
qed

lemma quic_run_ok:
  assumes e: "qe_tasks e = []" "qe_ready e = []" "qe_accepted e = []" "qe_rejected e = []" "qe_open e"
  shows "endpoint_ok lib es (quic_run lib es e)"
proof (induction es rule: rev_induct)
  case Nil
  then show ?case using e by (simp add: quic_run_def endpoint_ok_def)
next
  case (snoc ev es)
  let ?e = "quic_run lib es e"
  have run: "quic_run lib (es @ [ev]) e = quic_step lib ev ?e" by (simp add: quic_run_def)
  show ?case
    unfolding run
  proof (cases ev)
    case (Incoming conn)
    show "endpoint_ok lib (es @ [ev]) (quic_step lib ev ?e)"
    proof (cases "qe_open ?e")
      case True
      then show ?thesis
        using snoc identified_snoc [of lib es _ ev] Incoming
        by (auto simp: endpoint_ok_def incoming_conn_def offered_snoc nth_append less_Suc_eq ac_simps)
    next
      case False
      then show ?thesis using endpoint_same_ok [OF snoc, of ev] Incoming snoc
        by (auto simp: endpoint_ok_def incoming_conn_def offered_snoc)
    qed
  next
    case (Handshake k result)
    then show "endpoint_ok lib (es @ [ev]) (quic_step lib ev ?e)" using handshake_done_ok [OF snoc] by simp
  next
    case (ReadySent k)
    then show "endpoint_ok lib (es @ [ev]) (quic_step lib ev ?e)" using ready_sent_ok [OF snoc] by simp
  next
    case Accept
    then show "endpoint_ok lib (es @ [ev]) (quic_step lib ev ?e)"
      using endpoint_same_ok [OF snoc, of Accept]
      by (cases "qe_ready ?e") (auto simp: quic_accept_def offered_snoc endpoint_ok_def ac_simps)
  next
    case CloseEndpoint
    then show "endpoint_ok lib (es @ [ev]) (quic_step lib ev ?e)"
      using snoc identified_snoc [of lib es _ ev] by (auto simp: endpoint_ok_def quic_close_def offered_snoc)
  qed
qed


section \<open>Who the peers are\<close>

text \<open>A node's own identity is read from files, or there is none.\<close>

definition own_tls :: "('c, 'k) tls_library \<Rightarrow> ('c, 'k) tls \<Rightarrow> bool" where
  "own_tls lib tls \<longleftrightarrow> insecure_dev = Inr tls \<or> (\<exists>ca_pem cert_pem key_pem. from_pem lib ca_pem cert_pem key_pem = Inr tls)"

text \<open>
  What rustls promises of a handshake that completes: a chain that was verified against roots is trusted, and
  a client's own verification covers the name that it asked for.
\<close>

definition handshake_verifies ::
    "('c list \<Rightarrow> 'c list \<Rightarrow> bool) \<Rightarrow> ('c \<Rightarrow> name \<Rightarrow> bool) \<Rightarrow> ('c, 'k) tls_config \<Rightarrow> name \<Rightarrow> ('c, 'k) tls_config \<Rightarrow> bool" where
  "handshake_verifies trusted valid_for client node server \<longleftrightarrow>
     (\<forall>roots. tc_roots client = Some roots \<longrightarrow> trusted roots (tc_chain server) \<and> valid_for (hd (tc_chain server)) node)
     \<and> (\<forall>roots. tc_roots server = Some roots \<longrightarrow> trusted roots (tc_chain client))"

definition verified_identity :: "('c list \<Rightarrow> 'c list \<Rightarrow> bool) \<Rightarrow> 'c list \<Rightarrow> 'c identity \<Rightarrow> bool" where
  "verified_identity trusted roots identity \<longleftrightarrow> (\<exists>chain. identity = Chain chain \<and> trusted roots chain)"

lemma add_roots_result: "add_roots lib cs roots = Inr rs \<Longrightarrow> map Inr rs = map Inr roots @ cs"
  by (induction cs arbitrary: roots) (auto simp: attempt_Inr_iff)

lemma from_pem_result:
  assumes "from_pem lib ca_pem cert_pem key_pem = Inr tls"
  obtains roots cert chain key node where "map Inr roots = pem_certs lib ca_pem" "node_of_cert lib cert = Inr node"
    "tls = TlsCa \<lparr>tc_roots = Some roots, tc_chain = cert # chain, tc_key = key, tc_alpn = alpn\<rparr>
      \<lparr>tc_roots = Some roots, tc_chain = cert # chain, tc_key = key, tc_alpn = alpn\<rparr> node"
proof -
  obtain roots chain node key where *: "add_roots lib (pem_certs lib ca_pem) [] = Inr roots"
    "(case chain of [] \<Rightarrow> Inl NoCertificates | cert # _ \<Rightarrow> node_of_cert lib cert) = Inr node"
    "tls = TlsCa \<lparr>tc_roots = Some roots, tc_chain = chain, tc_key = key, tc_alpn = alpn\<rparr>
      \<lparr>tc_roots = Some roots, tc_chain = chain, tc_key = key, tc_alpn = alpn\<rparr> node"
    using assms by (auto simp: from_pem_def attempt_Inr_iff Let_def)
  then obtain cert rest where "chain = cert # rest" by (cases chain) auto
  then show ?thesis using * add_roots_result [OF *(1)] that by simp
qed

lemma quic_configs_ca:
  "quic_configs lib (TlsCa s c node) local tr = Inr (server, client) \<Longrightarrow> node = local \<and> server = (s, tr) \<and> client = (c, tr)"
  by (auto simp: quic_configs_def attempt_Inr_iff split: if_splits)

lemma quic_start_result:
  assumes "quic_start lib q local bound = Inr e"
  obtains server client where "quic_configs lib (qc_tls q) local (qc_timings q) = Inr (server, client)"
    "server_name_ok lib local" "qe_server e = server" "qe_client e = client" "qe_tasks e = []" "qe_ready e = []"
    "qe_accepted e = []" "qe_rejected e = []" "qe_open e"
  using assms that by (auto simp: quic_start_def attempt_Inr_iff split: if_splits)

text \<open>The certificate that a started node presents carries its name, and no other.\<close>

lemma started_names:
  assumes q: "quic_start lib q local bound = Inr e" and tls: "own_tls lib (qc_tls q)"
    and signed: "\<And>cert key. self_signed lib local = Inr (cert, key) \<Longrightarrow> cert_names lib cert = Inr [local]"
  shows "fst (qe_client e) = fst (qe_server e)" "tc_chain (fst (qe_client e)) \<noteq> []"
    "node_of_cert lib (hd (tc_chain (fst (qe_client e)))) = Inr local"
    "tc_roots (fst (qe_client e)) \<noteq> None \<longleftrightarrow> qc_tls q \<noteq> TlsInsecure"
proof -
  obtain server client where c: "quic_configs lib (qc_tls q) local (qc_timings q) = Inr (server, client)"
    "qe_server e = server" "qe_client e = client" using quic_start_result [OF q] by metis
  have "fst client = fst server \<and> tc_chain (fst client) \<noteq> [] \<and> node_of_cert lib (hd (tc_chain (fst client))) = Inr local
      \<and> (tc_roots (fst client) \<noteq> None \<longleftrightarrow> qc_tls q \<noteq> TlsInsecure)"
  proof (cases "qc_tls q")
    case TlsInsecure
    then obtain cert key where "self_signed lib local = Inr (cert, key)"
      "fst server = \<lparr>tc_roots = None, tc_chain = [cert], tc_key = key, tc_alpn = alpn\<rparr>" "fst client = fst server"
      using c(1) by (auto simp: quic_configs_def insecure_configs_def attempt_Inr_iff map_sum_def Let_def split: sum.splits)
    then show ?thesis using TlsInsecure signed by (simp add: node_of_cert_def attempt_def)
  next
    case (TlsCa s' c' node)
    then obtain ca_pem cert_pem key_pem where "from_pem lib ca_pem cert_pem key_pem = Inr (TlsCa s' c' node)"
      using tls by (auto simp: own_tls_def insecure_dev_def)
    then show ?thesis using TlsCa c(1)
      by (elim from_pem_result) (auto dest: quic_configs_ca)
  qed
  then show "fst (qe_client e) = fst (qe_server e)" "tc_chain (fst (qe_client e)) \<noteq> []"
    "node_of_cert lib (hd (tc_chain (fst (qe_client e)))) = Inr local"
    "tc_roots (fst (qe_client e)) \<noteq> None \<longleftrightarrow> qc_tls q \<noteq> TlsInsecure" unfolding c(2,3) by blast+
qed

text \<open>C39: An endpoint whose node has a certificate of the cluster's CA hands out connections only to peers that
  presented a chain which that CA vouches for, under the one DNS name of its first certificate, and each
  connection that came in at most once; at most 64 wait to be handed out, and a closed connection is none of
  them. (That a completed handshake has verified the chain is what rustls promises.)\<close>

theorem quic_accepts_verified_peers:
  assumes start: "quic_start lib q local bound = Inr e" "from_pem lib ca_pem cert_pem key_pem = Inr (qc_tls q)"
    and verified: "\<forall>k identity roots. Handshake k (Inr identity) \<in> set es \<and> tc_roots (fst (qe_server e)) = Some roots
      \<longrightarrow> verified_identity trusted roots identity"
    and once: "distinct (offered es)"
  shows "let e' = quic_run lib es e in
    (\<forall>c \<in> set (qe_ready e' @ qe_accepted e'). \<exists>roots cert chain. map Inr roots = pem_certs lib ca_pem
       \<and> trusted roots (cert # chain) \<and> cert_names lib cert = Inr [qn_peer c]
       \<and> (\<exists>k. Handshake k (Inr (Chain (cert # chain))) \<in> set es \<and> k < length (offered es) \<and> offered es ! k = qn_conn c))
    \<and> distinct (map qn_conn (qe_ready e' @ qe_accepted e') @ qe_rejected e')
    \<and> length (qe_ready e') \<le> 64"
proof -
  obtain roots cert0 chain0 key node where roots: "map Inr roots = pem_certs lib ca_pem"
    "qc_tls q = TlsCa \<lparr>tc_roots = Some roots, tc_chain = cert0 # chain0, tc_key = key, tc_alpn = alpn\<rparr>
      \<lparr>tc_roots = Some roots, tc_chain = cert0 # chain0, tc_key = key, tc_alpn = alpn\<rparr> node"
    using from_pem_result [OF start(2)] by metis
  obtain server client where s: "quic_configs lib (qc_tls q) local (qc_timings q) = Inr (server, client)" "qe_server e = server"
    "qe_tasks e = []" "qe_ready e = []" "qe_accepted e = []" "qe_rejected e = []" "qe_open e"
    using quic_start_result [OF start(1)] by metis
  have "tc_roots (fst (qe_server e)) = Some roots"
    using s(1,2) quic_configs_ca unfolding roots(2) by fastforce
  then have trusted: "verified_identity trusted roots identity" if "Handshake k (Inr identity) \<in> set es" for k identity
    using verified that by blast
  let ?e = "quic_run lib es e"
  have ok: "endpoint_ok lib es ?e" using quic_run_ok s(3-7) by blast
  have "\<exists>cert chain k. trusted roots (cert # chain) \<and> cert_names lib cert = Inr [qn_peer c] \<and>
      Handshake k (Inr (Chain (cert # chain))) \<in> set es \<and> k < length (offered es) \<and> offered es ! k = qn_conn c"
    if c: "c \<in> set (qe_ready ?e @ qe_accepted ?e)" for c
  proof -
    obtain k identity where k: "k < length (offered es)" "offered es ! k = qn_conn c" "Handshake k (Inr identity) \<in> set es"
      "peer_of lib identity = Inr (qn_peer c)" using ok c unfolding endpoint_ok_def identified_def by blast
    then obtain cert chain where "identity = Chain (cert # chain)" "node_of_cert lib cert = Inr (qn_peer c)"
      by (auto simp: peer_of_def attempt_Inr_iff split: identity.splits list.splits)
    moreover from this have "cert_names lib cert = Inr [qn_peer c]"
      by (simp add: node_of_cert_Inr_iff)
    ultimately show ?thesis using k trusted [OF k(3)] by (auto simp: verified_identity_def)
  qed
  moreover have "distinct (map qn_conn (qe_ready ?e @ qe_accepted ?e) @ qe_rejected ?e)"
  proof -
    have "mset (map qn_conn (qe_ready ?e @ qe_accepted ?e) @ qe_rejected ?e) \<subseteq># mset (offered es)"
      using ok unfolding endpoint_ok_def by (metis (no_types, lifting) add.assoc mset_append mset_subset_eq_add_right subset_mset.order_trans)
    then show ?thesis using once by (rule distinct_mset_sub)
  qed
  ultimately show ?thesis using ok roots(1) by (auto simp: endpoint_ok_def ready_capacity_def Let_def)
qed


text \<open>A library whose certificates are lists of names, for the witnesses.\<close>

definition plain_library :: "(name list, unit) tls_library" where
  "plain_library = \<lparr>pem_certs = \<lambda>bytes. [Inr [replicate (length bytes) CHR ''n'']], pem_key = \<lambda>_. Inr (), add_root = \<lambda>_. Inr (),
     build_verifier = \<lambda>roots. if roots = [] then Inl ''no roots'' else Inr (), protocol_versions = Inr (),
     with_cert = \<lambda>_ _. Inr (), cert_names = Inr, self_signed = \<lambda>name. Inr ([name], ()), quic_crypto = \<lambda>_. Inr (),
     server_name_ok = \<lambda>name. name \<noteq> [] \<and> CHR ''*'' \<notin> set name, idle_timeout_ok = \<lambda>d. d div 10 ^ 6 < 2 ^ 62\<rparr>"

definition plain_ca :: "nat \<Rightarrow> (name list, unit) tls" where
  "plain_ca n = (let config = \<lparr>tc_roots = Some [[''nnn'']], tc_chain = [[replicate n CHR ''n'']], tc_key = (), tc_alpn = alpn\<rparr>
     in TlsCa config config (replicate n CHR ''n''))"

lemma quic_accepts_verified_peers_witness:
  "let es = [Incoming 7, Incoming 8, Handshake 1 (Inr (Chain [[''nn'']])), Handshake 0 (Inr (Chain [[''nn'', ''n'']])), ReadySent 1, Accept];
       e = quic_start plain_library (quic_new ''0:0'' (plain_ca 1)) ''n'' (Inr ()) in
     case e of Inr e \<Rightarrow> (let e' = quic_run plain_library es e in
       qe_accepted e' = [\<lparr>qn_conn = 8, qn_peer = ''nn''\<rparr>] \<and> qe_rejected e' = [7]
       \<and> distinct (map qn_conn (qe_ready e' @ qe_accepted e') @ qe_rejected e'))
     | Inl _ \<Rightarrow> False"
proof -
  let ?es = "[Incoming 7, Incoming 8, Handshake 1 (Inr (Chain [[''nn'']])), Handshake 0 (Inr (Chain [[''nn'', ''n'']])), ReadySent 1, Accept]"
  define config where "config = \<lparr>tc_roots = Some [[''nnn'']], tc_chain = [[''n'']], tc_key = (), tc_alpn = alpn\<rparr>"
  define e where "e = \<lparr>qe_server = (config, quic_timings_default), qe_client = (config, quic_timings_default), qe_tasks = [],
    qe_ready = [], qe_accepted = [], qe_rejected = [], qe_open = True\<rparr>"
  have e: "quic_start plain_library (quic_new ''0:0'' (plain_ca 1)) ''n'' (Inr ()) = Inr e"
    by (simp add: quic_start_def quic_new_def quic_configs_def plain_ca_def plain_library_def attempt_def Let_def e_def
      config_def quic_timings_default_def)
  have run: "qe_accepted (quic_run plain_library ?es e) = [\<lparr>qn_conn = 8, qn_peer = ''nn''\<rparr>]"
    "qe_rejected (quic_run plain_library ?es e) = [7]"
    by (simp_all add: quic_run_def e_def incoming_conn_def handshake_done_def ready_sent_def quic_accept_def ready_capacity_def
      peer_of_def node_of_cert_def attempt_def plain_library_def)
  have pem: "from_pem plain_library [0, 0, 0] [0] [] = Inr (qc_tls (quic_new ''0:0'' (plain_ca 1)))"
    by (simp add: from_pem_def plain_library_def node_of_cert_def attempt_def Let_def quic_new_def plain_ca_def numeral_3_eq_3)
  have "\<forall>k identity roots. Handshake k (Inr identity) \<in> set ?es \<and> tc_roots (fst (qe_server e)) = Some roots
      \<longrightarrow> verified_identity (\<lambda>_ chain. chain \<noteq> []) roots identity"
    by (auto simp: verified_identity_def)
  moreover have "distinct (offered ?es)" by simp
  ultimately have "distinct (map qn_conn (qe_ready (quic_run plain_library ?es e) @ qe_accepted (quic_run plain_library ?es e))
      @ qe_rejected (quic_run plain_library ?es e))"
    using quic_accepts_verified_peers [OF e pem, of ?es "\<lambda>_ chain. chain \<noteq> []"] by (auto simp: Let_def)
  then show ?thesis using e run by (simp add: Let_def)
qed



lemma plain_start:
  "quic_start plain_library (quic_new ''0:0'' (plain_ca n)) (replicate (Suc n) CHR ''n'') (Inr ()) = Inl (InvalidInput (OtherNode (replicate n CHR ''n'') (replicate (Suc n) CHR ''n'')))"
  "0 < n \<Longrightarrow> \<exists>e. quic_start plain_library (quic_new ''0:0'' (plain_ca n)) (replicate n CHR ''n'') (Inr ()) = Inr e
    \<and> fst (qe_server e) = ca_server (plain_ca n) \<and> fst (qe_client e) = ca_server (plain_ca n)"
  by (auto simp: quic_start_def quic_new_def quic_configs_def plain_ca_def plain_library_def attempt_def Let_def quic_timings_default_def)


text \<open>Without verification the dialer takes whoever answers for the node that it asked for.\<close>

theorem insecure_dial_takes_any_name:
  assumes "quic_start lib q1 name1 bound1 = Inr e1" "qc_tls q1 = TlsInsecure"
    and "quic_start lib q2 name2 bound2 = Inr e2" "qc_tls q2 = TlsInsecure"
  shows "handshake_verifies trusted valid_for (fst (qe_client e1)) node (fst (qe_server e2))"
    "quic_connect parse lookup dial addr node = Inr c \<Longrightarrow> qn_peer c = node"
proof -
  have none: "tc_roots (fst (qe_client e)) = None \<and> tc_roots (fst (qe_server e)) = None"
    if start: "quic_start lib q name bound = Inr e" and tls: "qc_tls q = TlsInsecure" for q name bound e
    using start tls by (auto simp: quic_start_def quic_configs_def insecure_configs_def attempt_Inr_iff map_sum_def Let_def
      split: if_splits sum.splits)
  then show "handshake_verifies trusted valid_for (fst (qe_client e1)) node (fst (qe_server e2))"
    using assms by (simp add: handshake_verifies_def)
  show "quic_connect parse lookup dial addr node = Inr c \<Longrightarrow> qn_peer c = node"
    by (auto simp: quic_connect_def attempt_Inr_iff)
qed

end
