(* ===== verification/Message_Interface.thy ===== *)
theory Message_Interface
  imports Channel Oneshot
begin

text \<open>
  Messages and the interfaces of actors: envelopes (interface/src/envelope.rs, message.rs, interface.rs), the
  code that the derives generate for them (codegen/src/lib.rs), and the queue of an interface that is used without
  knowing the interface (runtime/src/queue/dynamic.rs).

  A derive is a function from what it reads of a type to what the generated code uses of it; the generated
  functions are modelled over that. Which type a path names is a parameter.
\<close>

section \<open>Kinds of messages and envelopes\<close>

datatype message_kind = Call | Cast

text \<open>A resolver or a receipt: nothing, or one end of the numbered oneshot channel.\<close>

type_synonym channel_end = "nat option"

definition resolver_new :: "message_kind \<Rightarrow> nat \<Rightarrow> channel_end \<times> channel_end" where
  "resolver_new mk fresh = (case mk of Call \<Rightarrow> (Some fresh, Some fresh) | Cast \<Rightarrow> (None, None))"

text \<open>\<open>Resolver::resolve\<close> and one poll of \<open>Receipt::wait\<close>, given the channel when there is one.\<close>

definition resolve_with :: "'o \<Rightarrow> 'o oneshot option \<Rightarrow> ('o resolve_error + unit) \<times> 'o oneshot option" where
  "resolve_with input channel = (case channel of
       None \<Rightarrow> (Inr (), None)
     | Some o1 \<Rightarrow> map_prod (\<lambda>r. r) Some (request_reply input o1))"

definition receipt_wait :: "'o \<Rightarrow> 'o oneshot option \<Rightarrow> (receipt_error + 'o) poll" where
  "receipt_wait unit_output channel = (case channel of None \<Rightarrow> Ready (Inr unit_output) | Some o1 \<Rightarrow> reply_poll o1)"

record 'v envelope =
  en_msg :: 'v
  en_req :: channel_end

text \<open>An envelope of any type, with the type that it has.\<close>

record 'v any_envelope =
  ae_type :: type_id
  ae_envelope :: "'v envelope"

definition envelope_new_pair :: "message_kind \<Rightarrow> nat \<Rightarrow> 'v \<Rightarrow> 'v envelope \<times> channel_end" where
  "envelope_new_pair mk fresh msg =
     (let (resolver, receipt) = resolver_new mk fresh in (\<lparr>en_msg = msg, en_req = resolver\<rparr>, receipt))"

definition any_new :: "type_id \<Rightarrow> 'v envelope \<Rightarrow> 'v any_envelope" where
  "any_new t envelope = \<lparr>ae_type = t, ae_envelope = envelope\<rparr>"

definition any_new_pair :: "type_id \<Rightarrow> message_kind \<Rightarrow> nat \<Rightarrow> 'v \<Rightarrow> 'v any_envelope \<times> channel_end" where
  "any_new_pair t mk fresh msg = map_prod (any_new t) (\<lambda>r. r) (envelope_new_pair mk fresh msg)"

definition downcast :: "type_id \<Rightarrow> 'v any_envelope \<Rightarrow> 'v any_envelope + 'v envelope" where
  "downcast t e = (if ae_type e = t then Inr (ae_envelope e) else Inl e)"

section \<open>What a derive reads\<close>

datatype ty = TypePath "segment list" | OtherType string
  and segment = Segment (seg_ident: string) (seg_args: "generic list option")
  and generic = TypeArgument ty | OtherArgument string

datatype fields = UnnamedFields "ty list" | NamedFields "(string \<times> ty) list" | UnitFields

record variant =
  vr_ident :: string
  vr_fields :: fields

datatype item_data = EnumData "variant list" | StructData | UnionData

record attrs =
  at_interface_path :: "string option"
  at_distr_path :: "string option"
  at_actor_path :: "string option"
  at_reply :: "ty option"
  at_id :: "string option"
  at_no_auto_register :: bool

record derive_input =
  di_ident :: string
  di_generics :: "string list"
  di_attrs :: "string + attrs" \<comment> \<open>what \<open>darling\<close> makes of the attributes\<close>
  di_data :: item_data

definition interface_path :: "attrs \<Rightarrow> string" where
  "interface_path a = (case at_interface_path a of Some p \<Rightarrow> p | None \<Rightarrow> ''::zestors::interface'')"

definition distr_path :: "attrs \<Rightarrow> string" where
  "distr_path a = (case at_distr_path a of Some p \<Rightarrow> p | None \<Rightarrow> ''::zestors::distr'')"

definition actor_path :: "attrs \<Rightarrow> string" where
  "actor_path a = (case at_actor_path a of Some p \<Rightarrow> p | None \<Rightarrow> ''::zestors::actor'')"

definition extract_inner_envelope_type :: "ty \<Rightarrow> ty option" where
  "extract_inner_envelope_type t = (case t of
       OtherType _ \<Rightarrow> None
     | TypePath [] \<Rightarrow> None
     | TypePath segments \<Rightarrow>
         if seg_ident (last segments) = ''Envelope''
         then case seg_args (last segments) of Some (TypeArgument inner # _) \<Rightarrow> Some inner | _ \<Rightarrow> None
         else None)"

section \<open>What a derive generates\<close>

datatype derive_error = BadAttributes string | MissingId | InvalidId string

text \<open>The arms of a derived interface: a variant and the message in it. \<open>None\<close> is a panic of the derive.\<close>

type_synonym arms = "(string \<times> ty) list"

fun variant_arms :: "variant list \<Rightarrow> arms option" where
  "variant_arms [] = Some []"
| "variant_arms (v # vs) = (case vr_fields v of
       UnnamedFields [field] \<Rightarrow> Option.bind (extract_inner_envelope_type field) (\<lambda>inner.
         map_option ((#) (vr_ident v, inner)) (variant_arms vs))
     | _ \<Rightarrow> None)"

record derived_interface =
  der_path :: string
  der_enum :: string
  der_arms :: arms

definition derive_interface :: "derive_input \<Rightarrow> (derive_error + derived_interface) option" where
  "derive_interface input = (case di_attrs input of
       Inl e \<Rightarrow> Some (Inl (BadAttributes e))
     | Inr a \<Rightarrow> (case di_data input of
           EnumData variants \<Rightarrow> map_option (\<lambda>arms.
             Inr \<lparr>der_path = interface_path a, der_enum = di_ident input, der_arms = arms\<rparr>) (variant_arms variants)
         | _ \<Rightarrow> None))"

definition derive_actor_interface :: "derive_input \<Rightarrow> (derive_error + derived_interface) option" where
  "derive_actor_interface input = (case di_attrs input of
       Inl e \<Rightarrow> Some (Inl (BadAttributes e))
     | Inr a \<Rightarrow> (case di_data input of
           EnumData variants \<Rightarrow> map_option (\<lambda>arms.
             Inr \<lparr>der_path = actor_path a, der_enum = di_ident input, der_arms = arms\<rparr>) (variant_arms variants)
         | _ \<Rightarrow> None))"

definition unit_type :: ty where
  "unit_type = OtherType ''()''"

definition derive_message :: "derive_input \<Rightarrow> derive_error + message_kind \<times> ty" where
  "derive_message input = (case di_attrs input of
       Inl e \<Rightarrow> Inl (BadAttributes e)
     | Inr a \<Rightarrow> (case at_reply a of Some reply \<Rightarrow> Inr (Call, reply) | None \<Rightarrow> Inr (Cast, unit_type)))"

text \<open>The id, and whether the type registers itself. What a string parses to as a UUID is a parameter.\<close>

definition derive_message_id ::
    "(string \<Rightarrow> string + nat) \<Rightarrow> derive_input \<Rightarrow> derive_error + nat \<times> bool" where
  "derive_message_id parse_uuid input = (case di_attrs input of
       Inl e \<Rightarrow> Inl (BadAttributes e)
     | Inr a \<Rightarrow> (case at_id a of
           None \<Rightarrow> Inl MissingId
         | Some text \<Rightarrow> (case parse_uuid text of
               Inl e \<Rightarrow> Inl (InvalidId e)
             | Inr uuid \<Rightarrow> Inr (uuid, di_generics input = [] \<and> \<not> at_no_auto_register a))))"

text \<open>
  The generated functions. A value of the enum is a variant with its envelope; \<open>None\<close> is a value that no
  variant can hold.
\<close>

type_synonym 'v interface_value = "string \<times> 'v envelope"

fun try_from_dyn :: "(ty \<Rightarrow> type_id) \<Rightarrow> arms \<Rightarrow> 'v any_envelope \<Rightarrow> 'v any_envelope + 'v interface_value" where
  "try_from_dyn type_of [] e = Inl e"
| "try_from_dyn type_of ((v, t) # arms) e = (case downcast (type_of t) e of
       Inr envelope \<Rightarrow> Inr (v, envelope)
     | Inl e \<Rightarrow> try_from_dyn type_of arms e)"

definition into_dyn :: "(ty \<Rightarrow> type_id) \<Rightarrow> arms \<Rightarrow> 'v interface_value \<Rightarrow> 'v any_envelope option" where
  "into_dyn type_of arms x = map_option (\<lambda>t. any_new (type_of t) (snd x)) (map_of arms (fst x))"

definition interface_set :: "(ty \<Rightarrow> type_id) \<Rightarrow> arms \<Rightarrow> type_id list" where
  "interface_set type_of arms = map (type_of \<circ> snd) arms"

text \<open>\<open>From<Envelope<M>>\<close> and \<open>TryInto<Envelope<M>>\<close>, for the variant of \<open>M\<close>.\<close>

definition from_envelope :: "string \<Rightarrow> 'v envelope \<Rightarrow> 'v interface_value" where
  "from_envelope v envelope = (v, envelope)"

definition try_into_envelope :: "string \<Rightarrow> 'v interface_value \<Rightarrow> 'v interface_value + 'v envelope" where
  "try_into_envelope v x = (if fst x = v then Inr (snd x) else Inl x)"

text \<open>\<open>HandlerInterface::handle_with\<close>: the message type whose \<open>Handle\<close> implementation is called, and with what.\<close>

definition handle_with :: "(ty \<Rightarrow> type_id) \<Rightarrow> arms \<Rightarrow> 'v interface_value \<Rightarrow> (type_id \<times> 'v \<times> channel_end) option" where
  "handle_with type_of arms x =
     map_option (\<lambda>t. (type_of t, en_msg (snd x), en_req (snd x))) (map_of arms (fst x))"

text \<open>
  What the compiler accepts of the generated code: an enum has each variant once, and the implementations of
  \<open>From<Envelope<M>>\<close> for two variants with the same message would overlap.
\<close>

definition compiles :: "(ty \<Rightarrow> type_id) \<Rightarrow> arms \<Rightarrow> bool" where
  "compiles type_of arms \<longleftrightarrow> distinct (map fst arms) \<and> distinct (interface_set type_of arms)"


lemma try_from_dyn_Cons:
  "try_from_dyn type_of ((v, t) # arms) e = (if ae_type e = type_of t then Inr (v, ae_envelope e) else try_from_dyn type_of arms e)"
  by (simp add: downcast_def)

lemma try_from_dyn_arm:
  "try_from_dyn type_of arms e = Inr (v, envelope) \<Longrightarrow> \<exists>t. (v, t) \<in> set arms \<and> ae_type e = type_of t \<and> envelope = ae_envelope e"
  by (induction arms) (auto simp: try_from_dyn_Cons simp del: try_from_dyn.simps(2) split: if_splits)

lemma try_from_dyn_fails: "try_from_dyn type_of arms e = Inl e' \<longleftrightarrow> ae_type e \<notin> set (interface_set type_of arms) \<and> e' = e"
proof (induction arms)
  case (Cons a arms)
  then show ?case by (cases a) (auto simp: try_from_dyn_Cons interface_set_def simp del: try_from_dyn.simps(2))
qed (auto simp: interface_set_def)

lemma try_from_dyn_finds:
  "compiles type_of arms \<Longrightarrow> (v, t) \<in> set arms \<Longrightarrow> try_from_dyn type_of arms (any_new (type_of t) envelope) = Inr (v, envelope)"
proof (induction arms)
  case (Cons a arms)
  obtain w u where a: "a = (w, u)" by (cases a)
  show ?case
  proof (cases "type_of t = type_of u")
    case True
    then have "(v, t) \<notin> set arms" using Cons.prems a by (force simp: compiles_def interface_set_def)
    then have "(v, t) = (w, u)" using Cons.prems a by simp
    then show ?thesis using a by (simp add: try_from_dyn_Cons any_new_def del: try_from_dyn.simps(2))
  next
    case False
    then have "(v, t) \<in> set arms" using Cons.prems a by auto
    then have "try_from_dyn type_of arms (any_new (type_of t) envelope) = Inr (v, envelope)"
      using Cons by (simp add: compiles_def interface_set_def)
    then show ?thesis using a False by (simp add: try_from_dyn_Cons any_new_def del: try_from_dyn.simps(2))
  qed
qed simp

section \<open>The contract of an interface\<close>

text \<open>A queue of an interface, used without knowing it: pushing a message of any type, and taking one out as such.\<close>

definition push_dyn :: "('v any_envelope \<Rightarrow> 'v any_envelope + 'x) \<Rightarrow> 'v any_envelope \<Rightarrow> 'x list \<Rightarrow> 'x list \<times> ('v any_envelope + unit)" where
  "push_dyn proj e q = (case proj e of Inr x \<Rightarrow> (q @ [x], Inr ()) | Inl e \<Rightarrow> (q, Inl e))"

definition pop_dyn :: "('x \<Rightarrow> 'v any_envelope) \<Rightarrow> 'x list \<Rightarrow> 'x list \<times> 'v any_envelope option" where
  "pop_dyn emb q = (case q of [] \<Rightarrow> ([], None) | x # q \<Rightarrow> (q, Some (emb x)))"

text \<open>\<open>None\<close> is the failing \<open>expect\<close>.\<close>

definition queue_try_push_msg ::
    "('v any_envelope \<Rightarrow> 'v any_envelope + 'x) \<Rightarrow> type_id \<Rightarrow> message_kind \<Rightarrow> nat \<Rightarrow> 'v \<Rightarrow> 'x list
      \<Rightarrow> ('x list \<times> ('v not_accepted + channel_end)) option" where
  "queue_try_push_msg proj t mk fresh msg q =
     (let (e, receipt) = any_new_pair t mk fresh msg in
      case push_dyn proj e q of
        (q, Inr _) \<Rightarrow> Some (q, Inr receipt)
      | (q, Inl e) \<Rightarrow> (case downcast t e of Inr envelope \<Rightarrow> Some (q, Inl (NotAccepted (en_msg envelope))) | Inl _ \<Rightarrow> None))"

text \<open>
  What the runtime relies on when it uses an interface without knowing its variants: the conversions to and from
  envelopes of any type are inverse to each other, and exactly the messages of the set convert.
\<close>

locale message_interface =
  fixes emb :: "'x \<Rightarrow> 'v any_envelope" and proj :: "'v any_envelope \<Rightarrow> 'v any_envelope + 'x"
    and members :: "type_id list" and valid :: "'x \<Rightarrow> bool"
  assumes project_embed: "valid x \<Longrightarrow> proj (emb x) = Inr x"
    and embed_project: "proj e = Inr x \<Longrightarrow> valid x \<and> emb x = e"
    and project_fails: "proj e = Inl e' \<longleftrightarrow> ae_type e \<notin> set members \<and> e' = e"
begin

lemma embed_member: "valid x \<Longrightarrow> ae_type (emb x) \<in> set members"
  using project_embed project_fails by (metis Inr_Inl_False)

lemma embed_inj: "valid x \<Longrightarrow> valid y \<Longrightarrow> emb x = emb y \<Longrightarrow> x = y"
  using project_embed by (metis sum.inject(2))

lemma push_dyn_result:
  "ae_type e \<in> set members \<Longrightarrow> list_all valid q \<Longrightarrow>
    \<exists>q'. push_dyn proj e q = (q', Inr ()) \<and> list_all valid q' \<and> map emb q' = map emb q @ [e]"
  "ae_type e \<notin> set members \<Longrightarrow> push_dyn proj e q = (q, Inl e)"
proof -
  assume e: "ae_type e \<in> set members" "list_all valid q"
  then obtain x where x: "proj e = Inr x" using project_fails by (cases "proj e") auto
  then show "\<exists>q'. push_dyn proj e q = (q', Inr ()) \<and> list_all valid q' \<and> map emb q' = map emb q @ [e]"
    using embed_project [OF x] e(2) by (simp add: push_dyn_def)
next
  assume "ae_type e \<notin> set members"
  then have "proj e = Inl e" using project_fails by simp
  then show "push_dyn proj e q = (q, Inl e)" by (simp add: push_dyn_def)
qed

lemma pop_dyn_result: "list_all valid q \<Longrightarrow> snd (pop_dyn emb q) = (case map emb q of [] \<Rightarrow> None | e # _ \<Rightarrow> Some e) \<and>
    map emb (fst (pop_dyn emb q)) = tl (map emb q) \<and> list_all valid (fst (pop_dyn emb q))"
  by (cases q) (auto simp: pop_dyn_def)

text \<open>A message of any type is taken in as it is, or given back.\<close>

lemma queue_try_push_msg_result:
  assumes "list_all valid q"
  shows "if t \<in> set members
    then \<exists>q'. queue_try_push_msg proj t mk fresh msg q = Some (q', Inr (snd (resolver_new mk fresh))) \<and> list_all valid q' \<and>
      map emb q' = map emb q @ [any_new t \<lparr>en_msg = msg, en_req = fst (resolver_new mk fresh)\<rparr>]
    else queue_try_push_msg proj t mk fresh msg q = Some (q, Inl (NotAccepted msg))"
proof -
  let ?e = "any_new t \<lparr>en_msg = msg, en_req = fst (resolver_new mk fresh)\<rparr>"
  have e: "any_new_pair t mk fresh msg = (?e, snd (resolver_new mk fresh))" "ae_type ?e = t"
    by (simp_all add: any_new_pair_def envelope_new_pair_def any_new_def split_beta)
  show ?thesis
  proof (cases "t \<in> set members")
    case True
    then show ?thesis using push_dyn_result(1) [of ?e q] e assms by (auto simp: queue_try_push_msg_def)
  next
    case False
    then show ?thesis using push_dyn_result(2) [of ?e q] e by (simp add: queue_try_push_msg_def downcast_def any_new_def)
  qed
qed

end

text \<open>A value of a derived interface is in one of its variants.\<close>

definition interface_valid :: "arms \<Rightarrow> 'v interface_value \<Rightarrow> bool" where
  "interface_valid arms x \<longleftrightarrow> fst x \<in> set (map fst arms)"

definition interface_embed :: "(ty \<Rightarrow> type_id) \<Rightarrow> arms \<Rightarrow> 'v interface_value \<Rightarrow> 'v any_envelope" where
  "interface_embed type_of arms x = (case into_dyn type_of arms x of Some e \<Rightarrow> e | None \<Rightarrow> any_new 0 (snd x))"

lemma interface_embed_arm:
  "compiles type_of arms \<Longrightarrow> (v, t) \<in> set arms \<Longrightarrow> interface_embed type_of arms (v, envelope) = any_new (type_of t) envelope"
  by (simp add: interface_embed_def into_dyn_def compiles_def)

lemma derived_is_interface:
  assumes c: "compiles type_of arms"
  shows "message_interface (interface_embed type_of arms) (try_from_dyn type_of arms) (interface_set type_of arms)
    (interface_valid arms)"
proof
  fix x :: "'v interface_value" assume "interface_valid arms x"
  then obtain t where t: "(fst x, t) \<in> set arms" by (auto simp: interface_valid_def)
  then show "try_from_dyn type_of arms (interface_embed type_of arms x) = Inr x"
    using try_from_dyn_finds [OF c t, of "snd x"] interface_embed_arm [OF c t, of "snd x"] by simp
next
  fix e :: "'v any_envelope" and x assume "try_from_dyn type_of arms e = Inr x"
  then obtain t where t: "(fst x, t) \<in> set arms" "ae_type e = type_of t" "snd x = ae_envelope e"
    using try_from_dyn_arm by (metis prod.collapse)
  then have "interface_embed type_of arms x = any_new (type_of t) (ae_envelope e)"
    using interface_embed_arm [OF c t(1), of "snd x"] by (cases x) simp
  then show "interface_valid arms x \<and> interface_embed type_of arms x = e"
    using t by (force simp: interface_valid_def any_new_def)
qed (rule try_from_dyn_fails)


section \<open>The interfaces of this program\<close>

definition envelope_of :: "string \<Rightarrow> ty" where
  "envelope_of message = TypePath [Segment ''Envelope'' (Some [TypeArgument (TypePath [Segment message None])])]"

definition enum_of :: "string \<Rightarrow> string \<Rightarrow> (string \<times> string) list \<Rightarrow> derive_input" where
  "enum_of path ident variants = \<lparr>di_ident = ident, di_generics = [],
     di_attrs = Inr \<lparr>at_interface_path = Some path, at_distr_path = None, at_actor_path = None, at_reply = None,
       at_id = None, at_no_auto_register = False\<rparr>,
     di_data = EnumData (map (\<lambda>(v, m). \<lparr>vr_ident = v, vr_fields = UnnamedFields [envelope_of m]\<rparr>) variants)\<rparr>"

definition supervisor_interface :: derive_input where
  "supervisor_interface = enum_of ''zestors_interface'' ''SupervisorInterface''
     [(''Children'', ''GetChildren''), (''Health'', ''GetHealth''), (''Register'', ''RegisterChild''),
      (''Deregister'', ''DeregisterChild'')]"

definition signal_messages :: derive_input where
  "signal_messages = enum_of ''zestors_interface'' ''SignalInterface''
     [(''Shutdown'', ''Shutdown''), (''Suspend'', ''Suspend''), (''Resume'', ''Resume''), (''Ping'', ''Ping'')]"

definition api_server_interface :: derive_input where
  "api_server_interface = enum_of ''zestors_interface'' ''ApiServerInterface''
     [(''Children'', ''GetChildren''), (''Health'', ''GetHealth'')]"

definition arms_of :: "derive_input \<Rightarrow> arms" where
  "arms_of input = (case derive_interface input of Some (Inr der) \<Rightarrow> der_arms der | _ \<Rightarrow> [])"

text \<open>Different types have different ids: here, their places in a list.\<close>

definition index_of :: "'a list \<Rightarrow> 'a \<Rightarrow> nat" where
  "index_of xs x = length (takeWhile (\<lambda>y. y \<noteq> x) xs)"

lemma supervisor_interface_compiles: "compiles (index_of (map snd (arms_of supervisor_interface))) (arms_of supervisor_interface)"
  by code_simp

lemma signal_messages_compile: "compiles (index_of (map snd (arms_of signal_messages))) (arms_of signal_messages)"
  by code_simp

lemma api_server_interface_compiles: "compiles (index_of (map snd (arms_of api_server_interface))) (arms_of api_server_interface)"
  by code_simp

interpretation api_server: message_interface
  "interface_embed (index_of (map snd (arms_of api_server_interface))) (arms_of api_server_interface)"
  "try_from_dyn (index_of (map snd (arms_of api_server_interface))) (arms_of api_server_interface)"
  "interface_set (index_of (map snd (arms_of api_server_interface))) (arms_of api_server_interface)"
  "interface_valid (arms_of api_server_interface)"
  by (rule derived_is_interface [OF api_server_interface_compiles])

interpretation supervisor: message_interface
  "interface_embed (index_of (map snd (arms_of supervisor_interface))) (arms_of supervisor_interface)"
  "try_from_dyn (index_of (map snd (arms_of supervisor_interface))) (arms_of supervisor_interface)"
  "interface_set (index_of (map snd (arms_of supervisor_interface))) (arms_of supervisor_interface)"
  "interface_valid (arms_of supervisor_interface)"
  by (rule derived_is_interface [OF supervisor_interface_compiles])

interpretation signals: message_interface
  "interface_embed (index_of (map snd (arms_of signal_messages))) (arms_of signal_messages)"
  "try_from_dyn (index_of (map snd (arms_of signal_messages))) (arms_of signal_messages)"
  "interface_set (index_of (map snd (arms_of signal_messages))) (arms_of signal_messages)"
  "interface_valid (arms_of signal_messages)"
  by (rule derived_is_interface [OF signal_messages_compile])

section \<open>From the sender to the handler\<close>

text \<open>The channel's view of an envelope.\<close>

definition erase :: "'v any_envelope \<Rightarrow> 'v envelope message" where
  "erase e = Message (ae_type e) (ae_envelope e)"

text \<open>C35: The queue of a derived interface implements the channel's queue of typed messages: pushing a message of
  any type takes it in behind the others, exactly when the interface has a variant for it, and otherwise gives it back
  as it was; taking one out gives the oldest as it went in. The handler that is derived from the same enum is
  called with the type, the message and the resolver that were sent.\<close>

theorem derived_interface_keeps_messages:
  assumes derived: "derive_interface input = Some (Inr der)" and c: "compiles type_of (der_arms der)"
    and valid: "list_all (interface_valid (der_arms der)) q"
    and ch: "channel_members ch = interface_set type_of (der_arms der)"
      "msg_queue ch = map (erase \<circ> interface_embed type_of (der_arms der)) q"
  shows "(case push_dyn (try_from_dyn type_of (der_arms der)) e q of (q', r) \<Rightarrow>
      list_all (interface_valid (der_arms der)) q' \<and>
      push_envelope_dyn (erase e) ch = (ch\<lparr>msg_queue := map (erase \<circ> interface_embed type_of (der_arms der)) q'\<rparr>,
        map_sum (NotAccepted \<circ> erase) (\<lambda>u. u) r))
    \<and> (case pop_dyn (interface_embed type_of (der_arms der)) q of (q', r) \<Rightarrow>
      map_option erase r = (case msg_queue ch of [] \<Rightarrow> None | m # _ \<Rightarrow> Some m) \<and>
      map (erase \<circ> interface_embed type_of (der_arms der)) q' = tl (msg_queue ch))
    \<and> (\<forall>x \<in> set q. \<exists>h t. derive_actor_interface input = Some (Inr h) \<and>
      handle_with type_of (der_arms h) x = Some (t, en_msg (snd x), en_req (snd x)) \<and>
      erase (interface_embed type_of (der_arms der) x) = Message t (snd x))"
proof (intro conjI)
  note m = derived_is_interface [OF c]
  let ?arms = "der_arms der" and ?emb = "interface_embed type_of (der_arms der)"
  show "case push_dyn (try_from_dyn type_of ?arms) e q of (q', r) \<Rightarrow> list_all (interface_valid ?arms) q' \<and>
      push_envelope_dyn (erase e) ch = (ch\<lparr>msg_queue := map (erase \<circ> ?emb) q'\<rparr>, map_sum (NotAccepted \<circ> erase) (\<lambda>u. u) r)"
  proof (cases "ae_type e \<in> set (interface_set type_of ?arms)")
    case True
    from message_interface.push_dyn_result(1) [OF m this valid] obtain q' where
      "push_dyn (try_from_dyn type_of ?arms) e q = (q', Inr ())" "list_all (interface_valid ?arms) q'"
      "map ?emb q' = map ?emb q @ [e]" by blast
    moreover from this have "map (erase \<circ> ?emb) q' = map (erase \<circ> ?emb) q @ [erase e]"
      by (simp add: map_map [symmetric] del: map_map)
    ultimately show ?thesis using True ch by (simp add: push_envelope_dyn_def erase_def)
  next
    case False
    from message_interface.push_dyn_result(2) [OF m this, of q] show ?thesis
      using False ch valid by (simp add: push_envelope_dyn_def erase_def)
  qed
  show "case pop_dyn ?emb q of (q', r) \<Rightarrow> map_option erase r = (case msg_queue ch of [] \<Rightarrow> None | m # _ \<Rightarrow> Some m) \<and>
      map (erase \<circ> ?emb) q' = tl (msg_queue ch)"
    using ch(2) by (cases q) (simp_all add: pop_dyn_def)
  obtain a variants where input: "di_attrs input = Inr a" "di_data input = EnumData variants" "variant_arms variants = Some ?arms"
    using derived by (auto simp: derive_interface_def split: sum.splits item_data.splits)
  show "\<forall>x \<in> set q. \<exists>h t. derive_actor_interface input = Some (Inr h) \<and>
      handle_with type_of (der_arms h) x = Some (t, en_msg (snd x), en_req (snd x)) \<and> erase (?emb x) = Message t (snd x)"
  proof
    fix x assume "x \<in> set q"
    then obtain t where t: "(fst x, t) \<in> set ?arms" using valid by (auto simp: list_all_iff interface_valid_def)
    then have "map_of ?arms (fst x) = Some t" using c by (simp add: compiles_def)
    moreover have "?emb x = any_new (type_of t) (snd x)" using interface_embed_arm [OF c t, of "snd x"] by simp
    ultimately show "\<exists>h t. derive_actor_interface input = Some (Inr h) \<and>
      handle_with type_of (der_arms h) x = Some (t, en_msg (snd x), en_req (snd x)) \<and> erase (?emb x) = Message t (snd x)"
      using input by (intro exI [of _ "\<lparr>der_path = actor_path a, der_enum = di_ident input, der_arms = ?arms\<rparr>"] exI [of _ "type_of t"])
        (simp add: derive_actor_interface_def handle_with_def erase_def any_new_def)
  qed
qed


lemma derived_interface_keeps_messages_witness:
  "\<exists>der h t. derive_interface supervisor_interface = Some (Inr der)
    \<and> derive_actor_interface supervisor_interface = Some (Inr h)
    \<and> handle_with (index_of (map snd (der_arms der))) (der_arms h) (from_envelope ''Health'' \<lparr>en_msg = 7, en_req = Some 3\<rparr>)
      = Some (t, 7 :: nat, Some 3)"
proof -
  let ?der = "\<lparr>der_path = ''zestors_interface'', der_enum = ''SupervisorInterface'', der_arms = arms_of supervisor_interface\<rparr>"
  let ?type_of = "index_of (map snd (arms_of supervisor_interface))"
  let ?q = "[from_envelope ''Health'' \<lparr>en_msg = 7 :: nat, en_req = Some 3\<rparr>]"
  let ?ch = "(channel_new ''s'' 1 \<lparr>if_type = 9, if_members = interface_set ?type_of (arms_of supervisor_interface)\<rparr> 0)
    \<lparr>msg_queue := map (erase \<circ> interface_embed ?type_of (der_arms ?der)) ?q\<rparr>"
  have der: "derive_interface supervisor_interface = Some (Inr ?der)" by code_simp
  have c: "compiles ?type_of (der_arms ?der)" using supervisor_interface_compiles by simp
  have "interface_valid (arms_of supervisor_interface) (from_envelope ''Health'' \<lparr>en_msg = 7 :: nat, en_req = Some 3\<rparr>)" by code_simp
  then have valid: "list_all (interface_valid (der_arms ?der)) ?q" by simp
  have ch: "channel_members ?ch = interface_set ?type_of (der_arms ?der)"
    "msg_queue ?ch = map (erase \<circ> interface_embed ?type_of (der_arms ?der)) ?q"
    by (simp_all add: channel_members_def channel_new_def channel_with_limits_def)
  have "\<forall>x \<in> set ?q. \<exists>h t. derive_actor_interface supervisor_interface = Some (Inr h) \<and>
      handle_with ?type_of (der_arms h) x = Some (t, en_msg (snd x), en_req (snd x)) \<and>
      erase (interface_embed ?type_of (der_arms ?der) x) = Message t (snd x)"
    by (rule conjunct2 [OF conjunct2 [OF derived_interface_keeps_messages [OF der c valid ch]]])
  then obtain h t where "derive_actor_interface supervisor_interface = Some (Inr h)"
      "handle_with ?type_of (der_arms h) (from_envelope ''Health'' \<lparr>en_msg = 7 :: nat, en_req = Some 3\<rparr>) = Some (t, 7, Some 3)"
    by (auto simp: from_envelope_def)
  then show ?thesis using der by (intro exI [of _ ?der] exI [of _ h] exI [of _ t]) simp
qed

end
