(* ===== verification/Typed_Refs.thy ===== *)
theory Typed_Refs
  imports Message_Interface
begin

text \<open>
  References to actors by the messages that they may be sent: the contexts of references (runtime/src/context.rs), the
  conversions between them (references/dyn_conv.rs), sending and calling through them (channel/cast.rs,
  accepts.rs, ops.rs), and the conversions between the errors of sending (errors.rs).
\<close>

section \<open>Contexts\<close>

text \<open>A reference knows its actor's interface, or some messages that the actor accepts.\<close>

datatype ref_context = Static iface | Dynamic "type_id list"

fun context_set :: "ref_context \<Rightarrow> type_id list" where
  "context_set (Static i) = if_members i"
| "context_set (Dynamic s) = s"

text \<open>Conversions that are checked at run time give the reference back when they fail.\<close>

definition into_dyn_checked :: "type_id list \<Rightarrow> 'm channel \<Rightarrow> ref_context \<Rightarrow> ref_context + ref_context" where
  "into_dyn_checked s ch c = (if is_superset_of s ch then Inr (Dynamic s) else Inl c)"

definition as_dyn_checked :: "type_id list \<Rightarrow> 'm channel \<Rightarrow> ref_context option" where
  "as_dyn_checked s ch = (if is_superset_of s ch then Some (Dynamic s) else None)"

definition ref_downcast :: "iface \<Rightarrow> 'm channel \<Rightarrow> ref_context \<Rightarrow> ref_context + ref_context" where
  "ref_downcast i ch c = (if is_interface i ch then Inr (Static i) else Inl c)"

definition downcast_ref :: "iface \<Rightarrow> 'm channel \<Rightarrow> ref_context option" where
  "downcast_ref i ch = (if is_interface i ch then Some (Static i) else None)"

text \<open>
  The contexts that a program can come by: that of the actor's interface, and what conversions make of those
  that it has. \<open>into_dyn\<close> is checked by the compiler. The set of an interface is \<open>members_of\<close> its type.
\<close>

inductive context_of :: "(type_id \<Rightarrow> type_id list) \<Rightarrow> 'm channel \<Rightarrow> ref_context \<Rightarrow> bool" for members_of ch where
  created: "context_of members_of ch (Static (queue_iface ch))"
| into_dyn: "context_of members_of ch c \<Longrightarrow> set s \<subseteq> set (context_set c) \<Longrightarrow> context_of members_of ch (Dynamic s)"
| checked: "context_of members_of ch c \<Longrightarrow> into_dyn_checked s ch c = Inr c' \<Longrightarrow> context_of members_of ch c'"
| downcast: "context_of members_of ch c \<Longrightarrow> ref_downcast \<lparr>if_type = t, if_members = members_of t\<rparr> ch c = Inr c' \<Longrightarrow>
    context_of members_of ch c'"

inductive_cases Static_context: "context_of members_of ch (Static i)"

section \<open>Sending\<close>

fun context_try_cast ::
    "ref_context \<Rightarrow> call_options \<Rightarrow> 'm message \<Rightarrow> 'm channel \<Rightarrow> ('m channel \<times> ('m message try_cast_error + unit)) option" where
  "context_try_cast (Static i) opts m ch = try_cast_with i opts m ch"
| "context_try_cast (Dynamic s) opts m ch = Option.bind (try_cast_dyn_with opts m ch) dyn_result_static"

fun into_static_cast_error :: "'t cast_dyn_error \<Rightarrow> 't cast_error option" where
  "into_static_cast_error (DynClosed t) = Some (CastError t)"
| "into_static_cast_error (DynNotAccepted t) = None"

fun context_cast ::
    "ref_context \<Rightarrow> call_options \<Rightarrow> 'm message \<Rightarrow> 'm channel \<Rightarrow> ('m channel \<times> ('m message cast_error + unit)) option" where
  "context_cast (Static i) opts m ch = cast_with i opts m ch"
| "context_cast (Dynamic s) opts m ch = Option.bind (cast_dyn_with opts m ch) (map_error into_static_cast_error)"

section \<open>Calls and their errors\<close>

datatype 't call_error = CallClosed 't | CallNoResponse
datatype 't call_dyn_error = CallDynClosed 't | CallDynNotAccepted 't | CallDynNoResponse

definition call_error_from_cast :: "'t cast_error \<Rightarrow> 't call_error" where
  "call_error_from_cast e = CallClosed (cast_inner e)"

definition call_error_from_receipt :: "receipt_error \<Rightarrow> 't call_error" where
  "call_error_from_receipt e = CallNoResponse"

fun call_dyn_error_from_cast_dyn :: "'t cast_dyn_error \<Rightarrow> 't call_dyn_error" where
  "call_dyn_error_from_cast_dyn (DynClosed m) = CallDynClosed m"
| "call_dyn_error_from_cast_dyn (DynNotAccepted m) = CallDynNotAccepted m"

definition call_dyn_error_from_receipt :: "receipt_error \<Rightarrow> 't call_dyn_error" where
  "call_dyn_error_from_receipt e = CallDynNoResponse"

fun call_dyn_error_from_call :: "'t call_error \<Rightarrow> 't call_dyn_error" where
  "call_dyn_error_from_call (CallClosed m) = CallDynClosed m"
| "call_dyn_error_from_call CallNoResponse = CallDynNoResponse"

fun try_cast_error_from_cast :: "'t cast_error \<Rightarrow> 't try_cast_error" where
  "try_cast_error_from_cast (CastError m) = TryClosed m"

fun try_cast_dyn_error_from_cast_dyn :: "'t cast_dyn_error \<Rightarrow> 't try_cast_dyn_error" where
  "try_cast_dyn_error_from_cast_dyn (DynClosed m) = TryDynClosed m"
| "try_cast_dyn_error_from_cast_dyn (DynNotAccepted m) = TryDynNotAccepted m"

fun try_cast_dyn_error_from_try_cast :: "'t try_cast_error \<Rightarrow> 't try_cast_dyn_error" where
  "try_cast_dyn_error_from_try_cast (TryClosed m) = TryDynClosed m"
| "try_cast_dyn_error_from_try_cast (TryFull m) = TryDynFull m"

fun try_cast_dyn_error_from_not_accepted :: "'t not_accepted \<Rightarrow> 't try_cast_dyn_error" where
  "try_cast_dyn_error_from_not_accepted (NotAccepted m) = TryDynNotAccepted m"

fun cast_dyn_error_from_not_accepted :: "'t not_accepted \<Rightarrow> 't cast_dyn_error" where
  "cast_dyn_error_from_not_accepted (NotAccepted m) = DynNotAccepted m"

fun call_dyn_error_from_not_accepted :: "'t not_accepted \<Rightarrow> 't call_dyn_error" where
  "call_dyn_error_from_not_accepted (NotAccepted m) = CallDynNotAccepted m"

text \<open>
  What a call gives once its message was cast: one poll of the receipt, which has a channel if the message has a
  reply. An answer of a message without one is the unit.
\<close>

definition call_poll :: "'t cast_error + unit \<Rightarrow> 'o \<Rightarrow> 'o oneshot option \<Rightarrow> ('t call_error + 'o) poll" where
  "call_poll result unit_output receipt = (case result of
       Inl e \<Rightarrow> Ready (Inl (call_error_from_cast e))
     | Inr _ \<Rightarrow> (case receipt_wait unit_output receipt of
           Pending \<Rightarrow> Pending
         | Ready r \<Rightarrow> Ready (map_sum call_error_from_receipt (\<lambda>v. v) r)))"

definition call_dyn_poll :: "'t cast_dyn_error + unit \<Rightarrow> 'o \<Rightarrow> 'o oneshot option \<Rightarrow> ('t call_dyn_error + 'o) poll" where
  "call_dyn_poll result unit_output receipt = (case result of
       Inl e \<Rightarrow> Ready (Inl (call_dyn_error_from_cast_dyn e))
     | Inr _ \<Rightarrow> (case receipt_wait unit_output receipt of
           Pending \<Rightarrow> Pending
         | Ready r \<Rightarrow> Ready (map_sum call_dyn_error_from_receipt (\<lambda>v. v) r)))"

text \<open>What may be asked of a reference besides sending.\<close>

definition monitor_running :: "actor_status list \<Rightarrow> unit poll" where
  "monitor_running = monitor (\<lambda>s. case s of Running \<Rightarrow> Some () | _ \<Rightarrow> None)"

definition monitor_accepts_messages :: "actor_status list \<Rightarrow> unit poll" where
  "monitor_accepts_messages = monitor (\<lambda>s. if accepts_messages s then Some () else None)"

definition signal_shutdown :: "'m channel \<Rightarrow> 'm channel \<times> bool" where
  "signal_shutdown = signal_of_ref Shutdown"

definition signal_suspend :: "'m channel \<Rightarrow> 'm channel \<times> bool" where
  "signal_suspend = signal_of_ref Suspend"

definition signal_resume :: "'m channel \<Rightarrow> 'm channel \<times> bool" where
  "signal_resume = signal_of_ref Resume"

text \<open>Time that has not come yet counts as none: \<open>Instant::elapsed\<close> saturates.\<close>

definition uptime :: "instant \<Rightarrow> 'm channel \<Rightarrow> duration option" where
  "uptime now ch = map_option (\<lambda>i. now - i) (last_spawned_at ch)"


section \<open>References keep their promise\<close>

lemma context_of_promises:
  assumes "context_of members_of ch c" "members_of (if_type (queue_iface ch)) = if_members (queue_iface ch)"
  shows "set (context_set c) \<subseteq> set (channel_members ch) \<and> (\<forall>i. c = Static i \<longrightarrow> i = queue_iface ch)"
  using assms
proof (induction rule: context_of.induct)
  case created
  then show ?case by (simp add: channel_members_def)
next
  case (into_dyn c s)
  then show ?case by auto
next
  case (checked c s c')
  then show ?case
    by (auto simp: into_dyn_checked_def is_superset_of_def accepts_id_def list_all_iff split: if_splits)
next
  case (downcast c t c')
  then show ?case by (auto simp: ref_downcast_def is_interface_def channel_members_def split: if_splits)
qed

text \<open>A cast of an accepted message does the same with and without knowing the interface.\<close>

lemma try_cast_same:
  assumes "msg_type m \<in> set (channel_members ch)"
  shows "Option.bind (try_cast_dyn_with opts m ch) dyn_result_static = try_cast_with (queue_iface ch) opts m ch"
  using assms by (simp add: try_cast_with_def is_interface_def try_cast_dyn_with_def dyn_result_static_def try_push_msg_def
    push_envelope_dyn_def assert_msg_room_def)

lemma cast_same:
  assumes "msg_type m \<in> set (channel_members ch)"
  shows "Option.bind (cast_dyn_with opts m ch) (map_error into_static_cast_error) = cast_with (queue_iface ch) opts m ch"
proof -
  let ?opts = "opts\<lparr>ignore_backpressure := True\<rparr>"
  have "try_cast_with (queue_iface ch) ?opts m ch = Option.bind (try_cast_dyn_with ?opts m ch) dyn_result_static"
    using try_cast_same [OF assms] by simp
  moreover have "Option.bind (Option.bind r (map_error into_cast_dyn_error)) (map_error into_static_cast_error)
      = Option.bind (Option.bind r dyn_result_static) (map_error into_cast_error)"
    for r :: "('b channel \<times> ('b message try_cast_dyn_error + unit)) option"
    by (cases r) (auto simp: map_error_def dyn_result_static_def split: sum.splits try_cast_dyn_error.splits prod.splits)
  ultimately show ?thesis by (simp add: cast_with_def cast_dyn_with_def)
qed

lemma try_cast_room:
  assumes "length (msg_queue ch) < msg_queue_limit ch"
  shows "try_cast_with (queue_iface ch) opts m ch \<noteq> None" "cast_with (queue_iface ch) opts m ch \<noteq> None"
  using assms by (auto simp: try_cast_with_def cast_with_def is_interface_def assert_msg_room_def map_error_def)

lemma context_cast_same:
  assumes "context_of members_of ch c" "members_of (if_type (queue_iface ch)) = if_members (queue_iface ch)"
    and "msg_type m \<in> set (context_set c)"
  shows "context_try_cast c opts m ch = try_cast_with (queue_iface ch) opts m ch"
    "context_cast c opts m ch = cast_with (queue_iface ch) opts m ch"
proof -
  have c: "msg_type m \<in> set (channel_members ch)" "\<forall>i. c = Static i \<longrightarrow> i = queue_iface ch"
    using context_of_promises [OF assms(1,2)] assms(3) by auto
  show "context_try_cast c opts m ch = try_cast_with (queue_iface ch) opts m ch"
    using c try_cast_same by (cases c) auto
  show "context_cast c opts m ch = cast_with (queue_iface ch) opts m ch"
    using c cast_same by (cases c) auto
qed

text \<open>C36: Whatever conversions a reference went through, a message that its type allows is sent as through a
  reference that knows the actor's interface: the cast has the same effect and the same result, and it does not
  panic unless the queue is at its limit. Such a message is never refused, and a call of it through the dynamic
  operations ends as the typed call does, with the same error or answer. (One interface type has one set of
  messages.)\<close>

theorem typed_references_agree:
  assumes c: "context_of members_of ch c" "members_of (if_type (queue_iface ch)) = if_members (queue_iface ch)"
    and m: "msg_type m \<in> set (context_set c)" and room: "length (msg_queue ch) < msg_queue_limit ch"
  shows "context_try_cast c opts m ch = context_try_cast (Static (queue_iface ch)) opts m ch
    \<and> context_try_cast c opts m ch \<noteq> None
    \<and> (\<exists>ch' typed dynamic. context_cast c opts m ch = Some (ch', typed) \<and> cast_dyn_with opts m ch = Some (ch', dynamic)
       \<and> dynamic \<noteq> Inl (DynNotAccepted m)
       \<and> (\<forall>unit_output receipt. call_dyn_poll dynamic unit_output receipt =
           (case call_poll typed unit_output receipt of
             Ready r \<Rightarrow> Ready (map_sum call_dyn_error_from_call (\<lambda>v. v) r) | Pending \<Rightarrow> Pending)))"
proof (intro conjI)
  show "context_try_cast c opts m ch = context_try_cast (Static (queue_iface ch)) opts m ch"
    using context_cast_same(1) [OF c m] by simp
  show "context_try_cast c opts m ch \<noteq> None" using context_cast_same(1) [OF c m] try_cast_room(1) [OF room] by simp
  have member: "msg_type m \<in> set (channel_members ch)" using context_of_promises [OF c] m by auto
  obtain ch' typed where cast: "context_cast c opts m ch = Some (ch', typed)"
    using context_cast_same(2) [OF c m] try_cast_room(2) [OF room, of opts m] by auto
  then have "Option.bind (cast_dyn_with opts m ch) (map_error into_static_cast_error) = Some (ch', typed)"
    using context_cast_same(2) [OF c m] cast_same [OF member] by simp
  then obtain c' dynamic where d0: "cast_dyn_with opts m ch = Some (c', dynamic)"
      "map_error into_static_cast_error (c', dynamic) = Some (ch', typed)"
    by (auto simp: bind_eq_Some_conv)
  then have d: "cast_dyn_with opts m ch = Some (ch', dynamic)"
      "(\<exists>v. dynamic = Inr v \<and> typed = Inr v) \<or> (\<exists>t. dynamic = Inl (DynClosed t) \<and> typed = Inl (CastError t))"
    by (auto simp: map_error_def split: sum.splits elim: into_static_cast_error.elims)
  have "call_dyn_poll dynamic u receipt = (case call_poll typed u receipt of
      Ready r \<Rightarrow> Ready (map_sum call_dyn_error_from_call (\<lambda>v. v) r) | Pending \<Rightarrow> Pending)" for u :: 'c and receipt
    using d(2) by (auto simp: call_dyn_poll_def call_poll_def call_error_from_cast_def call_error_from_receipt_def
      call_dyn_error_from_receipt_def map_sum_def split: poll.split sum.split)
  then show "\<exists>ch' typed dynamic. context_cast c opts m ch = Some (ch', typed) \<and> cast_dyn_with opts m ch = Some (ch', dynamic)
       \<and> dynamic \<noteq> Inl (DynNotAccepted m)
       \<and> (\<forall>unit_output receipt. call_dyn_poll dynamic (unit_output :: 'c) receipt =
           (case call_poll typed unit_output receipt of
             Ready r \<Rightarrow> Ready (map_sum call_dyn_error_from_call (\<lambda>v. v) r) | Pending \<Rightarrow> Pending))"
    using cast d by auto
qed

lemma typed_references_agree_witness:
  "let ch = channel_new ''a'' 1 \<lparr>if_type = 4, if_members = [1, 2, 3]\<rparr> 0 :: nat channel in
    (\<exists>c. into_dyn_checked [2, 3] ch (Static (queue_iface ch)) = Inr c \<and>
      context_try_cast (Dynamic [3]) \<lparr>ignore_exiting = False, ignore_backpressure = False\<rparr> (Message 3 7) ch
        = context_try_cast (Static (queue_iface ch)) \<lparr>ignore_exiting = False, ignore_backpressure = False\<rparr> (Message 3 7) ch)"
proof -
  define ch :: "nat channel" where "ch = channel_new ''a'' 1 \<lparr>if_type = 4, if_members = [1, 2, 3]\<rparr> 0"
  have checked: "into_dyn_checked [2, 3] ch (Static (queue_iface ch)) = Inr (Dynamic [2, 3])"
    by (simp add: into_dyn_checked_def is_superset_of_def accepts_id_def channel_members_def ch_def channel_new_def channel_with_limits_def)
  have "context_of (\<lambda>_. [1, 2, 3]) ch (Dynamic [2, 3])"
    by (rule context_of.checked [OF context_of.created checked])
  then have c: "context_of (\<lambda>_. [1, 2, 3]) ch (Dynamic [3])" by (rule context_of.into_dyn) simp
  have members: "(\<lambda>_. [1, 2, 3]) (if_type (queue_iface ch)) = if_members (queue_iface ch)"
    by (simp add: ch_def channel_new_def channel_with_limits_def)
  have m: "msg_type (Message 3 (7 :: nat)) \<in> set (context_set (Dynamic [3]))" by simp
  have room: "length (msg_queue ch) < msg_queue_limit ch"
    by (simp add: ch_def channel_new_def channel_with_limits_def MSG_QUEUE_LIMIT_def)
  have "context_try_cast (Dynamic [3]) \<lparr>ignore_exiting = False, ignore_backpressure = False\<rparr> (Message 3 7) ch
      = context_try_cast (Static (queue_iface ch)) \<lparr>ignore_exiting = False, ignore_backpressure = False\<rparr> (Message 3 7) ch"
    by (rule conjunct1 [OF typed_references_agree [OF c members m room]])
  then show ?thesis using checked unfolding Let_def ch_def [symmetric] by blast
qed

end
