(* ===== verification/Actors.thy ===== *)
theory Actors
  imports Child_Spec Typed_Refs
begin

text \<open>
  Actors and what makes them (crates/actor: actor.rs, blueprint.rs): the wrappers of an actor, spawning one under
  a name or a random one (runtime/src/spawn.rs, registry/name.rs), starting one from a blueprint, and finding it in
  the registry by its name and its type (registry/mod.rs).
\<close>

section \<open>Actors\<close>

text \<open>
  The future of an actor gives the result of a poll for what it was polled with so far; what that is, the actor
  decides. An actor makes a future of an inbox.
\<close>

type_synonym ('i, 'r) fut = "'i list \<Rightarrow> 'r poll"

type_synonym ('x, 'i, 'rep, 'e) actor = "'x \<Rightarrow> ('i, 'rep + 'e) fut"

definition fn_actor :: "('x \<Rightarrow> ('i, 'rep + 'e) fut) \<Rightarrow> ('x, 'i, 'rep, 'e) actor" where
  "fn_actor f = f"

text \<open>A task is an actor that takes no messages: its inbox is turned into a task box.\<close>

definition fn_task :: "('x \<Rightarrow> 't) \<Rightarrow> ('t \<Rightarrow> ('i, 'rep + 'e) fut) \<Rightarrow> ('x, 'i, 'rep, 'e) actor" where
  "fn_task into_task_box f = (\<lambda>x. f (into_task_box x))"

definition map_actor_exit ::
    "('rep + 'e \<Rightarrow> 'rep + 'r) \<Rightarrow> ('x, 'i, 'rep, 'e) actor \<Rightarrow> ('x, 'i, 'rep, 'r) actor" where
  "map_actor_exit f a = (\<lambda>x polls. map_poll f (a x polls))"

definition wrap_actor ::
    "(('x, 'i, 'rep, 'e) actor \<Rightarrow> 'x \<Rightarrow> ('i, 'rep + 'r) fut) \<Rightarrow> ('x, 'i, 'rep, 'e) actor \<Rightarrow> ('x, 'i, 'rep, 'r) actor" where
  "wrap_actor mapper a = (\<lambda>x. mapper a x)"

text \<open>The exit that is registered for what the future returned.\<close>

definition task_result_of :: "'rep + 'e \<Rightarrow> task_result" where
  "task_result_of r = (case r of Inr e \<Rightarrow> TaskOk | Inl rep \<Rightarrow> TaskErr)"

definition actor_exit :: "('x, 'i, 'rep, 'e) actor \<Rightarrow> 'x \<Rightarrow> 'i list \<Rightarrow> (exit_error + unit) poll" where
  "actor_exit a x polls = map_poll (task_exit \<circ> task_result_of) (a x polls)"

lemma map_actor_exit_comp:
  "map_actor_exit g (map_actor_exit f a) = map_actor_exit (g \<circ> f) a"
  by (simp add: map_actor_exit_def fun_eq_iff poll.map_comp)

lemma wrap_is_map: "wrap_actor (\<lambda>a x polls. map_poll f (a x polls)) a = map_actor_exit f a"
  by (simp add: wrap_actor_def map_actor_exit_def)

text \<open>
  Mapping the exit of an actor changes what is registered exactly where it makes an error of a success or the
  other way round, and never when: no error is hidden by a map that keeps errors.
\<close>

theorem mapped_actor_exits_alike:
  assumes "\<And>r. isl (f r) \<longleftrightarrow> isl r"
  shows "actor_exit (map_actor_exit f a) x polls = actor_exit a x polls"
proof -
  have "task_result_of (f r) = task_result_of r" for r
    using assms [of r] by (cases r; cases "f r"; simp add: task_result_of_def)
  then show ?thesis by (simp add: actor_exit_def map_actor_exit_def poll.map_comp comp_def)
qed

section \<open>Spawning\<close>

text \<open>
  A fresh channel is created, or the name is taken. That a process runs on the new channel would be the panic
  of an \<open>expect\<close>, as is a random name that is taken. The encoding in base 58 is not part of the repository.
\<close>

definition spawn_named :: "name \<Rightarrow> iface \<Rightarrow> instant \<Rightarrow> 'm world \<Rightarrow> ((unit + child) \<times> 'm world) option" where
  "spawn_named n i now w =
     (case create n i now w of
        (None, w) \<Rightarrow> Some (Inl (), w)
      | (Some k, w) \<Rightarrow>
          (case spawn_checks k w of
             Some (True, w') \<Rightarrow> Some (Inr (child_new (length (wd_tasks w')) k), spawn_registers k now w')
           | _ \<Rightarrow> None))"

definition name_rand :: "(byte list \<Rightarrow> string) \<Rightarrow> byte list \<Rightarrow> name" where
  "name_rand base58 bs = take 14 (base58 bs)"

definition spawn_rand ::
    "(byte list \<Rightarrow> string) \<Rightarrow> byte list \<Rightarrow> iface \<Rightarrow> instant \<Rightarrow> 'm world \<Rightarrow> (child \<times> 'm world) option" where
  "spawn_rand base58 bs i now w =
     (case spawn_named (name_rand base58 bs) i now w of Some (Inr c, w) \<Rightarrow> Some (c, w) | _ \<Rightarrow> None)"

text \<open>A task has the interface without messages.\<close>

definition spawn_task :: "name \<Rightarrow> instant \<Rightarrow> 'm world \<Rightarrow> ((unit + child) \<times> 'm world) option" where
  "spawn_task n now w = spawn_named n no_messages now w"

datatype 'rep start_error = StartInstantiate 'rep | StartDuplicateName

text \<open>Starting a blueprint: the actor is made first, and nothing has happened when that fails.\<close>

definition blueprint_start ::
    "'rep + 'a \<Rightarrow> name \<Rightarrow> iface \<Rightarrow> instant \<Rightarrow> 'm world \<Rightarrow> (('rep start_error + child) \<times> 'm world) option" where
  "blueprint_start made n i now w =
     (case made of
        Inl e \<Rightarrow> Some (Inl (StartInstantiate e), w)
      | Inr a \<Rightarrow> map_option (\<lambda>(r, w). (map_sum (\<lambda>_. StartDuplicateName) id r, w)) (spawn_named n i now w))"

definition blueprint_start_rand ::
    "(byte list \<Rightarrow> string) \<Rightarrow> byte list \<Rightarrow> 'rep + 'a \<Rightarrow> iface \<Rightarrow> instant \<Rightarrow> 'm world \<Rightarrow> (('rep + child) \<times> 'm world) option" where
  "blueprint_start_rand base58 bs made i now w =
     (case made of
        Inl e \<Rightarrow> Some (Inl e, w)
      | Inr a \<Rightarrow> map_option (\<lambda>(c, w). (Inr c, w)) (spawn_rand base58 bs i now w))"

text \<open>A blueprint from a function has the defaults, but for the restart mode that it is given.\<close>

definition fn_blueprint_new :: blueprint_defaults where
  "fn_blueprint_new = no_overrides"

definition with_restart_mode :: "restart_mode \<Rightarrow> blueprint_defaults \<Rightarrow> blueprint_defaults" where
  "with_restart_mode m b = b\<lparr>default_restart_mode := m\<rparr>"

section \<open>Finding an actor\<close>

datatype typed_registry_error = RegistryNotFound name | RegistryTypeMismatch name

definition found_channel ::
    "('m channel \<Rightarrow> ref_context \<Rightarrow> ref_context + ref_context) \<Rightarrow> name \<Rightarrow> 'm world \<Rightarrow> typed_registry_error + nat \<times> ref_context" where
  "found_channel conv n w =
     (case registry_get n w of
        None \<Rightarrow> Inl (RegistryNotFound n)
      | Some k \<Rightarrow> (case conv (wd_channels w ! k) (Dynamic []) of
            Inl _ \<Rightarrow> Inl (RegistryTypeMismatch n)
          | Inr c \<Rightarrow> Inr (k, c)))"

definition get_typed :: "iface \<Rightarrow> name \<Rightarrow> 'm world \<Rightarrow> typed_registry_error + nat \<times> ref_context" where
  "get_typed i = found_channel (ref_downcast i)"

definition get_dyn :: "type_id list \<Rightarrow> name \<Rightarrow> 'm world \<Rightarrow> typed_registry_error + nat \<times> ref_context" where
  "get_dyn s = found_channel (into_dyn_checked s)"

definition registry_contains :: "name \<Rightarrow> 'm world \<Rightarrow> bool" where
  "registry_contains n w \<longleftrightarrow> registry_get n w \<noteq> None"

section \<open>What spawning does\<close>

lemma register_spawned_new:
  "register_spawned now ((channel_new n 1 i created)\<lparr>strong_count := c\<rparr>) = (ch, r) \<Longrightarrow>
    (\<exists>u. r = Inr u) \<and> \<not> is_dead (status ch) \<and> queue_iface ch = i \<and> ch_name ch = n"
  by (auto simp: register_defs channel_new_def channel_with_limits_def)

text \<open>
  Spawning never panics. It fails exactly if the name is taken, and then nothing has changed; otherwise a task
  runs on a channel of its own, which is found under the name, at its interface, and all other actors are found
  and have their channels as before.
\<close>

theorem spawn_takes_the_name_or_nothing:
  fixes w :: "'m world"
  shows "\<exists>r w'. spawn_named n i now w = Some (r, w') \<and> (r = Inl () \<longleftrightarrow> registry_contains n w) \<and> (r = Inl () \<longrightarrow> w' = w)
    \<and> (\<forall>c. r = Inr c \<longrightarrow> registry_get n w' = Some (cd_chan c) \<and> cd_chan c = length (wd_channels w)
        \<and> cd_task c = Some (length (wd_tasks w)) \<and> cd_attached c
        \<and> \<not> is_dead (status (wd_channels w' ! cd_chan c))
        \<and> get_typed i n w' = Inr (cd_chan c, Static i)
        \<and> (\<forall>m. m \<noteq> n \<longrightarrow> registry_get m w' = registry_get m w)
        \<and> (\<forall>k < length (wd_channels w). wd_channels w' ! k = wd_channels w ! k))"
proof (cases "map_of (wd_registry w) n")
  case None
  let ?k = "length (wd_channels w)" and ?ch = "channel_new n 1 i now :: 'm channel"
  define w1 where "w1 = w\<lparr>wd_registry := imap_insert n ?k (wd_registry w), wd_channels := wd_channels w @ [?ch], wd_held := ?k # wd_held w\<rparr>"
  have created: "create n i now w = (Some ?k, w1)" by (simp add: create_def registry_add_def None w1_def Let_def)
  define w2 where "w2 = w1\<lparr>wd_channels := wd_channels w @ [?ch\<lparr>strong_count := 2\<rparr>], wd_spawning := ?k # wd_spawning w\<rparr>"
  have checks: "spawn_checks ?k w1 = Some (True, w2)"
    by (simp add: spawn_checks_def w1_def w2_def count_up_def incr_strong_count_def set_channel_def channel_new_def
        channel_with_limits_def)
  obtain ch u where reg: "register_spawned now (?ch\<lparr>strong_count := 2\<rparr>) = (ch, Inr u)" "\<not> is_dead (status ch)"
    "queue_iface ch = i"
    using register_spawned_new [of now 2 n i now] by (metis surj_pair)
  let ?w = "spawn_registers ?k now w2"
  have w: "wd_channels ?w = wd_channels w @ [ch]" "wd_registry ?w = wd_registry w1"
    using reg(1) by (simp_all add: spawn_registers_def w2_def set_channel_def Let_def)
  have "spawn_named n i now w = Some (Inr (child_new (length (wd_tasks w)) ?k), ?w)"
    using created checks by (simp add: spawn_named_def w2_def w1_def)
  then show ?thesis
    using None w reg(2,3)
    by (auto simp: registry_contains_def registry_get_def w1_def child_new_def nth_append get_typed_def found_channel_def
        ref_downcast_def is_interface_def)
qed (auto simp: spawn_named_def create_def registry_add_def registry_contains_def registry_get_def)

text \<open>A blueprint that gives no actor, or whose name is taken, starts nothing; a random name must be free.\<close>

theorem failed_blueprint_starts_nothing:
  "\<exists>r w'. blueprint_start made n i now w = Some (r, w') \<and> (isl r \<longrightarrow> w' = w)
    \<and> (isl r \<longleftrightarrow> isl made \<or> registry_contains n w)"
proof -
  obtain r w' where s: "spawn_named n i now w = Some (r, w')" "r = Inl () \<longleftrightarrow> registry_contains n w" "r = Inl () \<longrightarrow> w' = w"
    using spawn_takes_the_name_or_nothing [of n i now w] by blast
  show ?thesis
  proof (cases made)
    case (Inr a)
    then show ?thesis using s by (cases r) (auto simp: blueprint_start_def)
  qed (simp add: blueprint_start_def)
qed

theorem spawn_rand_panics_on_a_taken_name:
  "spawn_rand base58 bs i now w = None \<longleftrightarrow> registry_contains (name_rand base58 bs) w"
proof -
  obtain r w' where s: "spawn_named (name_rand base58 bs) i now w = Some (r, w')"
    "r = Inl () \<longleftrightarrow> registry_contains (name_rand base58 bs) w"
    using spawn_takes_the_name_or_nothing [of "name_rand base58 bs" i now w] by blast
  then show ?thesis by (cases r) (auto simp: spawn_rand_def)
qed

end
