(* ===== verification/Spec2Isabelle.thy ===== *)
theory Spec2Isabelle
  imports Inbox Rest_For_One Link_Wire Reachability Cluster_Refs Lifecycle Handler_Loop Sim_Fabric Supervisor_Source Node_Run Child_Spec Api_Server Cluster_Node Remote_Request Quic Typed_Refs Actors
begin

text \<open>
  A model of zestors, an actor framework in Rust: actors with a mailbox and signals (crates/runtime),
  supervisors that keep them running (crates/supervision, crates/supervisor), and clusters of nodes whose
  actors message each other (crates/distr, crates/distr-quic).

  \<^bold>\<open>Local actors.\<close> \<open>Actor_Status\<close> has the statuses of an actor and its signals (status.rs,
  signals.rs); \<open>Backpressure\<close> the delay of senders (queue/backpressure.rs); \<open>Channel\<close> the state an
  actor shares with those that hold its address, one definition per method of \<open>ChannelData\<close>
  (channel/data.rs) and of the send paths (channel/cast.rs); \<open>Channel_Runs\<close> sequences of these
  operations, with the first-in-first-out order, the legal statuses and the bounds over them;
  \<open>Inbox\<close> the receiving end, one poll per step (references/inbox.rs, task_box.rs); \<open>Lifecycle\<close> what
  keeps a channel alive and under its name: strong references, the registry, spawned tasks and the handles
  that own them (registry/mod.rs, references/strong.rs, spawn.rs, references/child.rs). \<open>Handler_Loop\<close> is
  the task of an actor written as a handler, and its scheduler (crates/actor: state.rs, handler.rs,
  scheduler.rs); \<open>Actors\<close> the wrappers of actors, spawning and starting them by name, and finding them again
  (actor.rs, blueprint.rs, spawn.rs, registry/mod.rs, registry/name.rs).

  \<^bold>\<open>Messages.\<close> \<open>Oneshot\<close> has requests and the replies that answer them (crates/interface: oneshot.rs);
  \<open>Message_Interface\<close> envelopes (message.rs, envelope.rs), what the derive macros read and generate
  (crates/codegen) and the queue of an interface that is used without knowing it (queue/dynamic.rs), with the contract of
  an interface as a locale that the program's own interfaces interpret; \<open>Typed_Refs\<close> what references promise
  about the messages they take, through every conversion (context.rs, references/dyn_conv.rs, errors.rs, accepts.rs).

  \<^bold>\<open>Supervision.\<close> \<open>Restart\<close> has restart modes and the budget of restarts
  (supervision/strategy.rs); \<open>Child_Spec\<close> the specification of a child and its start on the channel it keeps
  (supervision/childspec.rs, start.rs); \<open>Supervisee\<close> the state machine of one child and \<open>Supervisee_Map\<close> the
  ordered map of all of them (supervisor/actor/supervisee.rs, map.rs); \<open>Supervisor\<close> the event loop
  (actor/mod.rs, runner.rs), over any strategy; \<open>One_For_One\<close>, \<open>One_For_All\<close> and
  \<open>Rest_For_One\<close> the three strategies, with what each promises: nothing is left when the loop ends,
  who is stopped and restarted and in which order, and where a child that is deregistered at the wrong
  moment makes a supervisor hang, restart or panic. \<open>Supervisor_Source\<close> is where the children come
  from: the blueprint and the source (actor/blueprint.rs, source.rs), which a supervisor follows.
  \<open>Node_Run\<close> has the two ways to shut a child down in time (references/child.rs), which agree, and the
  program around a root supervisor with what it reports (supervisor/src/node.rs). \<open>Supervision_Tree\<close> is
  the walk that discovers all supervised actors (supervision/src/tree.rs), and \<open>Api_Server\<close> the walk of the HTTP
  server (api-server), level by level, which finds the same actors, with the reports of health (supervision/messages.rs).

  \<^bold>\<open>Between nodes.\<close> \<open>Wire_Format\<close> has big-endian integers, decoders that refuse or give a value and
  the rest, and the locales of formats that read back what they write; \<open>Utf8\<close> Rust's validation and
  lossy decoding of UTF-8; \<open>Frame\<close> the messages between actors (messaging/frame.rs); \<open>Link_Wire\<close> the
  frames of a stream and the hello (link/wire.rs). \<open>Links\<close> keeps one connection per peer (link/mod.rs)
  and \<open>Lane\<close> is the task that dials and writes (link/lane.rs). \<open>Cluster_State\<close> is a node's view of the
  cluster and its events (cluster/state.rs, generation.rs), \<open>Membership\<close> the task that maintains it
  (cluster/membership), \<open>Reachability\<close> what the lanes' reports make of it. \<open>Remote_Calls\<close> has the table
  of replies that are waited for and the sending side (messaging/pending.rs, send.rs, wire.rs);
  \<open>Remote_Delivery\<close> the receiving side: handlers, the router and the tasks of the actors
  (messaging/dispatch.rs, receive.rs); \<open>Monitors\<close> the monitors held for other nodes and what losing a
  node ends (messaging/monitors.rs, ops.rs); \<open>Remote_Request\<close> the requests that travel in messages, each
  with the task that waits for its answer (messaging/request.rs, wire.rs); \<open>Cluster_Refs\<close> references to actors wherever they are, with
  every operation on a remote actor followed through both nodes (messaging/address.rs, ops.rs, reply.rs,
  node.rs). \<open>Sim_Fabric\<close> is the simulated network that clusters are tested on (cluster/sim/fabric.rs), and when
  its streams lose nothing. \<open>Quic\<close> is the network of real clusters: the TLS identity of a node, and how the
  ends of a connection come by each other's names (crates/distr-quic). \<open>Cluster_Node\<close> puts them together: the
  configuration of a node and its run (cluster/node, cluster/membership/mod.rs, messaging/node.rs), from its generation
  to the way out, with the membership task, the supervisor and the waiting calls taking turns, and the run dropped at any await.

  \<^bold>\<open>Conventions.\<close> State is a record that operations return updated; a panic is \<open>None\<close> and an \<open>Err\<close>
  is \<open>Inl\<close>. Code under a lock is one step; a task that awaits is cut into steps at its awaits, and the
  runs are lists of such steps in any order. Integers have their width where it can matter (\<open>u64\<close>
  generations and call ids, \<open>u16\<close> counts, \<open>u128\<close> message ids); lengths of Rust collections are \<open>nat\<close>.
  Dates and durations are natural numbers of nanoseconds. Recursion is structural, or on what is left to
  read or to stop, so that no fuel is needed.

  \<^bold>\<open>Parameters.\<close> What is not in the repository is an argument of the definitions or an input of a step:
  the failure detector (foca), the backend's connections, random jitter, the clock, which of several ready
  streams is polled first, what a user's handler or encoding does. No property assumes anything about them
  beyond what it states.

  \<^bold>\<open>Not modelled.\<close> The web server under the API server's routes and the inspector, which are glue over libraries;
  the encoding of values, which is serde's; and the starting of whole simulated
  clusters, which is for tests.
\<close>

end
